(* ===== verification/Prelude.thy ===== *)
theory Prelude
  imports Main "HOL-Library.Word"
begin

text \<open>
  What every component of the development shares: byte strings, results with
  errors as values, fixed-width integers in little- and big-endian byte order,
  slices, and the contract of a byte codec (a serializer with its
  deserializer), whose client is the counted decode loop that the wire formats
  of the node use for their lists.
\<close>

named_theorems constants \<open>the numeric constants of the program\<close>
named_theorems result_simps \<open>inversion of sequenced results\<close>
named_theorems bytes_simps \<open>lengths and slices of encoded byte strings\<close>


section \<open>Byte strings and results\<close>

type_synonym byte = "8 word"
type_synonym bytes = "8 word list"
type_synonym u16 = "16 word"
type_synonym u32 = "32 word"
type_synonym u64 = "64 word"
type_synonym u128 = "128 word"

abbreviation Err :: "'e \<Rightarrow> 'e + 'a" where "Err \<equiv> Inl"
abbreviation Ok :: "'a \<Rightarrow> 'e + 'a" where "Ok \<equiv> Inr"

text \<open>The question-mark operator of the source: an error returns early.\<close>

definition rbind :: "'e + 'a \<Rightarrow> ('a \<Rightarrow> 'e + 'b) \<Rightarrow> 'e + 'b" where
  "rbind m f = (case m of Inl e \<Rightarrow> Inl e | Inr x \<Rightarrow> f x)"

text \<open>A guard that returns early with an error, and a change of error type.\<close>

definition ensure :: "bool \<Rightarrow> 'e \<Rightarrow> 'e + unit" where
  "ensure c e = (if c then Ok () else Err e)"

definition map_err :: "('e \<Rightarrow> 'f) \<Rightarrow> 'e + 'a \<Rightarrow> 'f + 'a" where
  "map_err f m = (case m of Inl e \<Rightarrow> Inl (f e) | Inr x \<Rightarrow> Inr x)"

definition ok_or :: "'e \<Rightarrow> 'a option \<Rightarrow> 'e + 'a" where
  "ok_or e m = (case m of None \<Rightarrow> Err e | Some x \<Rightarrow> Ok x)"

lemma rbind_simps [simp]:
  "rbind (Ok x) f = f x" "rbind (Err e) f = Err e"
  by (simp_all add: rbind_def)

lemma rbind_Ok_iff [result_simps]:
  "rbind m f = Ok y \<longleftrightarrow> (\<exists>x. m = Ok x \<and> f x = Ok y)"
  by (auto simp: rbind_def split: sum.splits)

lemma rbind_Err_iff:
  "rbind m f = Err e \<longleftrightarrow> m = Err e \<or> (\<exists>x. m = Ok x \<and> f x = Err e)"
  by (auto simp: rbind_def split: sum.splits)

lemma rbind_cong [fundef_cong]:
  "m = m' \<Longrightarrow> (\<And>x. m' = Ok x \<Longrightarrow> f x = f' x) \<Longrightarrow> rbind m f = rbind m' f'"
  by (auto simp: rbind_def split: sum.splits)

lemma rbind_assoc: "rbind (rbind m f) g = rbind m (\<lambda>x. rbind (f x) g)"
  by (simp add: rbind_def split: sum.splits)

lemma ensure_simps [simp]:
  "ensure True e = Ok ()" "ensure False e = Err e"
  by (simp_all add: ensure_def)

lemma ensure_Ok_iff [result_simps]: "ensure c e = Ok u \<longleftrightarrow> c"
  by (simp add: ensure_def)

lemma ensure_Err_iff: "ensure c e = Err e' \<longleftrightarrow> \<not> c \<and> e' = e"
  by (auto simp: ensure_def)

lemma map_err_simps [simp]:
  "map_err f (Ok x) = Ok x" "map_err f (Err e) = Err (f e)"
  by (simp_all add: map_err_def)

lemma map_err_Ok_iff [result_simps]: "map_err f m = Ok x \<longleftrightarrow> m = Ok x"
  by (cases m) auto

lemma map_err_Err_iff: "map_err f m = Err e \<longleftrightarrow> (\<exists>e'. m = Err e' \<and> e = f e')"
  by (cases m) auto

lemma ok_or_simps [simp]:
  "ok_or e None = Err e" "ok_or e (Some x) = Ok x"
  by (simp_all add: ok_or_def)

lemma ok_or_Ok_iff [result_simps]: "ok_or e m = Ok x \<longleftrightarrow> m = Some x"
  by (cases m) auto

lemma ok_or_Err_iff: "ok_or e m = Err e' \<longleftrightarrow> m = None \<and> e' = e"
  by (cases m) auto


text \<open>Operations that change a state in place and may fail half-way: the result and the
  state they leave behind.\<close>

type_synonym ('s, 'e, 'a) run = "('e + 'a) \<times> 's"

definition sbind :: "('s, 'e, 'a) run \<Rightarrow> ('a \<Rightarrow> 's \<Rightarrow> ('s, 'e, 'b) run) \<Rightarrow> ('s, 'e, 'b) run" where
  "sbind r f = (case r of (Inl e, s) \<Rightarrow> (Inl e, s) | (Inr x, s) \<Rightarrow> f x s)"

lemma sbind_simps [simp]:
  "sbind (Ok x, s) f = f x s" "sbind (Err e, s) f = (Err e, s)"
  by (simp_all add: sbind_def)

lemma sbind_Ok_iff [result_simps]:
  "sbind r f = (Ok y, s') \<longleftrightarrow> (\<exists>x s. r = (Ok x, s) \<and> f x s = (Ok y, s'))"
  by (auto simp: sbind_def split: prod.splits sum.splits)

lemma sbind_Err_iff:
  "sbind r f = (Err e, s') \<longleftrightarrow> r = (Err e, s') \<or> (\<exists>x s. r = (Ok x, s) \<and> f x s = (Err e, s'))"
  by (auto simp: sbind_def split: prod.splits sum.splits)


section \<open>Integers as bytes\<close>

text \<open>\<open>to_le n x\<close> is the low \<open>n\<close> bytes of \<open>x\<close>, least significant first
  (\<open>to_le_bytes\<close>); \<open>of_le\<close> reads such a string (\<open>from_le_bytes\<close>).\<close>

fun to_le :: "nat \<Rightarrow> nat \<Rightarrow> bytes" where
  "to_le 0 x = []"
| "to_le (Suc n) x = of_nat (x mod 256) # to_le n (x div 256)"

fun of_le :: "bytes \<Rightarrow> nat" where
  "of_le [] = 0"
| "of_le (b # bs) = unat b + 256 * of_le bs"

definition to_be :: "nat \<Rightarrow> nat \<Rightarrow> bytes" where
  "to_be n x = rev (to_le n x)"

definition of_be :: "bytes \<Rightarrow> nat" where
  "of_be bs = of_le (rev bs)"

lemma length_to_le [simp]: "length (to_le n x) = n"
  by (induction n arbitrary: x) auto

lemma length_to_be [simp]: "length (to_be n x) = n"
  by (simp add: to_be_def)

lemma unat_bound: "unat (w :: 'a::len word) < 2 ^ LENGTH('a)"
  by (rule unsigned_less)

lemma unat_byte_less: "unat (b :: byte) < 256"
  using unat_bound[of b] by simp

lemma of_le_bound: "of_le bs < 256 ^ length bs"
proof (induction bs)
  case (Cons b bs)
  have "unat b + 256 * of_le bs < 256 + 256 * of_le bs"
    using unat_byte_less[of b] by simp
  also have "\<dots> = 256 * Suc (of_le bs)" by simp
  also have "\<dots> \<le> 256 * 256 ^ length bs"
    using Cons.IH by (simp only: mult_le_mono2 Suc_leI)
  finally show ?case by simp
qed simp

lemma of_be_bound: "of_be bs < 256 ^ length bs"
  using of_le_bound[of "rev bs"] by (simp add: of_be_def)

lemma unat_of_nat_byte: "unat (of_nat n :: byte) = n mod 256"
  by (simp add: unat_of_nat)

lemma of_le_to_le: "of_le (to_le n x) = x mod 256 ^ n"
proof (induction n arbitrary: x)
  case (Suc n)
  have "of_le (to_le (Suc n) x) = x mod 256 + 256 * (x div 256 mod 256 ^ n)"
    by (simp add: Suc.IH unat_of_nat_byte)
  also have "\<dots> = x mod (256 * 256 ^ n)"
    by (simp add: mod_mult2_eq)
  finally show ?case by simp
qed simp

lemma to_le_of_le: "to_le (length bs) (of_le bs) = bs"
proof (induction bs)
  case (Cons b bs)
  have "(unat b + 256 * of_le bs) mod 256 = unat b"
    and "(unat b + 256 * of_le bs) div 256 = of_le bs"
    using unat_byte_less[of b] by simp_all
  then show ?case using Cons.IH by simp
qed simp

lemma of_le_to_le_id [simp]: "x < 256 ^ n \<Longrightarrow> of_le (to_le n x) = x"
  by (simp add: of_le_to_le)

lemma to_le_of_le_id: "length bs = n \<Longrightarrow> to_le n (of_le bs) = bs"
  using to_le_of_le by blast

lemma of_be_to_be: "of_be (to_be n x) = x mod 256 ^ n"
  by (simp add: of_be_def to_be_def of_le_to_le)

lemma to_be_of_be_id: "length bs = n \<Longrightarrow> to_be n (of_be bs) = bs"
  by (simp add: of_be_def to_be_def to_le_of_le_id)

lemma of_le_inj: "length xs = length ys \<Longrightarrow> of_le xs = of_le ys \<longleftrightarrow> xs = ys"
  by (metis to_le_of_le)

lemma of_be_inj: "length xs = length ys \<Longrightarrow> of_be xs = of_be ys \<longleftrightarrow> xs = ys"
  by (metis to_be_of_be_id)

lemma of_le_append: "of_le (xs @ ys) = of_le xs + 256 ^ length xs * of_le ys"
  by (induction xs) (auto simp: algebra_simps)

lemma of_be_Cons: "of_be (b # bs) = unat b * 256 ^ length bs + of_be bs"
  by (simp add: of_be_def of_le_append)

lemma of_be_append: "of_be (xs @ ys) = of_be xs * 256 ^ length ys + of_be ys"
  by (simp add: of_be_def of_le_append)

lemma of_be_Nil [simp]: "of_be [] = 0"
  by (simp add: of_be_def)

lemma of_le_replicate_0 [simp]: "of_le (replicate n 0) = 0"
  by (induction n) auto

lemma of_be_replicate_0 [simp]: "of_be (replicate n 0) = 0"
  by (simp add: of_be_def)

text \<open>A byte-string literal.\<close>

definition ascii :: "string \<Rightarrow> bytes" where
  "ascii s = map of_char s"

lemma length_ascii [simp, bytes_simps]: "length (ascii s) = length s"
  by (simp add: ascii_def)

text \<open>The derived order of byte arrays is lexicographic; on arrays of one length it
  is the order of the big-endian numbers.\<close>

fun lex_less :: "bytes \<Rightarrow> bytes \<Rightarrow> bool" where
  "lex_less _ [] = False"
| "lex_less [] (b # bs) = True"
| "lex_less (a # as) (b # bs) = (a < b \<or> a = b \<and> lex_less as bs)"

lemma lex_less_of_be: "length as = length bs \<Longrightarrow> lex_less as bs \<longleftrightarrow> of_be as < of_be bs"
proof (induction as bs rule: lex_less.induct)
  case (3 a as b bs)
  let ?B = "256 ^ length bs :: nat"
  have bnd: "of_be as < ?B" "of_be bs < ?B"
    using of_be_bound[of as] of_be_bound[of bs] 3 by simp_all
  have sep: "unat x < unat y \<Longrightarrow> u < ?B \<Longrightarrow> unat x * ?B + u < unat y * ?B + v" for x y :: byte and u v
  proof -
    assume "unat x < unat y" "u < ?B"
    then have "unat x * ?B + u < Suc (unat x) * ?B" by simp
    also have "\<dots> \<le> unat y * ?B" using \<open>unat x < unat y\<close> by (intro mult_le_mono1) simp
    finally show ?thesis by simp
  qed
  show ?case
  proof (cases a b rule: linorder_cases)
    case less
    then show ?thesis using sep[of a b] bnd 3 by (simp add: of_be_Cons word_less_nat_alt)
  next
    case equal
    then show ?thesis using 3 by (simp add: of_be_Cons)
  next
    case greater
    then have "\<not> of_be (a # as) < of_be (b # bs)"
      using sep[of b a "of_be bs" "of_be as"] bnd 3 by (simp add: of_be_Cons word_less_nat_alt)
    then show ?thesis using greater by auto
  qed
qed simp_all

text \<open>The fixed widths the wire formats use.\<close>

definition le16 :: "u16 \<Rightarrow> bytes" where "le16 w = to_le 2 (unat w)"
definition le32 :: "u32 \<Rightarrow> bytes" where "le32 w = to_le 4 (unat w)"
definition le64 :: "u64 \<Rightarrow> bytes" where "le64 w = to_le 8 (unat w)"
definition le128 :: "u128 \<Rightarrow> bytes" where "le128 w = to_le 16 (unat w)"
definition be128 :: "u128 \<Rightarrow> bytes" where "be128 w = to_be 16 (unat w)"
definition u16_le :: "bytes \<Rightarrow> u16" where "u16_le bs = of_nat (of_le bs)"
definition u32_le :: "bytes \<Rightarrow> u32" where "u32_le bs = of_nat (of_le bs)"
definition u64_le :: "bytes \<Rightarrow> u64" where "u64_le bs = of_nat (of_le bs)"
definition u128_be :: "bytes \<Rightarrow> u128" where "u128_be bs = of_nat (of_be bs)"

lemma length_le [simp, bytes_simps]:
  "length (le16 a) = 2" "length (le32 b) = 4" "length (le64 c) = 8"
  "length (le128 d) = 16" "length (be128 d) = 16"
  by (simp_all add: le16_def le32_def le64_def le128_def be128_def)

lemma of_le_le [simp]:
  "of_le (le16 a) = unat a" "of_le (le32 b) = unat b" "of_le (le64 c) = unat c"
  using unat_bound[of a] unat_bound[of b] unat_bound[of c]
  by (simp_all add: le16_def le32_def le64_def)

lemma word_le_roundtrip [simp]:
  "u16_le (le16 a) = a" "u32_le (le32 b) = b" "u64_le (le64 c) = c"
  "u128_be (be128 d) = d"
proof -
  show "u16_le (le16 a) = a" "u32_le (le32 b) = b" "u64_le (le64 c) = c"
    by (simp_all add: u16_le_def u32_le_def u64_le_def)
  show "u128_be (be128 d) = d"
    using unat_bound[of d] by (simp add: u128_be_def be128_def of_be_to_be)
qed

lemma unat_of_nat_u16: "n \<le> 65535 \<Longrightarrow> unat (of_nat n :: u16) = n"
  by (simp add: unat_of_nat)

lemma unat_of_nat_u32: "n < 4294967296 \<Longrightarrow> unat (of_nat n :: u32) = n"
  by (simp add: unat_of_nat)

lemma le_word_roundtrip:
  "length bs = 2 \<Longrightarrow> le16 (u16_le bs) = bs"
  "length bs = 4 \<Longrightarrow> le32 (u32_le bs) = bs"
  "length bs = 8 \<Longrightarrow> le64 (u64_le bs) = bs"
  "length bs = 16 \<Longrightarrow> be128 (u128_be bs) = bs"
  using of_le_bound[of bs] of_be_bound[of bs]
  by (simp_all add: le16_def u16_le_def le32_def u32_le_def le64_def u64_le_def be128_def
      u128_be_def unat_of_nat to_le_of_le_id to_be_of_be_id)


section \<open>Checked and saturating arithmetic\<close>

definition checked_add :: "'a::len word \<Rightarrow> 'a word \<Rightarrow> 'a word option" where
  "checked_add a b = (if unat a + unat b < 2 ^ LENGTH('a) then Some (a + b) else None)"

definition checked_sub :: "'a::len word \<Rightarrow> 'a word \<Rightarrow> 'a word option" where
  "checked_sub a b = (if b \<le> a then Some (a - b) else None)"

definition checked_mul :: "'a::len word \<Rightarrow> 'a word \<Rightarrow> 'a word option" where
  "checked_mul a b = (if unat a * unat b < 2 ^ LENGTH('a) then Some (a * b) else None)"

definition saturating_sub :: "'a::len word \<Rightarrow> 'a word \<Rightarrow> 'a word" where
  "saturating_sub a b = (if a < b then 0 else a - b)"

definition saturating_add :: "'a::len word \<Rightarrow> 'a word \<Rightarrow> 'a word" where
  "saturating_add a b = (case checked_add a b of Some c \<Rightarrow> c | None \<Rightarrow> - 1)"

text \<open>Saturation of a 64-bit count that the model keeps as a natural number.\<close>

definition sat64 :: "nat \<Rightarrow> nat" where
  "sat64 n = min n (2 ^ 64 - 1)"

lemma unat_add_nowrap: "unat a + unat b < 2 ^ LENGTH('a) \<Longrightarrow> unat (a + b :: 'a::len word) = unat a + unat b"
  by (simp add: unat_word_ariths)

lemma unat_mult_nowrap: "unat a * unat b < 2 ^ LENGTH('a) \<Longrightarrow> unat (a * b :: 'a::len word) = unat a * unat b"
  by (simp add: unat_word_ariths)

lemma checked_add_Some: "checked_add a b = Some c \<longleftrightarrow> unat c = unat a + unat b"
proof
  assume "checked_add a b = Some c"
  then show "unat c = unat a + unat b"
    by (auto simp: checked_add_def unat_add_nowrap split: if_splits)
next
  assume *: "unat c = unat a + unat b"
  then have "unat a + unat b < 2 ^ LENGTH('a)" using unat_bound[of c] by simp
  then show "checked_add a b = Some c" using *
    by (simp add: checked_add_def unat_add_nowrap word_unat_eq_iff)
qed

lemma checked_mul_Some: "checked_mul a b = Some c \<longleftrightarrow> unat c = unat a * unat b"
proof
  assume "checked_mul a b = Some c"
  then show "unat c = unat a * unat b"
    by (auto simp: checked_mul_def unat_mult_nowrap split: if_splits)
next
  assume *: "unat c = unat a * unat b"
  then have "unat a * unat b < 2 ^ LENGTH('a)" using unat_bound[of c] by simp
  then show "checked_mul a b = Some c" using *
    by (simp add: checked_mul_def unat_mult_nowrap word_unat_eq_iff)
qed

lemma checked_sub_Some: "checked_sub a b = Some c \<longleftrightarrow> unat a = unat b + unat c"
proof
  assume "checked_sub a b = Some c"
  then have "b \<le> a" "c = a - b" by (auto simp: checked_sub_def split: if_splits)
  then show "unat a = unat b + unat c" by (simp add: unat_sub word_le_nat_alt)
next
  assume *: "unat a = unat b + unat c"
  then have "b \<le> a" by (simp add: word_le_nat_alt)
  then have "unat (a - b) = unat c" using * by (simp add: unat_sub)
  then show "checked_sub a b = Some c" using \<open>b \<le> a\<close> by (simp add: checked_sub_def word_unat_eq_iff)
qed

lemma checked_None:
  "checked_add a b = None \<longleftrightarrow> 2 ^ LENGTH('a) \<le> unat a + unat (b :: 'a::len word)"
  "checked_sub a b = None \<longleftrightarrow> unat a < unat b"
  "checked_mul a b = None \<longleftrightarrow> 2 ^ LENGTH('a) \<le> unat a * unat b"
  by (auto simp: checked_add_def checked_sub_def checked_mul_def word_le_nat_alt)


section \<open>Slices\<close>

text \<open>\<open>bslice d a b\<close> is the source's \<open>d[a..b]\<close>; every use is guarded by the
  length check that the source makes first.\<close>

definition bslice :: "'a list \<Rightarrow> nat \<Rightarrow> nat \<Rightarrow> 'a list" where
  "bslice d a b = take (b - a) (drop a d)"

lemma length_slice [simp, bytes_simps]: "b \<le> length d \<Longrightarrow> length (bslice d a b) = b - a"
  by (simp add: bslice_def)

lemma slice_append_left [simp]: "b \<le> length xs \<Longrightarrow> bslice (xs @ ys) a b = bslice xs a b"
  by (simp add: bslice_def)

lemma slice_append_right: "length xs \<le> a \<Longrightarrow> bslice (xs @ ys) a b = bslice ys (a - length xs) (b - length xs)"
  by (simp add: bslice_def)

lemma slice_prefix [simp]: "bslice (xs @ ys) 0 (length xs) = xs"
  by (simp add: bslice_def)

lemma slice_all [simp]: "length xs = n \<Longrightarrow> bslice xs 0 n = xs"
  by (simp add: bslice_def)

lemma take_add_slice: "take (a + n) d = take a d @ bslice d a (a + n)"
  by (simp add: bslice_def take_add)

lemma slice_one: "a < length d \<Longrightarrow> bslice d a (Suc a) = [d ! a]"
  by (simp add: bslice_def take_Suc_conv_app_nth hd_drop_conv_nth take_Suc drop_eq_Nil)

lemma slice_split: "a \<le> b \<Longrightarrow> b \<le> c \<Longrightarrow> bslice d a c = bslice d a b @ bslice d b c"
  using take_add[of "b - a" "c - b" "drop a d"] by (simp add: bslice_def add.commute)


section \<open>Codecs\<close>

text \<open>The two loops with which the wire formats write and read a list of known
  length: \<open>for x in xs { buf.extend(x.serialize()?) }\<close> and
  \<open>for _ in 0..count { let (x, consumed) = T::deserialize(&data[pos..])?; pos += consumed; }\<close>.\<close>

fun enc_loop :: "('a \<Rightarrow> 'e + bytes) \<Rightarrow> 'a list \<Rightarrow> 'e + bytes" where
  "enc_loop enc [] = Ok []"
| "enc_loop enc (x # xs) =
     rbind (enc x) (\<lambda>b. rbind (enc_loop enc xs) (\<lambda>bs. Ok (b @ bs)))"

fun dec_loop :: "(bytes \<Rightarrow> 'e + 'a \<times> nat) \<Rightarrow> nat \<Rightarrow> bytes \<Rightarrow> nat \<Rightarrow> 'e + 'a list \<times> nat" where
  "dec_loop dec 0 data pos = Ok ([], pos)"
| "dec_loop dec (Suc k) data pos =
     rbind (dec (drop pos data)) (\<lambda>(x, consumed).
     rbind (dec_loop dec k data (pos + consumed)) (\<lambda>(xs, pos').
     Ok (x # xs, pos')))"

lemma enc_loop_total [simp]: "enc_loop (\<lambda>x. Ok (f x)) xs = Ok (concat (map f xs))"
  by (induction xs) auto

text \<open>The contract of a codec: a well-formed value is read back from its own
  encoding, whatever follows it, and every accepted input is the encoding of
  the well-formed value it decodes to. The second law is canonicality: no two
  byte strings decode to the same value.\<close>

locale codec =
  fixes enc :: "'a \<Rightarrow> 'e + bytes"
    and dec :: "bytes \<Rightarrow> 'e + 'a \<times> nat"
    and wf :: "'a \<Rightarrow> bool"
  assumes dec_enc: "wf x \<Longrightarrow> enc x = Ok b \<Longrightarrow> dec (b @ r) = Ok (x, length b)"
    and dec_canon: "dec d = Ok (x, n) \<Longrightarrow> wf x \<and> n \<le> length d \<and> enc x = Ok (take n d)"
begin

lemma dec_loop_enc_loop:
  "list_all wf xs \<Longrightarrow> enc_loop enc xs = Ok b \<Longrightarrow>
   dec_loop dec (length xs) (p @ b @ r) (length p) = Ok (xs, length p + length b)"
proof (induction xs arbitrary: b p)
  case (Cons x xs)
  from Cons.prems obtain bx bs where b: "enc x = Ok bx" "enc_loop enc xs = Ok bs" "b = bx @ bs"
    by (auto simp: result_simps)
  have "dec (drop (length p) (p @ b @ r)) = Ok (x, length bx)"
    using dec_enc[OF _ b(1), of "bs @ r"] Cons.prems b(3) by simp
  moreover have "dec_loop dec (length xs) (p @ b @ r) (length p + length bx)
      = Ok (xs, length p + length bx + length bs)"
    using Cons.IH[OF _ b(2), of "p @ bx"] Cons.prems b(3) by simp
  ultimately show ?case using b(3) by simp
qed simp

lemma dec_loop_at:
  "\<lbrakk>list_all wf xs; enc_loop enc xs = Ok b; length xs = k; length p = n\<rbrakk> \<Longrightarrow>
   dec_loop dec k (p @ b @ r) n = Ok (xs, n + length b)"
  using dec_loop_enc_loop by blast

lemma dec_loop_canon:
  "dec_loop dec k d pos = Ok (xs, pos') \<Longrightarrow> pos \<le> length d \<Longrightarrow>
   list_all wf xs \<and> length xs = k \<and> pos \<le> pos' \<and> pos' \<le> length d
   \<and> enc_loop enc xs = Ok (bslice d pos pos')"
proof (induction k arbitrary: pos xs)
  case 0
  then show ?case by (simp add: bslice_def)
next
  case (Suc k)
  from Suc.prems(1) obtain x c ys where s: "dec (drop pos d) = Ok (x, c)"
      "dec_loop dec k d (pos + c) = Ok (ys, pos')" "xs = x # ys"
    by (auto simp: result_simps split: prod.splits)
  note x = dec_canon[OF s(1)]
  with Suc.prems(2) have le: "pos + c \<le> length d" by auto
  note ih = Suc.IH[OF s(2) le]
  have "bslice d pos pos' = bslice d pos (pos + c) @ bslice d (pos + c) pos'"
    using ih by (intro slice_split) auto
  moreover have "take c (drop pos d) = bslice d pos (pos + c)"
    by (simp add: bslice_def)
  ultimately show ?case using x ih s(3) by simp
qed

lemma dec_inj: "dec d = Ok (x, n) \<Longrightarrow> dec d' = Ok (x, n') \<Longrightarrow> take n d = take n' d'"
  using dec_canon[of d x n] dec_canon[of d' x n'] by auto

end

text \<open>A codec whose encodings have a known least length, which a decoder may use to
  reject an impossible count before it allocates.\<close>

locale codec_min = codec +
  fixes lo :: nat
  assumes enc_min: "wf x \<Longrightarrow> enc x = Ok b \<Longrightarrow> lo \<le> length b"
begin

lemma enc_loop_min: "list_all wf xs \<Longrightarrow> enc_loop enc xs = Ok b \<Longrightarrow> length xs * lo \<le> length b"
proof (induction xs arbitrary: b)
  case (Cons x xs)
  then show ?case by (fastforce simp: result_simps dest: enc_min)
qed simp

end

end
