(* ===== verification/Primitives.thy ===== *)
theory Primitives
  imports Prelude
begin

text \<open>
  The consensus constants of \<open>types/mod.rs\<close>, the hash functions and the Merkle
  root of \<open>types/hash.rs\<close>, and the checked amounts of \<open>types/amount.rs\<close>. The
  cryptographic packages the node links (\<open>sha2\<close>, \<open>ed25519-dalek\<close>,
  \<open>curve25519-dalek\<close>, \<open>argon2\<close>) are not part of the sources; they are the
  fields of a record that every definition which hashes or verifies receives
  as its argument.
\<close>


section \<open>Constants\<close>

definition RETARGET_WINDOW :: nat where [constants]: "RETARGET_WINDOW = 4320"
definition TARGET_BLOCK_TIME_SECS :: nat where [constants]: "TARGET_BLOCK_TIME_SECS = 10"
definition MAX_RETARGET_FACTOR :: nat where [constants]: "MAX_RETARGET_FACTOR = 4"
definition VERSION :: u32 where [constants]: "VERSION = 1"
definition MAX_BLOCK_SIZE :: nat where [constants]: "MAX_BLOCK_SIZE = 4194304"
definition MAX_TX_SIZE :: nat where [constants]: "MAX_TX_SIZE = 1048576"
definition MTP_WINDOW :: nat where [constants]: "MTP_WINDOW = 11"
definition MAX_TIMESTAMP_DRIFT :: nat where [constants]: "MAX_TIMESTAMP_DRIFT = 120"
definition MAX_TIMESTAMP_GAP :: nat where [constants]: "MAX_TIMESTAMP_GAP = 604800"
definition BASE_REWARD :: nat where [constants]: "BASE_REWARD = 100000000"
definition DECAY_COMPONENT :: nat where [constants]: "DECAY_COMPONENT = 9900000000"
definition HALF_LIFE :: nat where [constants]: "HALF_LIFE = 6307200"
definition UTXO_LOOKUP_COST :: nat where [constants]: "UTXO_LOOKUP_COST = 100"
definition UTXO_CREATE_COST :: nat where [constants]: "UTXO_CREATE_COST = 100"
definition SMT_DELETE_COST :: nat where [constants]: "SMT_DELETE_COST = 500"
definition SMT_INSERT_COST :: nat where [constants]: "SMT_INSERT_COST = 500"
definition MIN_FEE_DIVISOR :: nat where [constants]: "MIN_FEE_DIVISOR = 100"
definition DUST_THRESHOLD :: nat where [constants]: "DUST_THRESHOLD = 200"
definition PHASE1_SCRIPT_EVAL_COST :: nat where [constants]: "PHASE1_SCRIPT_EVAL_COST = 5000"
definition OUTPUT_TYPECHECK_COST :: nat where [constants]: "OUTPUT_TYPECHECK_COST = 1000"
definition MAX_WITNESS_SIZE :: nat where [constants]: "MAX_WITNESS_SIZE = 65535"
definition MAX_DATUM_SIZE :: nat where [constants]: "MAX_DATUM_SIZE = 4096"
definition MAX_REDEEMER_SIZE :: nat where [constants]: "MAX_REDEEMER_SIZE = 16384"
definition MAX_SCRIPT_STEPS :: nat where [constants]: "MAX_SCRIPT_STEPS = 4000000"
definition MAX_TX_SCRIPT_BUDGET :: nat where [constants]: "MAX_TX_SCRIPT_BUDGET = 20000000"
definition MAX_SCRIPT_NODES :: nat where [constants]: "MAX_SCRIPT_NODES = 65535"
definition MAX_LIST_LENGTH :: nat where [constants]: "MAX_LIST_LENGTH = 65536"
definition MAX_VALUE_DEPTH :: nat where [constants]: "MAX_VALUE_DEPTH = 128"
definition MIN_TX_SIZE :: nat where [constants]: "MIN_TX_SIZE = 50"
definition MAX_SPENT_UTXOS_SIZE :: nat where [constants]: "MAX_SPENT_UTXOS_SIZE = 16777216"

definition DS_SIG :: bytes where "DS_SIG = ascii ''EXFER-SIG''"
definition DS_TX :: bytes where "DS_TX = ascii ''EXFER-TX''"
definition DS_TXROOT :: bytes where "DS_TXROOT = ascii ''EXFER-TXROOT''"
definition DS_STATE :: bytes where "DS_STATE = ascii ''EXFER-STATE''"
definition DS_ADDR :: bytes where "DS_ADDR = ascii ''EXFER-ADDR''"
definition DS_SCRIPT :: bytes where "DS_SCRIPT = ascii ''EXFER-SCRIPT''"
definition DS_POW_P :: bytes where "DS_POW_P = ascii ''EXFER-POW-P''"
definition DS_POW_S :: bytes where "DS_POW_S = ascii ''EXFER-POW-S''"
definition DS_WTXID :: bytes where "DS_WTXID = ascii ''EXFER-WTXID''"


section \<open>The linked cryptography\<close>

text \<open>\<open>sha256\<close> is the digest of the \<open>sha2\<close> package. \<open>small_order\<close> decompresses an
  Edwards point and says whether its order is small (\<open>None\<close> when the bytes are not a
  point). \<open>vk_from_bytes\<close> and \<open>vk_verify\<close> are \<open>VerifyingKey::from_bytes\<close> (whether it
  succeeds) and \<open>Verifier::verify\<close> (key, message, signature). \<open>argon2_params\<close> is
  \<open>Params::new\<close> on the memory, iteration, parallelism and output-length parameters, and
  \<open>argon2id\<close> is \<open>hash_password_into\<close> with these parameters on a password and a salt; both
  may fail with a text.\<close>

record crypto =
  sha256 :: "bytes \<Rightarrow> bytes"
  small_order :: "bytes \<Rightarrow> bool option"
  vk_from_bytes :: "bytes \<Rightarrow> bool"
  vk_verify :: "bytes \<Rightarrow> bytes \<Rightarrow> bytes \<Rightarrow> bool"
  argon2_params :: "nat \<Rightarrow> nat \<Rightarrow> nat \<Rightarrow> nat \<Rightarrow> string + unit"
  argon2id :: "nat \<Rightarrow> nat \<Rightarrow> nat \<Rightarrow> nat \<Rightarrow> bytes \<Rightarrow> bytes \<Rightarrow> string + bytes"

text \<open>The documented fact of SHA-256 the development relies on: a digest has 32 bytes.\<close>

definition digest32 :: "crypto \<Rightarrow> bool" where
  "digest32 C \<longleftrightarrow> (\<forall>x. length (sha256 C x) = 32)"

text \<open>An instance for evaluating the definitions on concrete inputs: the digest of a string
  is its last 32 bytes, reversed.\<close>

definition toy_crypto :: crypto where
  "toy_crypto = \<lparr>sha256 = (\<lambda>x. take 32 (rev x @ replicate 32 0)), small_order = (\<lambda>_. Some False),
     vk_from_bytes = (\<lambda>_. True), vk_verify = (\<lambda>_ _ _. True),
     argon2_params = (\<lambda>_ _ _ _. Ok ()), argon2id = (\<lambda>_ _ _ _ _ _. Ok (replicate 32 0))\<rparr>"

lemma toy_digest32: "digest32 toy_crypto"
  by (auto simp: digest32_def toy_crypto_def)

definition is_weak_ed25519_key :: "crypto \<Rightarrow> bytes \<Rightarrow> bool" where
  "is_weak_ed25519_key C pubkey = (case small_order C pubkey of
     Some small \<Rightarrow> small
   | None \<Rightarrow> True)"


section \<open>Hashes\<close>

definition ZERO :: bytes where
  "ZERO = replicate 32 0"

definition is_hash256 :: "bytes \<Rightarrow> bool" where
  "is_hash256 h \<longleftrightarrow> length h = 32"

definition domain_preimage :: "bytes \<Rightarrow> bytes \<Rightarrow> bytes" where
  "domain_preimage separator data = of_nat (length separator) # separator @ data"

definition domain_hash :: "crypto \<Rightarrow> bytes \<Rightarrow> bytes \<Rightarrow> bytes" where
  "domain_hash C separator data = sha256 C (domain_preimage separator data)"

text \<open>One level of the Merkle tree: an odd level repeats its last element, then
  neighbours are hashed together.\<close>

definition pad_level :: "'a list \<Rightarrow> 'a list" where
  "pad_level level = (if odd (length level) then level @ [last level] else level)"

fun pair_hashes :: "crypto \<Rightarrow> bytes \<Rightarrow> bytes list \<Rightarrow> bytes list" where
  "pair_hashes C domain (a # b # rest) = domain_hash C domain (a @ b) # pair_hashes C domain rest"
| "pair_hashes C domain _ = []"

lemma length_pair_hashes [simp]: "length (pair_hashes C domain xs) = length xs div 2"
  by (induction C domain xs rule: pair_hashes.induct) auto

lemma length_pad_level: "length (pad_level xs) = 2 * ((length xs + 1) div 2)"
  by (auto simp: pad_level_def elim!: evenE oddE)

function merkle_loop :: "crypto \<Rightarrow> bytes \<Rightarrow> bytes list \<Rightarrow> bytes" where
  "merkle_loop C domain level =
     (if length level > 1 then merkle_loop C domain (pair_hashes C domain (pad_level level))
      else hd level)"
  by auto
termination
  by (relation "measure (\<lambda>(C, domain, level). length level)") (auto simp: length_pad_level)

declare merkle_loop.simps [simp del]

definition merkle_root :: "crypto \<Rightarrow> bytes \<Rightarrow> bytes list \<Rightarrow> bytes" where
  "merkle_root C domain hashes =
     (if hashes = [] then ZERO
      else if length hashes = 1 then hashes ! 0
      else merkle_loop C domain hashes)"


section \<open>Amounts\<close>

type_synonym Amount = u64

definition EXFER :: u64 where "EXFER = 100000000"

definition Amount_checked_add :: "Amount \<Rightarrow> Amount \<Rightarrow> Amount option" where
  "Amount_checked_add a b = checked_add a b"

definition Amount_checked_sub :: "Amount \<Rightarrow> Amount \<Rightarrow> Amount option" where
  "Amount_checked_sub a b = checked_sub a b"

definition from_exfer :: "u64 \<Rightarrow> Amount option" where
  "from_exfer exfer = checked_mul exfer EXFER"

fun sum_amounts_from :: "Amount \<Rightarrow> Amount list \<Rightarrow> Amount option" where
  "sum_amounts_from tot [] = Some tot"
| "sum_amounts_from tot (a # amounts) = (case Amount_checked_add tot a of
     None \<Rightarrow> None
   | Some t \<Rightarrow> sum_amounts_from t amounts)"

definition sum_amounts :: "Amount list \<Rightarrow> Amount option" where
  "sum_amounts amounts = sum_amounts_from 0 amounts"


section \<open>Facts about the primitives\<close>

lemma length_ZERO [simp]: "length ZERO = 32"
  by (simp add: ZERO_def)

lemma length_domain_hash: "digest32 C \<Longrightarrow> length (domain_hash C s d) = 32"
  by (simp add: domain_hash_def digest32_def)

lemma domain_preimage_inj:
  assumes "length s < 256" "length s' < 256" "domain_preimage s d = domain_preimage s' d'"
  shows "s = s' \<and> d = d'"
proof -
  have "unat (of_nat (length s) :: byte) = unat (of_nat (length s') :: byte)"
    using assms(3) by (simp add: domain_preimage_def)
  then have "length s = length s'" using assms(1,2) by (simp add: unat_of_nat_byte)
  then show ?thesis using assms(3) by (simp add: domain_preimage_def)
qed

lemma sum_amounts_from_iff:
  "sum_amounts_from t xs = Some s \<longleftrightarrow> unat s = unat t + sum_list (map unat xs)"
proof (induction xs arbitrary: t)
  case Nil
  then show ?case by (auto simp: word_unat_eq_iff)
next
  case (Cons x xs)
  show ?case
  proof (cases "checked_add t x")
    case None
    then have "2 ^ 64 \<le> unat t + unat x" by (simp add: checked_None)
    with None show ?thesis using unat_bound[of s] by (simp add: Amount_checked_add_def)
  next
    case (Some u)
    then have "unat u = unat t + unat x" by (simp only: checked_add_Some)
    then show ?thesis using Some Cons.IH by (auto simp: Amount_checked_add_def)
  qed
qed


text \<open>The byte strings that the Merkle root hashes.\<close>

fun pair_preimages :: "bytes \<Rightarrow> bytes list \<Rightarrow> bytes list" where
  "pair_preimages domain (a # b # rest) = domain_preimage domain (a @ b) # pair_preimages domain rest"
| "pair_preimages domain _ = []"

function merkle_preimages :: "crypto \<Rightarrow> bytes \<Rightarrow> bytes list \<Rightarrow> bytes list" where
  "merkle_preimages C domain level =
     (if length level > 1
      then pair_preimages domain (pad_level level)
         @ merkle_preimages C domain (pair_hashes C domain (pad_level level))
      else [])"
  by auto
termination
  by (relation "measure (\<lambda>(C, domain, level). length level)") (auto simp: length_pad_level)

declare merkle_preimages.simps [simp del]

lemma pair_hashes_sha: "pair_hashes C d xs = map (sha256 C) (pair_preimages d xs)"
  by (induction d xs rule: pair_preimages.induct) (auto simp: domain_hash_def)

lemma pair_hashes_hash256:
  "digest32 C \<Longrightarrow> list_all is_hash256 (pair_hashes C d xs)"
  by (induction C d xs rule: pair_hashes.induct) (auto simp: is_hash256_def length_domain_hash)

lemma pair_preimages_inj:
  "\<lbrakk>length d < 256; length xs = length ys; even (length xs);
    list_all is_hash256 xs; list_all is_hash256 ys;
    pair_preimages d xs = pair_preimages d ys\<rbrakk> \<Longrightarrow> xs = ys"
proof (induction d xs arbitrary: ys rule: pair_preimages.induct)
  case (1 d a b rest)
  from "1.prems"(2) obtain a' b' rest' where ys: "ys = a' # b' # rest'"
    by (cases ys; cases "tl ys") auto
  then have "a @ b = a' @ b'" "pair_preimages d rest = pair_preimages d rest'"
    using "1.prems" by (auto dest: domain_preimage_inj)
  moreover have "length a = length a'" using "1.prems" ys by (simp add: is_hash256_def)
  ultimately show ?case using "1.IH"[of rest'] "1.prems" ys by simp
qed auto

lemma map_inj_on_eq:
  "map f xs = map f ys \<Longrightarrow> inj_on f (set xs \<union> set ys) \<Longrightarrow> xs = ys"
  by (rule inj_on_map_eq_map[THEN iffD1]) 

lemma list_all_pad_level: "list_all P (pad_level xs) \<longleftrightarrow> list_all P xs"
  by (cases xs rule: rev_cases) (auto simp: pad_level_def)

lemma pad_level_inj: "pad_level xs = pad_level ys \<Longrightarrow> length xs = length ys \<Longrightarrow> xs = ys"
  by (auto simp: pad_level_def split: if_splits)

lemma even_pad_level: "even (length (pad_level xs))"
  by (simp add: length_pad_level)

lemma merkle_loop_inj:
  assumes C: "digest32 C" "length d < 256"
  shows "\<lbrakk>length xs = length ys; list_all is_hash256 xs; list_all is_hash256 ys; xs \<noteq> [];
    inj_on (sha256 C) (set (merkle_preimages C d xs) \<union> set (merkle_preimages C d ys));
    merkle_loop C d xs = merkle_loop C d ys\<rbrakk> \<Longrightarrow> xs = ys"
proof (induction "length xs" arbitrary: xs ys rule: less_induct)
  case less
  show ?case
  proof (cases "length xs > 1")
    case False
    with less.prems(1,4) obtain x y where "xs = [x]" "ys = [y]"
      by (cases xs; cases ys) auto
    then show ?thesis using less.prems(6) merkle_loop.simps[of C d xs] merkle_loop.simps[of C d ys]
      by simp
  next
    case True
    let ?n = "\<lambda>zs. pair_hashes C d (pad_level zs)"
    note unf = merkle_loop.simps[of C d xs] merkle_loop.simps[of C d ys]
      merkle_preimages.simps[of C d xs] merkle_preimages.simps[of C d ys]
    have len: "length (?n xs) < length xs" "length (?n xs) = length (?n ys)" "?n xs \<noteq> []"
      using True less.prems(1) by (auto simp: length_pad_level simp flip: length_greater_0_conv)
    have inj: "inj_on (sha256 C) (set (merkle_preimages C d (?n xs)) \<union> set (merkle_preimages C d (?n ys)))"
      and inj2: "inj_on (sha256 C) (set (pair_preimages d (pad_level xs)) \<union> set (pair_preimages d (pad_level ys)))"
      using less.prems(1,5) True by (auto simp: unf elim!: inj_on_subset)
    have eq: "?n xs = ?n ys"
      using less.prems(1,6) True C
      by (intro less.hyps[OF len(1,2)] inj pair_hashes_hash256 len(3)) (auto simp: unf)
    then have "pair_preimages d (pad_level xs) = pair_preimages d (pad_level ys)"
      using inj2 by (simp add: pair_hashes_sha map_inj_on_eq)
    then have "pad_level xs = pad_level ys"
      using less.prems pair_preimages_inj[OF C(2), of "pad_level xs" "pad_level ys"]
      by (simp add: length_pad_level list_all_pad_level)
    then show ?thesis using less.prems(1) by (rule pad_level_inj)
  qed
qed

lemma pad_level_dup: "odd (length xs) \<Longrightarrow> pad_level (xs @ [last xs]) = pad_level xs"
  by (simp add: pad_level_def)



section \<open>Properties\<close>

text \<open>C38. The Merkle root commits to the list it is computed over: two lists of hashes of the
  same length with the same root are equal unless SHA-256 collides on the node preimages
  that the two computations hash.\<close>

theorem merkle_root_commits:
  assumes "digest32 C" "length d < 256" "length xs = length ys"
    and "list_all is_hash256 xs" "list_all is_hash256 ys"
    and "inj_on (sha256 C) (set (merkle_preimages C d xs) \<union> set (merkle_preimages C d ys))"
    and "merkle_root C d xs = merkle_root C d ys"
  shows "xs = ys"
proof (cases "length xs \<le> 1")
  case True
  then show ?thesis using assms(3,7) by (cases xs; cases ys) (auto simp: merkle_root_def)
next
  case False
  then have ne: "xs \<noteq> []" and "merkle_root C d xs = merkle_loop C d xs"
      "merkle_root C d ys = merkle_loop C d ys"
    using assms(3) by (auto simp: merkle_root_def)
  with assms(7) have "merkle_loop C d xs = merkle_loop C d ys" by simp
  with assms ne show ?thesis by (intro merkle_loop_inj[OF assms(1-5) ne assms(6)])
qed

theorem merkle_root_commits_witness:
  "merkle_root toy_crypto DS_TXROOT [ZERO, ZERO] \<noteq> merkle_root toy_crypto DS_TXROOT [ZERO, replicate 32 1]"
proof -
  let ?xs = "[ZERO, ZERO]" and ?ys = "[ZERO, replicate 32 1] :: bytes list"
  have pre: "merkle_preimages toy_crypto d [a, b] = [domain_preimage d (a @ b)]" for d a b
    by (simp add: merkle_preimages.simps[of _ _ "[a, b]"] merkle_preimages.simps[of _ _ "[_]"] pad_level_def)
  have "sha256 toy_crypto (domain_preimage d (a @ b)) = rev b" if "length b = 32" for d a b
    using that by (simp add: toy_crypto_def domain_preimage_def)
  then have "inj_on (sha256 toy_crypto) (set (merkle_preimages toy_crypto DS_TXROOT ?xs)
      \<union> set (merkle_preimages toy_crypto DS_TXROOT ?ys))"
    by (auto simp: pre ZERO_def replicate_eq_replicate)
  then show ?thesis
    using merkle_root_commits[OF toy_digest32, of DS_TXROOT ?xs ?ys]
    by (auto simp: is_hash256_def DS_TXROOT_def ZERO_def)
qed

end
