(* ===== verification/Script_Ast.thy ===== *)
theory Script_Ast
  imports Primitives
begin

text \<open>
  The data of the script language: types (\<open>script/types.rs\<close>), runtime values and
  their byte encoding (\<open>script/value.rs\<close>), jet identifiers (\<open>script/jets/mod.rs\<close>),
  and programs as arenas of combinator nodes (\<open>script/ast.rs\<close>). A node identifier is
  a natural number, an index into the arena.
\<close>


section \<open>Types\<close>

datatype Type =
    TUnit
  | TSum Type Type
  | TProduct Type Type
  | TList Type
  | TBound u64
  | TU256

definition option_type :: "Type \<Rightarrow> Type" where "option_type t = TSum TUnit t"
definition bool_type :: Type where "bool_type = TSum TUnit TUnit"
definition bytes_type :: Type where "bytes_type = TList (TBound 256)"
definition hash256_type :: Type where "hash256_type = TBound 0"
definition u64_type :: Type where "u64_type = TBound (- 1)"
definition u256_type :: Type where "u256_type = TU256"


section \<open>Values\<close>

datatype Value =
    VUnit
  | VLeft Value
  | VRight Value
  | VPair Value Value
  | VList "Value list"
  | VBytes bytes
  | VU64 u64
  | VU256 bytes
  | VBool bool
  | VHash bytes

fun infer_type :: "Value \<Rightarrow> Type" where
  "infer_type VUnit = TUnit"
| "infer_type (VLeft v) = TSum (infer_type v) TUnit"
| "infer_type (VRight v) = TSum TUnit (infer_type v)"
| "infer_type (VPair a b) = TProduct (infer_type a) (infer_type b)"
| "infer_type (VList vs) = TList (case vs of [] \<Rightarrow> TUnit | v # _ \<Rightarrow> infer_type v)"
| "infer_type (VBytes _) = bytes_type"
| "infer_type (VU64 _) = u64_type"
| "infer_type (VU256 _) = u256_type"
| "infer_type (VBool _) = bool_type"
| "infer_type (VHash _) = hash256_type"

text \<open>The aliases are tested before the structure, as in the source.\<close>

fun matches_type :: "Value \<Rightarrow> Type \<Rightarrow> bool" where
  "matches_type v ty =
     (if ty = bool_type then
        (case v of VBool _ \<Rightarrow> True | VLeft a \<Rightarrow> a = VUnit | VRight a \<Rightarrow> a = VUnit | _ \<Rightarrow> False)
      else if ty = bytes_type then (case v of VBytes _ \<Rightarrow> True | _ \<Rightarrow> False)
      else if ty = hash256_type then (case v of VHash _ \<Rightarrow> True | _ \<Rightarrow> False)
      else if ty = TU256 then (case v of VU256 _ \<Rightarrow> True | _ \<Rightarrow> False)
      else (case (v, ty) of
          (VUnit, TUnit) \<Rightarrow> True
        | (VU64 n, TBound k) \<Rightarrow> k = - 1 \<or> n < k
        | (VLeft a, TSum ta _) \<Rightarrow> matches_type a ta
        | (VRight b, TSum _ tb) \<Rightarrow> matches_type b tb
        | (VPair a b, TProduct ta tb) \<Rightarrow> matches_type a ta \<and> matches_type b tb
        | (VList elems, TList elem_ty) \<Rightarrow> list_all (\<lambda>e. matches_type e elem_ty) elems
        | _ \<Rightarrow> False))"

declare matches_type.simps [simp del]

definition as_bool :: "Value \<Rightarrow> bool option" where
  "as_bool v = (case v of
     VBool b \<Rightarrow> Some b
   | VLeft a \<Rightarrow> if a = VUnit then Some False else None
   | VRight a \<Rightarrow> if a = VUnit then Some True else None
   | _ \<Rightarrow> None)"

definition as_u256 :: "Value \<Rightarrow> bytes option" where
  "as_u256 v = (case v of VU256 data \<Rightarrow> Some data | _ \<Rightarrow> None)"

fun lists_are_homogeneous :: "Value \<Rightarrow> bool" where
  "lists_are_homogeneous (VList vs) =
     ((case vs of [] \<Rightarrow> True | v # rest \<Rightarrow> list_all (\<lambda>w. infer_type w = infer_type v) rest)
      \<and> list_all lists_are_homogeneous vs)"
| "lists_are_homogeneous (VLeft v) = lists_are_homogeneous v"
| "lists_are_homogeneous (VRight v) = lists_are_homogeneous v"
| "lists_are_homogeneous (VPair a b) = (lists_are_homogeneous a \<and> lists_are_homogeneous b)"
| "lists_are_homogeneous _ = True"

fun Value_serialize :: "Value \<Rightarrow> bytes" where
  "Value_serialize VUnit = [0x00]"
| "Value_serialize (VLeft v) = 0x01 # Value_serialize v"
| "Value_serialize (VRight v) = 0x02 # Value_serialize v"
| "Value_serialize (VPair a b) = 0x03 # Value_serialize a @ Value_serialize b"
| "Value_serialize (VList vs) =
     0x04 # le32 (of_nat (length vs)) @ concat (map Value_serialize vs)"
| "Value_serialize (VBytes bs) = 0x05 # le32 (of_nat (length bs)) @ bs"
| "Value_serialize (VU64 n) = 0x06 # le64 n"
| "Value_serialize (VU256 data) = 0x07 # data"
| "Value_serialize (VBool b) = [0x08, if b then 1 else 0]"
| "Value_serialize (VHash h) = 0x09 # h"

fun structural_skeleton :: "Value \<Rightarrow> bytes" where
  "structural_skeleton VUnit = [0x00]"
| "structural_skeleton (VLeft v) = 0x01 # structural_skeleton v"
| "structural_skeleton (VRight v) = 0x02 # structural_skeleton v"
| "structural_skeleton (VPair a b) = 0x03 # structural_skeleton a @ structural_skeleton b"
| "structural_skeleton (VList vs) =
     0x04 # le32 (of_nat (length vs)) @ concat (map structural_skeleton vs)"
| "structural_skeleton (VBytes _) = [0x05]"
| "structural_skeleton (VU64 _) = [0x06]"
| "structural_skeleton (VU256 _) = [0x07]"
| "structural_skeleton (VBool _) = [0x08]"
| "structural_skeleton (VHash _) = [0x09]"

text \<open>The source counts the depth up from 0 and fails above \<open>MAX_VALUE_DEPTH\<close>; the model
  counts down the levels that are left, \<open>MAX_VALUE_DEPTH + 1 - depth\<close>.\<close>

primrec deserialize_depth :: "nat \<Rightarrow> bytes \<Rightarrow> string + Value \<times> nat" where
  "deserialize_depth 0 data = Err ''value nesting depth exceeded''"
| "deserialize_depth (Suc left) data =
     (case data of
        [] \<Rightarrow> Err ''unexpected end of value data''
      | tag # rest \<Rightarrow>
          if tag = 0x00 then Ok (VUnit, 1)
          else if tag = 0x01 then
            rbind (deserialize_depth left rest) (\<lambda>(v, consumed). Ok (VLeft v, 1 + consumed))
          else if tag = 0x02 then
            rbind (deserialize_depth left rest) (\<lambda>(v, consumed). Ok (VRight v, 1 + consumed))
          else if tag = 0x03 then
            rbind (deserialize_depth left rest) (\<lambda>(a, ca).
            rbind (deserialize_depth left (drop ca rest)) (\<lambda>(b, cb).
            Ok (VPair a b, 1 + ca + cb)))
          else if tag = 0x04 then
            (if length rest < 4 then Err ''unexpected end of list length''
             else let count = unat (u32_le (bslice rest 0 4)) in
               if count > MAX_LIST_LENGTH then Err ''list length exceeds maximum''
               else rbind (dec_loop (deserialize_depth left) count rest 4) (\<lambda>(vs, pos).
                 Ok (VList vs, 1 + pos)))
          else if tag = 0x05 then
            (if length rest < 4 then Err ''unexpected end of bytes length''
             else let len = unat (u32_le (bslice rest 0 4)) in
               if length rest < 4 + len then Err ''unexpected end of bytes data''
               else Ok (VBytes (bslice rest 4 (4 + len)), 1 + 4 + len))
          else if tag = 0x06 then
            (if length rest < 8 then Err ''unexpected end of u64 data''
             else Ok (VU64 (u64_le (bslice rest 0 8)), 1 + 8))
          else if tag = 0x07 then
            (if length rest < 32 then Err ''unexpected end of u256 data''
             else Ok (VU256 (bslice rest 0 32), 1 + 32))
          else if tag = 0x08 then
            (case rest of
               [] \<Rightarrow> Err ''unexpected end of bool data''
             | b # _ \<Rightarrow> if b = 0 then Ok (VBool False, 2)
                 else if b = 1 then Ok (VBool True, 2)
                 else Err ''non-canonical bool byte'')
          else if tag = 0x09 then
            (if length rest < 32 then Err ''unexpected end of hash data''
             else Ok (VHash (bslice rest 0 32), 1 + 32))
          else Err ''unknown value tag'')"

definition Value_deserialize :: "bytes \<Rightarrow> string + Value \<times> nat" where
  "Value_deserialize data = deserialize_depth (MAX_VALUE_DEPTH + 1) data"

text \<open>The values that can be on the wire with \<open>n\<close> levels left.\<close>

primrec wf_value :: "nat \<Rightarrow> Value \<Rightarrow> bool" where
  "wf_value 0 v = False"
| "wf_value (Suc n) v = (case v of
     VLeft a \<Rightarrow> wf_value n a
   | VRight a \<Rightarrow> wf_value n a
   | VPair a b \<Rightarrow> wf_value n a \<and> wf_value n b
   | VList vs \<Rightarrow> length vs \<le> MAX_LIST_LENGTH \<and> list_all (wf_value n) vs
   | VBytes bs \<Rightarrow> length bs < 2 ^ 32
   | VU256 data \<Rightarrow> length data = 32
   | VHash h \<Rightarrow> length h = 32
   | _ \<Rightarrow> True)"


section \<open>Jet identifiers\<close>

datatype JetId =
    Sha256 | Ed25519Verify | SchnorrVerify | MerkleVerify
  | Add64 | Sub64 | Mul64 | Div64 | Mod64 | Eq64 | Lt64 | Gt64
  | Add256 | Sub256 | Mul256 | Div256 | Mod256 | Eq256 | Lt256 | Gt256
  | Cat | Slice | Len | EqBytes | EqHash
  | TxInputs | TxOutputs | TxValue | TxScriptHash | TxInputCount | TxOutputCount
  | SelfIndex | JBlockHeight | TxSigHash
  | ListLen | ListAt | ListSum | ListAll | ListAny | ListFind

text \<open>The discriminants, in the order of the declaration.\<close>

definition jet_codes :: "(u32 \<times> JetId) list" where
  "jet_codes =
     [(0x0001, Sha256), (0x0002, Ed25519Verify), (0x0003, SchnorrVerify), (0x0004, MerkleVerify),
      (0x0100, Add64), (0x0101, Sub64), (0x0102, Mul64), (0x0103, Div64), (0x0104, Mod64),
      (0x0105, Eq64), (0x0106, Lt64), (0x0107, Gt64),
      (0x0200, Add256), (0x0201, Sub256), (0x0202, Mul256), (0x0203, Div256), (0x0204, Mod256),
      (0x0205, Eq256), (0x0206, Lt256), (0x0207, Gt256),
      (0x0300, Cat), (0x0301, Slice), (0x0302, Len), (0x0303, EqBytes), (0x0304, EqHash),
      (0x0400, TxInputs), (0x0401, TxOutputs), (0x0402, TxValue), (0x0403, TxScriptHash),
      (0x0404, TxInputCount), (0x0405, TxOutputCount), (0x0406, SelfIndex), (0x0407, JBlockHeight),
      (0x0408, TxSigHash),
      (0x0500, ListLen), (0x0501, ListAt), (0x0502, ListSum), (0x0503, ListAll), (0x0504, ListAny),
      (0x0505, ListFind)]"

definition JetId_from_u32 :: "u32 \<Rightarrow> JetId option" where
  "JetId_from_u32 i = map_of jet_codes i"

fun jet_code :: "JetId \<Rightarrow> u32" where
  "jet_code Sha256 = 0x0001" | "jet_code Ed25519Verify = 0x0002"
| "jet_code SchnorrVerify = 0x0003" | "jet_code MerkleVerify = 0x0004"
| "jet_code Add64 = 0x0100" | "jet_code Sub64 = 0x0101" | "jet_code Mul64 = 0x0102"
| "jet_code Div64 = 0x0103" | "jet_code Mod64 = 0x0104" | "jet_code Eq64 = 0x0105"
| "jet_code Lt64 = 0x0106" | "jet_code Gt64 = 0x0107"
| "jet_code Add256 = 0x0200" | "jet_code Sub256 = 0x0201" | "jet_code Mul256 = 0x0202"
| "jet_code Div256 = 0x0203" | "jet_code Mod256 = 0x0204" | "jet_code Eq256 = 0x0205"
| "jet_code Lt256 = 0x0206" | "jet_code Gt256 = 0x0207"
| "jet_code Cat = 0x0300" | "jet_code Slice = 0x0301" | "jet_code Len = 0x0302"
| "jet_code EqBytes = 0x0303" | "jet_code EqHash = 0x0304"
| "jet_code TxInputs = 0x0400" | "jet_code TxOutputs = 0x0401" | "jet_code TxValue = 0x0402"
| "jet_code TxScriptHash = 0x0403" | "jet_code TxInputCount = 0x0404"
| "jet_code TxOutputCount = 0x0405" | "jet_code SelfIndex = 0x0406"
| "jet_code JBlockHeight = 0x0407" | "jet_code TxSigHash = 0x0408"
| "jet_code ListLen = 0x0500" | "jet_code ListAt = 0x0501" | "jet_code ListSum = 0x0502"
| "jet_code ListAll = 0x0503" | "jet_code ListAny = 0x0504" | "jet_code ListFind = 0x0505"


section \<open>Programs\<close>

type_synonym NodeId = nat

datatype Combinator =
    Iden
  | Comp NodeId NodeId
  | CUnit
  | CPair NodeId NodeId
  | CTake NodeId
  | CDrop NodeId
  | InjL NodeId
  | InjR NodeId
  | CCase NodeId NodeId
  | Fold NodeId NodeId u64
  | ListFold NodeId NodeId
  | Jet JetId
  | CWitness
  | MerkleHidden bytes
  | CConst Value

record Program =
  nodes :: "Combinator list"
  root :: NodeId

fun children_of :: "Combinator \<Rightarrow> NodeId list" where
  "children_of (CTake f) = [f]"
| "children_of (CDrop f) = [f]"
| "children_of (InjL f) = [f]"
| "children_of (InjR f) = [f]"
| "children_of (Comp f g) = [f, g]"
| "children_of (CPair f g) = [f, g]"
| "children_of (CCase f g) = [f, g]"
| "children_of (ListFold f g) = [f, g]"
| "children_of (Fold f z _) = [f, z]"
| "children_of _ = []"

definition get_node :: "Program \<Rightarrow> NodeId \<Rightarrow> Combinator option" where
  "get_node p i = (if i < length (nodes p) then Some (nodes p ! i) else None)"

text \<open>The first pass of \<open>validate_structure\<close>, over the nodes from index \<open>i\<close> on, and the
  forward scan of the second pass.\<close>

fun check_children :: "nat \<Rightarrow> nat \<Rightarrow> NodeId list \<Rightarrow> string + unit" where
  "check_children n i [] = Ok ()"
| "check_children n i (c # cs) =
     (if c \<ge> n then Err ''child index out of bounds''
      else if c \<le> i then Err ''child index must be greater than parent (DAG invariant)''
      else check_children n i cs)"

fun check_nodes :: "nat \<Rightarrow> nat \<Rightarrow> Combinator list \<Rightarrow> string + unit" where
  "check_nodes n i [] = Ok ()"
| "check_nodes n i (nd # nds) =
     rbind (check_children n i (children_of nd)) (\<lambda>_. check_nodes n (Suc i) nds)"

definition scan_step :: "Combinator list \<Rightarrow> nat \<Rightarrow> bool list \<Rightarrow> bool list" where
  "scan_step nds i reachable =
     (if reachable ! i then fold (\<lambda>c r. r[c := True]) (children_of (nds ! i)) reachable
      else reachable)"

definition scan_reachable :: "Combinator list \<Rightarrow> NodeId \<Rightarrow> bool list" where
  "scan_reachable nds rt =
     fold (scan_step nds) [0..<length nds] ((replicate (length nds) False)[rt := True])"

definition validate_structure :: "Program \<Rightarrow> string + unit" where
  "validate_structure p = (let n = length (nodes p) in
     if n = 0 then Err ''empty program''
     else if root p \<ge> n then Err ''root index out of bounds''
     else rbind (check_nodes n 0 (nodes p)) (\<lambda>_.
       if list_all id (scan_reachable (nodes p) (root p)) then Ok ()
       else Err ''program contains unreachable nodes''))"

text \<open>Several passes fill an array from the highest index down, each entry from its node
  and the entries of the children.\<close>

definition bottom_up :: "(Combinator \<Rightarrow> 'a list \<Rightarrow> 'a) \<Rightarrow> 'a \<Rightarrow> Combinator list \<Rightarrow> 'a list" where
  "bottom_up f init nds =
     fold (\<lambda>i acc. acc[i := f (nds ! i) acc]) (rev [0..<length nds]) (replicate (length nds) init)"

definition node_depth :: "Combinator \<Rightarrow> nat list \<Rightarrow> nat" where
  "node_depth nd depth = fold max (map ((!) depth) (children_of nd)) 0 + 1"

definition max_depth :: "Program \<Rightarrow> nat" where
  "max_depth p = (if nodes p = [] then 0 else bottom_up node_depth 0 (nodes p) ! root p)"


section \<open>The value codec\<close>

abbreviation Value_enc :: "Value \<Rightarrow> string + bytes" where
  "Value_enc \<equiv> \<lambda>v. Ok (Value_serialize v)"

lemma wf_value_atom [simp]:
  "0 < n \<Longrightarrow> wf_value n VUnit" "0 < n \<Longrightarrow> wf_value n (VBool b)" "0 < n \<Longrightarrow> wf_value n (VU64 w)"
  by (cases n; simp)+

lemma value_dec_enc:
  assumes ih: "codec Value_enc (deserialize_depth n) (wf_value n)" and "wf_value (Suc n) v"
  shows "deserialize_depth (Suc n) (Value_serialize v @ r) = Ok (v, length (Value_serialize v))"
proof -
  note de = codec.dec_enc[OF ih _ refl]
  show ?thesis
  proof (cases v)
    case (VList vs)
    then have vs: "list_all (wf_value n) vs" "length vs \<le> 65536"
      using assms(2) by (auto simp: constants)
    have "dec_loop (deserialize_depth n) (length vs)
        (le32 (of_nat (length vs)) @ concat (map Value_serialize vs) @ r) 4
        = Ok (vs, 4 + length (concat (map Value_serialize vs)))"
      by (rule codec.dec_loop_at[OF ih vs(1)]) simp_all
    then show ?thesis using VList vs(2)
      by (simp add: unat_of_nat_u32 constants)
  next
    case (VPair a b)
    then show ?thesis using assms(2) de[of a "Value_serialize b @ r"] de[of b r] by simp
  qed (use assms(2) in \<open>simp_all add: de bslice_def unat_of_nat_u32\<close>)
qed

lemma value_canon:
  assumes ih: "codec Value_enc (deserialize_depth n) (wf_value n)"
    and "deserialize_depth (Suc n) d = Ok (x, k)"
  shows "wf_value (Suc n) x \<and> k \<le> length d \<and> Value_serialize x = take k d"
proof -
  note ca = codec.dec_canon[OF ih]
  obtain tag rest where d: "d = tag # rest" using assms(2) by (cases d) auto
  consider "tag = 0" | "tag = 1" | "tag = 2" | "tag = 3" | "tag = 4" | "tag = 5" | "tag = 6" | "tag = 7"
    | "tag = 8" | "tag = 9"
    using assms(2) by (auto simp: d split: if_splits)
  then show ?thesis
  proof cases
    case 4
    then obtain a ca' b cb where "deserialize_depth n rest = Ok (a, ca')"
       "deserialize_depth n (drop ca' rest) = Ok (b, cb)" "x = VPair a b" "k = 1 + ca' + cb"
      using assms(2) by (auto simp: d result_simps)
    then show ?thesis using 4 ca[of rest a ca'] ca[of "drop ca' rest" b cb]
      by (auto simp: d take_add)
  next
    case 5
    then obtain vs pos where v: "4 \<le> length rest" "unat (u32_le (bslice rest 0 4)) \<le> MAX_LIST_LENGTH"
       "dec_loop (deserialize_depth n) (unat (u32_le (bslice rest 0 4))) rest 4 = Ok (vs, pos)"
       "x = VList vs" "k = 1 + pos"
      using assms(2) by (auto simp: d result_simps Let_def split: if_splits)
    note l = codec.dec_loop_canon[OF ih v(3,1)]
    have "take pos rest = bslice rest 0 4 @ bslice rest 4 pos"
      using l slice_split[of 0 4 pos rest] by (simp add: bslice_def)
    then show ?thesis using 5 v l by (simp add: d le_word_roundtrip)
  next
    case 6
    then obtain len where v: "4 + len \<le> length rest" "len = unat (u32_le (bslice rest 0 4))"
       "x = VBytes (bslice rest 4 (4 + len))" "k = Suc (4 + len)"
      using assms(2) by (auto simp: d Let_def split: if_splits)
    have le: "le32 (of_nat len) = bslice rest 0 4" "len < 2 ^ 32"
      using v(1,2) le_word_roundtrip(2)[of "bslice rest 0 4"] unat_bound[of "u32_le (bslice rest 0 4)"]
      by simp_all
    have len: "length (bslice rest 4 (4 + len)) = len" using v(1) by simp
    have "Value_serialize x = 5 # take (4 + len) rest"
      by (simp only: v(3) Value_serialize.simps len le take_add_slice) (simp add: bslice_def)
    then have "Value_serialize x = take k d" by (simp only: v(4) d 6 take_Suc_Cons)
    then show ?thesis using v(1) le(2) len by (simp add: v(3,4) d)
  next
    case 9
    then show ?thesis using assms(2) by (cases rest) (auto simp: d split: if_splits)
  qed (use assms(2) ca in \<open>auto simp: d result_simps le_word_roundtrip bslice_def split: if_splits\<close>)
qed

lemma value_codec: "codec Value_enc (deserialize_depth n) (wf_value n)"
proof (induction n)
  case 0
  show ?case by standard simp_all
next
  case (Suc n)
  show ?case by standard (use value_dec_enc[OF Suc] value_canon[OF Suc] in blast)+
qed

section \<open>The structure of a program\<close>

definition dag :: "Combinator list \<Rightarrow> bool" where
  "dag nds \<longleftrightarrow> (\<forall>i < length nds. \<forall>c \<in> set (children_of (nds ! i)). i < c \<and> c < length nds)"

definition edges :: "Combinator list \<Rightarrow> (nat \<times> nat) set" where
  "edges nds = {(i, c). i < length nds \<and> c \<in> set (children_of (nds ! i))}"

lemma dagD:
  "dag nds \<Longrightarrow> i < length nds \<Longrightarrow> c \<in> set (children_of (nds ! i)) \<Longrightarrow> i < c"
  "dag nds \<Longrightarrow> i < length nds \<Longrightarrow> c \<in> set (children_of (nds ! i)) \<Longrightarrow> c < length nds"
  unfolding dag_def by blast+

lemma check_children_Ok:
  "check_children n i cs = Ok u \<longleftrightarrow> (\<forall>c \<in> set cs. i < c \<and> c < n)"
  by (induction n i cs rule: check_children.induct) auto

lemma check_nodes_Ok:
  "check_nodes n i nds = Ok u \<longleftrightarrow> (\<forall>j < length nds. \<forall>c \<in> set (children_of (nds ! j)). i + j < c \<and> c < n)"
  by (induction n i nds rule: check_nodes.induct)
     (auto simp: result_simps check_children_Ok nth_Cons All_less_Suc2 split: nat.splits)

lemma check_nodes_dag: "check_nodes (length nds) 0 nds = Ok u \<longleftrightarrow> dag nds"
  by (simp add: check_nodes_Ok dag_def)

lemma length_mark [simp]: "length (fold (\<lambda>c r. r[c := True]) cs r) = length r"
  by (induction cs arbitrary: r) auto

lemma nth_mark: "j < length r \<Longrightarrow> fold (\<lambda>c r. r[c := True]) cs r ! j \<longleftrightarrow> r ! j \<or> j \<in> set cs"
proof (induction cs arbitrary: r)
  case (Cons c cs)
  then show ?case using Cons.IH[of "r[c := True]"] by (cases "j = c") simp_all
qed simp

lemma length_scan_step [simp]: "length (scan_step nds i r) = length r"
  by (simp add: scan_step_def)

lemma nth_scan_step:
  "j < length r \<Longrightarrow> scan_step nds i r ! j \<longleftrightarrow> r ! j \<or> r ! i \<and> j \<in> set (children_of (nds ! i))"
  by (auto simp: scan_step_def nth_mark)

definition scan_inv :: "Combinator list \<Rightarrow> NodeId \<Rightarrow> nat \<Rightarrow> bool list \<Rightarrow> bool" where
  "scan_inv nds rt k r \<longleftrightarrow> length r = length nds \<and> r ! rt
     \<and> (\<forall>j < length nds. r ! j \<longrightarrow> (rt, j) \<in> (edges nds)\<^sup>*)
     \<and> (\<forall>i < k. r ! i \<longrightarrow> (\<forall>c \<in> set (children_of (nds ! i)). r ! c))"

lemma scan_inv_step:
  assumes "scan_inv nds rt k r" "dag nds" "k < length nds" "rt < length nds"
  shows "scan_inv nds rt (Suc k) (scan_step nds k r)"
proof -
  have len: "length r = length nds" using assms(1) by (simp add: scan_inv_def)
  have e: "(rt, c) \<in> (edges nds)\<^sup>*" if "r ! k" "c \<in> set (children_of (nds ! k))" for c
  proof (rule rtrancl_into_rtrancl)
    show "(rt, k) \<in> (edges nds)\<^sup>*" using assms(1,3) that(1) unfolding scan_inv_def by blast
    show "(k, c) \<in> edges nds" using assms(3) that(2) by (simp add: edges_def)
  qed
  have old: "scan_step nds k r ! i \<longleftrightarrow> r ! i" if "i < Suc k" for i
    using that len assms(3) dagD(1)[OF assms(2,3), of i] by (auto simp: nth_scan_step)
  show ?thesis
    unfolding scan_inv_def
  proof (intro conjI allI impI ballI)
    show "length (scan_step nds k r) = length nds" by (simp add: len)
    show "scan_step nds k r ! rt" using assms len by (simp add: nth_scan_step scan_inv_def)
  next
    fix j assume "j < length nds" "scan_step nds k r ! j"
    then have "r ! j \<or> r ! k \<and> j \<in> set (children_of (nds ! k))" using len by (simp add: nth_scan_step)
    then show "(rt, j) \<in> (edges nds)\<^sup>*"
      using e \<open>j < length nds\<close> assms(1) unfolding scan_inv_def by blast
  next
    fix i c assume i: "i < Suc k" "scan_step nds k r ! i" "c \<in> set (children_of (nds ! i))"
    then have c: "c < length r" using len assms(3) dagD(2)[OF assms(2), of i c] by simp
    have "r ! i" using old[OF i(1)] i(2) by simp
    then have "r ! c \<or> i = k" using i(1,3) assms(1) unfolding scan_inv_def less_Suc_eq by blast
    then show "scan_step nds k r ! c"
      using c i(3) \<open>r ! i\<close> by (auto simp: nth_scan_step)
  qed
qed

lemma scan_inv_fold:
  assumes "dag nds" "rt < length nds" "k \<le> length nds"
  shows "scan_inv nds rt k (fold (scan_step nds) [0..<k] ((replicate (length nds) False)[rt := True]))"
  using assms(3)
proof (induction k)
  case 0
  then show ?case using assms(2) by (auto simp: scan_inv_def nth_list_update)
next
  case (Suc k)
  then show ?case using assms(1,2) by (auto intro: scan_inv_step)
qed

lemma scan_reachable_iff:
  assumes "dag nds" "rt < length nds" "j < length nds"
  shows "scan_reachable nds rt ! j \<longleftrightarrow> (rt, j) \<in> (edges nds)\<^sup>*"
proof -
  let ?r = "scan_reachable nds rt"
  have inv: "scan_inv nds rt (length nds) ?r"
    using scan_inv_fold[OF assms(1,2) order_refl] by (simp add: scan_reachable_def)
  have "?r ! i" if "(rt, i) \<in> (edges nds)\<^sup>*" for i
    using that
  proof (induction rule: rtrancl_induct)
    case base
    then show ?case using inv by (simp add: scan_inv_def)
  next
    case (step a b)
    then show ?case using inv unfolding scan_inv_def edges_def by blast
  qed
  then show ?thesis using inv assms(3) unfolding scan_inv_def by blast
qed

lemma length_scan_reachable: "dag nds \<Longrightarrow> rt < length nds \<Longrightarrow> length (scan_reachable nds rt) = length nds"
  using scan_inv_fold[of nds rt "length nds"] by (simp add: scan_reachable_def scan_inv_def)

lemma validate_structure_Ok:
  "validate_structure p = Ok u \<longleftrightarrow> root p < length (nodes p) \<and> dag (nodes p)
     \<and> (\<forall>j < length (nodes p). (root p, j) \<in> (edges (nodes p))\<^sup>*)"
  by (auto simp: validate_structure_def Let_def result_simps check_nodes_dag list_all_length
      length_scan_reachable scan_reachable_iff)

text \<open>On a program with the index order checked, the arrays filled from the highest index
  down satisfy their defining equation at every node.\<close>

definition child_local :: "(Combinator \<Rightarrow> 'a list \<Rightarrow> 'a) \<Rightarrow> bool" where
  "child_local f \<longleftrightarrow> (\<forall>nd a b. length a = length b \<longrightarrow> (\<forall>c \<in> set (children_of nd). a ! c = b ! c) \<longrightarrow> f nd a = f nd b)"

lemma length_fold_upd [simp]: "length (fold (\<lambda>i acc. acc[i := g i acc]) is acc) = length acc"
  by (induction "is" arbitrary: acc) auto

lemma length_bottom_up [simp]: "length (bottom_up f init nds) = length nds"
  by (simp add: bottom_up_def)

lemma bottom_up_nth:
  assumes "dag nds" "child_local f" "i < length nds"
  shows "bottom_up f init nds ! i = f (nds ! i) (bottom_up f init nds)"
proof -
  define n where "n = length nds"
  define S where "S k = fold (\<lambda>i acc. acc[i := f (nds ! i) acc]) (rev [k..<n]) (replicate n init)" for k
  have len: "length (S k) = n" for k by (simp add: S_def)
  have step: "S k = (S (Suc k))[k := f (nds ! k) (S (Suc k))]" if "k < n" for k
    using that by (simp add: S_def upt_conv_Cons)
  have keep: "S k ! j = S 0 ! j" if "k \<le> j" "j < n" for j k
    using that
  proof (induction k)
    case (Suc k)
    then have "S k ! j = S (Suc k) ! j" using step[of k] by simp
    then show ?case using Suc by simp
  qed simp
  have i: "i < n" using assms(3) by (simp add: n_def)
  have "S 0 ! i = f (nds ! i) (S (Suc i))"
    using keep[of i i] step[OF i] i len by simp
  also have "\<dots> = f (nds ! i) (S 0)"
  proof -
    have "S (Suc i) ! c = S 0 ! c" if "c \<in> set (children_of (nds ! i))" for c
      using dagD[OF assms(1,3) that] by (intro keep) (simp_all add: n_def)
    then show ?thesis using assms(2) len unfolding child_local_def by metis
  qed
  finally show ?thesis by (simp add: bottom_up_def S_def n_def)
qed

lemma fold_max_ge: "x \<in> set xs \<or> x = b \<Longrightarrow> x \<le> fold max xs (b :: nat)"
  by (induction xs arbitrary: b x) (auto, (metis max.cobounded1 max.cobounded2 order_trans)+)

lemma node_depth_local: "child_local node_depth"
  by (auto simp: child_local_def node_depth_def cong: map_cong)

definition depths :: "Combinator list \<Rightarrow> nat list" where
  "depths nds = bottom_up node_depth 0 nds"

lemma depths_child:
  assumes "dag nds" "i < length nds" "c \<in> set (children_of (nds ! i))"
  shows "depths nds ! c < depths nds ! i"
proof -
  have "depths nds ! i = node_depth (nds ! i) (depths nds)"
    using bottom_up_nth[OF assms(1) node_depth_local assms(2)] by (simp add: depths_def)
  moreover have "depths nds ! c \<le> fold max (map ((!) (depths nds)) (children_of (nds ! i))) 0"
    using assms(3) by (intro fold_max_ge) auto
  ultimately show ?thesis by (simp add: node_depth_def)
qed

lemma depths_pos: "dag nds \<Longrightarrow> i < length nds \<Longrightarrow> 0 < depths nds ! i"
  using bottom_up_nth[OF _ node_depth_local, of nds i 0] by (simp add: depths_def node_depth_def)

end
