(* ===== verification/Bytes256.thy ===== *)
theory Bytes256
  imports Primitives
begin

unbundle bit_operations_syntax

text \<open>
  256-bit numbers as big-endian byte arrays. The script jets
  (\<open>script/jets/arithmetic.rs\<close>) and the difficulty code
  (\<open>consensus/difficulty.rs\<close>) each have their own comparison and subtraction, and
  divide with the same bit-by-bit long division; the division is stated once over an
  interface that both pairs of routines implement. A loop over the indices from 31
  down to 0 with a carry is a recursion over the list whose recursive call is the
  loop's earlier part.
\<close>


section \<open>Byte-array routines\<close>

text \<open>\<open>shift_left_1\<close>: the shifted bytes and the carry out of the first byte.\<close>

fun shl1 :: "bytes \<Rightarrow> bytes \<times> byte" where
  "shl1 [] = ([], 0)"
| "shl1 (b # bs) = (let (r, carry) = shl1 bs in ((push_bit 1 b OR carry) # r, drop_bit 7 b))"

definition shift_left_1 :: "bytes \<Rightarrow> bytes" where
  "shift_left_1 v = fst (shl1 v)"

text \<open>The comparison and the subtraction of the jets.\<close>

fun cmp_u256 :: "bytes \<Rightarrow> bytes \<Rightarrow> int" where
  "cmp_u256 (a # as) (b # bs) = (if a < b then - 1 else if a > b then 1 else cmp_u256 as bs)"
| "cmp_u256 _ _ = 0"

fun sub_loop16 :: "bytes \<Rightarrow> bytes \<Rightarrow> bytes \<times> u16" where
  "sub_loop16 (a # as) (b # bs) =
     (let (r, borrow) = sub_loop16 as bs;
          diff = ucast a - ucast b - borrow :: u16
      in (ucast diff # r, if diff > 0xFF then 1 else 0))"
| "sub_loop16 _ _ = ([], 0)"

definition sub_u256_unchecked :: "bytes \<Rightarrow> bytes \<Rightarrow> bytes" where
  "sub_u256_unchecked a b = fst (sub_loop16 a b)"

text \<open>The comparison and the subtraction of the difficulty code, whose differences are
  signed 16-bit integers between -256 and 255.\<close>

fun ge_256 :: "bytes \<Rightarrow> bytes \<Rightarrow> bool" where
  "ge_256 (a # as) (b # bs) = (if a > b then True else if a < b then False else ge_256 as bs)"
| "ge_256 _ _ = True"

fun sub_loop_int :: "bytes \<Rightarrow> bytes \<Rightarrow> bytes \<times> int" where
  "sub_loop_int (a # as) (b # bs) =
     (let (r, borrow) = sub_loop_int as bs;
          diff = uint a - uint b - borrow
      in if diff < 0 then (of_int (diff + 256) # r, 1) else (of_int diff # r, 0))"
| "sub_loop_int _ _ = ([], 0)"

definition sub_256_inplace :: "bytes \<Rightarrow> bytes \<Rightarrow> bytes" where
  "sub_256_inplace a b = fst (sub_loop_int a b)"

text \<open>Addition with a 16-bit carry.\<close>

fun add_loop16 :: "bytes \<Rightarrow> bytes \<Rightarrow> u16 \<Rightarrow> bytes \<times> u16" where
  "add_loop16 (a # as) (b # bs) c =
     (let (r, carry) = add_loop16 as bs c;
          s = ucast a + ucast b + carry :: u16
      in (ucast s # r, drop_bit 8 s))"
| "add_loop16 _ _ c = ([], c)"

text \<open>Bit \<open>i\<close> of an array, counted from the most significant one, and setting it.\<close>

definition be_bit :: "bytes \<Rightarrow> nat \<Rightarrow> byte" where
  "be_bit a i = drop_bit (7 - i mod 8) (a ! (i div 8)) AND 1"

definition be_set :: "bytes \<Rightarrow> nat \<Rightarrow> bytes" where
  "be_set a i = a[i div 8 := a ! (i div 8) OR push_bit (7 - i mod 8) 1]"

text \<open>One round of the long division: shift the remainder, bring in the next bit of the
  dividend, subtract the divisor if it fits.\<close>

definition bring_in :: "bytes \<Rightarrow> nat \<Rightarrow> bytes \<Rightarrow> bytes" where
  "bring_in a i r = (let r' = shift_left_1 r in r'[31 := r' ! 31 OR be_bit a i])"

definition div_round ::
    "(bytes \<Rightarrow> bytes \<Rightarrow> bool) \<Rightarrow> (bytes \<Rightarrow> bytes \<Rightarrow> bytes) \<Rightarrow> bytes \<Rightarrow> bytes \<Rightarrow> nat
     \<Rightarrow> bytes \<times> bytes \<Rightarrow> bytes \<times> bytes" where
  "div_round ge sub a b i qr = (let (q, r) = qr; r' = bring_in a i r in
     if ge r' b then (be_set q i, sub r' b) else (q, r'))"

definition long_div ::
    "(bytes \<Rightarrow> bytes \<Rightarrow> bool) \<Rightarrow> (bytes \<Rightarrow> bytes \<Rightarrow> bytes) \<Rightarrow> bytes \<Rightarrow> bytes \<Rightarrow> bytes \<times> bytes" where
  "long_div ge sub a b =
     fold (div_round ge sub a b) [0..<256] (replicate 32 0, replicate 32 0)"


section \<open>Words that hold limbs\<close>

lemma limb_bound: "unat (w :: u64) < 2 ^ 64"
  using unat_bound[of w] by simp

lemma u128_bound: "unat (w :: u128) < 2 ^ 128"
  using unat_bound[of w] by simp

lemma u128_low64: "unat (w AND 0xFFFFFFFFFFFFFFFF :: u128) = unat w mod 2 ^ 64"
proof -
  have mask: "(0xFFFFFFFFFFFFFFFF :: u128) = mask 64" by (simp add: mask_eq_exp_minus_1)
  show ?thesis unfolding mask take_bit_eq_mask[symmetric] by (simp add: take_bit_eq_mod unat_mod)
qed

lemma u128_high64: "unat (drop_bit 64 w :: u128) = unat w div 2 ^ 64"
  by (simp add: drop_bit_eq_div unat_div)

lemma unat_ucast_u128: "unat (ucast (w :: u64) :: u128) = unat w"
  using limb_bound[of w] by (simp add: unsigned_ucast_eq take_bit_eq_mod)

lemma unat_ucast_u64: "unat (ucast (w :: u128) :: u64) = unat w mod 2 ^ 64"
  by (simp add: unsigned_ucast_eq take_bit_eq_mod)


section \<open>What the routines compute\<close>

lemma unat_ucast_byte: "unat (ucast (b :: byte) :: u16) = unat b"
  using unat_byte_less[of b] by (simp add: unsigned_ucast_eq take_bit_eq_mod)

lemma unat_shl_byte:
  assumes "c \<le> (1 :: byte)"
  shows "unat (push_bit 1 b OR c) + 256 * unat (drop_bit 7 b :: byte) = 2 * unat b + unat c"
proof -
  have c: "c = 0 \<or> c = 1" using assms by (metis word_le_less_eq word_less_1)
  have s: "push_bit 1 b = b * 2" by (simp add: push_bit_eq_mult)
  have d: "unat (drop_bit 7 b) = unat b div 128" by (simp add: drop_bit_eq_div unat_div)
  have u: "unat (b * 2) = 2 * unat b mod 256" by (simp add: unat_word_ariths mult.commute)
  have h: "2 * unat b mod 256 = 2 * (unat b mod 128)"
    using mult_mod_right[of 2 "unat b" 128] by simp
  have m: "2 * unat b mod 256 + 256 * (unat b div 128) = 2 * unat b"
    unfolding h using div_mult_mod_eq[of "unat b" 128] by linarith
  have e: "even (unat (b * 2))" unfolding u h by simp
  show ?thesis
  proof (cases "c = 0")
    case True
    then show ?thesis using m by (simp add: s d u)
  next
    case False
    then have "c = 1" using c by simp
    have "unat (b * 2 + 1) = unat (b * 2) + 1"
    proof -
      have "unat (b * 2) \<noteq> 255" using e by auto
      then have "unat (b * 2) + 1 < 256" using unat_byte_less[of "b * 2"] by simp
      then show ?thesis by (simp add: unat_word_ariths(1))
    qed
    then show ?thesis using \<open>c = 1\<close> m by (simp add: s d u or_one_eq)
  qed
qed

lemma shl1_value:
  "length (fst (shl1 v)) = length v \<and> snd (shl1 v) \<le> 1
   \<and> of_be (fst (shl1 v)) + unat (snd (shl1 v)) * 256 ^ length v = 2 * of_be v"
proof (induction v)
  case (Cons b bs)
  obtain r c where rc: "shl1 bs = (r, c)" by fastforce
  then have ih: "length r = length bs" "c \<le> 1" "of_be r + unat c * 256 ^ length bs = 2 * of_be bs"
    using Cons by auto
  have "unat (drop_bit 7 b) \<le> 1" using unat_byte_less[of b] by (simp add: drop_bit_eq_div unat_div)
  then have "drop_bit 7 b \<le> 1" by (simp add: word_le_nat_alt)
  moreover have "(unat (push_bit 1 b OR c) + 256 * unat (drop_bit 7 b)) * 256 ^ length bs
      = (2 * unat b + unat c) * 256 ^ length bs"
    using unat_shl_byte[OF ih(2), of b] by simp
  ultimately show ?case using ih by (simp add: rc of_be_Cons algebra_simps)
qed simp

lemma shift_left_1_value:
  assumes "2 * of_be v < 256 ^ length v"
  shows "length (shift_left_1 v) = length v" "of_be (shift_left_1 v) = 2 * of_be v"
proof -
  let ?c = "unat (snd (shl1 v))"
  have s: "length (fst (shl1 v)) = length v" "of_be (fst (shl1 v)) + ?c * 256 ^ length v = 2 * of_be v"
    using shl1_value by simp_all
  then have "?c * 256 ^ length v < 256 ^ length v" using assms by linarith
  then have "?c = 0" by (cases ?c) simp_all
  then show "length (shift_left_1 v) = length v" "of_be (shift_left_1 v) = 2 * of_be v"
    using s by (simp_all add: shift_left_1_def)
qed

lemma of_be_Cons_less:
  "length as = length bs \<Longrightarrow> of_be (a # as) < of_be (b # bs) \<longleftrightarrow> a < b \<or> a = b \<and> of_be as < of_be bs"
  using lex_less_of_be[of "a # as" "b # bs"] lex_less_of_be[of as bs] by simp

lemma of_be_Cons_eq:
  "length as = length bs \<Longrightarrow> of_be (a # as) = of_be (b # bs) \<longleftrightarrow> a = b \<and> of_be as = of_be bs"
  using of_be_inj[of "a # as" "b # bs"] of_be_inj[of as bs] by simp

lemma cmp_u256_value:
  "length a = length b \<Longrightarrow> cmp_u256 a b = (if of_be a < of_be b then - 1 else if of_be a = of_be b then 0 else 1)"
proof (induction a b rule: cmp_u256.induct)
  case (1 a as b bs)
  then show ?case by (cases a b rule: linorder_cases) (auto simp: of_be_Cons_less of_be_Cons_eq)
qed auto

lemma ge_256_value: "length a = length b \<Longrightarrow> ge_256 a b \<longleftrightarrow> of_be b \<le> of_be a"
proof (induction a b rule: ge_256.induct)
  case (1 a as b bs)
  then show ?case by (cases a b rule: linorder_cases) (auto simp: of_be_Cons_less simp flip: not_less)
qed auto

lemma sub_loop_int_value:
  "length a = length b \<Longrightarrow>
   length (fst (sub_loop_int a b)) = length a \<and> snd (sub_loop_int a b) \<in> {0, 1}
   \<and> int (of_be (fst (sub_loop_int a b))) = int (of_be a) - int (of_be b) + snd (sub_loop_int a b) * 256 ^ length a"
proof (induction a b rule: sub_loop_int.induct)
  case (1 a as b bs)
  obtain r c where rc: "sub_loop_int as bs = (r, c)" by fastforce
  with 1 have ih: "length r = length bs" "length as = length bs" "c = 0 \<or> c = 1"
      "int (of_be r) = int (of_be as) - int (of_be bs) + c * 256 ^ length bs"
    by auto
  have ub: "0 \<le> uint x" "uint x < 256" for x :: byte using uint_range_size[of x] by (simp_all add: word_size)
  have ui: "int (unat x) = uint x" for x :: byte by simp
  have oi: "uint (of_int d :: byte) = d" if "0 \<le> d" "d < 256" for d
    using that by (simp add: uint_word_of_int_eq take_bit_eq_mod)
  have cb: "0 \<le> c" "c \<le> 1" using ih(3) by auto
  show ?case
  proof (cases "uint a - uint b - c < 0")
    case True
    define w :: byte where "w = of_int (uint a - uint b - c + 256)"
    have uw: "uint w = uint a - uint b - c + 256"
      unfolding w_def using True ub[of a] ub[of b] cb by (intro oi) linarith+
    have eq: "sub_loop_int (a # as) (b # bs) = (w # r, 1)"
      by (simp only: sub_loop_int.simps rc Let_def prod.case True if_True w_def)
    show ?thesis unfolding eq fst_conv snd_conv using ih by (simp add: of_be_Cons uw algebra_simps)
  next
    case False
    define w :: byte where "w = of_int (uint a - uint b - c)"
    have uw: "uint w = uint a - uint b - c"
      unfolding w_def using False ub[of a] ub[of b] cb by (intro oi) linarith+
    have eq: "sub_loop_int (a # as) (b # bs) = (w # r, 0)"
      by (simp only: sub_loop_int.simps rc Let_def prod.case False if_False w_def)
    show ?thesis unfolding eq fst_conv snd_conv using ih by (simp add: of_be_Cons uw algebra_simps)
  qed
qed auto


lemma sub_256_inplace_value:
  assumes "length a = length b" "of_be b \<le> of_be a"
  shows "length (sub_256_inplace a b) = length a" "of_be (sub_256_inplace a b) = of_be a - of_be b"
proof -
  let ?r = "fst (sub_loop_int a b)" and ?c = "snd (sub_loop_int a b)"
  have s: "length ?r = length a" "?c = 0 \<or> ?c = 1"
      "int (of_be ?r) = int (of_be a) - int (of_be b) + ?c * 256 ^ length a"
    using sub_loop_int_value[OF assms(1)] by auto
  have "int (of_be ?r) < 256 ^ length a"
    using of_be_bound[of ?r] s(1) by (metis of_nat_less_iff of_nat_power of_nat_numeral)
  then have "?c \<noteq> 1" using s(3) assms(2) by auto
  then show "length (sub_256_inplace a b) = length a" "of_be (sub_256_inplace a b) = of_be a - of_be b"
    using s assms(2) by (auto simp: sub_256_inplace_def)
qed

lemma uint_byte_bounds: "0 \<le> uint (x :: byte)" "uint x < 256"
  using uint_range_size[of x] by (simp_all add: word_size)

lemma sub_loop16_step:
  fixes a b :: byte and c :: u16
  assumes c: "c = 0 \<or> c = 1"
  defines "d \<equiv> ucast a - ucast b - c :: u16"
  shows "uint (ucast d :: byte) = uint a - uint b - uint c + (if d > 0xFF then 256 else 0)"
proof -
  let ?x = "uint a - uint b - uint c"
  have uc: "0 \<le> uint c" "uint c \<le> 1" using c by auto
  have uu: "uint (ucast x :: u16) = uint x" for x :: byte
    using uint_byte_bounds[of x] by (simp add: unsigned_ucast_eq take_bit_eq_mod)
  have ud: "uint d = ?x mod 65536"
    unfolding d_def by (simp add: uint_word_ariths uu mod_diff_left_eq)
  have low: "uint (ucast d :: byte) = uint d mod 256"
    by (simp add: unsigned_ucast_eq take_bit_eq_mod)
  have gt: "d > 0xFF \<longleftrightarrow> uint d > 255" by (simp add: word_less_def)
  note b = uint_byte_bounds[of a] uint_byte_bounds[of b] uc
  show ?thesis
  proof (cases "?x < 0")
    case True
    have "?x mod 65536 = (?x + 65536) mod 65536" by simp
    also have "\<dots> = ?x + 65536" using True b by (intro mod_pos_pos_trivial) linarith+
    finally have d: "uint d = ?x + 65536" using ud by simp
    have "(?x + 65536) mod 256 = ((?x + 256) + 255 * 256) mod 256"
      by (rule arg_cong[where f = "\<lambda>z. z mod 256"]) linarith
    also have "\<dots> = (?x + 256) mod 256" by (rule mod_mult_self1)
    also have "\<dots> = ?x + 256" using True b by (intro mod_pos_pos_trivial) linarith+
    finally show ?thesis using d low gt b by simp
  next
    case False
    then have "uint d = ?x" unfolding ud using b by (intro mod_pos_pos_trivial) linarith+
    moreover have "?x mod 256 = ?x" using False b by (intro mod_pos_pos_trivial) linarith+
    ultimately show ?thesis using low gt b by simp
  qed
qed

lemma sub_loop16_value:
  "length a = length b \<Longrightarrow>
   length (fst (sub_loop16 a b)) = length a \<and> (snd (sub_loop16 a b) = 0 \<or> snd (sub_loop16 a b) = 1)
   \<and> int (of_be (fst (sub_loop16 a b))) = int (of_be a) - int (of_be b) + uint (snd (sub_loop16 a b)) * 256 ^ length a"
proof (induction a b rule: sub_loop16.induct)
  case (1 a as b bs)
  obtain r c where rc: "sub_loop16 as bs = (r, c)" by fastforce
  with 1 have ih: "length r = length bs" "length as = length bs" "c = 0 \<or> c = 1"
      "int (of_be r) = int (of_be as) - int (of_be bs) + uint c * 256 ^ length bs"
    by auto
  define d :: u16 where "d = ucast a - ucast b - c"
  define w :: byte where "w = ucast d"
  have uw: "uint w = uint a - uint b - uint c + (if d > 0xFF then 256 else 0)"
    using sub_loop16_step[OF ih(3), of a b] by (simp add: d_def w_def)
  have eq: "sub_loop16 (a # as) (b # bs) = (w # r, if d > 0xFF then 1 else 0)"
    by (simp only: sub_loop16.simps rc Let_def prod.case d_def w_def)
  show ?case unfolding eq fst_conv snd_conv using ih by (auto simp: of_be_Cons uw algebra_simps)
qed auto

lemma sub_u256_unchecked_value:
  assumes "length a = length b" "of_be b \<le> of_be a"
  shows "length (sub_u256_unchecked a b) = length a" "of_be (sub_u256_unchecked a b) = of_be a - of_be b"
proof -
  let ?r = "fst (sub_loop16 a b)" and ?c = "snd (sub_loop16 a b)"
  have s: "length ?r = length a" "?c = 0 \<or> ?c = 1"
      "int (of_be ?r) = int (of_be a) - int (of_be b) + uint ?c * 256 ^ length a"
    using sub_loop16_value[OF assms(1)] by auto
  have "int (of_be ?r) < 256 ^ length a"
    using of_be_bound[of ?r] s(1) by (metis of_nat_less_iff of_nat_power of_nat_numeral)
  then have "?c \<noteq> 1" using s(3) assms(2) by auto
  then show "length (sub_u256_unchecked a b) = length a" "of_be (sub_u256_unchecked a b) = of_be a - of_be b"
    using s assms(2) by (auto simp: sub_u256_unchecked_def)
qed

lemma add_loop16_step:
  fixes a b :: byte and c :: u16
  assumes "unat c \<le> 1"
  defines "s \<equiv> ucast a + ucast b + c :: u16"
  shows "unat (ucast s :: byte) + 256 * unat (drop_bit 8 s) = unat a + unat b + unat c"
    "unat (drop_bit 8 s) \<le> 1"
proof -
  have ub: "unat a < 256" "unat b < 256" by (rule unat_byte_less)+
  have us: "unat s = unat a + unat b + unat c"
    unfolding s_def using ub assms(1) by (simp add: unat_word_ariths unat_ucast_byte)
  have d: "unat (drop_bit 8 s) = unat s div 256" by (simp add: drop_bit_eq_div unat_div)
  have l: "unat (ucast s :: byte) = unat s mod 256" by (simp add: unsigned_ucast_eq take_bit_eq_mod)
  show "unat (ucast s :: byte) + 256 * unat (drop_bit 8 s) = unat a + unat b + unat c"
    unfolding d l us[symmetric] by simp
  show "unat (drop_bit 8 s) \<le> 1" unfolding d us using ub assms(1) by linarith
qed

lemma add_loop16_value:
  "length a = length b \<Longrightarrow> unat c \<le> 1 \<Longrightarrow>
   length (fst (add_loop16 a b c)) = length a \<and> unat (snd (add_loop16 a b c)) \<le> 1
   \<and> of_be (fst (add_loop16 a b c)) + unat (snd (add_loop16 a b c)) * 256 ^ length a = of_be a + of_be b + unat c"
proof (induction a b c rule: add_loop16.induct)
  case (1 a as b bs c)
  obtain r k where rk: "add_loop16 as bs c = (r, k)" by fastforce
  with 1 have ih: "length r = length bs" "length as = length bs" "unat k \<le> 1"
      "of_be r + unat k * 256 ^ length bs = of_be as + of_be bs + unat c"
    by auto
  define s :: u16 where "s = ucast a + ucast b + k"
  have st: "unat (ucast s :: byte) + 256 * unat (drop_bit 8 s) = unat a + unat b + unat k"
      "unat (drop_bit 8 s) \<le> 1"
    using add_loop16_step[OF ih(3), of a b] by (simp_all add: s_def)
  have eq: "add_loop16 (a # as) (b # bs) c = (ucast s # r, drop_bit 8 s)"
    by (simp only: add_loop16.simps rk Let_def prod.case s_def)
  have "(unat (ucast s :: byte) + 256 * unat (drop_bit 8 s)) * 256 ^ length bs
      = (unat a + unat b + unat k) * 256 ^ length bs" using st(1) by simp
  then show ?case unfolding eq fst_conv snd_conv using ih st(2) by (simp add: of_be_Cons algebra_simps)
qed auto


section \<open>Bits\<close>

lemma be_split:
  assumes "length a = j + Suc m"
  shows "of_be a = (of_be (take j a) * 256 + unat (a ! j)) * 256 ^ m + of_be (drop (Suc j) a)"
proof -
  have "a = take j a @ a ! j # drop (Suc j) a" using assms by (intro id_take_nth_drop) simp
  then have "of_be a = of_be (take j a @ a ! j # drop (Suc j) a)" by simp
  then show ?thesis using assms by (simp add: of_be_append of_be_Cons algebra_simps)
qed

lemma of_be_update:
  assumes "length a = j + Suc m"
  shows "of_be (a[j := w]) + unat (a ! j) * 256 ^ m = of_be a + unat w * 256 ^ m"
  using be_split[OF assms] be_split[of "a[j := w]" j m] assms by (simp add: algebra_simps)

lemma be_index:
  assumes "i < 8 * length a"
  obtains m where "length a = i div 8 + Suc m" "8 * length a - Suc i = 8 * m + (7 - i mod 8)"
proof
  have i: "i = 8 * (i div 8) + i mod 8" "i mod 8 < 8" by simp_all
  with assms have j: "i div 8 < length a" by linarith
  show "length a = i div 8 + Suc (length a - Suc (i div 8))" using j by simp
  show "8 * length a - Suc i = 8 * (length a - Suc (i div 8)) + (7 - i mod 8)"
    using i j by linarith
qed

lemma p256: "256 ^ n = (2 :: nat) ^ (8 * n)"
  by (simp add: power_mult)

lemma be_digit:
  assumes "length a = j + Suc m" "k < 8"
  shows "odd (of_be a div 2 ^ (8 * m + k)) \<longleftrightarrow> odd (unat (a ! j) div 2 ^ k)"
proof -
  let ?hi = "of_be (take j a)" and ?low = "of_be (drop (Suc j) a)"
  have low: "?low < 256 ^ m" using of_be_bound[of "drop (Suc j) a"] assms(1) by simp
  have "of_be a div 256 ^ m = ?hi * 256 + unat (a ! j)"
    unfolding be_split[OF assms(1)] using low by simp
  then have "of_be a div 2 ^ (8 * m + k) = (?hi * 256 + unat (a ! j)) div 2 ^ k"
    by (simp add: p256 power_add div_mult2_eq)
  also have "\<dots> = ?hi * (2 * 2 ^ (7 - k)) + unat (a ! j) div 2 ^ k"
  proof -
    have "(256 :: nat) = 2 ^ k * (2 * 2 ^ (7 - k))"
      using assms(2) by (simp flip: power_add power_Suc)
    then have "?hi * 256 + unat (a ! j) = unat (a ! j) + ?hi * (2 * 2 ^ (7 - k)) * 2 ^ k"
      by (simp only: ac_simps)
    then have "(?hi * 256 + unat (a ! j)) div 2 ^ k = (unat (a ! j) + ?hi * (2 * 2 ^ (7 - k)) * 2 ^ k) div 2 ^ k"
      by (rule arg_cong)
    also have "\<dots> = ?hi * (2 * 2 ^ (7 - k)) + unat (a ! j) div 2 ^ k" by (rule div_mult_self1) simp
    finally show ?thesis .
  qed
  finally show ?thesis by simp
qed

lemma unat_pow2_byte: "k < 8 \<Longrightarrow> unat (2 ^ k :: byte) = 2 ^ k"
  using unat_of_nat_byte[of "2 ^ k"] power_strict_increasing[of k 8 "2 :: nat"] by simp

lemma be_bit_value:
  assumes "i < 8 * length a"
  shows "be_bit a i = of_bool (odd (of_be a div 2 ^ (8 * length a - Suc i)))"
proof -
  obtain m where m: "length a = i div 8 + Suc m" "8 * length a - Suc i = 8 * m + (7 - i mod 8)"
    using assms by (rule be_index)
  have "be_bit a i = of_bool (bit (a ! (i div 8)) (7 - i mod 8))"
    by (simp only: be_bit_def and_one_eq mod_2_eq_odd even_drop_bit_iff_not_bit not_not)
  also have "bit (a ! (i div 8)) (7 - i mod 8) = bit (unat (a ! (i div 8))) (7 - i mod 8)"
    by (simp add: bit_unsigned_iff)
  finally have "be_bit a i = of_bool (odd (unat (a ! (i div 8)) div 2 ^ (7 - i mod 8)))"
    by (simp only: bit_iff_odd)
  then show ?thesis using be_digit[OF m(1), of "7 - i mod 8"] by (simp add: m(2))
qed

lemma be_set_value:
  assumes "i < 8 * length a" "even (of_be a div 2 ^ (8 * length a - Suc i))"
  shows "of_be (be_set a i) = of_be a + 2 ^ (8 * length a - Suc i)" "length (be_set a i) = length a"
proof -
  let ?j = "i div 8" and ?k = "7 - i mod 8"
  obtain m where m: "length a = ?j + Suc m" "8 * length a - Suc i = 8 * m + ?k"
    using assms(1) by (rule be_index)
  have "even (unat (a ! ?j) div 2 ^ ?k)"
    using be_digit[OF m(1), of ?k] assms(2) by (simp add: m(2))
  then have "\<not> bit (unat (a ! ?j)) ?k" by (simp add: bit_iff_odd)
  then have u: "unat (a ! ?j OR push_bit ?k 1) = unat (a ! ?j) + 2 ^ ?k"
    using set_bit_eq[of ?k "unat (a ! ?j)"]
    by (simp add: unsigned_or_eq unat_pow2_byte set_bit_eq_or push_bit_eq_mult)
  have "of_be (be_set a i) + unat (a ! ?j) * 256 ^ m = of_be a + (unat (a ! ?j) + 2 ^ ?k) * 256 ^ m"
    using of_be_update[OF m(1), of "a ! ?j OR push_bit ?k 1"] by (simp only: be_set_def u)
  then show "of_be (be_set a i) = of_be a + 2 ^ (8 * length a - Suc i)"
    unfolding m(2) power_add p256[symmetric] by (simp add: algebra_simps)
  show "length (be_set a i) = length a" by (simp add: be_set_def)
qed


section \<open>Long division\<close>

lemma divmod_unique: "x = s + c * b \<Longrightarrow> s < (b :: nat) \<Longrightarrow> x div b = c \<and> x mod b = s"
  by auto

lemma bring_in_value:
  assumes "length a = 32" "length r = 32" "i < 256" "of_be r < 2 ^ i"
  shows "length (bring_in a i r) = 32"
    "of_be (bring_in a i r) = 2 * of_be r + of_be a div 2 ^ (255 - i) mod 2"
proof -
  have "2 * of_be r < 2 ^ Suc i" using assms(4) by simp
  also have "\<dots> \<le> 2 ^ 256" using assms(3) by (intro power_increasing) simp_all
  finally have "2 * of_be r < 256 ^ length r" using assms(2) by simp
  note s = shift_left_1_value[OF this]
  let ?r = "shift_left_1 r"
  have l: "length ?r = 31 + Suc 0" using s(1) assms(2) by simp
  have bit: "be_bit a i = of_bool (odd (of_be a div 2 ^ (255 - i)))"
    using be_bit_value[of i a] assms(1,3) by simp
  have "even (unat (?r ! 31))"
    using be_digit[OF l, of 0] s(2) by simp
  then have o: "unat (?r ! 31 OR be_bit a i) = unat (?r ! 31) + of_be a div 2 ^ (255 - i) mod 2"
    by (simp add: bit unsigned_or_eq or_one_eq or_Suc_0_eq mod_2_eq_odd)
  have "of_be (bring_in a i r) + unat (?r ! 31) = of_be ?r + unat (?r ! 31 OR be_bit a i)"
    using of_be_update[OF l, of "?r ! 31 OR be_bit a i"] by (simp add: bring_in_def Let_def)
  then show "of_be (bring_in a i r) = 2 * of_be r + of_be a div 2 ^ (255 - i) mod 2"
    using o s(2) by simp
  show "length (bring_in a i r) = 32" using l by (simp add: bring_in_def Let_def)
qed

text \<open>What a comparison and a subtraction must do for the division to be correct.\<close>

locale sub_cmp =
  fixes ge :: "bytes \<Rightarrow> bytes \<Rightarrow> bool" and sub :: "bytes \<Rightarrow> bytes \<Rightarrow> bytes"
  assumes ge_value: "length a = length b \<Longrightarrow> ge a b \<longleftrightarrow> of_be b \<le> of_be a"
    and length_sub: "length a = length b \<Longrightarrow> of_be b \<le> of_be a \<Longrightarrow> length (sub a b) = length a"
    and sub_value: "length a = length b \<Longrightarrow> of_be b \<le> of_be a \<Longrightarrow> of_be (sub a b) = of_be a - of_be b"
begin

text \<open>After \<open>t\<close> rounds the remainder is the leading \<open>t\<close> bits of the dividend modulo the
  divisor, and the quotient array holds their quotient in its leading \<open>t\<close> bits.\<close>

definition div_inv :: "bytes \<Rightarrow> bytes \<Rightarrow> nat \<Rightarrow> bytes \<times> bytes \<Rightarrow> bool" where
  "div_inv a b t qr \<longleftrightarrow> length (fst qr) = 32 \<and> length (snd qr) = 32
     \<and> of_be (fst qr) = (of_be a div 2 ^ (256 - t) div of_be b) * 2 ^ (256 - t)
     \<and> of_be (snd qr) = of_be a div 2 ^ (256 - t) mod of_be b"

lemma div_inv_step:
  assumes "length a = 32" "length b = 32" "0 < of_be b" "t < 256" "div_inv a b t qr"
  shows "div_inv a b (Suc t) (div_round ge sub a b t qr)"
proof -
  obtain q r where qr: "qr = (q, r)" by fastforce
  let ?A = "of_be a" and ?B = "of_be b"
  let ?n = "255 - t"
  let ?h = "?A div 2 ^ Suc ?n"
  have e: "256 - t = Suc ?n" "256 - Suc t = ?n" using assms(4) by simp_all
  have inv: "length q = 32" "length r = 32" "of_be q = ?h div ?B * 2 ^ Suc ?n" "of_be r = ?h mod ?B"
    using assms(5) by (simp_all add: div_inv_def qr e)
  have "(2 :: nat) ^ t * 2 ^ Suc ?n = 256 ^ 32"
    using assms(4) by (simp only: p256 flip: power_add) simp
  then have "?A < 2 ^ t * 2 ^ Suc ?n" using of_be_bound[of a] assms(1) by simp
  then have "?h < 2 ^ t" by (rule less_mult_imp_div_less)
  then have rt: "of_be r < 2 ^ t" using mod_less_eq_dividend[of ?h ?B] inv(4) by linarith
  let ?r = "bring_in a t r"
  note bi = bring_in_value[OF assms(1) inv(2) assms(4) rt]
  have hn: "?A div 2 ^ ?n = 2 * ?h + ?A div 2 ^ ?n mod 2"
    using div_mult2_eq[of ?A "2 ^ ?n" 2] by (simp add: mult.commute)
  have rlt: "of_be r < ?B" using inv(4) assms(3) by simp
  have hd: "?h = ?B * (?h div ?B) + of_be r" using inv(4) by simp
  define bt where "bt = ?A div 2 ^ ?n mod 2"
  define Q where "Q = ?h div ?B"
  have x: "?A div 2 ^ ?n = 2 * Q * ?B + of_be ?r"
    using hn hd bi(2) by (simp add: bt_def Q_def algebra_simps)
  have r2: "of_be ?r < 2 * ?B" using rlt bi(2) by linarith
  show ?thesis
  proof (cases "?B \<le> of_be ?r")
    case True
    have "?A div 2 ^ ?n = (of_be ?r - ?B) + (2 * Q + 1) * ?B"
      using x True by (simp add: algebra_simps)
    moreover have "of_be ?r - ?B < ?B" using r2 by simp
    ultimately have dm: "?A div 2 ^ ?n div ?B = 2 * Q + 1" "?A div 2 ^ ?n mod ?B = of_be ?r - ?B"
      using divmod_unique by blast+
    have "of_be q div 2 ^ ?n = 2 * Q" using inv(3) by (simp add: Q_def)
    then have "of_be (be_set q t) = of_be q + 2 ^ ?n" "length (be_set q t) = 32"
      using be_set_value[of t q] inv(1) assms(4) by simp_all
    then show ?thesis
      using True ge_value[of ?r b] sub_value[of ?r b] length_sub[of ?r b] bi(1) assms(2) inv(3) dm
      by (simp add: div_inv_def div_round_def qr Let_def e Q_def algebra_simps)
  next
    case False
    then have dm: "?A div 2 ^ ?n div ?B = 2 * Q" "?A div 2 ^ ?n mod ?B = of_be ?r"
      unfolding x using assms(3) by simp_all
    then show ?thesis
      using False ge_value[of ?r b] bi(1) assms(2) inv(1,3)
      by (simp add: div_inv_def div_round_def qr Let_def e Q_def)
  qed
qed

lemma div_inv_fold:
  assumes "length a = 32" "length b = 32" "0 < of_be b" "t \<le> 256"
  shows "div_inv a b t (fold (div_round ge sub a b) [0..<t] (replicate 32 0, replicate 32 0))"
  using assms(4)
proof (induction t)
  case 0
  have "of_be a < 2 ^ 256" using of_be_bound[of a] assms(1) by simp
  then show ?case by (simp add: div_inv_def)
next
  case (Suc t)
  then show ?case using div_inv_step[OF assms(1-3), of t] by simp
qed

lemma long_div_value:
  assumes "length a = 32" "length b = 32" "0 < of_be b"
  shows "length (fst (long_div ge sub a b)) = 32" "of_be (fst (long_div ge sub a b)) = of_be a div of_be b"
    "length (snd (long_div ge sub a b)) = 32" "of_be (snd (long_div ge sub a b)) = of_be a mod of_be b"
  using div_inv_fold[OF assms order_refl] by (simp_all add: div_inv_def long_div_def)

end

interpretation jet_div: sub_cmp "\<lambda>a b. cmp_u256 a b \<ge> 0" sub_u256_unchecked
  by unfold_locales (simp_all add: cmp_u256_value sub_u256_unchecked_value)

interpretation work_div: sub_cmp ge_256 sub_256_inplace
  by unfold_locales (simp_all add: ge_256_value sub_256_inplace_value)

end
