(* ===== verification/Jets.thy ===== *)
theory Jets
  imports Script_Ast Bytes256
begin

unbundle bit_operations_syntax

text \<open>
  The native operations of the script language, \<open>script/jets/\<close>: their signatures
  and costs, and one definition per implementation. Lengths and costs are natural
  numbers, with the saturation of the 64-bit cost arithmetic written out.
\<close>


section \<open>The script context\<close>

datatype JetError =
    JTypeMismatch string
  | JOverflow string
  | JDivisionByZero
  | JOutOfBounds string
  | JNotImplemented string

record TxInputInfo =
  ii_prev_tx_id :: bytes
  ii_output_index :: u32
  ii_value :: u64
  ii_script_hash :: bytes

record TxOutputInfo =
  oi_value :: u64
  oi_script_hash :: bytes
  oi_datum_hash :: "bytes option"

record ScriptContext =
  tx_inputs :: "TxInputInfo list"
  tx_outputs :: "TxOutputInfo list"
  self_index :: u32
  block_height :: u64
  sig_hash :: bytes

definition empty_context :: ScriptContext where
  "empty_context = \<lparr>tx_inputs = [], tx_outputs = [], self_index = 0, block_height = 0, sig_hash = []\<rparr>"

definition with_self_index :: "ScriptContext \<Rightarrow> u32 \<Rightarrow> ScriptContext" where
  "with_self_index ctx idx = ctx\<lparr>self_index := idx\<rparr>"


section \<open>Signatures and costs\<close>

definition jet_type :: "JetId \<Rightarrow> Type \<times> Type" where
  "jet_type j = (let u64_pair = TProduct u64_type u64_type; u256_pair = TProduct u256_type u256_type in
     case j of
       Sha256 \<Rightarrow> (bytes_type, hash256_type)
     | Ed25519Verify \<Rightarrow> (TProduct bytes_type (TProduct bytes_type bytes_type), bool_type)
     | SchnorrVerify \<Rightarrow> (TProduct bytes_type (TProduct bytes_type bytes_type), bool_type)
     | MerkleVerify \<Rightarrow> (TProduct hash256_type (TProduct hash256_type bytes_type), bool_type)
     | Add64 \<Rightarrow> (u64_pair, u64_type) | Sub64 \<Rightarrow> (u64_pair, u64_type) | Mul64 \<Rightarrow> (u64_pair, u64_type)
     | Div64 \<Rightarrow> (u64_pair, u64_type) | Mod64 \<Rightarrow> (u64_pair, u64_type)
     | Eq64 \<Rightarrow> (u64_pair, bool_type) | Lt64 \<Rightarrow> (u64_pair, bool_type) | Gt64 \<Rightarrow> (u64_pair, bool_type)
     | Add256 \<Rightarrow> (u256_pair, u256_type) | Sub256 \<Rightarrow> (u256_pair, u256_type)
     | Mul256 \<Rightarrow> (u256_pair, u256_type) | Div256 \<Rightarrow> (u256_pair, u256_type)
     | Mod256 \<Rightarrow> (u256_pair, u256_type)
     | Eq256 \<Rightarrow> (u256_pair, bool_type) | Lt256 \<Rightarrow> (u256_pair, bool_type) | Gt256 \<Rightarrow> (u256_pair, bool_type)
     | Cat \<Rightarrow> (TProduct bytes_type bytes_type, bytes_type)
     | Slice \<Rightarrow> (TProduct bytes_type (TProduct u64_type u64_type), bytes_type)
     | Len \<Rightarrow> (bytes_type, u64_type)
     | EqBytes \<Rightarrow> (TProduct bytes_type bytes_type, bool_type)
     | EqHash \<Rightarrow> (TProduct hash256_type hash256_type, bool_type)
     | TxInputs \<Rightarrow> (TUnit, TList (TProduct hash256_type (TProduct u64_type (TProduct u64_type hash256_type))))
     | TxOutputs \<Rightarrow> (TUnit, TList (TProduct u64_type (TProduct hash256_type (option_type hash256_type))))
     | TxValue \<Rightarrow> (u64_type, u64_type)
     | TxScriptHash \<Rightarrow> (u64_type, hash256_type)
     | TxInputCount \<Rightarrow> (TUnit, u64_type) | TxOutputCount \<Rightarrow> (TUnit, u64_type)
     | SelfIndex \<Rightarrow> (TUnit, u64_type) | JBlockHeight \<Rightarrow> (TUnit, u64_type)
     | TxSigHash \<Rightarrow> (TUnit, bytes_type)
     | ListLen \<Rightarrow> (TList TUnit, u64_type)
     | ListAt \<Rightarrow> (TProduct (TList TUnit) u64_type, option_type TUnit)
     | ListSum \<Rightarrow> (TList u64_type, u64_type)
     | ListAll \<Rightarrow> (TList bool_type, bool_type) | ListAny \<Rightarrow> (TList bool_type, bool_type)
     | ListFind \<Rightarrow> (TList bool_type, option_type u64_type))"

definition jet_cost :: "JetId \<Rightarrow> nat \<times> nat" where
  "jet_cost j = (case j of
       Sha256 \<Rightarrow> (1000, 1)
     | Ed25519Verify \<Rightarrow> (5000, 1) | SchnorrVerify \<Rightarrow> (5000, 1)
     | MerkleVerify \<Rightarrow> (32000, 1)
     | Add64 \<Rightarrow> (10, 1) | Sub64 \<Rightarrow> (10, 1) | Mul64 \<Rightarrow> (10, 1) | Div64 \<Rightarrow> (10, 1) | Mod64 \<Rightarrow> (10, 1)
     | Eq64 \<Rightarrow> (10, 1) | Lt64 \<Rightarrow> (10, 1) | Gt64 \<Rightarrow> (10, 1)
     | Add256 \<Rightarrow> (50, 1) | Sub256 \<Rightarrow> (50, 1) | Mul256 \<Rightarrow> (50, 1) | Div256 \<Rightarrow> (50, 1) | Mod256 \<Rightarrow> (50, 1)
     | Eq256 \<Rightarrow> (50, 1) | Lt256 \<Rightarrow> (50, 1) | Gt256 \<Rightarrow> (50, 1)
     | Cat \<Rightarrow> (100, 1) | Slice \<Rightarrow> (100, 1)
     | Len \<Rightarrow> (10, 0)
     | EqBytes \<Rightarrow> (500, 0) | EqHash \<Rightarrow> (500, 0)
     | TxInputs \<Rightarrow> (1000, 0) | TxOutputs \<Rightarrow> (1000, 0)
     | TxValue \<Rightarrow> (10, 0) | TxScriptHash \<Rightarrow> (10, 0)
     | TxInputCount \<Rightarrow> (5, 0) | TxOutputCount \<Rightarrow> (5, 0) | SelfIndex \<Rightarrow> (5, 0)
     | JBlockHeight \<Rightarrow> (5, 0) | TxSigHash \<Rightarrow> (5, 0)
     | ListLen \<Rightarrow> (10, 0)
     | ListAt \<Rightarrow> (10, 1)
     | ListSum \<Rightarrow> (1000, 0) | ListAll \<Rightarrow> (1000, 0) | ListAny \<Rightarrow> (1000, 0) | ListFind \<Rightarrow> (1000, 0))"

definition bytes_len :: "Value \<Rightarrow> nat" where
  "bytes_len v = (case v of VBytes d \<Rightarrow> length d | _ \<Rightarrow> 0)"

definition list_len :: "Value \<Rightarrow> nat" where
  "list_len v = (case v of VList items \<Rightarrow> length items | _ \<Rightarrow> 0)"

definition bytes_or_hash_len :: "Value \<Rightarrow> nat" where
  "bytes_or_hash_len v = (case v of VBytes d \<Rightarrow> length d | VHash _ \<Rightarrow> 32 | _ \<Rightarrow> 0)"

definition list_jet_cost :: "Value \<Rightarrow> nat" where
  "list_jet_cost input = sat64 (10 + list_len input)"

definition runtime_cost :: "JetId \<Rightarrow> Value \<Rightarrow> ScriptContext \<Rightarrow> nat" where
  "runtime_cost j input ctx = (case j of
       Sha256 \<Rightarrow> sat64 (500 + bytes_len input div 64 * 8)
     | MerkleVerify \<Rightarrow>
         (let proof_len = (case input of VPair _ (VPair _ p) \<Rightarrow> bytes_len p | _ \<Rightarrow> 0)
          in sat64 (500 + sat64 (proof_len div 33 * 500)))
     | ListSum \<Rightarrow> list_jet_cost input | ListAll \<Rightarrow> list_jet_cost input
     | ListAny \<Rightarrow> list_jet_cost input | ListFind \<Rightarrow> list_jet_cost input
     | EqHash \<Rightarrow> 14
     | EqBytes \<Rightarrow>
         (let max_len = (case input of VPair a b \<Rightarrow> max (bytes_or_hash_len a) (bytes_or_hash_len b) | _ \<Rightarrow> 0)
          in sat64 (10 + max_len div 8))
     | Cat \<Rightarrow>
         (let total_len = (case input of VPair a b \<Rightarrow> sat64 (bytes_len a + bytes_len b) | _ \<Rightarrow> 0)
          in sat64 (10 + total_len div 8))
     | Slice \<Rightarrow>
         (let src_len = (case input of VPair a _ \<Rightarrow> bytes_len a | _ \<Rightarrow> 0) in sat64 (10 + src_len div 8))
     | TxInputs \<Rightarrow> sat64 (10 + length (tx_inputs ctx) * 10)
     | TxOutputs \<Rightarrow> sat64 (10 + length (tx_outputs ctx) * 10)
     | TxSigHash \<Rightarrow> sat64 (5 + length (sig_hash ctx) div 64)
     | Ed25519Verify \<Rightarrow>
         (let msg_len = (case input of VPair m _ \<Rightarrow> bytes_len m | _ \<Rightarrow> 0)
          in sat64 (5000 + sat64 ((msg_len + 63) div 64 * 8)))
     | _ \<Rightarrow> fst (jet_cost j))"

definition is_implemented :: "JetId \<Rightarrow> bool" where
  "is_implemented j \<longleftrightarrow> j \<noteq> SchnorrVerify"


section \<open>64-bit arithmetic\<close>

definition extract_u64_pair :: "Value \<Rightarrow> JetError + u64 \<times> u64" where
  "extract_u64_pair input = (case input of
     VPair a b \<Rightarrow> (case (a, b) of
         (VU64 x, VU64 y) \<Rightarrow> Ok (x, y)
       | _ \<Rightarrow> Err (JTypeMismatch ''expected Pair(U64, U64)''))
   | _ \<Rightarrow> Err (JTypeMismatch ''expected Pair''))"

definition jet_add64 :: "Value \<Rightarrow> JetError + Value" where
  "jet_add64 input = rbind (extract_u64_pair input) (\<lambda>(a, b).
     rbind (ok_or (JOverflow ''add64 overflow'') (checked_add a b)) (\<lambda>r. Ok (VU64 r)))"

definition jet_sub64 :: "Value \<Rightarrow> JetError + Value" where
  "jet_sub64 input = rbind (extract_u64_pair input) (\<lambda>(a, b).
     rbind (ok_or (JOverflow ''sub64 underflow'') (checked_sub a b)) (\<lambda>r. Ok (VU64 r)))"

definition jet_mul64 :: "Value \<Rightarrow> JetError + Value" where
  "jet_mul64 input = rbind (extract_u64_pair input) (\<lambda>(a, b).
     rbind (ok_or (JOverflow ''mul64 overflow'') (checked_mul a b)) (\<lambda>r. Ok (VU64 r)))"

definition jet_div64 :: "Value \<Rightarrow> JetError + Value" where
  "jet_div64 input = rbind (extract_u64_pair input) (\<lambda>(a, b).
     if b = 0 then Err JDivisionByZero else Ok (VU64 (a div b)))"

definition jet_mod64 :: "Value \<Rightarrow> JetError + Value" where
  "jet_mod64 input = rbind (extract_u64_pair input) (\<lambda>(a, b).
     if b = 0 then Err JDivisionByZero else Ok (VU64 (a mod b)))"

definition jet_eq64 :: "Value \<Rightarrow> JetError + Value" where
  "jet_eq64 input = rbind (extract_u64_pair input) (\<lambda>(a, b). Ok (VBool (a = b)))"

definition jet_lt64 :: "Value \<Rightarrow> JetError + Value" where
  "jet_lt64 input = rbind (extract_u64_pair input) (\<lambda>(a, b). Ok (VBool (a < b)))"

definition jet_gt64 :: "Value \<Rightarrow> JetError + Value" where
  "jet_gt64 input = rbind (extract_u64_pair input) (\<lambda>(a, b). Ok (VBool (a > b)))"


section \<open>256-bit arithmetic\<close>

definition extract_u256 :: "Value \<Rightarrow> JetError + bytes" where
  "extract_u256 v = ok_or (JTypeMismatch ''expected U256 or Pair(U64, U64)'') (as_u256 v)"

definition extract_u256_pair :: "Value \<Rightarrow> JetError + bytes \<times> bytes" where
  "extract_u256_pair input = (case input of
     VPair a b \<Rightarrow> rbind (extract_u256 a) (\<lambda>x. rbind (extract_u256 b) (\<lambda>y. Ok (x, y)))
   | _ \<Rightarrow> Err (JTypeMismatch ''expected Pair''))"

definition u256_to_parts :: "bytes \<Rightarrow> u128 \<times> u128" where
  "u256_to_parts data = (u128_be (take 16 data), u128_be (drop 16 data))"

definition parts_to_u256 :: "u128 \<Rightarrow> u128 \<Rightarrow> bytes" where
  "parts_to_u256 hi lo = be128 hi @ be128 lo"

definition jet_add256 :: "Value \<Rightarrow> JetError + Value" where
  "jet_add256 input = rbind (extract_u256_pair input) (\<lambda>(a, b).
     let (ah, al) = u256_to_parts a; (bh, bl) = u256_to_parts b;
         lo = al + bl; carry = (unat al + unat bl \<ge> 2 ^ 128) in
     rbind (ok_or (JOverflow ''add256 overflow'')
             (Option.bind (checked_add ah bh) (\<lambda>h. checked_add h (if carry then 1 else 0)))) (\<lambda>hi.
     Ok (VU256 (parts_to_u256 hi lo))))"

definition jet_sub256 :: "Value \<Rightarrow> JetError + Value" where
  "jet_sub256 input = rbind (extract_u256_pair input) (\<lambda>(a, b).
     let (ah, al) = u256_to_parts a; (bh, bl) = u256_to_parts b;
         lo = al - bl; borrow = (al < bl) in
     rbind (ok_or (JOverflow ''sub256 underflow'')
             (Option.bind (checked_sub ah bh) (\<lambda>h. checked_sub h (if borrow then 1 else 0)))) (\<lambda>hi.
     Ok (VU256 (parts_to_u256 hi lo))))"

text \<open>The carry loop of the limb multiplication; limb 0 is the least significant.\<close>

function mul_carry :: "u64 list \<Rightarrow> u128 \<Rightarrow> nat \<Rightarrow> u64 list" where
  "mul_carry result carry k =
     (if carry \<noteq> 0 \<and> k < 8 then
        let s = ucast (result ! k) + (carry AND 0xFFFFFFFFFFFFFFFF) in
        mul_carry (result[k := ucast s]) (drop_bit 64 carry + drop_bit 64 s) (Suc k)
      else result)"
  by auto
termination by (relation "measure (\<lambda>(r, c, k). 8 - k)") auto

declare mul_carry.simps [simp del]

definition limbs64 :: "bytes \<Rightarrow> u64 list" where
  "limbs64 a = map (\<lambda>i. of_nat (of_be (bslice a (8 * i) (8 * i + 8)))) [0, 1, 2, 3]"

definition mul_limbs :: "bytes \<Rightarrow> bytes \<Rightarrow> u64 list" where
  "mul_limbs a b = (let a_limbs = limbs64 a; b_limbs = limbs64 b in
     fold (\<lambda>i result. fold (\<lambda>j result.
         mul_carry result (ucast (a_limbs ! (3 - i)) * ucast (b_limbs ! (3 - j))) (i + j))
       [0, 1, 2, 3] result) [0, 1, 2, 3] (replicate 8 0))"

definition be64 :: "u64 \<Rightarrow> bytes" where
  "be64 w = to_be 8 (unat w)"

definition mul_u256_full :: "bytes \<Rightarrow> bytes \<Rightarrow> JetError + bytes" where
  "mul_u256_full a b = (let result = mul_limbs a b in
     if result ! 4 \<noteq> 0 \<or> result ! 5 \<noteq> 0 \<or> result ! 6 \<noteq> 0 \<or> result ! 7 \<noteq> 0
     then Err (JOverflow ''mul256 overflow'')
     else Ok (be64 (result ! 3) @ be64 (result ! 2) @ be64 (result ! 1) @ be64 (result ! 0)))"

definition jet_mul256 :: "Value \<Rightarrow> JetError + Value" where
  "jet_mul256 input = rbind (extract_u256_pair input) (\<lambda>(a, b).
     let (ah, al) = u256_to_parts a; (bh, bl) = u256_to_parts b in
     if ah > 0 \<and> (bh > 0 \<or> bl > 0) \<and> (bh > 0 \<or> checked_mul ah bl = None)
       then Err (JOverflow ''mul256 overflow'')
     else if bh > 0 \<and> al > 0 \<and> checked_mul bh al = None
       then Err (JOverflow ''mul256 overflow'')
     else rbind (mul_u256_full a b) (\<lambda>r. Ok (VU256 r)))"

definition div_u256 :: "bytes \<Rightarrow> bytes \<Rightarrow> bytes" where
  "div_u256 a b = (if cmp_u256 a b < 0 then replicate 32 0
     else fst (long_div (\<lambda>x y. cmp_u256 x y \<ge> 0) sub_u256_unchecked a b))"

text \<open>\<open>mod_u256\<close> runs the same rounds without the quotient.\<close>

definition mod_round :: "bytes \<Rightarrow> bytes \<Rightarrow> nat \<Rightarrow> bytes \<Rightarrow> bytes" where
  "mod_round a b i r = (let r' = bring_in a i r in
     if cmp_u256 r' b \<ge> 0 then sub_u256_unchecked r' b else r')"

definition mod_u256 :: "bytes \<Rightarrow> bytes \<Rightarrow> bytes" where
  "mod_u256 a b = (if cmp_u256 a b < 0 then a
     else fold (mod_round a b) [0..<256] (replicate 32 0))"

definition jet_div256 :: "Value \<Rightarrow> JetError + Value" where
  "jet_div256 input = rbind (extract_u256_pair input) (\<lambda>(a, b).
     if b = replicate 32 0 then Err JDivisionByZero else Ok (VU256 (div_u256 a b)))"

definition jet_mod256 :: "Value \<Rightarrow> JetError + Value" where
  "jet_mod256 input = rbind (extract_u256_pair input) (\<lambda>(a, b).
     if b = replicate 32 0 then Err JDivisionByZero else Ok (VU256 (mod_u256 a b)))"

definition jet_eq256 :: "Value \<Rightarrow> JetError + Value" where
  "jet_eq256 input = rbind (extract_u256_pair input) (\<lambda>(a, b). Ok (VBool (a = b)))"

definition jet_lt256 :: "Value \<Rightarrow> JetError + Value" where
  "jet_lt256 input = rbind (extract_u256_pair input) (\<lambda>(a, b). Ok (VBool (cmp_u256 a b < 0)))"

definition jet_gt256 :: "Value \<Rightarrow> JetError + Value" where
  "jet_gt256 input = rbind (extract_u256_pair input) (\<lambda>(a, b). Ok (VBool (cmp_u256 a b > 0)))"



section \<open>Byte strings\<close>

definition jet_cat :: "Value \<Rightarrow> JetError + Value" where
  "jet_cat input = (case input of
     VPair a b \<Rightarrow> (case (a, b) of
         (VBytes x, VBytes y) \<Rightarrow> Ok (VBytes (x @ y))
       | _ \<Rightarrow> Err (JTypeMismatch ''cat expects (Bytes, Bytes)''))
   | _ \<Rightarrow> Err (JTypeMismatch ''cat expects Pair''))"

text \<open>A start past the end gives the empty string; the end saturates.\<close>

definition jet_slice :: "Value \<Rightarrow> JetError + Value" where
  "jet_slice input = (case input of
     VPair data params \<Rightarrow> (case (data, params) of
         (VBytes bs, VPair start_v len_v) \<Rightarrow> (case (start_v, len_v) of
             (VU64 start, VU64 len) \<Rightarrow>
               if unat start > length bs then Ok (VBytes [])
               else Ok (VBytes (bslice bs (unat start) (min (sat64 (unat start + unat len)) (length bs))))
           | _ \<Rightarrow> Err (JTypeMismatch ''slice expects (Bytes, (U64, U64))''))
       | _ \<Rightarrow> Err (JTypeMismatch ''slice expects (Bytes, Pair)''))
   | _ \<Rightarrow> Err (JTypeMismatch ''slice expects Pair''))"

definition jet_len :: "Value \<Rightarrow> JetError + Value" where
  "jet_len input = (case input of
     VBytes data \<Rightarrow> Ok (VU64 (of_nat (length data)))
   | _ \<Rightarrow> Err (JTypeMismatch ''len expects Bytes''))"

definition to_byte_slice :: "Value \<Rightarrow> JetError + bytes" where
  "to_byte_slice v = (case v of
     VBytes b \<Rightarrow> Ok b
   | VHash h \<Rightarrow> Ok h
   | _ \<Rightarrow> Err (JTypeMismatch ''eq_bytes expects Bytes or Hash''))"

definition jet_eq_bytes :: "Value \<Rightarrow> JetError + Value" where
  "jet_eq_bytes input = (case input of
     VPair a b \<Rightarrow> rbind (to_byte_slice a) (\<lambda>lhs. rbind (to_byte_slice b) (\<lambda>rhs. Ok (VBool (lhs = rhs))))
   | _ \<Rightarrow> Err (JTypeMismatch ''eq_bytes expects Pair''))"


section \<open>Lists\<close>

definition VNone :: Value where "VNone = VLeft VUnit"
definition VSome :: "Value \<Rightarrow> Value" where "VSome v = VRight v"

definition jet_list_len :: "Value \<Rightarrow> JetError + Value" where
  "jet_list_len input = (case input of
     VList items \<Rightarrow> Ok (VU64 (of_nat (length items)))
   | _ \<Rightarrow> Err (JTypeMismatch ''list_len expects List''))"

definition jet_list_at :: "Value \<Rightarrow> JetError + Value" where
  "jet_list_at input = (case input of
     VPair l idx \<Rightarrow> (case (l, idx) of
         (VList items, VU64 i) \<Rightarrow>
           if unat i < length items then Ok (VSome (items ! unat i)) else Ok VNone
       | _ \<Rightarrow> Err (JTypeMismatch ''list_at expects (List, U64)''))
   | _ \<Rightarrow> Err (JTypeMismatch ''list_at expects Pair''))"

fun list_sum_loop :: "u64 \<Rightarrow> Value list \<Rightarrow> JetError + Value" where
  "list_sum_loop acc [] = Ok (VU64 acc)"
| "list_sum_loop acc (item # items) = (case item of
     VU64 n \<Rightarrow> rbind (ok_or (JOverflow ''list_sum overflow'') (checked_add acc n)) (\<lambda>s. list_sum_loop s items)
   | _ \<Rightarrow> Err (JTypeMismatch ''list_sum expects List(U64)''))"

definition jet_list_sum :: "Value \<Rightarrow> JetError + Value" where
  "jet_list_sum input = (case input of
     VList items \<Rightarrow> list_sum_loop 0 items
   | _ \<Rightarrow> Err (JTypeMismatch ''list_sum expects List''))"

fun list_all_loop :: "Value list \<Rightarrow> JetError + Value" where
  "list_all_loop [] = Ok (VBool True)"
| "list_all_loop (item # items) = (case as_bool item of
     Some b \<Rightarrow> if \<not> b then Ok (VBool False) else list_all_loop items
   | None \<Rightarrow> Err (JTypeMismatch ''list_all expects List(Bool)''))"

definition jet_list_all :: "Value \<Rightarrow> JetError + Value" where
  "jet_list_all input = (case input of
     VList items \<Rightarrow> list_all_loop items
   | _ \<Rightarrow> Err (JTypeMismatch ''list_all expects List''))"

fun list_any_loop :: "Value list \<Rightarrow> JetError + Value" where
  "list_any_loop [] = Ok (VBool False)"
| "list_any_loop (item # items) = (case as_bool item of
     Some b \<Rightarrow> if b then Ok (VBool True) else list_any_loop items
   | None \<Rightarrow> Err (JTypeMismatch ''list_any expects List(Bool)''))"

definition jet_list_any :: "Value \<Rightarrow> JetError + Value" where
  "jet_list_any input = (case input of
     VList items \<Rightarrow> list_any_loop items
   | _ \<Rightarrow> Err (JTypeMismatch ''list_any expects List''))"

fun list_find_loop :: "nat \<Rightarrow> Value list \<Rightarrow> JetError + Value" where
  "list_find_loop i [] = Ok VNone"
| "list_find_loop i (item # items) = (case as_bool item of
     Some b \<Rightarrow> if b then Ok (VSome (VU64 (of_nat i))) else list_find_loop (Suc i) items
   | None \<Rightarrow> Err (JTypeMismatch ''list_find expects List(Bool)''))"

definition jet_list_find :: "Value \<Rightarrow> JetError + Value" where
  "jet_list_find input = (case input of
     VList items \<Rightarrow> list_find_loop 0 items
   | _ \<Rightarrow> Err (JTypeMismatch ''list_find expects List''))"


section \<open>Introspection\<close>

definition jet_tx_inputs :: "ScriptContext \<Rightarrow> JetError + Value" where
  "jet_tx_inputs ctx = Ok (VList (map (\<lambda>i.
     VPair (VHash (ii_prev_tx_id i)) (VPair (VU64 (ucast (ii_output_index i)))
       (VPair (VU64 (ii_value i)) (VHash (ii_script_hash i))))) (tx_inputs ctx)))"

definition jet_tx_outputs :: "ScriptContext \<Rightarrow> JetError + Value" where
  "jet_tx_outputs ctx = Ok (VList (map (\<lambda>i.
     VPair (VU64 (oi_value i)) (VPair (VHash (oi_script_hash i))
       (case oi_datum_hash i of Some h \<Rightarrow> VSome (VHash h) | None \<Rightarrow> VNone))) (tx_outputs ctx)))"

definition jet_tx_value :: "Value \<Rightarrow> ScriptContext \<Rightarrow> JetError + Value" where
  "jet_tx_value input ctx = (case input of
     VU64 idx \<Rightarrow>
       if unat idx \<ge> length (tx_inputs ctx) then Err (JOutOfBounds ''tx_value index out of bounds'')
       else Ok (VU64 (ii_value (tx_inputs ctx ! unat idx)))
   | _ \<Rightarrow> Err (JTypeMismatch ''tx_value expects U64''))"

definition jet_tx_script_hash :: "Value \<Rightarrow> ScriptContext \<Rightarrow> JetError + Value" where
  "jet_tx_script_hash input ctx = (case input of
     VU64 idx \<Rightarrow>
       if unat idx \<ge> length (tx_inputs ctx) then Err (JOutOfBounds ''tx_script_hash index out of bounds'')
       else Ok (VHash (ii_script_hash (tx_inputs ctx ! unat idx)))
   | _ \<Rightarrow> Err (JTypeMismatch ''tx_script_hash expects U64''))"

definition jet_tx_input_count :: "ScriptContext \<Rightarrow> JetError + Value" where
  "jet_tx_input_count ctx = Ok (VU64 (of_nat (length (tx_inputs ctx))))"

definition jet_tx_output_count :: "ScriptContext \<Rightarrow> JetError + Value" where
  "jet_tx_output_count ctx = Ok (VU64 (of_nat (length (tx_outputs ctx))))"

definition jet_self_index :: "ScriptContext \<Rightarrow> JetError + Value" where
  "jet_self_index ctx = Ok (VU64 (ucast (self_index ctx)))"

definition jet_block_height :: "ScriptContext \<Rightarrow> JetError + Value" where
  "jet_block_height ctx = Ok (VU64 (block_height ctx))"

definition jet_tx_sig_hash :: "ScriptContext \<Rightarrow> JetError + Value" where
  "jet_tx_sig_hash ctx = Ok (VBytes (sig_hash ctx))"


section \<open>Cryptography\<close>

definition jet_sha256 :: "crypto \<Rightarrow> Value \<Rightarrow> JetError + Value" where
  "jet_sha256 C input = (case input of
     VBytes data \<Rightarrow> Ok (VHash (sha256 C data))
   | _ \<Rightarrow> Err (JTypeMismatch ''sha256 expects Bytes''))"

definition ed25519_verify_zip215 :: "crypto \<Rightarrow> bytes \<Rightarrow> bytes \<Rightarrow> bytes \<Rightarrow> bool" where
  "ed25519_verify_zip215 C message pubkey sig =
     (if length pubkey \<noteq> 32 \<or> length sig \<noteq> 64 then False
      else if is_weak_ed25519_key C pubkey then False
      else if \<not> vk_from_bytes C pubkey then False
      else vk_verify C pubkey message sig)"

definition jet_ed25519_verify :: "crypto \<Rightarrow> Value \<Rightarrow> JetError + Value" where
  "jet_ed25519_verify C input = (case input of
     VPair msg rest \<Rightarrow> (case (msg, rest) of
         (VBytes message, VPair pk sig) \<Rightarrow> (case (pk, sig) of
             (VBytes pubkey, VBytes s) \<Rightarrow> Ok (VBool (ed25519_verify_zip215 C message pubkey s))
           | _ \<Rightarrow> Err (JTypeMismatch ''ed25519_verify expects (Bytes, (Bytes, Bytes))''))
       | _ \<Rightarrow> Err (JTypeMismatch ''ed25519_verify expects (Bytes, (Bytes, Bytes))''))
   | _ \<Rightarrow> Err (JTypeMismatch ''ed25519_verify expects Pair''))"

definition jet_schnorr_verify :: "Value \<Rightarrow> JetError + Value" where
  "jet_schnorr_verify input = Err (JNotImplemented ''schnorr_verify is reserved but not yet implemented'')"

text \<open>A proof is a sequence of steps of a side byte and a 32-byte sibling.\<close>

definition DS_MERKLE :: bytes where "DS_MERKLE = ascii ''EXFER-MERKLE''"

function merkle_proof_loop :: "crypto \<Rightarrow> bytes \<Rightarrow> bytes \<Rightarrow> bytes option" where
  "merkle_proof_loop C current prf =
     (if length prf < 33 then Some current
      else let side = prf ! 0; sibling = bslice prf 1 33 in
        if side > 1 then None
        else let combined = (if side = 0 then current @ sibling else sibling @ current) in
          merkle_proof_loop C (domain_hash C DS_MERKLE combined) (drop 33 prf))"
  by auto
termination by (relation "measure (\<lambda>(C, c, p). length p)") auto

declare merkle_proof_loop.simps [simp del]

definition verify_merkle_proof :: "crypto \<Rightarrow> bytes \<Rightarrow> bytes \<Rightarrow> bytes \<Rightarrow> bool" where
  "verify_merkle_proof C rt leaf prf =
     (if length prf mod 33 \<noteq> 0 then False else merkle_proof_loop C leaf prf = Some rt)"

definition jet_merkle_verify :: "crypto \<Rightarrow> Value \<Rightarrow> JetError + Value" where
  "jet_merkle_verify C input = (case input of
     VPair rt rest \<Rightarrow> (case (rt, rest) of
         (VHash rh, VPair leaf prf) \<Rightarrow> (case (leaf, prf) of
             (VHash lh, VBytes pb) \<Rightarrow> Ok (VBool (verify_merkle_proof C rh lh pb))
           | _ \<Rightarrow> Err (JTypeMismatch ''merkle_verify expects (Hash, (Hash, Bytes))''))
       | _ \<Rightarrow> Err (JTypeMismatch ''merkle_verify expects (Hash, (Hash, Bytes))''))
   | _ \<Rightarrow> Err (JTypeMismatch ''merkle_verify expects Pair''))"


section \<open>Dispatch\<close>

definition jet_eval :: "crypto \<Rightarrow> JetId \<Rightarrow> Value \<Rightarrow> ScriptContext \<Rightarrow> JetError + Value" where
  "jet_eval C j input ctx = (case j of
       Sha256 \<Rightarrow> jet_sha256 C input
     | Ed25519Verify \<Rightarrow> jet_ed25519_verify C input
     | SchnorrVerify \<Rightarrow> jet_schnorr_verify input
     | MerkleVerify \<Rightarrow> jet_merkle_verify C input
     | Add64 \<Rightarrow> jet_add64 input | Sub64 \<Rightarrow> jet_sub64 input | Mul64 \<Rightarrow> jet_mul64 input
     | Div64 \<Rightarrow> jet_div64 input | Mod64 \<Rightarrow> jet_mod64 input
     | Eq64 \<Rightarrow> jet_eq64 input | Lt64 \<Rightarrow> jet_lt64 input | Gt64 \<Rightarrow> jet_gt64 input
     | Add256 \<Rightarrow> jet_add256 input | Sub256 \<Rightarrow> jet_sub256 input | Mul256 \<Rightarrow> jet_mul256 input
     | Div256 \<Rightarrow> jet_div256 input | Mod256 \<Rightarrow> jet_mod256 input
     | Eq256 \<Rightarrow> jet_eq256 input | Lt256 \<Rightarrow> jet_lt256 input | Gt256 \<Rightarrow> jet_gt256 input
     | Cat \<Rightarrow> jet_cat input | Slice \<Rightarrow> jet_slice input | Len \<Rightarrow> jet_len input
     | EqBytes \<Rightarrow> jet_eq_bytes input | EqHash \<Rightarrow> jet_eq_bytes input
     | TxInputs \<Rightarrow> jet_tx_inputs ctx | TxOutputs \<Rightarrow> jet_tx_outputs ctx
     | TxValue \<Rightarrow> jet_tx_value input ctx | TxScriptHash \<Rightarrow> jet_tx_script_hash input ctx
     | TxInputCount \<Rightarrow> jet_tx_input_count ctx | TxOutputCount \<Rightarrow> jet_tx_output_count ctx
     | SelfIndex \<Rightarrow> jet_self_index ctx | JBlockHeight \<Rightarrow> jet_block_height ctx
     | TxSigHash \<Rightarrow> jet_tx_sig_hash ctx
     | ListLen \<Rightarrow> jet_list_len input | ListAt \<Rightarrow> jet_list_at input | ListSum \<Rightarrow> jet_list_sum input
     | ListAll \<Rightarrow> jet_list_all input | ListAny \<Rightarrow> jet_list_any input | ListFind \<Rightarrow> jet_list_find input)"

end
