(* ===== verification/Jet_Arith.thy ===== *)
theory Jet_Arith
  imports Jets
begin

text \<open>
  The 256-bit arithmetic jets compute with natural numbers: the limb multiplication with its
  carry loop, the two-word addition and subtraction, and the bit-serial division of
  \<open>src/src/script/jets/arithmetic.rs\<close> against their arithmetic meaning, with the exact
  conditions under which each of them reports an overflow, an underflow or a division by zero.
\<close>

unbundle bit_operations_syntax

section \<open>Limbs\<close>

text \<open>The number a list of 64-bit limbs stands for, least significant limb first.\<close>

fun limbs_val :: "u64 list \<Rightarrow> nat" where
  "limbs_val [] = 0"
| "limbs_val (w # ws) = unat w + 2 ^ 64 * limbs_val ws"

definition W512 :: nat where "W512 = 2 ^ 512"

lemma limbs_val_update:
  "k < length r \<Longrightarrow> limbs_val (r[k := w]) + unat (r ! k) * 2 ^ (64 * k) = limbs_val r + unat w * 2 ^ (64 * k)"
proof (induction r arbitrary: k)
  case (Cons x r)
  show ?case
  proof (cases k)
    case (Suc m)
    then have "limbs_val (r[m := w]) + unat (r ! m) * 2 ^ (64 * m) = limbs_val r + unat w * 2 ^ (64 * m)"
      using Cons by simp
    then have "2 ^ 64 * (limbs_val (r[m := w]) + unat (r ! m) * 2 ^ (64 * m))
        = 2 ^ 64 * (limbs_val r + unat w * 2 ^ (64 * m))" by (rule arg_cong)
    then show ?thesis using Suc by (simp add: power_add algebra_simps)
  qed simp
qed simp

lemma carry_step:
  fixes c :: u128 and x :: u64
  defines "s \<equiv> ucast x + (c AND 0xFFFFFFFFFFFFFFFF) :: u128"
  shows "unat (ucast s :: u64) + 2 ^ 64 * unat (drop_bit 64 c + drop_bit 64 s) = unat x + unat c"
proof -
  have x: "unat x < 2 ^ 64" by (rule limb_bound)
  have c: "unat c < 2 ^ 128" by (rule u128_bound)
  have s: "unat s = unat x + unat c mod 2 ^ 64"
    unfolding s_def using x by (simp add: unat_word_ariths unat_ucast_u128 u128_low64)
  have "unat c div 2 ^ 64 < 2 ^ 64" using c by (simp add: less_mult_imp_div_less)
  moreover have "unat s div 2 ^ 64 < 2 ^ 64" using s x by simp
  ultimately have k: "unat (drop_bit 64 c + drop_bit 64 s) = unat c div 2 ^ 64 + unat s div 2 ^ 64"
    by (simp add: unat_word_ariths u128_high64)
  have "unat s mod 2 ^ 64 + 2 ^ 64 * (unat s div 2 ^ 64) = unat s"
     "unat c mod 2 ^ 64 + 2 ^ 64 * (unat c div 2 ^ 64) = unat c" by simp_all
  then show ?thesis unfolding unat_ucast_u64 k using s by (simp add: algebra_simps)
qed

lemma mul_carry_value:
  "length r = 8 \<Longrightarrow> length (mul_carry r c k) = 8
   \<and> limbs_val (mul_carry r c k) mod W512 = (limbs_val r + unat c * 2 ^ (64 * k)) mod W512"
proof (induction r c k rule: mul_carry.induct)
  case (1 r c k)
  show ?case
  proof (cases "c \<noteq> 0 \<and> k < 8")
    case True
    define s where "s = ucast (r ! k) + (c AND 0xFFFFFFFFFFFFFFFF)"
    define c' where "c' = drop_bit 64 c + drop_bit 64 s"
    define r' where "r' = r[k := ucast s]"
    have eq: "mul_carry r c k = mul_carry r' c' (Suc k)"
      using True by (simp add: mul_carry.simps[of r c k] Let_def s_def c'_def r'_def)
    have ih: "length (mul_carry r' c' (Suc k)) = 8"
       "limbs_val (mul_carry r' c' (Suc k)) mod W512 = (limbs_val r' + unat c' * 2 ^ (64 * Suc k)) mod W512"
      using "1.IH"[OF True refl] "1.prems" by (simp_all add: s_def c'_def r'_def)
    have "unat (ucast s :: u64) + 2 ^ 64 * unat c' = unat (r ! k) + unat c"
      using carry_step[of "r ! k" c] by (simp add: s_def c'_def)
    then have "(unat (ucast s :: u64) + 2 ^ 64 * unat c') * 2 ^ (64 * k) = (unat (r ! k) + unat c) * 2 ^ (64 * k)"
      by (rule arg_cong)
    moreover have "limbs_val r' + unat (r ! k) * 2 ^ (64 * k) = limbs_val r + unat (ucast s :: u64) * 2 ^ (64 * k)"
      using limbs_val_update[of k r "ucast s"] True "1.prems" by (simp add: r'_def)
    ultimately have "limbs_val r' + unat c' * 2 ^ (64 * Suc k) = limbs_val r + unat c * 2 ^ (64 * k)"
      by (simp add: power_add algebra_simps)
    then show ?thesis using ih by (simp only: eq)
  next
    case False
    have "W512 dvd unat c * 2 ^ (64 * k)"
    proof (cases "c = 0")
      case False
      then have "512 \<le> 64 * k" using \<open>\<not> (c \<noteq> 0 \<and> k < 8)\<close> by simp
      then show ?thesis unfolding W512_def by (intro dvd_mult le_imp_power_dvd)
    qed simp
    then have m: "(limbs_val r + unat c * 2 ^ (64 * k)) mod W512 = limbs_val r mod W512"
      by (metis add.right_neutral dvd_imp_mod_0 mod_add_right_eq)
    have "mul_carry r c k = r" using False by (subst mul_carry.simps) (simp only: if_False)
    then show ?thesis using "1.prems" by (simp only: m simp_thms)
  qed
qed


lemma mod_add_cong_left: "a mod m = b mod m \<Longrightarrow> (a + x) mod m = (b + x) mod (m :: nat)"
  by (metis mod_add_left_eq)

lemma inner_fold_value:
  fixes p :: "nat \<Rightarrow> u128"
  shows "length r = 8 \<Longrightarrow> length (fold (\<lambda>j r. mul_carry r (p j) (i + j)) js r) = 8
   \<and> limbs_val (fold (\<lambda>j r. mul_carry r (p j) (i + j)) js r) mod W512
     = (limbs_val r + sum_list (map (\<lambda>j. unat (p j) * 2 ^ (64 * (i + j))) js)) mod W512"
proof (induction js arbitrary: r)
  case (Cons j js)
  let ?r = "mul_carry r (p j) (i + j)"
  note m = mul_carry_value[OF Cons.prems, of "p j" "i + j"]
  have "(limbs_val ?r + x) mod W512 = (limbs_val r + unat (p j) * 2 ^ (64 * (i + j)) + x) mod W512" for x
    using m by (intro mod_add_cong_left) blast
  then show ?case using Cons.IH[of ?r] m by (simp only: fold_simps list.map sum_list.Cons add.assoc o_apply)
qed simp

lemma outer_fold_value:
  fixes p :: "nat \<Rightarrow> nat \<Rightarrow> u128"
  shows "length r = 8 \<Longrightarrow> length (fold (\<lambda>i. fold (\<lambda>j r. mul_carry r (p i j) (i + j)) js) is r) = 8
   \<and> limbs_val (fold (\<lambda>i. fold (\<lambda>j r. mul_carry r (p i j) (i + j)) js) is r) mod W512
     = (limbs_val r + sum_list (map (\<lambda>i. sum_list (map (\<lambda>j. unat (p i j) * 2 ^ (64 * (i + j))) js)) is)) mod W512"
proof (induction "is" arbitrary: r)
  case (Cons i "is")
  let ?r = "fold (\<lambda>j r. mul_carry r (p i j) (i + j)) js r"
  note m = inner_fold_value[OF Cons.prems, of "p i" i js]
  have "(limbs_val ?r + x) mod W512
      = (limbs_val r + sum_list (map (\<lambda>j. unat (p i j) * 2 ^ (64 * (i + j))) js) + x) mod W512" for x
    using m by (intro mod_add_cong_left) blast
  then show ?case using Cons.IH[of ?r] m by (simp only: fold_simps list.map sum_list.Cons add.assoc o_apply)
qed simp

lemma limbs_val_bound: "limbs_val r < 2 ^ (64 * length r)"
proof (induction r)
  case (Cons w r)
  have "unat w + 2 ^ 64 * limbs_val r < 2 ^ 64 * Suc (limbs_val r)" using limb_bound[of w] by simp
  also have "\<dots> \<le> 2 ^ 64 * 2 ^ (64 * length r)" using Cons by (intro mult_le_mono2) simp
  finally show ?case by (simp add: power_add)
qed simp

lemma limbs64_value:
  assumes "length a = 32"
  shows "of_be a = unat (limbs64 a ! 3) + unat (limbs64 a ! 2) * 2 ^ 64
     + unat (limbs64 a ! 1) * 2 ^ 128 + unat (limbs64 a ! 0) * 2 ^ 192"
proof -
  have s: "a = bslice a 0 8 @ bslice a 8 16 @ bslice a 16 24 @ bslice a 24 32"
    using assms by (simp flip: slice_split)
  have "of_be a = of_be (bslice a 0 8 @ bslice a 8 16 @ bslice a 16 24 @ bslice a 24 32)"
    using s by (rule arg_cong)
  moreover have "of_be (bslice a i (i + 8)) < 2 ^ 64" if "i + 8 \<le> 32" for i
    using of_be_bound[of "bslice a i (i + 8)"] that assms by simp
  from this[of 0] this[of 8] this[of 16] this[of 24]
  have "unat (limbs64 a ! 0) = of_be (bslice a 0 8)" "unat (limbs64 a ! 1) = of_be (bslice a 8 16)"
       "unat (limbs64 a ! 2) = of_be (bslice a 16 24)" "unat (limbs64 a ! 3) = of_be (bslice a 24 32)"
    by (simp_all add: limbs64_def unat_of_nat)
  ultimately show ?thesis using assms by (simp add: of_be_append)
qed

lemma unat_limb_product: "unat (ucast (x :: u64) * ucast (y :: u64) :: u128) = unat x * unat y"
proof -
  have "unat x * unat y < 2 ^ 64 * 2 ^ 64" by (intro mult_strict_mono limb_bound) simp_all
  then show ?thesis by (simp add: unat_word_ariths unat_ucast_u128)
qed

lemma limbs_val_zero: "limbs_val (replicate n 0) = 0"
  by (induction n) simp_all

lemma mul_limbs_value:
  assumes "length a = 32" "length b = 32"
  shows "length (mul_limbs a b) = 8" "limbs_val (mul_limbs a b) = of_be a * of_be b"
proof -
  let ?p = "\<lambda>i j. ucast (limbs64 a ! (3 - i)) * ucast (limbs64 b ! (3 - j)) :: u128"
  let ?S = "sum_list (map (\<lambda>i. sum_list (map (\<lambda>j. unat (?p i j) * 2 ^ (64 * (i + j))) [0, 1, 2, 3])) [0, 1, 2, 3])"
  have m: "length (mul_limbs a b) = 8 \<and> limbs_val (mul_limbs a b) mod W512 = ?S mod W512"
    using outer_fold_value[OF length_replicate[of 8 0], of ?p "[0, 1, 2, 3]" "[0, 1, 2, 3]"]
    by (simp only: mul_limbs_def Let_def limbs_val_zero add_0 simp_thms)
  have S: "?S = of_be a * of_be b"
    unfolding unat_limb_product limbs64_value[OF assms(1)] limbs64_value[OF assms(2)]
    by (simp add: algebra_simps)
  have "of_be a < 2 ^ 256" "of_be b < 2 ^ 256"
    using of_be_bound[of a] of_be_bound[of b] assms by simp_all
  then have "of_be a * of_be b < 2 ^ 256 * 2 ^ 256" by (intro mult_strict_mono) simp_all
  then have "of_be a * of_be b < W512" by (simp add: W512_def)
  moreover have "limbs_val (mul_limbs a b) < W512"
    using limbs_val_bound[of "mul_limbs a b"] m by (simp add: W512_def)
  ultimately show "length (mul_limbs a b) = 8" "limbs_val (mul_limbs a b) = of_be a * of_be b"
    using m unfolding S by simp_all
qed


section \<open>The 256-bit jets\<close>

lemma unat_u128_be: "length bs = 16 \<Longrightarrow> unat (u128_be bs) = of_be bs"
  using of_be_bound[of bs] by (simp add: u128_be_def unat_of_nat)

lemma parts_value:
  assumes "length a = 32" "u256_to_parts a = (hi, lo)"
  shows "of_be a = unat hi * 2 ^ 128 + unat lo"
proof -
  have "of_be a = of_be (take 16 a @ drop 16 a)" by simp
  also have "\<dots> = of_be (take 16 a) * 256 ^ 16 + of_be (drop 16 a)"
    using assms(1) by (simp only: of_be_append length_drop) simp
  finally show ?thesis using assms by (auto simp: u256_to_parts_def unat_u128_be)
qed

lemma to_be_unique: "length bs = n \<Longrightarrow> of_be bs = x \<Longrightarrow> bs = to_be n x"
  using to_be_of_be_id[of bs n] by simp

lemma parts_to_u256_eq: "parts_to_u256 hi lo = to_be 32 (unat hi * 2 ^ 128 + unat lo)"
proof (rule to_be_unique)
  have "of_be (be128 w) = unat w" for w
    using unat_bound[of w] by (simp add: be128_def of_be_to_be)
  then show "of_be (parts_to_u256 hi lo) = unat hi * 2 ^ 128 + unat lo"
    by (simp add: parts_to_u256_def of_be_append)
qed (simp add: parts_to_u256_def)

lemma extract_pair_simps [simp]: "extract_u256_pair (VPair (VU256 a) (VU256 b)) = Ok (a, b)"
  by (simp add: extract_u256_pair_def extract_u256_def as_u256_def)

lemma split_less: "lo < (2 :: nat) ^ 128 \<Longrightarrow> hi * 2 ^ 128 + lo < 2 ^ 256 \<longleftrightarrow> hi < 2 ^ 128"
  by (simp) linarith

lemma u128_of_nat: "n < 2 ^ 128 \<Longrightarrow> unat (of_nat n :: u128) = n"
  by (simp add: unat_of_nat)

definition carry_in :: "bool \<Rightarrow> u128" where
  "carry_in c = (if c then 1 else 0)"

lemma unat_carry_in [simp]: "unat (carry_in c) = of_bool c"
  by (simp add: carry_in_def)

lemma checked_add_bind:
  "Option.bind (checked_add a b) (\<lambda>h. checked_add h (carry_in c)) = Some r
   \<longleftrightarrow> unat r = unat a + unat b + of_bool c"
proof
  assume "unat r = unat a + unat b + of_bool c"
  moreover from this have "unat a + unat b < 2 ^ 128" using u128_bound[of r] by linarith
  ultimately have "checked_add a b = Some (of_nat (unat a + unat b))"
      "checked_add (of_nat (unat a + unat b)) (carry_in c) = Some r"
    by (simp_all only: checked_add_Some u128_of_nat unat_carry_in)
  then show "Option.bind (checked_add a b) (\<lambda>h. checked_add h (carry_in c)) = Some r" by simp
qed (auto simp: bind_eq_Some_conv checked_add_Some)

lemma checked_sub_bind:
  "Option.bind (checked_sub a b) (\<lambda>h. checked_sub h (carry_in c)) = Some r
   \<longleftrightarrow> unat a = unat b + of_bool c + unat r"
proof
  assume *: "unat a = unat b + of_bool c + unat r"
  then have "of_bool c + unat r < 2 ^ 128" using u128_bound[of a] by linarith
  with * have "checked_sub a b = Some (of_nat (of_bool c + unat r))"
      "checked_sub (of_nat (of_bool c + unat r)) (carry_in c) = Some r"
    by (simp_all only: checked_sub_Some u128_of_nat unat_carry_in add.assoc)
  then show "Option.bind (checked_sub a b) (\<lambda>h. checked_sub h (carry_in c)) = Some r" by simp
qed (auto simp: bind_eq_Some_conv checked_sub_Some)

lemma jet_add256_value:
  assumes "length a = 32" "length b = 32"
  shows "jet_add256 (VPair (VU256 a) (VU256 b)) =
    (if of_be a + of_be b < 2 ^ 256 then Ok (VU256 (to_be 32 (of_be a + of_be b)))
     else Err (JOverflow ''add256 overflow''))"
proof -
  obtain ah al bh bl where p: "u256_to_parts a = (ah, al)" "u256_to_parts b = (bh, bl)" by fastforce
  note v = parts_value[OF assms(1) p(1)] parts_value[OF assms(2) p(2)]
  let ?c = "2 ^ 128 \<le> unat al + unat bl"
  let ?h = "unat ah + unat bh + of_bool ?c"
  let ?hi = "Option.bind (checked_add ah bh) (\<lambda>h. checked_add h (carry_in ?c))"
  have lo: "unat (al + bl) + of_bool ?c * 2 ^ 128 = unat al + unat bl"
    using u128_bound[of al] u128_bound[of bl] by (auto simp: unat_word_ariths mod_if)
  have sum: "of_be a + of_be b = ?h * 2 ^ 128 + unat (al + bl)"
    using v lo by (simp only: add_mult_distrib)
  have iff: "of_be a + of_be b < 2 ^ 256 \<longleftrightarrow> ?h < 2 ^ 128"
    unfolding sum by (rule split_less[OF u128_bound])
  have unf: "jet_add256 (VPair (VU256 a) (VU256 b)) =
      rbind (ok_or (JOverflow ''add256 overflow'') ?hi) (\<lambda>hi. Ok (VU256 (parts_to_u256 hi (al + bl))))"
    by (simp only: jet_add256_def extract_pair_simps rbind_simps prod.case Let_def p carry_in_def)
  show ?thesis
  proof (cases ?hi)
    case None
    then have "\<not> ?h < 2 ^ 128" using checked_add_bind[of ah bh ?c "of_nat ?h"] u128_of_nat[of ?h] by auto
    then show ?thesis by (simp only: unf None iff ok_or_simps rbind_simps if_False)
  next
    case (Some hi)
    then have "unat hi = ?h" by (simp only: checked_add_bind)
    moreover from this have "?h < 2 ^ 128" using u128_bound[of hi] by simp
    ultimately show ?thesis
      unfolding unf Some iff by (simp only: ok_or_simps rbind_simps parts_to_u256_eq sum if_True)
  qed
qed

lemma jet_sub256_value:
  assumes "length a = 32" "length b = 32"
  shows "jet_sub256 (VPair (VU256 a) (VU256 b)) =
    (if of_be b \<le> of_be a then Ok (VU256 (to_be 32 (of_be a - of_be b)))
     else Err (JOverflow ''sub256 underflow''))"
proof -
  obtain ah al bh bl where p: "u256_to_parts a = (ah, al)" "u256_to_parts b = (bh, bl)" by fastforce
  note v = parts_value[OF assms(1) p(1)] parts_value[OF assms(2) p(2)]
  let ?c = "al < bl"
  let ?hi = "Option.bind (checked_sub ah bh) (\<lambda>h. checked_sub h (carry_in ?c))"
  have lo: "unat (al - bl) + unat bl = unat al + of_bool ?c * 2 ^ 128"
    using u128_bound[of al] u128_bound[of bl]
    by (auto simp: unat_sub_if' word_less_nat_alt word_le_nat_alt)
  have iff: "of_be b \<le> of_be a \<longleftrightarrow> unat bh + of_bool ?c \<le> unat ah"
    unfolding v using u128_bound[of al] u128_bound[of bl] word_less_nat_alt[of al bl]
    by (cases "al < bl") (simp_all, linarith+)
  have unf: "jet_sub256 (VPair (VU256 a) (VU256 b)) =
      rbind (ok_or (JOverflow ''sub256 underflow'') ?hi) (\<lambda>hi. Ok (VU256 (parts_to_u256 hi (al - bl))))"
    by (simp only: jet_sub256_def extract_pair_simps rbind_simps prod.case Let_def p carry_in_def)
  show ?thesis
  proof (cases ?hi)
    case None
    have "\<not> unat bh + of_bool ?c \<le> unat ah"
    proof
      assume le: "unat bh + of_bool ?c \<le> unat ah"
      let ?d = "unat ah - (unat bh + of_bool ?c)"
      have "unat (of_nat ?d :: u128) = ?d" using u128_bound[of ah] by (intro u128_of_nat) linarith
      then have "?hi = Some (of_nat ?d)" using le by (simp only: checked_sub_bind le_add_diff_inverse)
      then show False using None by simp
    qed
    then show ?thesis by (simp only: unf None iff ok_or_simps rbind_simps if_False)
  next
    case (Some hi)
    then have hi: "unat ah = unat bh + of_bool ?c + unat hi" by (simp only: checked_sub_bind)
    have "of_be a = of_be b + (unat hi * 2 ^ 128 + unat (al - bl))"
      unfolding v hi using lo by (simp only: add_mult_distrib)
    then have "of_be a - of_be b = unat hi * 2 ^ 128 + unat (al - bl)" by simp
    moreover have "unat bh + of_bool ?c \<le> unat ah" using hi by simp
    ultimately show ?thesis
      unfolding unf Some iff by (simp only: ok_or_simps rbind_simps parts_to_u256_eq if_True)
  qed
qed

lemma limbs_val_append: "limbs_val (xs @ ys) = limbs_val xs + 2 ^ (64 * length xs) * limbs_val ys"
  by (induction xs) (simp_all add: power_add algebra_simps)

lemma list8: "length r = 8 \<Longrightarrow> r = [r ! 0, r ! 1, r ! 2, r ! 3] @ [r ! 4, r ! 5, r ! 6, r ! 7]"
  by (auto simp: length_Suc_conv numeral_eq_Suc)

lemma mul_u256_full_value:
  assumes "length a = 32" "length b = 32"
  shows "mul_u256_full a b =
    (if of_be a * of_be b < 2 ^ 256 then Ok (to_be 32 (of_be a * of_be b))
     else Err (JOverflow ''mul256 overflow''))"
proof -
  define r where "r = mul_limbs a b"
  let ?lo = "[r ! 0, r ! 1, r ! 2, r ! 3]" and ?hi = "[r ! 4, r ! 5, r ! 6, r ! 7]"
  have r: "length r = 8" "limbs_val r = of_be a * of_be b"
    using mul_limbs_value[OF assms] by (simp_all add: r_def)
  have split: "of_be a * of_be b = limbs_val ?lo + 2 ^ 256 * limbs_val ?hi"
    using limbs_val_append[of ?lo ?hi] unfolding r(2)[symmetric]
    by (subst list8[OF r(1)]) simp
  have lo: "limbs_val ?lo < 2 ^ 256" using limbs_val_bound[of ?lo] by simp
  have hi: "limbs_val ?hi = 0 \<longleftrightarrow> \<not> (r ! 4 \<noteq> 0 \<or> r ! 5 \<noteq> 0 \<or> r ! 6 \<noteq> 0 \<or> r ! 7 \<noteq> 0)"
    by (auto simp: unat_eq_0)
  have iff: "of_be a * of_be b < 2 ^ 256 \<longleftrightarrow> limbs_val ?hi = 0"
    unfolding split using lo by (cases "limbs_val ?hi") simp_all
  show ?thesis
  proof (cases "limbs_val ?hi = 0")
    case True
    have "of_be (be64 w) = unat w" for w using limb_bound[of w] by (simp add: be64_def of_be_to_be)
    then have "be64 (r ! 3) @ be64 (r ! 2) @ be64 (r ! 1) @ be64 (r ! 0) = to_be 32 (limbs_val ?lo)"
      by (intro to_be_unique) (simp_all add: of_be_append be64_def)
    then show ?thesis using True split hi iff
      by (simp only: mul_u256_full_def Let_def flip: r_def) simp
  next
    case False
    then show ?thesis using hi iff by (simp only: mul_u256_full_def Let_def if_False flip: r_def) simp
  qed
qed

lemma mul256_early:
  fixes ah al bh bl :: u128
  assumes "checked_mul ah bl = None"
  shows "2 ^ 256 \<le> (unat ah * 2 ^ 128 + unat al) * (unat bh * 2 ^ 128 + unat bl)"
proof -
  have "2 ^ 128 \<le> unat ah * unat bl" using assms by (simp add: checked_None)
  then have "2 ^ 128 * 2 ^ 128 \<le> 2 ^ 128 * (unat ah * unat bl)" by (rule mult_le_mono2)
  also have "\<dots> = (unat ah * 2 ^ 128) * unat bl" by (simp only: ac_simps)
  also have "\<dots> \<le> (unat ah * 2 ^ 128 + unat al) * (unat bh * 2 ^ 128 + unat bl)"
    by (intro mult_le_mono) simp_all
  finally show ?thesis by simp
qed

lemma mul256_high:
  fixes ah al bh bl :: u128
  assumes "ah > 0" "bh > 0"
  shows "2 ^ 256 \<le> (unat ah * 2 ^ 128 + unat al) * (unat bh * 2 ^ 128 + unat bl)"
proof -
  have "2 ^ 128 * 2 ^ 128 \<le> (unat ah * 2 ^ 128 + unat al) * (unat bh * 2 ^ 128 + unat bl)"
    using assms by (intro mult_le_mono trans_le_add1) (simp_all add: word_less_nat_alt)
  then show ?thesis by simp
qed

lemma jet_mul256_value:
  assumes "length a = 32" "length b = 32"
  shows "jet_mul256 (VPair (VU256 a) (VU256 b)) =
    (if of_be a * of_be b < 2 ^ 256 then Ok (VU256 (to_be 32 (of_be a * of_be b)))
     else Err (JOverflow ''mul256 overflow''))"
proof -
  obtain ah al bh bl where p: "u256_to_parts a = (ah, al)" "u256_to_parts b = (bh, bl)" by fastforce
  note v = parts_value[OF assms(1) p(1)] parts_value[OF assms(2) p(2)]
  let ?e1 = "ah > 0 \<and> (bh > 0 \<or> bl > 0) \<and> (bh > 0 \<or> checked_mul ah bl = None)"
  let ?e2 = "bh > 0 \<and> al > 0 \<and> checked_mul bh al = None"
  have e: "2 ^ 256 \<le> of_be a * of_be b" if "?e1 \<or> ?e2"
    using that mul256_early[of ah bl al bh] mul256_early[of bh al bl ah] mul256_high[of ah bh al bl]
    unfolding v by (auto simp only: mult.commute)
  have unf: "jet_mul256 (VPair (VU256 a) (VU256 b)) =
      (if ?e1 then Err (JOverflow ''mul256 overflow'') else if ?e2 then Err (JOverflow ''mul256 overflow'')
       else rbind (mul_u256_full a b) (\<lambda>r. Ok (VU256 r)))"
    by (simp only: jet_mul256_def extract_pair_simps rbind_simps prod.case Let_def p)
  show ?thesis
  proof (cases "?e1 \<or> ?e2")
    case True
    then have "\<not> of_be a * of_be b < 2 ^ 256" using e by simp
    moreover have "jet_mul256 (VPair (VU256 a) (VU256 b)) = Err (JOverflow ''mul256 overflow'')"
      unfolding unf using True by argo
    ultimately show ?thesis by (simp only: if_False)
  next
    case False
    then have f: "?e1 = False" "?e2 = False" by blast+
    show ?thesis unfolding unf f mul_u256_full_value[OF assms] by simp
  qed
qed

lemma zero_array: "length b = 32 \<Longrightarrow> b = replicate 32 0 \<longleftrightarrow> of_be b = 0"
  using of_be_inj[of b "replicate 32 0"] by auto

lemma mod_round_snd:
  "snd (fold (div_round (\<lambda>x y. cmp_u256 x y \<ge> 0) sub_u256_unchecked a b) is qr)
   = fold (mod_round a b) is (snd qr)"
proof (induction "is" arbitrary: qr)
  case (Cons i "is")
  have "snd (div_round (\<lambda>x y. cmp_u256 x y \<ge> 0) sub_u256_unchecked a b i qr) = mod_round a b i (snd qr)"
    by (cases qr) (simp add: div_round_def mod_round_def Let_def)
  then show ?case using Cons.IH by simp
qed simp

lemma div_u256_value:
  assumes "length a = 32" "length b = 32" "of_be b \<noteq> 0"
  shows "div_u256 a b = to_be 32 (of_be a div of_be b)" "mod_u256 a b = to_be 32 (of_be a mod of_be b)"
proof -
  have lt: "cmp_u256 a b < 0 \<longleftrightarrow> of_be a < of_be b" using assms by (simp add: cmp_u256_value)
  note ld = jet_div.long_div_value[of a b] assms
  have m: "fold (mod_round a b) [0..<256] (replicate 32 0)
      = snd (long_div (\<lambda>x y. cmp_u256 x y \<ge> 0) sub_u256_unchecked a b)"
    unfolding long_div_def mod_round_snd by simp
  show "div_u256 a b = to_be 32 (of_be a div of_be b)"
    using ld by (intro to_be_unique) (simp_all add: div_u256_def lt)
  show "mod_u256 a b = to_be 32 (of_be a mod of_be b)"
    using ld by (intro to_be_unique) (simp_all add: mod_u256_def lt m)
qed

lemma jet_div256_value:
  assumes "length a = 32" "length b = 32"
  shows "jet_div256 (VPair (VU256 a) (VU256 b)) =
    (if of_be b = 0 then Err JDivisionByZero else Ok (VU256 (to_be 32 (of_be a div of_be b))))"
    "jet_mod256 (VPair (VU256 a) (VU256 b)) =
    (if of_be b = 0 then Err JDivisionByZero else Ok (VU256 (to_be 32 (of_be a mod of_be b))))"
  using assms by (simp_all add: jet_div256_def jet_mod256_def zero_array div_u256_value)


section \<open>The arithmetic meaning\<close>

definition u256_jets :: "JetId list" where
  "u256_jets = [Add256, Sub256, Mul256, Div256, Mod256, Eq256, Lt256, Gt256]"

text \<open>What each jet means on the numbers its operands denote.\<close>

definition u256_spec :: "JetId \<Rightarrow> nat \<Rightarrow> nat \<Rightarrow> JetError + Value" where
  "u256_spec j m n = (let num = \<lambda>x. Ok (VU256 (to_be 32 x)) in
     if j = Add256 then (if m + n < 2 ^ 256 then num (m + n) else Err (JOverflow ''add256 overflow''))
     else if j = Sub256 then (if n \<le> m then num (m - n) else Err (JOverflow ''sub256 underflow''))
     else if j = Mul256 then (if m * n < 2 ^ 256 then num (m * n) else Err (JOverflow ''mul256 overflow''))
     else if j = Div256 then (if n = 0 then Err JDivisionByZero else num (m div n))
     else if j = Mod256 then (if n = 0 then Err JDivisionByZero else num (m mod n))
     else if j = Eq256 then Ok (VBool (m = n))
     else if j = Lt256 then Ok (VBool (m < n))
     else Ok (VBool (n < m)))"

lemma jet_cmp256_value:
  assumes "length a = 32" "length b = 32"
  shows "jet_eq256 (VPair (VU256 a) (VU256 b)) = Ok (VBool (of_be a = of_be b))"
    "jet_lt256 (VPair (VU256 a) (VU256 b)) = Ok (VBool (of_be a < of_be b))"
    "jet_gt256 (VPair (VU256 a) (VU256 b)) = Ok (VBool (of_be b < of_be a))"
  using assms of_be_inj[of a b]
  by (auto simp: jet_eq256_def jet_lt256_def jet_gt256_def cmp_u256_value)

text \<open>C32. Each 256-bit jet, run through the dispatcher on two 32-byte operands, returns exactly
  what its arithmetic meaning says: the sum, difference, product, quotient or remainder of the
  two numbers as a 32-byte big-endian array when it exists and fits, the jet's overflow,
  underflow or division-by-zero error otherwise, and the truth value of the comparison.\<close>

theorem u256_jets_correct:
  assumes "length a = 32" "length b = 32" "j \<in> set u256_jets"
  shows "jet_eval C j (VPair (VU256 a) (VU256 b)) ctx = u256_spec j (of_be a) (of_be b)"
  using assms(3) unfolding u256_jets_def list.set insert_iff empty_iff
  by (elim disjE FalseE; hypsubst)
     (simp_all only: jet_eval_def JetId.case u256_spec_def Let_def JetId.distinct simp_thms if_True if_False
       jet_add256_value[OF assms(1,2)] jet_sub256_value[OF assms(1,2)] jet_mul256_value[OF assms(1,2)]
       jet_div256_value[OF assms(1,2)] jet_cmp256_value[OF assms(1,2)])

theorem u256_jets_correct_witness:
  "jet_eval toy_crypto Mul256 (VPair (VU256 (to_be 32 (2 ^ 200 + 3))) (VU256 (to_be 32 (2 ^ 50)))) empty_context
   = u256_spec Mul256 (2 ^ 200 + 3) (2 ^ 50)"
  using u256_jets_correct[of "to_be 32 (2 ^ 200 + 3)" "to_be 32 (2 ^ 50)" Mul256 toy_crypto empty_context]
  by (simp add: of_be_to_be u256_jets_def)

end
