(* ===== verification/Transactions.thy ===== *)
theory Transactions
  imports Primitives
begin

text \<open>
  The wire format and the identifiers of transactions, \<open>types/transaction.rs\<close>.
  Serializers fail with a \<open>SerError\<close> where the source does; deserializers
  return the value and the number of bytes consumed. The interpolated numbers of
  an error message are dropped, the rest of its text is kept.
\<close>


section \<open>Data\<close>

datatype SerError = UnexpectedEof | InvalidData string | InvalidLength

record TxInput =
  prev_tx_id :: bytes
  output_index :: u32

record TxOutput =
  out_value :: u64
  out_script :: bytes
  datum :: "bytes option"
  datum_hash :: "bytes option"

record TxWitness =
  witness :: bytes
  redeemer :: "bytes option"

record Transaction =
  inputs :: "TxInput list"
  outputs :: "TxOutput list"
  witnesses :: "TxWitness list"

record OutPoint =
  op_tx_id :: bytes
  op_output_index :: u32


section \<open>Variable-length byte strings\<close>

definition serialize_varbytes :: "bytes \<Rightarrow> SerError + bytes" where
  "serialize_varbytes data =
     (if length data > 65535 then Err (InvalidData ''varbytes length exceeds u16::MAX'')
      else Ok (le16 (of_nat (length data)) @ data))"

definition deserialize_varbytes :: "bytes \<Rightarrow> SerError + bytes \<times> nat" where
  "deserialize_varbytes data =
     (if length data < 2 then Err UnexpectedEof
      else let len = unat (u16_le (bslice data 0 2)) in
        if length data < 2 + len then Err UnexpectedEof
        else Ok (bslice data 2 (2 + len), 2 + len))"


section \<open>Inputs\<close>

definition TxInput_serialize :: "TxInput \<Rightarrow> bytes" where
  "TxInput_serialize i = prev_tx_id i @ le32 (output_index i)"

abbreviation TxInput_enc :: "TxInput \<Rightarrow> SerError + bytes" where
  "TxInput_enc \<equiv> \<lambda>i. Ok (TxInput_serialize i)"

definition TxInput_deserialize :: "bytes \<Rightarrow> SerError + TxInput \<times> nat" where
  "TxInput_deserialize data =
     (if length data < 36 then Err UnexpectedEof
      else Ok (\<lparr>prev_tx_id = bslice data 0 32, output_index = u32_le (bslice data 32 36)\<rparr>, 36))"

definition wf_input :: "TxInput \<Rightarrow> bool" where
  "wf_input i \<longleftrightarrow> is_hash256 (prev_tx_id i)"


section \<open>Outputs\<close>

definition pubkey_hash_from_key :: "crypto \<Rightarrow> bytes \<Rightarrow> bytes" where
  "pubkey_hash_from_key C pubkey = domain_hash C DS_ADDR pubkey"

definition new_p2pkh :: "crypto \<Rightarrow> u64 \<Rightarrow> bytes \<Rightarrow> TxOutput" where
  "new_p2pkh C v pubkey =
     \<lparr>out_value = v, out_script = pubkey_hash_from_key C pubkey, datum = None, datum_hash = None\<rparr>"

definition serialize_opt_varbytes :: "bytes option \<Rightarrow> SerError + bytes" where
  "serialize_opt_varbytes x = (case x of
     Some d \<Rightarrow> rbind (serialize_varbytes d) (\<lambda>b. Ok (1 # b))
   | None \<Rightarrow> Ok [0])"

definition serialize_opt_hash :: "bytes option \<Rightarrow> bytes" where
  "serialize_opt_hash x = (case x of Some h \<Rightarrow> 1 # h | None \<Rightarrow> [0])"

definition TxOutput_serialize :: "TxOutput \<Rightarrow> SerError + bytes" where
  "TxOutput_serialize out =
     rbind (serialize_varbytes (out_script out)) (\<lambda>script.
     rbind (serialize_opt_varbytes (datum out)) (\<lambda>d.
     Ok (le64 (out_value out) @ script @ d @ serialize_opt_hash (datum_hash out))))"

text \<open>The optional fields: a flag that must be 0 or 1, then the field. Both return the
  field and the position after it.\<close>

definition deserialize_opt_varbytes ::
    "string \<Rightarrow> string \<Rightarrow> nat \<Rightarrow> bytes \<Rightarrow> nat \<Rightarrow> SerError + bytes option \<times> nat" where
  "deserialize_opt_varbytes flag_msg size_msg lim data pos =
     (if pos \<ge> length data then Err UnexpectedEof
      else let has = data ! pos; pos = pos + 1 in
        if has > 1 then Err (InvalidData flag_msg)
        else if has = 1 then
          rbind (deserialize_varbytes (drop pos data)) (\<lambda>(d, consumed).
          if length d > lim then Err (InvalidData size_msg) else Ok (Some d, pos + consumed))
        else Ok (None, pos))"

definition deserialize_opt_hash :: "string \<Rightarrow> bytes \<Rightarrow> nat \<Rightarrow> SerError + bytes option \<times> nat" where
  "deserialize_opt_hash flag_msg data pos =
     (if pos \<ge> length data then Err UnexpectedEof
      else let has = data ! pos; pos = pos + 1 in
        if has > 1 then Err (InvalidData flag_msg)
        else if has = 1 then
          (if length data < pos + 32 then Err UnexpectedEof
           else Ok (Some (bslice data pos (pos + 32)), pos + 32))
        else Ok (None, pos))"

definition TxOutput_deserialize :: "bytes \<Rightarrow> SerError + TxOutput \<times> nat" where
  "TxOutput_deserialize data =
     (if length data < 8 then Err UnexpectedEof
      else let v = u64_le (bslice data 0 8); pos = 8 in
        rbind (deserialize_varbytes (drop pos data)) (\<lambda>(script, consumed).
        rbind (deserialize_opt_varbytes ''non-canonical has_datum flag'' ''datum size exceeds maximum''
                 MAX_DATUM_SIZE data (pos + consumed)) (\<lambda>(d, pos).
        rbind (deserialize_opt_hash ''non-canonical has_datum_hash flag'' data pos) (\<lambda>(dh, pos).
        Ok (\<lparr>out_value = v, out_script = script, datum = d, datum_hash = dh\<rparr>, pos)))))"

definition wf_output :: "TxOutput \<Rightarrow> bool" where
  "wf_output out \<longleftrightarrow> pred_option (\<lambda>d. length d \<le> MAX_DATUM_SIZE) (datum out)
     \<and> pred_option is_hash256 (datum_hash out)"


section \<open>Witnesses\<close>

definition TxWitness_serialize :: "TxWitness \<Rightarrow> SerError + bytes" where
  "TxWitness_serialize w =
     rbind (serialize_varbytes (witness w)) (\<lambda>b.
     rbind (serialize_opt_varbytes (redeemer w)) (\<lambda>r. Ok (b @ r)))"

definition TxWitness_deserialize :: "bytes \<Rightarrow> SerError + TxWitness \<times> nat" where
  "TxWitness_deserialize data =
     rbind (deserialize_varbytes data) (\<lambda>(w, consumed).
     rbind (deserialize_opt_varbytes ''non-canonical has_redeemer flag'' ''redeemer size exceeds maximum''
              MAX_REDEEMER_SIZE data consumed) (\<lambda>(r, pos).
     Ok (\<lparr>witness = w, redeemer = r\<rparr>, pos)))"

definition wf_witness :: "TxWitness \<Rightarrow> bool" where
  "wf_witness w \<longleftrightarrow> pred_option (\<lambda>r. length r \<le> MAX_REDEEMER_SIZE) (redeemer w)"


section \<open>Transactions\<close>

definition serialize_header :: "Transaction \<Rightarrow> SerError + bytes" where
  "serialize_header tx =
     (if length (inputs tx) > 65535 then Err (InvalidData ''input count exceeds u16::MAX'')
      else if length (outputs tx) > 65535 then Err (InvalidData ''output count exceeds u16::MAX'')
      else Ok (le16 (of_nat (length (inputs tx))) @ le16 (of_nat (length (outputs tx)))))"

definition serialize_body :: "Transaction \<Rightarrow> SerError + bytes" where
  "serialize_body tx =
     rbind (enc_loop TxInput_enc (inputs tx)) (\<lambda>ins.
     rbind (enc_loop TxOutput_serialize (outputs tx)) (\<lambda>outs. Ok (ins @ outs)))"

definition signing_bytes :: "Transaction \<Rightarrow> SerError + bytes" where
  "signing_bytes tx =
     rbind (serialize_header tx) (\<lambda>hd.
     rbind (serialize_body tx) (\<lambda>body. Ok (hd @ body)))"

definition Transaction_serialize :: "Transaction \<Rightarrow> SerError + bytes" where
  "Transaction_serialize tx =
     rbind (serialize_header tx) (\<lambda>hd.
     rbind (serialize_body tx) (\<lambda>body.
     rbind (enc_loop TxWitness_serialize (witnesses tx)) (\<lambda>wits. Ok (hd @ body @ wits))))"

definition compute_tx_id :: "crypto \<Rightarrow> Transaction \<Rightarrow> SerError + bytes" where
  "compute_tx_id C tx = rbind (signing_bytes tx) (\<lambda>b. Ok (domain_hash C DS_TX b))"

definition wtx_id :: "crypto \<Rightarrow> Transaction \<Rightarrow> SerError + bytes" where
  "wtx_id C tx = rbind (Transaction_serialize tx) (\<lambda>b. Ok (domain_hash C DS_WTXID b))"

text \<open>The signature domain is the genesis block id, a value bound once per process.\<close>

definition sig_message :: "bytes \<Rightarrow> Transaction \<Rightarrow> SerError + bytes" where
  "sig_message genesis_id tx = rbind (signing_bytes tx) (\<lambda>b. Ok (DS_SIG @ genesis_id @ b))"

definition Transaction_deserialize :: "bytes \<Rightarrow> SerError + Transaction \<times> nat" where
  "Transaction_deserialize data =
     (if length data < 4 then Err UnexpectedEof
      else let
          input_count = unat (u16_le (bslice data 0 2));
          output_count = unat (u16_le (bslice data 2 4));
          remaining = length data - 4;
          min_needed = input_count * 36 + output_count * 12 + input_count * 3 in
        if remaining < min_needed then Err UnexpectedEof
        else
          rbind (dec_loop TxInput_deserialize input_count data 4) (\<lambda>(ins, pos).
          rbind (dec_loop TxOutput_deserialize output_count data pos) (\<lambda>(outs, pos).
          rbind (dec_loop TxWitness_deserialize input_count data pos) (\<lambda>(wits, pos).
          Ok (\<lparr>inputs = ins, outputs = outs, witnesses = wits\<rparr>, pos)))))"

definition is_coinbase :: "Transaction \<Rightarrow> bool" where
  "is_coinbase tx \<longleftrightarrow> length (inputs tx) = 1 \<and> prev_tx_id (inputs tx ! 0) = ZERO"

definition serialized_size :: "Transaction \<Rightarrow> SerError + nat" where
  "serialized_size tx = rbind (Transaction_serialize tx) (\<lambda>b. Ok (length b))"

definition OutPoint_serialize :: "OutPoint \<Rightarrow> bytes" where
  "OutPoint_serialize op = op_tx_id op @ le32 (op_output_index op)"

text \<open>The transactions that can be on the wire: hashes of 32 bytes, one witness per
  input, datums and redeemers within their limits.\<close>

definition wf_transaction :: "Transaction \<Rightarrow> bool" where
  "wf_transaction tx \<longleftrightarrow> list_all wf_input (inputs tx) \<and> list_all wf_output (outputs tx)
     \<and> list_all wf_witness (witnesses tx) \<and> length (witnesses tx) = length (inputs tx)"


section \<open>The codecs\<close>

interpretation vb: codec serialize_varbytes deserialize_varbytes "\<lambda>_. True"
proof
  fix x b r
  assume "serialize_varbytes x = Ok b"
  then have "length x \<le> 65535" "b = le16 (of_nat (length x)) @ x"
    by (auto simp: serialize_varbytes_def split: if_splits)
  then show "deserialize_varbytes (b @ r) = Ok (x, length b)"
    using slice_prefix[of "le16 (of_nat (length x))"]
    by (simp add: deserialize_varbytes_def unat_of_nat_u16 slice_append_right)
next
  fix d x n
  assume "deserialize_varbytes d = Ok (x, n)"
  then have d: "2 \<le> length d" "n = 2 + unat (u16_le (bslice d 0 2))" "n \<le> length d" "x = bslice d 2 n"
    by (auto simp: deserialize_varbytes_def Let_def split: if_splits)
  have "length x = unat (u16_le (bslice d 0 2))" using d by simp
  moreover have "length x < 65536" using calculation unat_bound[of "u16_le (bslice d 0 2)"] by simp
  moreover have "take n d = bslice d 0 2 @ x" using d take_add_slice[of 2 "n - 2" d] by (simp add: bslice_def)
  ultimately show "True \<and> n \<le> length d \<and> serialize_varbytes x = Ok (take n d)"
    using d(1,3) le_word_roundtrip(1)[of "bslice d 0 2"] by (simp add: serialize_varbytes_def)
qed

lemmas hash_simps = is_hash256_def slice_append_right

interpretation ti: codec_min TxInput_enc TxInput_deserialize wf_input 36
proof
  fix x b r
  assume "wf_input x" "TxInput_enc x = Ok b"
  then show "TxInput_deserialize (b @ r) = Ok (x, length b)"
    by (auto simp: TxInput_deserialize_def TxInput_serialize_def wf_input_def hash_simps)
next
  fix d x n
  assume "TxInput_deserialize d = Ok (x, n)"
  then show "wf_input x \<and> n \<le> length d \<and> TxInput_enc x = Ok (take n d)"
    using take_add_slice[of 32 4 d]
    by (auto simp: TxInput_deserialize_def TxInput_serialize_def wf_input_def is_hash256_def
        le_word_roundtrip bslice_def split: if_splits)
next
  fix x b
  assume "wf_input x" "TxInput_enc x = Ok b"
  then show "36 \<le> length b"
    by (auto simp: TxInput_serialize_def wf_input_def is_hash256_def)
qed

text \<open>The optional fields are read at a position inside a longer string.\<close>

lemma byte_flag: "\<not> 1 < (b :: byte) \<Longrightarrow> b \<noteq> 1 \<Longrightarrow> b = 0"
  by (metis antisym_conv3 word_gt_0 word_less_1)

lemma opt_varbytes_dec_enc:
  assumes "serialize_opt_varbytes x = Ok b" "pred_option (\<lambda>d. length d \<le> lim) x"
  shows "deserialize_opt_varbytes m1 m2 lim (p @ b @ r) (length p) = Ok (x, length p + length b)"
proof (cases x)
  case None
  then show ?thesis using assms
    by (auto simp: serialize_opt_varbytes_def deserialize_opt_varbytes_def nth_append)
next
  case (Some d)
  then obtain c where "serialize_varbytes d = Ok c" "b = 1 # c"
    using assms by (auto simp: serialize_opt_varbytes_def result_simps)
  then show ?thesis using Some assms vb.dec_enc[of d c r]
    by (simp add: deserialize_opt_varbytes_def nth_append)
qed

lemma opt_varbytes_canon:
  assumes "deserialize_opt_varbytes m1 m2 lim d pos = Ok (x, n)" "pos \<le> length d"
  shows "pos \<le> n \<and> n \<le> length d \<and> pred_option (\<lambda>d. length d \<le> lim) x
    \<and> serialize_opt_varbytes x = Ok (bslice d pos n)"
proof (cases "d ! pos = 1")
  case True
  then obtain y c where y: "deserialize_varbytes (drop (Suc pos) d) = Ok (y, c)" "length y \<le> lim"
      "x = Some y" "n = Suc pos + c" "pos < length d"
    using assms by (auto simp: deserialize_opt_varbytes_def Let_def result_simps split: if_splits)
  have "bslice d pos n = bslice d pos (Suc pos) @ bslice d (Suc pos) n"
    using y by (intro slice_split) auto
  then show ?thesis using vb.dec_canon[OF y(1)] y True
    by (auto simp: serialize_opt_varbytes_def slice_one) (simp add: bslice_def)
next
  case False
  then show ?thesis using assms
    by (auto simp: deserialize_opt_varbytes_def serialize_opt_varbytes_def Let_def slice_one
        dest: byte_flag split: if_splits)
qed

lemma opt_hash_dec_enc:
  "pred_option is_hash256 x \<Longrightarrow>
   deserialize_opt_hash m (p @ serialize_opt_hash x @ r) (length p) = Ok (x, length p + length (serialize_opt_hash x))"
  by (cases x) (auto simp: serialize_opt_hash_def deserialize_opt_hash_def nth_append
      is_hash256_def bslice_def)

lemma opt_hash_canon:
  assumes "deserialize_opt_hash m d pos = Ok (x, n)" "pos \<le> length d"
  shows "pos \<le> n \<and> n \<le> length d \<and> pred_option is_hash256 x \<and> serialize_opt_hash x = bslice d pos n"
proof (cases "d ! pos = 1")
  case True
  then have "x = Some (bslice d (Suc pos) n)" "n = Suc pos + 32" "pos < length d" "n \<le> length d"
    using assms by (auto simp: deserialize_opt_hash_def Let_def split: if_splits)
  then show ?thesis using slice_split[of pos "Suc pos" n d] True
    by (simp add: serialize_opt_hash_def slice_one is_hash256_def)
next
  case False
  then show ?thesis using assms
    by (auto simp: deserialize_opt_hash_def serialize_opt_hash_def Let_def slice_one
        dest: byte_flag split: if_splits)
qed


lemma TxOutput_serialize_Ok:
  "TxOutput_serialize out = Ok b \<longleftrightarrow>
   (\<exists>sc d. serialize_varbytes (out_script out) = Ok sc \<and> serialize_opt_varbytes (datum out) = Ok d
      \<and> b = le64 (out_value out) @ sc @ d @ serialize_opt_hash (datum_hash out))"
  by (auto simp: TxOutput_serialize_def result_simps)

lemma varbytes_min: "serialize_varbytes x = Ok b \<Longrightarrow> 2 \<le> length b"
  by (auto simp: serialize_varbytes_def split: if_splits)

lemma opt_min: "serialize_opt_varbytes x = Ok b \<Longrightarrow> 1 \<le> length b" "1 \<le> length (serialize_opt_hash y)"
  by (auto simp: serialize_opt_varbytes_def serialize_opt_hash_def result_simps split: option.splits)

interpretation txo: codec_min TxOutput_serialize TxOutput_deserialize wf_output 12
proof
  fix x b r
  assume wf: "wf_output x" and "TxOutput_serialize x = Ok b"
  then obtain sc d where b: "serialize_varbytes (out_script x) = Ok sc"
      "serialize_opt_varbytes (datum x) = Ok d"
      "b = le64 (out_value x) @ sc @ d @ serialize_opt_hash (datum_hash x)"
    by (auto simp: TxOutput_serialize_Ok)
  let ?h = "serialize_opt_hash (datum_hash x)"
  show "TxOutput_deserialize (b @ r) = Ok (x, length b)"
    using wf vb.dec_enc[OF _ b(1), of "d @ ?h @ r"]
      opt_varbytes_dec_enc[OF b(2), of MAX_DATUM_SIZE _ _ "le64 (out_value x) @ sc" "?h @ r"]
      opt_hash_dec_enc[of "datum_hash x" _ "le64 (out_value x) @ sc @ d" r]
    by (simp add: TxOutput_deserialize_def b(3) wf_output_def add.assoc)
next
  fix d x n
  assume "TxOutput_deserialize d = Ok (x, n)"
  then obtain sc c p where s: "8 \<le> length d" "deserialize_varbytes (drop 8 d) = Ok (sc, c)"
      "deserialize_opt_varbytes ''non-canonical has_datum flag'' ''datum size exceeds maximum''
         MAX_DATUM_SIZE d (8 + c) = Ok (datum x, p)"
      "deserialize_opt_hash ''non-canonical has_datum_hash flag'' d p = Ok (datum_hash x, n)"
      "out_value x = u64_le (bslice d 0 8)" "out_script x = sc"
    by (auto simp: TxOutput_deserialize_def Let_def result_simps split: if_splits prod.splits)
  note v = vb.dec_canon[OF s(2)]
  with s(1) have "8 + c \<le> length d" by auto
  note o1 = opt_varbytes_canon[OF s(3) this]
  then have "p \<le> length d" by simp
  note o2 = opt_hash_canon[OF s(4) this]
  have "take n d = bslice d 0 8 @ bslice d 8 (8 + c) @ bslice d (8 + c) p @ bslice d p n"
    using o1 o2 s(1) slice_split[of 0 8 n d] slice_split[of 8 "8 + c" n d] slice_split[of "8 + c" p n d]
    by (simp add: bslice_def)
  moreover have "take c (drop 8 d) = bslice d 8 (8 + c)" by (simp add: bslice_def)
  ultimately show "wf_output x \<and> n \<le> length d \<and> TxOutput_serialize x = Ok (take n d)"
    using v o1 o2 s(1,5,6) by (simp add: TxOutput_serialize_def wf_output_def le_word_roundtrip)
next
  fix x b
  assume "wf_output x" "TxOutput_serialize x = Ok b"
  then show "12 \<le> length b"
    using opt_min(2)[of "datum_hash x"]
    by (auto simp: TxOutput_serialize_Ok dest!: varbytes_min opt_min(1))
qed

interpretation tw: codec_min TxWitness_serialize TxWitness_deserialize wf_witness 3
proof
  fix x b r
  assume wf: "wf_witness x" and "TxWitness_serialize x = Ok b"
  then obtain w d where b: "serialize_varbytes (witness x) = Ok w"
      "serialize_opt_varbytes (redeemer x) = Ok d" "b = w @ d"
    by (auto simp: TxWitness_serialize_def result_simps)
  show "TxWitness_deserialize (b @ r) = Ok (x, length b)"
    using wf vb.dec_enc[OF _ b(1), of "d @ r"]
      opt_varbytes_dec_enc[OF b(2), of MAX_REDEEMER_SIZE _ _ w r]
    by (simp add: TxWitness_deserialize_def b(3) wf_witness_def)
next
  fix d x n
  assume "TxWitness_deserialize d = Ok (x, n)"
  then obtain c where s: "deserialize_varbytes d = Ok (witness x, c)"
      "deserialize_opt_varbytes ''non-canonical has_redeemer flag'' ''redeemer size exceeds maximum''
         MAX_REDEEMER_SIZE d c = Ok (redeemer x, n)"
    by (auto simp: TxWitness_deserialize_def Let_def result_simps split: prod.splits)
  note v = vb.dec_canon[OF s(1)]
  then have "c \<le> length d" by simp
  note o1 = opt_varbytes_canon[OF s(2) this]
  have "take n d = take c d @ bslice d c n" using o1 slice_split[of 0 c n d] by (simp add: bslice_def)
  then show "wf_witness x \<and> n \<le> length d \<and> TxWitness_serialize x = Ok (take n d)"
    using v o1 by (simp add: TxWitness_serialize_def wf_witness_def)
next
  fix x b
  assume "wf_witness x" "TxWitness_serialize x = Ok b"
  then show "3 \<le> length b"
    by (auto simp: TxWitness_serialize_def result_simps dest!: varbytes_min opt_min(1))
qed

lemma Transaction_serialize_Ok:
  "Transaction_serialize tx = Ok b \<longleftrightarrow> length (inputs tx) \<le> 65535 \<and> length (outputs tx) \<le> 65535 \<and>
   (\<exists>i u w. enc_loop TxInput_enc (inputs tx) = Ok i
      \<and> enc_loop TxOutput_serialize (outputs tx) = Ok u
      \<and> enc_loop TxWitness_serialize (witnesses tx) = Ok w
      \<and> b = le16 (of_nat (length (inputs tx))) @ le16 (of_nat (length (outputs tx))) @ i @ u @ w)"
  by (auto simp: Transaction_serialize_def serialize_header_def serialize_body_def result_simps)

interpretation tx: codec_min Transaction_serialize Transaction_deserialize wf_transaction 4
proof
  fix t b r
  assume wf: "wf_transaction t" and "Transaction_serialize t = Ok b"
  then obtain i u w where n: "length (inputs t) \<le> 65535" "length (outputs t) \<le> 65535"
      and e: "enc_loop TxInput_enc (inputs t) = Ok i"
      "enc_loop TxOutput_serialize (outputs t) = Ok u" "enc_loop TxWitness_serialize (witnesses t) = Ok w"
      and b: "b = le16 (of_nat (length (inputs t))) @ le16 (of_nat (length (outputs t))) @ i @ u @ w"
    by (auto simp: Transaction_serialize_Ok)
  let ?h = "le16 (of_nat (length (inputs t))) @ le16 (of_nat (length (outputs t)))"
  have wfs: "list_all wf_input (inputs t)" "list_all wf_output (outputs t)"
      "list_all wf_witness (witnesses t)" "length (witnesses t) = length (inputs t)"
    using wf by (simp_all add: wf_transaction_def)
  have "length (inputs t) * 36 \<le> length i" "length (outputs t) * 12 \<le> length u"
      "length (inputs t) * 3 \<le> length w"
    using ti.enc_loop_min[OF wfs(1) e(1)] txo.enc_loop_min[OF wfs(2) e(2)]
      tw.enc_loop_min[OF wfs(3) e(3)] wfs(4) by simp_all
  then show "Transaction_deserialize (b @ r) = Ok (t, length b)"
    using n ti.dec_loop_at[OF wfs(1) e(1) refl, of ?h 4 "u @ w @ r"]
      txo.dec_loop_at[OF wfs(2) e(2) refl, of "?h @ i" "4 + length i" "w @ r"]
      tw.dec_loop_at[OF wfs(3) e(3) wfs(4), of "?h @ i @ u" "4 + length i + length u" r]
    by (simp add: Transaction_deserialize_def Let_def b slice_append_right unat_of_nat_u16)
next
  fix d t n
  assume "Transaction_deserialize d = Ok (t, n)"
  then obtain p q where l: "4 \<le> length d"
      and s: "dec_loop TxInput_deserialize (unat (u16_le (bslice d 0 2))) d 4 = Ok (inputs t, p)"
      "dec_loop TxOutput_deserialize (unat (u16_le (bslice d 2 4))) d p = Ok (outputs t, q)"
      "dec_loop TxWitness_deserialize (unat (u16_le (bslice d 0 2))) d q = Ok (witnesses t, n)"
    by (auto simp: Transaction_deserialize_def Let_def result_simps split: if_splits prod.splits)
  note c1 = ti.dec_loop_canon[OF s(1) l]
  then have "p \<le> length d" by simp
  note c2 = txo.dec_loop_canon[OF s(2) this]
  then have "q \<le> length d" by simp
  note c3 = tw.dec_loop_canon[OF s(3) this]
  have "take n d = bslice d 0 2 @ bslice d 2 4 @ bslice d 4 p @ bslice d p q @ bslice d q n"
    using c1 c2 c3 slice_split[of 0 2 n d] slice_split[of 2 4 n d] slice_split[of 4 p n d]
      slice_split[of p q n d] by (simp add: bslice_def)
  then show "wf_transaction t \<and> n \<le> length d \<and> Transaction_serialize t = Ok (take n d)"
    using c1 c2 c3 l unat_bound[of "u16_le (bslice d 0 2)"] unat_bound[of "u16_le (bslice d 2 4)"]
    by (auto simp: wf_transaction_def Transaction_serialize_Ok le_word_roundtrip)
next
  fix t b
  assume "wf_transaction t" "Transaction_serialize t = Ok b"
  then show "4 \<le> length b" by (auto simp: Transaction_serialize_Ok)
qed


section \<open>What the identifiers commit to\<close>

text \<open>The signing bytes followed by one empty witness per input are the serialization of
  the same transaction with its witnesses emptied, so the signing bytes determine the
  inputs and the outputs.\<close>

definition empty_witnesses :: "Transaction \<Rightarrow> Transaction" where
  "empty_witnesses t = t\<lparr>witnesses := replicate (length (inputs t)) \<lparr>witness = [], redeemer = None\<rparr>\<rparr>"

lemma enc_empty_witnesses:
  "enc_loop TxWitness_serialize (replicate n \<lparr>witness = [], redeemer = None\<rparr>)
   = Ok (concat (replicate n (le16 0 @ [0])))"
  by (induction n)
     (auto simp: TxWitness_serialize_def serialize_varbytes_def serialize_opt_varbytes_def)

lemma serialize_empty_witnesses:
  "signing_bytes t = Ok b \<Longrightarrow>
   Transaction_serialize (empty_witnesses t) = Ok (b @ concat (replicate (length (inputs t)) (le16 0 @ [0])))"
  by (auto simp: Transaction_serialize_def signing_bytes_def serialize_header_def serialize_body_def
      empty_witnesses_def enc_empty_witnesses result_simps split: if_splits)

lemma wf_empty_witnesses: "wf_transaction t \<Longrightarrow> wf_transaction (empty_witnesses t)"
  by (simp add: wf_transaction_def empty_witnesses_def wf_witness_def list_all_length)

lemma signing_bytes_empty_witnesses [simp]: "signing_bytes (empty_witnesses t) = signing_bytes t"
  by (simp add: signing_bytes_def serialize_header_def serialize_body_def empty_witnesses_def)

lemma signing_bytes_input_count:
  assumes "signing_bytes t = Ok b"
  shows "length (inputs t) = unat (u16_le (take 2 b))"
proof -
  obtain body where "length (inputs t) \<le> 65535"
      "b = le16 (of_nat (length (inputs t))) @ body"
    using assms by (auto simp: signing_bytes_def serialize_header_def result_simps split: if_splits)
  then show ?thesis by (simp add: unat_of_nat_u16)
qed

lemma signing_bytes_inj:
  assumes "wf_transaction t" "wf_transaction t'" "signing_bytes t = Ok b" "signing_bytes t' = Ok b"
  shows "inputs t = inputs t' \<and> outputs t = outputs t'"
proof -
  have "length (inputs t) = length (inputs t')"
    using assms(3,4) signing_bytes_input_count by simp
  then have "Transaction_serialize (empty_witnesses t) = Transaction_serialize (empty_witnesses t')"
    using assms(3,4) by (simp add: serialize_empty_witnesses)
  then have "empty_witnesses t = empty_witnesses t'"
    using tx.dec_enc[of "empty_witnesses t" _ "[]"] tx.dec_enc[of "empty_witnesses t'" _ "[]"]
      serialize_empty_witnesses[OF assms(3)] assms(1,2) wf_empty_witnesses
    by (metis Inr_inject Pair_inject)
  then show ?thesis by (cases t; cases t') (simp add: empty_witnesses_def)
qed

definition tx_id_preimage :: "Transaction \<Rightarrow> bytes" where
  "tx_id_preimage t = (case signing_bytes t of Inr b \<Rightarrow> domain_preimage DS_TX b | Inl _ \<Rightarrow> [])"


section \<open>Properties\<close>

text \<open>The transactions the witnesses use: one input, an output with a datum and a datum
  hash, and a witness with a redeemer.\<close>

definition sample_tx :: Transaction where
  "sample_tx = \<lparr>
     inputs = [\<lparr>prev_tx_id = replicate 32 7, output_index = 3\<rparr>],
     outputs = [\<lparr>out_value = 1000, out_script = replicate 32 9, datum = Some [1, 2],
                 datum_hash = Some (replicate 32 4)\<rparr>],
     witnesses = [\<lparr>witness = [5, 6], redeemer = Some [8]\<rparr>]\<rparr>"

lemma sample_tx_wf: "wf_transaction sample_tx"
  by (simp add: sample_tx_def wf_transaction_def wf_input_def wf_output_def wf_witness_def
      is_hash256_def constants)

lemma sample_tx_bytes: "\<exists>b. signing_bytes sample_tx = Ok b" "\<exists>b. Transaction_serialize sample_tx = Ok b"
  by (simp_all add: sample_tx_def signing_bytes_def Transaction_serialize_def serialize_header_def
      serialize_body_def TxOutput_serialize_def TxWitness_serialize_def serialize_varbytes_def
      serialize_opt_varbytes_def)

text \<open>C33. A well-formed transaction is read back from its own wire encoding, whatever bytes
  follow, with exactly the bytes of the encoding consumed.\<close>

theorem transaction_roundtrip:
  assumes "wf_transaction t" "Transaction_serialize t = Ok b"
  shows "Transaction_deserialize (b @ r) = Ok (t, length b)"
  using assms by (rule tx.dec_enc)

theorem transaction_roundtrip_witness:
  "wf_transaction sample_tx
   \<and> (\<exists>b. Transaction_serialize sample_tx = Ok b
        \<and> Transaction_deserialize (b @ [255]) = Ok (sample_tx, length b))"
  using sample_tx_wf sample_tx_bytes(2) transaction_roundtrip[OF sample_tx_wf] by blast

text \<open>C34. Transaction encodings are canonical: every byte string the decoder accepts begins
  with the encoding of the well-formed transaction it returns, so a transaction has one
  encoding and a relayer cannot re-encode it.\<close>

theorem transaction_canonical:
  assumes "Transaction_deserialize d = Ok (t, n)"
  shows "wf_transaction t \<and> n \<le> length d \<and> Transaction_serialize t = Ok (take n d)"
  using assms by (rule tx.dec_canon)

theorem transaction_canonical_witness:
  "\<exists>t n. Transaction_deserialize [0, 0, 0, 0, 9] = Ok (t, n)
     \<and> Transaction_serialize t = Ok (take n [0, 0, 0, 0, 9])"
proof -
  have "Transaction_deserialize [0, 0, 0, 0, 9] = Ok (\<lparr>inputs = [], outputs = [], witnesses = []\<rparr>, 4)"
    by (simp add: Transaction_deserialize_def bslice_def u16_le_def)
  from this transaction_canonical[OF this] show ?thesis by blast
qed

text \<open>C35. The message a signature covers determines the chain and the transaction body: equal
  messages have the same genesis id, the same inputs and the same outputs, so a signature
  cannot be replayed on another chain or for another body.\<close>

theorem sig_message_binding:
  assumes "wf_transaction t" "wf_transaction t'" "is_hash256 g" "is_hash256 g'"
    and "sig_message g t = Ok m" "sig_message g' t' = Ok m"
  shows "g = g' \<and> inputs t = inputs t' \<and> outputs t = outputs t'"
proof -
  obtain b b' where b: "signing_bytes t = Ok b" "signing_bytes t' = Ok b'"
      "DS_SIG @ g @ b = DS_SIG @ g' @ b'"
    using assms(5,6) by (auto simp: sig_message_def result_simps)
  then have "g = g' \<and> b = b'" using assms(3,4) by (simp add: is_hash256_def)
  then show ?thesis using signing_bytes_inj[OF assms(1,2)] b(1,2) by simp
qed

theorem sig_message_binding_witness:
  "\<exists>m. sig_message ZERO sample_tx = Ok m \<and> inputs sample_tx = inputs (empty_witnesses sample_tx)
     \<and> sample_tx \<noteq> empty_witnesses sample_tx"
proof -
  obtain b where "signing_bytes sample_tx = Ok b" using sample_tx_bytes(1) by blast
  then have m: "sig_message ZERO sample_tx = Ok (DS_SIG @ ZERO @ b)"
      "sig_message ZERO (empty_witnesses sample_tx) = Ok (DS_SIG @ ZERO @ b)"
    by (simp_all add: sig_message_def)
  have "sample_tx \<noteq> empty_witnesses sample_tx" by (simp add: sample_tx_def empty_witnesses_def)
  with m sig_message_binding[OF sample_tx_wf wf_empty_witnesses[OF sample_tx_wf] _ _ m]
  show ?thesis by (auto simp: is_hash256_def)
qed

text \<open>C36. The transaction id commits to the body: two well-formed transactions with the same
  id have the same inputs and outputs unless SHA-256 collides on their two preimages.\<close>

theorem tx_id_commits:
  assumes "wf_transaction t" "wf_transaction t'"
    and "compute_tx_id C t = Ok h" "compute_tx_id C t' = Ok h"
    and "inj_on (sha256 C) {tx_id_preimage t, tx_id_preimage t'}"
  shows "inputs t = inputs t' \<and> outputs t = outputs t'"
proof -
  obtain b b' where b: "signing_bytes t = Ok b" "signing_bytes t' = Ok b'"
      "domain_hash C DS_TX b = domain_hash C DS_TX b'"
    using assms(3,4) by (auto simp: compute_tx_id_def result_simps)
  then have "sha256 C (tx_id_preimage t) = sha256 C (tx_id_preimage t')"
    by (simp add: tx_id_preimage_def domain_hash_def)
  then have "tx_id_preimage t = tx_id_preimage t'" using inj_onD[OF assms(5)] by blast
  then have "b = b'" using b(1,2) by (simp add: tx_id_preimage_def domain_preimage_def)
  then show ?thesis using signing_bytes_inj[OF assms(1,2)] b(1,2) by simp
qed

theorem tx_id_commits_witness:
  "\<exists>h. compute_tx_id toy_crypto sample_tx = Ok h \<and> compute_tx_id toy_crypto (empty_witnesses sample_tx) = Ok h
     \<and> outputs sample_tx = outputs (empty_witnesses sample_tx)"
proof -
  obtain b where "signing_bytes sample_tx = Ok b" using sample_tx_bytes(1) by blast
  then have h: "compute_tx_id toy_crypto sample_tx = Ok (domain_hash toy_crypto DS_TX b)"
      "compute_tx_id toy_crypto (empty_witnesses sample_tx) = Ok (domain_hash toy_crypto DS_TX b)"
    by (simp_all add: compute_tx_id_def)
  have "tx_id_preimage (empty_witnesses sample_tx) = tx_id_preimage sample_tx"
    by (simp add: tx_id_preimage_def)
  with h tx_id_commits[OF sample_tx_wf wf_empty_witnesses[OF sample_tx_wf] h] show ?thesis by auto
qed

end
