(* ===== verification/Tx_Cost.thy ===== *)
theory Tx_Cost
  imports Transactions
begin

text \<open>
  The cost of a transaction and its minimum fee, \<open>consensus/cost.rs\<close>. The 128-bit
  accumulators are natural numbers: a transaction that serializes has at most 65535 inputs and
  outputs, so they stay far below their width. Lengths and costs of 64 bits are natural
  numbers too, with the check against the largest 64-bit value written out.
\<close>

definition U64_MAX :: nat where [constants]: "U64_MAX = 18446744073709551615"


section \<open>Cost and fee\<close>

definition is_phase1_script :: "bytes \<Rightarrow> bool" where
  "is_phase1_script script_bytes \<longleftrightarrow> length script_bytes = 32"

definition div_ceil :: "nat \<Rightarrow> nat \<Rightarrow> nat" where
  "div_ceil a b = a div b + (if a mod b > 0 then 1 else 0)"

definition ceil_div_u128 :: "nat \<Rightarrow> nat \<Rightarrow> nat option" where
  "ceil_div_u128 a b = (let result = div_ceil a b in if result > U64_MAX then None else Some result)"

fun output_typecheck_cost :: "TxOutput list \<Rightarrow> nat \<Rightarrow> nat" where
  "output_typecheck_cost [] acc = acc"
| "output_typecheck_cost (out # outs) acc =
     output_typecheck_cost outs (if is_phase1_script (out_script out) then acc else acc + OUTPUT_TYPECHECK_COST)"

definition add_bytes_cost :: "nat \<Rightarrow> nat \<Rightarrow> nat option" where
  "add_bytes_cost n acc =
     (if n > 0 then Option.bind (ceil_div_u128 n 64) (\<lambda>cost. Some (acc + cost)) else Some acc)"

fun witness_deser_cost :: "TxWitness list \<Rightarrow> nat \<Rightarrow> nat option" where
  "witness_deser_cost [] acc = Some acc"
| "witness_deser_cost (w # ws) acc =
     Option.bind (add_bytes_cost (length (witness w)) acc) (\<lambda>acc.
     Option.bind (case redeemer w of None \<Rightarrow> Some acc | Some r \<Rightarrow> add_bytes_cost (length r) acc) (\<lambda>acc.
     witness_deser_cost ws acc))"

fun datum_deser_cost :: "TxOutput list \<Rightarrow> nat \<Rightarrow> nat option" where
  "datum_deser_cost [] acc = Some acc"
| "datum_deser_cost (out # outs) acc =
     Option.bind (case datum out of None \<Rightarrow> Some acc | Some d \<Rightarrow> add_bytes_cost (length d) acc) (\<lambda>acc.
     datum_deser_cost outs acc)"

definition ok :: "'e + 'a \<Rightarrow> 'a option" where
  "ok r = (case r of Inl _ \<Rightarrow> None | Inr x \<Rightarrow> Some x)"

text \<open>The process-wide signature domain is the first argument.\<close>

definition tx_cost :: "bytes \<Rightarrow> Transaction \<Rightarrow> nat option" where
  "tx_cost gid tx =
     (let input_count = length (inputs tx); output_count = length (outputs tx) in
      Option.bind (ok (sig_message gid tx)) (\<lambda>msg.
      let per_input_cost = PHASE1_SCRIPT_EVAL_COST + div_ceil (length msg) 64 * 8;
          script_eval_cost = input_count * per_input_cost;
          typecheck_cost = output_typecheck_cost (outputs tx) 0 in
      Option.bind (witness_deser_cost (witnesses tx) 0) (\<lambda>witness_cost.
      Option.bind (datum_deser_cost (outputs tx) 0) (\<lambda>datum_cost.
      Option.bind (ok (Transaction_serialize tx)) (\<lambda>b.
      Option.bind (ceil_div_u128 (length b) 64) (\<lambda>tx_deser_cost.
      let utxo_io_cost = input_count * UTXO_LOOKUP_COST + output_count * UTXO_CREATE_COST;
          smt_cost = input_count * SMT_DELETE_COST + output_count * SMT_INSERT_COST;
          script_validation_cost = 0;
          total_cost = script_eval_cost + typecheck_cost + witness_cost + datum_cost + tx_deser_cost
            + utxo_io_cost + smt_cost + script_validation_cost in
      if total_cost > U64_MAX then None else Some total_cost))))))"

definition min_fee :: "bytes \<Rightarrow> Transaction \<Rightarrow> nat option" where
  "min_fee gid tx = Option.bind (tx_cost gid tx) (\<lambda>cost. ceil_div_u128 cost MIN_FEE_DIVISOR)"

definition tx_cost_with_script_cost :: "Transaction \<Rightarrow> nat \<Rightarrow> nat \<Rightarrow> nat option" where
  "tx_cost_with_script_cost tx script_eval_cost script_validation_cost =
     (let input_count = length (inputs tx); output_count = length (outputs tx);
          typecheck_cost = output_typecheck_cost (outputs tx) 0 in
      Option.bind (witness_deser_cost (witnesses tx) 0) (\<lambda>witness_cost.
      Option.bind (datum_deser_cost (outputs tx) 0) (\<lambda>datum_cost.
      Option.bind (ok (Transaction_serialize tx)) (\<lambda>b.
      Option.bind (ceil_div_u128 (length b) 64) (\<lambda>tx_deser_cost.
      let utxo_io_cost = input_count * UTXO_LOOKUP_COST + output_count * UTXO_CREATE_COST;
          smt_cost = input_count * SMT_DELETE_COST + output_count * SMT_INSERT_COST;
          total_cost = script_eval_cost + typecheck_cost + witness_cost + datum_cost + tx_deser_cost
            + utxo_io_cost + smt_cost + script_validation_cost in
      if total_cost > U64_MAX then None else Some total_cost)))))"

definition min_fee_with_script_cost :: "Transaction \<Rightarrow> nat \<Rightarrow> nat \<Rightarrow> nat option" where
  "min_fee_with_script_cost tx script_eval_cost script_validation_cost =
     Option.bind (tx_cost_with_script_cost tx script_eval_cost script_validation_cost)
       (\<lambda>cost. ceil_div_u128 cost MIN_FEE_DIVISOR)"


section \<open>What the fee is\<close>

lemma ok_simps [simp]: "ok (Ok x) = Some x" "ok (Err e) = None"
  by (simp_all add: ok_def)

lemma ok_Some_iff: "ok r = Some x \<longleftrightarrow> r = Ok x"
  by (cases r) auto

lemma ceil_split: fixes q r b :: nat assumes "r < b"
  shows "(r + q * b + b - 1) div b = q + (if r > 0 then 1 else 0)"
proof (cases "r = 0")
    case False
    have "r + q * b + b - 1 = (r - 1) + (q + 1) * b" using False by (simp add: distrib_right)
    also have "\<dots> div b = q + 1" using assms by (subst div_mult_self1) auto
    finally show ?thesis using False by simp
  next
    case True
    have "r + q * b + b - 1 = (b - 1) + q * b" using True assms by simp
    also have "\<dots> div b = q" using assms by (subst div_mult_self1) auto
    finally show ?thesis using True by simp
qed

lemma div_ceil_eq: "0 < b \<Longrightarrow> div_ceil a b = (a + b - 1) div b"
  using ceil_split[of "a mod b" b "a div b"] by (simp add: div_ceil_def)

text \<open>The size-dependent part of the cost.\<close>

definition chunks :: "nat \<Rightarrow> nat" where
  "chunks n = (n + 63) div 64"

definition opt_chunks :: "bytes option \<Rightarrow> nat" where
  "opt_chunks x = (case x of None \<Rightarrow> 0 | Some d \<Rightarrow> chunks (length d))"

definition base_cost :: "Transaction \<Rightarrow> nat \<Rightarrow> nat" where
  "base_cost tx n =
     1000 * length (filter (\<lambda>out. \<not> is_phase1_script (out_script out)) (outputs tx))
     + (\<Sum>w\<leftarrow>witnesses tx. chunks (length (witness w)) + opt_chunks (redeemer w))
     + (\<Sum>out\<leftarrow>outputs tx. opt_chunks (datum out)) + chunks n
     + 600 * (length (inputs tx) + length (outputs tx))"

lemma div_ceil_64: "div_ceil n 64 = chunks n"
  by (simp add: div_ceil_eq chunks_def)

lemma ceil_div_64: "n \<le> U64_MAX \<Longrightarrow> ceil_div_u128 n 64 = Some (chunks n)"
  by (auto simp: ceil_div_u128_def Let_def div_ceil_64 chunks_def constants)

lemma ceil_div_fee:
  assumes "n \<le> U64_MAX"
  shows "ceil_div_u128 n MIN_FEE_DIVISOR = Some ((n + 99) div 100)"
proof -
  have "(n + 99) div 100 \<le> U64_MAX" using assms by (simp add: constants)
  then show ?thesis by (simp add: ceil_div_u128_def Let_def div_ceil_eq MIN_FEE_DIVISOR_def add.commute)
qed

lemma add_bytes_cost_eq: "n \<le> U64_MAX \<Longrightarrow> add_bytes_cost n acc = Some (acc + chunks n)"
  by (auto simp: add_bytes_cost_def ceil_div_64) (simp add: chunks_def)

lemma output_typecheck_cost_eq:
  "output_typecheck_cost outs acc
    = acc + 1000 * length (filter (\<lambda>out. \<not> is_phase1_script (out_script out)) outs)"
  by (induction outs acc rule: output_typecheck_cost.induct) (auto simp: constants)

lemma varbytes_short: "serialize_varbytes d = Ok b \<Longrightarrow> length d \<le> U64_MAX"
  by (auto simp: serialize_varbytes_def constants split: if_splits)

lemma opt_varbytes_short: "serialize_opt_varbytes (Some d) = Ok b \<Longrightarrow> length d \<le> U64_MAX"
  by (auto simp: serialize_opt_varbytes_def result_simps dest: varbytes_short)

lemma witness_deser_cost_eq:
  "enc_loop TxWitness_serialize ws = Ok b \<Longrightarrow>
    witness_deser_cost ws acc = Some (acc + (\<Sum>w\<leftarrow>ws. chunks (length (witness w)) + opt_chunks (redeemer w)))"
proof (induction ws arbitrary: acc b)
  case (Cons w ws)
  obtain b0 b' where e0: "TxWitness_serialize w = Ok b0" "enc_loop TxWitness_serialize ws = Ok b'"
    using Cons.prems by (auto simp: result_simps)
  obtain bw br where e: "serialize_varbytes (witness w) = Ok bw" "serialize_opt_varbytes (redeemer w) = Ok br"
    using e0(1) by (auto simp: result_simps TxWitness_serialize_def)
  show ?case
    using Cons.IH[OF e0(2)] varbytes_short[OF e(1)] opt_varbytes_short e(2)
    by (cases "redeemer w") (auto simp: add_bytes_cost_eq opt_chunks_def)
qed simp

lemma datum_deser_cost_eq:
  "enc_loop TxOutput_serialize outs = Ok b \<Longrightarrow>
    datum_deser_cost outs acc = Some (acc + (\<Sum>out\<leftarrow>outs. opt_chunks (datum out)))"
proof (induction outs arbitrary: acc b)
  case (Cons out outs)
  obtain b0 b' where e0: "TxOutput_serialize out = Ok b0" "enc_loop TxOutput_serialize outs = Ok b'"
    using Cons.prems by (auto simp: result_simps)
  obtain bd where e: "serialize_opt_varbytes (datum out) = Ok bd"
    using e0(1) by (auto simp: result_simps TxOutput_serialize_def)
  show ?case
    using Cons.IH[OF e0(2)] opt_varbytes_short e
    by (cases "datum out") (auto simp: add_bytes_cost_eq opt_chunks_def)
qed simp

lemma tx_cost_with_script_cost_eq:
  assumes "Transaction_serialize tx = Ok b" "length b \<le> U64_MAX"
  shows "tx_cost_with_script_cost tx sc vc =
    (if sc + vc + base_cost tx (length b) > U64_MAX then None else Some (sc + vc + base_cost tx (length b)))"
proof -
  obtain bo bw where "enc_loop TxOutput_serialize (outputs tx) = Ok bo"
      "enc_loop TxWitness_serialize (witnesses tx) = Ok bw"
    using assms(1) by (auto simp: Transaction_serialize_def serialize_body_def result_simps)
  then show ?thesis
    using assms
    by (simp add: tx_cost_with_script_cost_def witness_deser_cost_eq datum_deser_cost_eq ceil_div_64
        output_typecheck_cost_eq base_cost_def Let_def UTXO_LOOKUP_COST_def UTXO_CREATE_COST_def
        SMT_DELETE_COST_def SMT_INSERT_COST_def algebra_simps)
qed

lemma tx_cost_phase1:
  assumes "sig_message gid tx = Ok msg"
  shows "tx_cost gid tx = tx_cost_with_script_cost tx (length (inputs tx) * (5000 + 8 * chunks (length msg))) 0"
  unfolding tx_cost_def tx_cost_with_script_cost_def
  by (simp only: assms ok_simps Option.bind.simps Let_def div_ceil_64 PHASE1_SCRIPT_EVAL_COST_def mult.commute[of _ 8])

text \<open>The minimum fee of a transaction of admissible size is its cost divided by 100 and
  rounded up, where the cost is the script cost plus 1000 per script output, one per started 64
  bytes of each witness, redeemer and datum and of the whole transaction, and 600 per input and
  output; and the fee of the wallet's estimate (\<open>min_fee\<close>) is the fee the validator demands of a
  transaction whose inputs are all signatures.\<close>

theorem min_fee_exact:
  assumes "Transaction_serialize tx = Ok b" "length b \<le> MAX_TX_SIZE" "sig_message gid tx = Ok msg"
    and "sc + vc + base_cost tx (length b) \<le> U64_MAX"
  shows "min_fee_with_script_cost tx sc vc = Some ((sc + vc + base_cost tx (length b) + 99) div 100)
    \<and> min_fee gid tx = min_fee_with_script_cost tx (length (inputs tx) * (5000 + 8 * chunks (length msg))) 0"
proof
  have "length b \<le> U64_MAX" using assms(2) by (simp add: constants)
  then have "tx_cost_with_script_cost tx sc vc = Some (sc + vc + base_cost tx (length b))"
    using assms(4) by (simp add: tx_cost_with_script_cost_eq[OF assms(1)])
  then show "min_fee_with_script_cost tx sc vc = Some ((sc + vc + base_cost tx (length b) + 99) div 100)"
    unfolding min_fee_with_script_cost_def by (simp only: Option.bind.simps ceil_div_fee[OF assms(4)])
  show "min_fee gid tx = min_fee_with_script_cost tx (length (inputs tx) * (5000 + 8 * chunks (length msg))) 0"
    unfolding min_fee_def min_fee_with_script_cost_def tx_cost_phase1[OF assms(3)] by (rule refl)
qed

end
