(* ===== verification/Script_Typecheck.thy ===== *)
theory Script_Typecheck
  imports Jets
begin

text \<open>
  The type checker of \<open>src/src/script/typecheck.rs\<close>: a pass from the highest index down
  that infers an input and an output type for every node, and a pass from the lowest index up
  that pushes resolved types into the wildcards of the children. The two shared passes over an
  array with early return, \<open>rfold\<close> and \<open>fill_up\<close>, serve the static cost pass
  as well.
\<close>


section \<open>Passes with early return\<close>

fun rfold :: "('a \<Rightarrow> 's \<Rightarrow> 'e + 's) \<Rightarrow> 'a list \<Rightarrow> 's \<Rightarrow> 'e + 's" where
  "rfold f [] s = Ok s"
| "rfold f (x # xs) s = rbind (f x s) (rfold f xs)"

text \<open>Fill the array from the highest index down; an entry not yet filled is \<open>None\<close>.\<close>

definition fill_step ::
    "(nat \<Rightarrow> Combinator \<Rightarrow> 'a option list \<Rightarrow> 'e + 'a) \<Rightarrow> Combinator list \<Rightarrow> nat \<Rightarrow> 'a option list
     \<Rightarrow> 'e + 'a option list" where
  "fill_step f nds i acc = rbind (f i (nds ! i) acc) (\<lambda>x. Ok (acc[i := Some x]))"

definition fill_up ::
    "(nat \<Rightarrow> Combinator \<Rightarrow> 'a option list \<Rightarrow> 'e + 'a) \<Rightarrow> Combinator list \<Rightarrow> 'e + 'a option list" where
  "fill_up f nds = rfold (fill_step f nds) (rev [0..<length nds]) (replicate (length nds) None)"


section \<open>Types of the checker\<close>

record TypedNode =
  combinator :: Combinator
  input_type :: Type
  output_type :: Type

datatype TypeError =
    TNodeOutOfBounds NodeId
  | CompTypeMismatch NodeId Type Type
  | ExpectedProduct NodeId
  | ExpectedSum NodeId
  | CaseBranchMismatch NodeId
  | FoldStepMismatch NodeId
  | FoldInitMismatch NodeId
  | ListFoldStepMismatch NodeId
  | ListFoldInitMismatch NodeId
  | CannotTypeCheckHidden NodeId
  | InvalidStructure string
  | UnresolvedWitness NodeId

type_synonym typing = "(Type \<times> Type) option list"

text \<open>The unit type is a wildcard of the inference.\<close>

fun types_compatible :: "Type \<Rightarrow> Type \<Rightarrow> bool" where
  "types_compatible (TSum a1 a2) (TSum b1 b2) \<longleftrightarrow>
     TSum a1 a2 = TSum b1 b2 \<or> types_compatible a1 b1 \<and> types_compatible a2 b2"
| "types_compatible (TProduct a1 a2) (TProduct b1 b2) \<longleftrightarrow>
     TProduct a1 a2 = TProduct b1 b2 \<or> types_compatible a1 b1 \<and> types_compatible a2 b2"
| "types_compatible (TList a1) (TList b1) \<longleftrightarrow> TList a1 = TList b1 \<or> types_compatible a1 b1"
| "types_compatible a b \<longleftrightarrow> a = b \<or> a = TUnit \<or> b = TUnit"


section \<open>The bottom-up pass\<close>

definition child_types :: "NodeId \<Rightarrow> typing \<Rightarrow> TypeError + Type \<times> Type" where
  "child_types child typed = ok_or (TNodeOutOfBounds child) (typed ! child)"

definition exfer_node_type :: "nat \<Rightarrow> Combinator \<Rightarrow> typing \<Rightarrow> TypeError + Type \<times> Type" where
  "exfer_node_type i nd typed = (case nd of
     Iden \<Rightarrow> Ok (TUnit, TUnit)
   | CUnit \<Rightarrow> Ok (TUnit, TUnit)
   | Comp f g \<Rightarrow>
       rbind (child_types f typed) (\<lambda>(f_in, f_out). rbind (child_types g typed) (\<lambda>(g_in, g_out).
       if \<not> types_compatible f_out g_in then Err (CompTypeMismatch i f_out g_in)
       else Ok (f_in, g_out)))
   | CPair f g \<Rightarrow>
       rbind (child_types f typed) (\<lambda>(f_in, f_out). rbind (child_types g typed) (\<lambda>(g_in, g_out).
       Ok (if f_in = TUnit then g_in else f_in, TProduct f_out g_out)))
   | CTake f \<Rightarrow> rbind (child_types f typed) (\<lambda>(f_in, f_out). Ok (TProduct f_in TUnit, f_out))
   | CDrop f \<Rightarrow> rbind (child_types f typed) (\<lambda>(f_in, f_out). Ok (TProduct TUnit f_in, f_out))
   | InjL f \<Rightarrow> rbind (child_types f typed) (\<lambda>(f_in, f_out). Ok (f_in, TSum f_out TUnit))
   | InjR f \<Rightarrow> rbind (child_types f typed) (\<lambda>(f_in, f_out). Ok (f_in, TSum TUnit f_out))
   | CCase f g \<Rightarrow>
       rbind (child_types f typed) (\<lambda>(f_in, f_out). rbind (child_types g typed) (\<lambda>(g_in, g_out).
       if \<not> types_compatible f_out g_out then Err (CaseBranchMismatch i)
       else Ok (TSum f_in g_in, if f_out = TUnit then g_out else f_out)))
   | Fold f z k \<Rightarrow>
       rbind (child_types f typed) (\<lambda>(f_in, f_out). rbind (child_types z typed) (\<lambda>(z_in, z_out).
       if \<not> types_compatible f_out z_out then Err (FoldInitMismatch i)
       else rbind (case f_in of
           TProduct a b \<Rightarrow>
             if \<not> types_compatible a z_in then Err (FoldStepMismatch i)
             else if \<not> types_compatible b z_out then Err (FoldStepMismatch i)
             else Ok ()
         | TUnit \<Rightarrow> Ok ()
         | _ \<Rightarrow> Err (FoldStepMismatch i)) (\<lambda>_.
       Ok (TProduct (TBound k) z_in, if z_out = TUnit then f_out else z_out))))
   | ListFold f z \<Rightarrow>
       rbind (child_types f typed) (\<lambda>(f_in, f_out). rbind (child_types z typed) (\<lambda>(z_in, z_out).
       if \<not> types_compatible f_out z_out then Err (ListFoldInitMismatch i)
       else rbind (case f_in of
           TProduct a _ \<Rightarrow> Ok a
         | TUnit \<Rightarrow> Ok TUnit
         | _ \<Rightarrow> Err (ListFoldStepMismatch i)) (\<lambda>elem_type.
       Ok (TProduct (TList elem_type) z_in, if z_out = TUnit then f_out else z_out))))
   | Jet j \<Rightarrow> Ok (jet_type j)
   | CWitness \<Rightarrow> Ok (TUnit, TUnit)
   | MerkleHidden _ \<Rightarrow> Ok (TUnit, TUnit)
   | CConst v \<Rightarrow> Ok (TUnit, infer_type v))"


section \<open>The top-down refinement\<close>

text \<open>A wildcard is replaced by the resolved type; where both are structured the
  refinement goes into the components; everything else stays.\<close>

fun refine_deep :: "Type \<Rightarrow> Type \<Rightarrow> Type" where
  "refine_deep TUnit r = r"
| "refine_deep (TProduct a1 a2) (TProduct b1 b2) = TProduct (refine_deep a1 b1) (refine_deep a2 b2)"
| "refine_deep (TSum a1 a2) (TSum b1 b2) = TSum (refine_deep a1 b1) (refine_deep a2 b2)"
| "refine_deep (TList a) (TList b) = TList (refine_deep a b)"
| "refine_deep slot r = slot"

definition has_refinable_output :: "Combinator \<Rightarrow> bool" where
  "has_refinable_output nd = (case nd of CUnit \<Rightarrow> False | CConst _ \<Rightarrow> False | Jet _ \<Rightarrow> False | _ \<Rightarrow> True)"

definition in_of :: "typing \<Rightarrow> NodeId \<Rightarrow> Type" where "in_of typed i = fst (the (typed ! i))"
definition out_of :: "typing \<Rightarrow> NodeId \<Rightarrow> Type" where "out_of typed i = snd (the (typed ! i))"

definition refine_in :: "NodeId \<Rightarrow> Type \<Rightarrow> typing \<Rightarrow> typing" where
  "refine_in i r typed = typed[i := map_option (\<lambda>(a, b). (refine_deep a r, b)) (typed ! i)]"

definition refine_out :: "Combinator list \<Rightarrow> NodeId \<Rightarrow> Type \<Rightarrow> typing \<Rightarrow> typing" where
  "refine_out nds i r typed =
     (if has_refinable_output (nds ! i)
      then typed[i := map_option (\<lambda>(a, b). (a, refine_deep b r)) (typed ! i)] else typed)"

definition refine_both_out :: "Combinator list \<Rightarrow> NodeId \<Rightarrow> NodeId \<Rightarrow> typing \<Rightarrow> typing" where
  "refine_both_out nds f g typed =
     (let f_out = out_of typed f; g_out = out_of typed g
      in refine_out nds g f_out (refine_out nds f g_out typed))"

definition refine_children :: "nat \<Rightarrow> Combinator \<Rightarrow> Combinator list \<Rightarrow> typing \<Rightarrow> typing" where
  "refine_children node_idx nd nds typed = (case nd of
     Comp f g \<Rightarrow>
       let g_in = in_of typed g; f_out = out_of typed f
       in refine_in g f_out (refine_out nds f g_in typed)
   | CPair f g \<Rightarrow>
       let f_in = in_of typed f; g_in = in_of typed g;
           t = refine_in g f_in (refine_in f g_in typed);
           pair_in = in_of t node_idx;
           t' = (if pair_in \<noteq> TUnit then refine_in g pair_in (refine_in f pair_in t) else t)
       in (case out_of t' node_idx of
             TProduct a b \<Rightarrow> refine_out nds g b (refine_out nds f a t')
           | _ \<Rightarrow> t')
   | CCase f g \<Rightarrow> refine_both_out nds f g typed
   | Fold f z _ \<Rightarrow> refine_both_out nds f z typed
   | ListFold f z \<Rightarrow> refine_both_out nds f z typed
   | _ \<Rightarrow> typed)"

definition refine_all :: "Combinator list \<Rightarrow> typing \<Rightarrow> typing" where
  "refine_all nds typed = fold (\<lambda>i. refine_children i (nds ! i) nds) [0..<length nds] typed"

fun typed_result :: "nat \<Rightarrow> Combinator list \<Rightarrow> typing \<Rightarrow> TypeError + TypedNode list" where
  "typed_result i (nd # nds) (t # ts) =
     rbind (ok_or (UnresolvedWitness i) t) (\<lambda>(a, b).
     rbind (typed_result (Suc i) nds ts) (\<lambda>rest.
     Ok (\<lparr>combinator = nd, input_type = a, output_type = b\<rparr> # rest)))"
| "typed_result i _ _ = Ok []"

definition typecheck :: "Program \<Rightarrow> TypeError + TypedNode list" where
  "typecheck program =
     rbind (map_err InvalidStructure (validate_structure program)) (\<lambda>_.
     rbind (fill_up exfer_node_type (nodes program)) (\<lambda>typed.
     typed_result 0 (nodes program) (refine_all (nodes program) typed)))"


section \<open>What the passes compute\<close>

definition local_r :: "(nat \<Rightarrow> Combinator \<Rightarrow> 'a option list \<Rightarrow> 'e + 'a) \<Rightarrow> bool" where
  "local_r f \<longleftrightarrow> (\<forall>i nd a b. length a = length b \<longrightarrow> (\<forall>c \<in> set (children_of nd). a ! c = b ! c)
     \<longrightarrow> f i nd a = f i nd b)"

lemma local_rD:
  "local_r f \<Longrightarrow> length a = length b \<Longrightarrow> (\<And>c. c \<in> set (children_of nd) \<Longrightarrow> a ! c = b ! c) \<Longrightarrow> f i nd a = f i nd b"
  unfolding local_r_def by blast

lemma rfold_fill:
  assumes "dag nds" "local_r f" "rfold (fill_step f nds) (rev [0..<k]) acc = Ok arr"
    and "k \<le> length nds" "length acc = length nds"
  shows "length arr = length nds \<and> (\<forall>j. k \<le> j \<longrightarrow> j < length nds \<longrightarrow> arr ! j = acc ! j)
    \<and> (\<forall>i < k. \<exists>x. arr ! i = Some x \<and> f i (nds ! i) arr = Ok x)"
  using assms(3-5)
proof (induction k arbitrary: acc)
  case (Suc k)
  then obtain x where x: "f k (nds ! k) acc = Ok x"
      and r: "rfold (fill_step f nds) (rev [0..<k]) (acc[k := Some x]) = Ok arr"
    by (auto simp: fill_step_def[of f nds k acc] result_simps)
  have IH: "length arr = length nds" "\<forall>j. k \<le> j \<longrightarrow> j < length nds \<longrightarrow> arr ! j = acc[k := Some x] ! j"
      "\<forall>i < k. \<exists>x. arr ! i = Some x \<and> f i (nds ! i) arr = Ok x"
    using Suc.IH[OF r] Suc.prems by simp_all
  have keep: "arr ! j = acc ! j" if "k < j" "j < length nds" for j using IH(2) that by simp
  have "f k (nds ! k) arr = f k (nds ! k) acc"
  proof (rule local_rD[OF assms(2)])
    show "length arr = length acc" using IH(1) Suc.prems by simp
    show "arr ! c = acc ! c" if "c \<in> set (children_of (nds ! k))" for c
      using dagD[OF assms(1), of k c] that Suc.prems(2) by (intro keep) simp_all
  qed
  moreover have "arr ! k = Some x" using IH(2) Suc.prems by simp
  ultimately show ?case using IH keep x by (auto simp: less_Suc_eq)
qed simp

lemma fill_up_nth:
  assumes "dag nds" "local_r f" "fill_up f nds = Ok arr"
  shows "length arr = length nds" "i < length nds \<Longrightarrow> \<exists>x. arr ! i = Some x \<and> f i (nds ! i) arr = Ok x"
  using rfold_fill[OF assms(1,2), of "length nds"] assms(3) by (simp_all add: fill_up_def)

text \<open>A pass whose step only fails for a reason of its own once the children are filled
  never fails for want of a child.\<close>

lemma rfold_fill_error:
  assumes "dag nds" "rfold (fill_step f nds) (rev [0..<k]) acc = Err e"
    and "k \<le> length nds" "length acc = length nds" "\<forall>j. k \<le> j \<longrightarrow> j < length nds \<longrightarrow> acc ! j \<noteq> None"
  shows "\<exists>i a. i < k \<and> f i (nds ! i) a = Err e \<and> (\<forall>c \<in> set (children_of (nds ! i)). a ! c \<noteq> None)"
  using assms(2-5)
proof (induction k arbitrary: acc)
  case (Suc k)
  show ?case
  proof (cases "f k (nds ! k) acc")
    case (Inl e')
    then have "e' = e" using Suc.prems by (simp add: fill_step_def[of f nds k acc])
    moreover have "\<forall>c \<in> set (children_of (nds ! k)). acc ! c \<noteq> None"
      using dagD[OF assms(1), of k] Suc.prems by (auto simp: Suc_le_eq)
    ultimately show ?thesis using Inl by blast
  next
    case (Inr x)
    then have "rfold (fill_step f nds) (rev [0..<k]) (acc[k := Some x]) = Err e"
      using Suc.prems by (simp add: fill_step_def[of f nds k acc])
    then have "\<exists>i a. i < k \<and> f i (nds ! i) a = Err e \<and> (\<forall>c \<in> set (children_of (nds ! i)). a ! c \<noteq> None)"
      using Suc.prems by (intro Suc.IH[of "acc[k := Some x]"]) (auto simp: nth_list_update)
    then show ?thesis using less_SucI by blast
  qed
qed simp

lemma fill_up_error:
  assumes "dag nds" "fill_up f nds = Err e"
  obtains i a where "i < length nds" "f i (nds ! i) a = Err e" "\<forall>c \<in> set (children_of (nds ! i)). a ! c \<noteq> None"
  using rfold_fill_error[OF assms(1), of f "length nds" "replicate (length nds) None" e] assms(2)
  by (auto simp: fill_up_def)

lemma exfer_node_type_local: "local_r exfer_node_type"
  unfolding local_r_def
proof (intro allI impI)
  fix i nd and a b :: typing
  assume "length a = length b" "\<forall>c \<in> set (children_of nd). a ! c = b ! c"
  then show "exfer_node_type i nd a = exfer_node_type i nd b"
    by (cases nd) (simp_all add: exfer_node_type_def child_types_def)
qed

lemma exfer_node_type_error:
  assumes "exfer_node_type i nd a = Err e" "\<forall>c \<in> set (children_of nd). a ! c \<noteq> None"
  shows "e \<noteq> TNodeOutOfBounds c" "e \<noteq> UnresolvedWitness c"
  using assms
  by (cases nd; auto simp: exfer_node_type_def child_types_def split: if_splits Type.splits)+

text \<open>The refinement keeps every entry filled and never touches the output of a node whose
  output is fixed.\<close>

definition keeps :: "Combinator list \<Rightarrow> typing \<Rightarrow> typing \<Rightarrow> bool" where
  "keeps nds t t' \<longleftrightarrow> length t' = length t \<and> (\<forall>i < length t. t ! i \<noteq> None \<longrightarrow>
     t' ! i \<noteq> None \<and> (\<not> has_refinable_output (nds ! i) \<longrightarrow> out_of t' i = out_of t i))"

lemma keeps_refl [simp]: "keeps nds t t"
  by (simp add: keeps_def)

lemma keeps_trans: "keeps nds t t' \<Longrightarrow> keeps nds t' t'' \<Longrightarrow> keeps nds t t''"
  by (simp add: keeps_def)

lemma keeps_update:
  assumes "keeps nds t t'"
    and "t' ! i \<noteq> None \<Longrightarrow> x \<noteq> None \<and> (\<not> has_refinable_output (nds ! i) \<longrightarrow> snd (the x) = out_of t' i)"
  shows "keeps nds t (t'[i := x])"
  unfolding keeps_def
proof (intro conjI allI impI)
  show "length (t'[i := x]) = length t" using assms(1) by (simp add: keeps_def)
next
  fix j assume j: "j < length t" "t ! j \<noteq> None"
  then have k: "j < length t'" "t' ! j \<noteq> None" "\<not> has_refinable_output (nds ! j) \<Longrightarrow> out_of t' j = out_of t j"
    using assms(1) unfolding keeps_def by (simp, blast+)
  show "t'[i := x] ! j \<noteq> None" using k assms(2) by (cases "j = i") simp_all
  show "out_of (t'[i := x]) j = out_of t j" if "\<not> has_refinable_output (nds ! j)"
    using that k assms(2) by (cases "j = i") (simp_all add: out_of_def)
qed

lemma keeps_refine_in: "keeps nds t t' \<Longrightarrow> keeps nds t (refine_in i r t')"
  unfolding refine_in_def by (rule keeps_update) (auto simp: out_of_def)

lemma keeps_refine_out: "keeps nds t t' \<Longrightarrow> keeps nds t (refine_out nds i r t')"
  unfolding refine_out_def by (cases "has_refinable_output (nds ! i)") (auto intro!: keeps_update)

lemma keeps_refine_children: "keeps nds t (refine_children i nd nds t)"
  by (cases nd; simp add: refine_children_def refine_both_out_def Let_def keeps_refine_in keeps_refine_out
      split: Type.split)

lemma keeps_refine_all: "keeps nds t (refine_all nds t)"
proof -
  have "keeps nds t (fold (\<lambda>i. refine_children i (nds ! i) nds) is t)" for "is"
    by (induction "is" arbitrary: t) (use keeps_trans keeps_refine_children in \<open>fastforce+\<close>)
  then show ?thesis by (simp add: refine_all_def)
qed

lemma typed_result_Ok:
  "length ts = length nds \<Longrightarrow> typed_result k nds ts = Ok tns \<Longrightarrow>
   length tns = length nds \<and> (\<forall>i < length nds. ts ! i \<noteq> None \<and> combinator (tns ! i) = nds ! i
     \<and> input_type (tns ! i) = in_of ts i \<and> output_type (tns ! i) = out_of ts i)"
proof (induction k nds ts arbitrary: tns rule: typed_result.induct)
  case (1 k nd nds t ts)
  then obtain a b rest where "t = Some (a, b)" "typed_result (Suc k) nds ts = Ok rest"
      "tns = \<lparr>combinator = nd, input_type = a, output_type = b\<rparr> # rest"
    by (cases t) (auto simp: result_simps)
  with 1 show ?case by (auto simp: nth_Cons in_of_def out_of_def split: nat.splits)
qed auto

lemma typed_result_total:
  "length ts = length nds \<Longrightarrow> \<forall>i < length nds. ts ! i \<noteq> None \<Longrightarrow> \<exists>tns. typed_result k nds ts = Ok tns"
proof (induction k nds ts rule: typed_result.induct)
  case (1 k nd nds t ts)
  have "\<forall>i < length nds. ts ! i \<noteq> None" using 1(3) by fastforce
  moreover obtain a b where "t = Some (a, b)" using 1(3) by fastforce
  ultimately show ?case using 1(1)[of "(a, b)" a b] 1(2) by auto
qed auto

lemma typecheck_Ok:
  assumes "typecheck p = Ok tns"
  obtains typed where "validate_structure p = Ok ()" "dag (nodes p)"
    "fill_up exfer_node_type (nodes p) = Ok typed" "keeps (nodes p) typed (refine_all (nodes p) typed)"
    "typed_result 0 (nodes p) (refine_all (nodes p) typed) = Ok tns"
  using assms validate_structure_Ok[of p "()"]
  by (auto simp: typecheck_def result_simps keeps_refine_all)

lemma typecheck_shape:
  assumes "typecheck p = Ok tns"
  shows "length tns = length (nodes p)" "i < length (nodes p) \<Longrightarrow> combinator (tns ! i) = nodes p ! i"
proof -
  obtain typed where t: "dag (nodes p)" "fill_up exfer_node_type (nodes p) = Ok typed"
      "keeps (nodes p) typed (refine_all (nodes p) typed)"
      "typed_result 0 (nodes p) (refine_all (nodes p) typed) = Ok tns"
    using typecheck_Ok[OF assms] by metis
  have "length (refine_all (nodes p) typed) = length (nodes p)"
    using t(3) fill_up_nth(1)[OF t(1) exfer_node_type_local t(2)] by (simp add: keeps_def)
  from typed_result_Ok[OF this t(4)]
  show "length tns = length (nodes p)" "i < length (nodes p) \<Longrightarrow> combinator (tns ! i) = nodes p ! i"
    by simp_all
qed

text \<open>The output type the checker gives to a node whose output is fixed.\<close>

definition fixed_output :: "Combinator \<Rightarrow> Type option" where
  "fixed_output nd = (case nd of CUnit \<Rightarrow> Some TUnit | CConst v \<Rightarrow> Some (infer_type v)
     | Jet j \<Rightarrow> Some (snd (jet_type j)) | _ \<Rightarrow> None)"

lemma typecheck_fixed_output:
  assumes "typecheck p = Ok tns" "i < length (nodes p)" "fixed_output (nodes p ! i) = Some t"
  shows "output_type (tns ! i) = t"
proof -
  obtain typed where ty: "dag (nodes p)" "fill_up exfer_node_type (nodes p) = Ok typed"
      "keeps (nodes p) typed (refine_all (nodes p) typed)"
      "typed_result 0 (nodes p) (refine_all (nodes p) typed) = Ok tns"
    using typecheck_Ok[OF assms(1)] by metis
  have len: "length typed = length (nodes p)" using fill_up_nth(1)[OF ty(1) exfer_node_type_local ty(2)] .
  obtain x where x: "typed ! i = Some x" "exfer_node_type i (nodes p ! i) typed = Ok x"
    using fill_up_nth(2)[OF ty(1) exfer_node_type_local ty(2) assms(2)] by blast
  have "snd x = t" "\<not> has_refinable_output (nodes p ! i)"
    using x(2) assms(3)
    by (auto simp: fixed_output_def exfer_node_type_def has_refinable_output_def split: Combinator.splits)
  moreover have "output_type (tns ! i) = out_of (refine_all (nodes p) typed) i"
    using typed_result_Ok[OF _ ty(4)] ty(3) len assms(2) by (simp add: keeps_def)
  ultimately show ?thesis using ty(3) len x(1) assms(2) by (simp add: keeps_def out_of_def)
qed

text \<open>The checker never reports a child whose types are missing nor a node left without
  types: the structural check it runs first makes both internal errors unreachable, so its only
  failures are an invalid structure and a genuine mismatch between types.\<close>

theorem typecheck_no_internal_error:
  "typecheck p \<noteq> Err (TNodeOutOfBounds i) \<and> typecheck p \<noteq> Err (UnresolvedWitness i)"
proof (cases "validate_structure p")
  case (Inr u)
  then have dag: "dag (nodes p)" using validate_structure_Ok[of p u] by simp
  show ?thesis
  proof (cases "fill_up exfer_node_type (nodes p)")
    case (Inl e)
    then obtain j a where "exfer_node_type j (nodes p ! j) a = Err e"
        "\<forall>c \<in> set (children_of (nodes p ! j)). a ! c \<noteq> None"
      using fill_up_error[OF dag] by metis
    then have "e \<noteq> TNodeOutOfBounds i" "e \<noteq> UnresolvedWitness i" by (rule exfer_node_type_error)+
    then show ?thesis using Inl Inr by (simp add: typecheck_def)
  next
    case (Inr typed)
    let ?t = "refine_all (nodes p) typed"
    have len: "length typed = length (nodes p)"
      using fill_up_nth(1)[OF dag exfer_node_type_local Inr] .
    have "typed ! j \<noteq> None" if "j < length (nodes p)" for j
      using fill_up_nth(2)[OF dag exfer_node_type_local Inr that] by auto
    then have "\<exists>tns. typed_result 0 (nodes p) ?t = Ok tns"
      using keeps_refine_all[of "nodes p" typed] len by (intro typed_result_total) (simp_all add: keeps_def)
    then show ?thesis using Inr \<open>validate_structure p = Ok u\<close> by (auto simp: typecheck_def)
  qed
qed (simp add: typecheck_def)

end
