(* ===== verification/Script_Eval.thy ===== *)
theory Script_Eval
  imports Script_Typecheck
begin

text \<open>
  The interpreter of \<open>src/src/script/eval.rs\<close>. Its state is the budget, the position of
  the witness reader and the number of heap measurements made so far. The memory accounting
  depends on the size of a \<open>Value\<close> and on the capacities the allocator gave to the vectors
  measured: both are the \<open>machine\<close> parameter, with one slack per measurement, so what is
  proved for every machine holds for every allocator.
\<close>


section \<open>Budget and witness reader\<close>

record machine =
  value_size :: nat
  slack :: "nat \<Rightarrow> nat"

definition MAX_SCRIPT_MEMORY :: nat where [constants]: "MAX_SCRIPT_MEMORY = 16 * 1024 * 1024"
definition MAX_EVAL_DEPTH :: nat where [constants]: "MAX_EVAL_DEPTH = 128"

record Budget =
  steps_remaining :: nat
  cells_remaining :: nat
  memory_used :: nat
  memory_limit :: nat

definition Budget_new :: "u64 \<Rightarrow> u64 \<Rightarrow> Budget" where
  "Budget_new steps cells = \<lparr>steps_remaining = unat steps, cells_remaining = unat cells,
     memory_used = 0, memory_limit = MAX_SCRIPT_MEMORY\<rparr>"

datatype EvalError =
    BudgetExceeded
  | MemoryExceeded
  | ETypeMismatch string
  | HiddenNode
  | WitnessError string
  | ENodeOutOfBounds NodeId
  | EJetError JetError
  | RecursionDepthExceeded

definition consume_step :: "Budget \<Rightarrow> EvalError + Budget" where
  "consume_step b = (if steps_remaining b = 0 then Err BudgetExceeded
     else Ok (b\<lparr>steps_remaining := steps_remaining b - 1\<rparr>))"

definition consume_steps :: "nat \<Rightarrow> Budget \<Rightarrow> EvalError + Budget" where
  "consume_steps n b = (if steps_remaining b < n then Err BudgetExceeded
     else Ok (b\<lparr>steps_remaining := steps_remaining b - n\<rparr>))"

definition consume_cell :: "Budget \<Rightarrow> EvalError + Budget" where
  "consume_cell b = (if cells_remaining b = 0 then Err BudgetExceeded
     else Ok (b\<lparr>cells_remaining := cells_remaining b - 1\<rparr>))"

definition track_memory :: "nat \<Rightarrow> Budget \<Rightarrow> EvalError + Budget" where
  "track_memory n b = (if memory_used b + n > memory_limit b then Err MemoryExceeded
     else Ok (b\<lparr>memory_used := memory_used b + n\<rparr>))"

definition release_memory :: "nat \<Rightarrow> Budget \<Rightarrow> Budget" where
  "release_memory n b = b\<lparr>memory_used := memory_used b - n\<rparr>"

text \<open>The heap size of a value whose vectors have no spare capacity, and whether it has
  vectors that could.\<close>

fun heap_size :: "nat \<Rightarrow> Value \<Rightarrow> nat" where
  "heap_size sz (VLeft v) = sz + heap_size sz v"
| "heap_size sz (VRight v) = sz + heap_size sz v"
| "heap_size sz (VPair a b) = 2 * sz + heap_size sz a + heap_size sz b"
| "heap_size sz (VList vs) = length vs * sz + sum_list (map (heap_size sz) vs)"
| "heap_size sz (VBytes bs) = length bs"
| "heap_size sz _ = 0"

fun has_vec :: "Value \<Rightarrow> bool" where
  "has_vec (VLeft v) = has_vec v"
| "has_vec (VRight v) = has_vec v"
| "has_vec (VPair a b) = (has_vec a \<or> has_vec b)"
| "has_vec (VList vs) = True"
| "has_vec (VBytes bs) = True"
| "has_vec _ = False"

record EvalState =
  budget :: Budget
  wpos :: nat
  measured :: nat

definition measure_heap :: "machine \<Rightarrow> Value \<Rightarrow> EvalState \<Rightarrow> nat \<times> EvalState" where
  "measure_heap M v st =
     (heap_size (value_size M) v + (if has_vec v then slack M (measured st) else 0),
      st\<lparr>measured := Suc (measured st)\<rparr>)"

text \<open>The budget operations on the state of the interpreter.\<close>

definition on_budget :: "(Budget \<Rightarrow> EvalError + Budget) \<Rightarrow> EvalState \<Rightarrow> EvalError + EvalState" where
  "on_budget f st = rbind (f (budget st)) (\<lambda>b. Ok (st\<lparr>budget := b\<rparr>))"

definition released :: "nat \<Rightarrow> EvalState \<Rightarrow> EvalState" where
  "released n st = st\<lparr>budget := release_memory n (budget st)\<rparr>"

text \<open>Measure a value and charge it.\<close>

definition track_value :: "machine \<Rightarrow> Value \<Rightarrow> EvalState \<Rightarrow> EvalError + EvalState" where
  "track_value M v st = (let (n, st') = measure_heap M v st in on_budget (track_memory n) st')"

definition read_value :: "bytes \<Rightarrow> EvalState \<Rightarrow> EvalError + Value \<times> EvalState" where
  "read_value data st =
     (if wpos st \<ge> length data then Err (WitnessError ''unexpected end of witness data'')
      else rbind (map_err WitnessError (Value_deserialize (drop (wpos st) data))) (\<lambda>(v, consumed).
        Ok (v, st\<lparr>wpos := wpos st + consumed\<rparr>)))"

definition read_typed_value :: "bytes \<Rightarrow> Type \<Rightarrow> EvalState \<Rightarrow> EvalError + Value \<times> EvalState" where
  "read_typed_value data expected st = rbind (read_value data st) (\<lambda>(v, st').
     if expected \<noteq> TUnit \<and> \<not> matches_type v expected then Err (WitnessError ''witness type mismatch'')
     else Ok (v, st'))"


section \<open>The interpreter\<close>

text \<open>What one evaluation reads and never changes.\<close>

record env =
  crypt :: crypto
  mach :: machine
  prog :: Program
  wdata :: bytes
  ctx :: ScriptContext
  typed_nodes :: "TypedNode list"

type_synonym node_eval = "NodeId \<Rightarrow> Value \<Rightarrow> EvalState \<Rightarrow> EvalError + Value \<times> EvalState"

text \<open>One iteration of a fold, on the element, the accumulator, the heap size of the previous
  step's input and the state; and the two loops.\<close>

definition fold_iter :: "env \<Rightarrow> (Value \<Rightarrow> EvalState \<Rightarrow> EvalError + Value \<times> EvalState) \<Rightarrow> Value
    \<Rightarrow> Value \<times> nat \<times> EvalState \<Rightarrow> EvalError + Value \<times> nat \<times> EvalState" where
  "fold_iter E ev elem = (\<lambda>(acc, prev_step_heap, st).
     rbind (on_budget consume_step st) (\<lambda>st.
     let (clone_heap, st) = measure_heap (mach E) elem (released prev_step_heap st) in
     rbind (on_budget (track_memory (clone_heap + 2 * value_size (mach E))) st) (\<lambda>st.
     let step_input = VPair elem acc; (prev_step_heap, st) = measure_heap (mach E) step_input st in
     rbind (ev step_input st) (\<lambda>(acc, st). Ok (acc, prev_step_heap, st)))))"

primrec fold_times :: "nat \<Rightarrow> ('s \<Rightarrow> 'e + 's) \<Rightarrow> 's \<Rightarrow> 'e + 's" where
  "fold_times 0 f s = Ok s"
| "fold_times (Suc k) f s = rbind (f s) (fold_times k f)"

definition fold_end :: "Value \<times> nat \<times> EvalState \<Rightarrow> EvalError + Value \<times> EvalState" where
  "fold_end = (\<lambda>(acc, prev_step_heap, st). Ok (acc, released prev_step_heap st))"

definition case_payload_ok :: "env \<Rightarrow> NodeId \<Rightarrow> Value \<Rightarrow> bool" where
  "case_payload_ok E f a =
     (if f < length (typed_nodes E) then matches_type a (input_type (typed_nodes E ! f)) else True)"

definition input_is_bool :: "env \<Rightarrow> NodeId \<Rightarrow> bool" where
  "input_is_bool E i =
     (if i < length (typed_nodes E) then input_type (typed_nodes E ! i) = bool_type else False)"

text \<open>The evaluation of one node, given the evaluation of its children one level deeper.\<close>

definition eval_step :: "env \<Rightarrow> node_eval \<Rightarrow> NodeId \<Rightarrow> Combinator \<Rightarrow> Value \<Rightarrow> EvalState
    \<Rightarrow> EvalError + Value \<times> EvalState" where
  "eval_step E ev node_id nd input st = (case nd of
     Iden \<Rightarrow>
       rbind (on_budget consume_step st) (\<lambda>st.
       rbind (track_value (mach E) input st) (\<lambda>st. Ok (input, st)))
   | CUnit \<Rightarrow> rbind (on_budget consume_step st) (\<lambda>st. Ok (VUnit, st))
   | Comp f g \<Rightarrow>
       rbind (on_budget consume_step st) (\<lambda>st.
       rbind (ev f input st) (\<lambda>(mid, st).
       let (mid_heap, st) = measure_heap (mach E) mid st in
       rbind (ev g mid st) (\<lambda>(result, st). Ok (result, released mid_heap st))))
   | CPair f g \<Rightarrow>
       rbind (on_budget consume_step st) (\<lambda>st.
       rbind (on_budget consume_cell st) (\<lambda>st.
       rbind (ev f input st) (\<lambda>(left, st).
       rbind (ev g input st) (\<lambda>(right, st).
       rbind (on_budget (track_memory (2 * value_size (mach E))) st) (\<lambda>st.
       Ok (VPair left right, st))))))
   | CTake f \<Rightarrow>
       rbind (on_budget consume_step st) (\<lambda>st.
       case input of VPair a _ \<Rightarrow> ev f a st | _ \<Rightarrow> Err (ETypeMismatch ''Take expects Pair input''))
   | CDrop f \<Rightarrow>
       rbind (on_budget consume_step st) (\<lambda>st.
       case input of VPair _ b \<Rightarrow> ev f b st | _ \<Rightarrow> Err (ETypeMismatch ''Drop expects Pair input''))
   | InjL f \<Rightarrow>
       rbind (on_budget consume_step st) (\<lambda>st.
       rbind (on_budget consume_cell st) (\<lambda>st.
       rbind (ev f input st) (\<lambda>(result, st).
       rbind (on_budget (track_memory (value_size (mach E))) st) (\<lambda>st.
       Ok (VLeft result, st)))))
   | InjR f \<Rightarrow>
       rbind (on_budget consume_step st) (\<lambda>st.
       rbind (on_budget consume_cell st) (\<lambda>st.
       rbind (ev f input st) (\<lambda>(result, st).
       rbind (on_budget (track_memory (value_size (mach E))) st) (\<lambda>st.
       Ok (VRight result, st)))))
   | CCase f g \<Rightarrow>
       rbind (on_budget consume_step st) (\<lambda>st.
       case input of
         VLeft a \<Rightarrow>
           if \<not> case_payload_ok E f a then Err (ETypeMismatch ''Case Left payload type mismatch'')
           else ev f a st
       | VRight b \<Rightarrow>
           if \<not> case_payload_ok E g b then Err (ETypeMismatch ''Case Right payload type mismatch'')
           else ev g b st
       | VBool b \<Rightarrow>
           if input_is_bool E node_id then ev (if b then g else f) VUnit st
           else Err (ETypeMismatch ''Case expects Sum (Left/Right) or Bool input'')
       | _ \<Rightarrow> Err (ETypeMismatch ''Case expects Sum (Left/Right) or Bool input''))
   | Fold f z k \<Rightarrow>
       rbind (on_budget consume_step st) (\<lambda>st.
       case input of
         VPair _ init_input \<Rightarrow>
           rbind (ev z init_input st) (\<lambda>(acc, st).
           rbind (fold_times (unat k) (fold_iter E (ev f) init_input) (acc, 0, st)) fold_end)
       | _ \<Rightarrow> Err (ETypeMismatch ''Fold expects Pair input''))
   | ListFold f z \<Rightarrow>
       rbind (on_budget consume_step st) (\<lambda>st.
       case input of
         VPair a init_input \<Rightarrow>
           (case a of
              VList elems \<Rightarrow>
                rbind (ev z init_input st) (\<lambda>(acc, st).
                rbind (rfold (fold_iter E (ev f)) elems (acc, 0, st)) fold_end)
            | _ \<Rightarrow> Err (ETypeMismatch ''ListFold expects List as first element of Pair''))
       | _ \<Rightarrow> Err (ETypeMismatch ''ListFold expects Pair input''))
   | Jet j \<Rightarrow>
       rbind (on_budget (consume_steps (runtime_cost j input (ctx E))) st) (\<lambda>st.
       rbind (map_err EJetError (jet_eval (crypt E) j input (ctx E))) (\<lambda>result.
       rbind (track_value (mach E) result st) (\<lambda>st. Ok (result, st))))
   | CWitness \<Rightarrow>
       rbind (on_budget consume_step st) (\<lambda>st.
       rbind (read_typed_value (wdata E) (output_type (typed_nodes E ! node_id)) st) (\<lambda>(v, st).
       rbind (track_value (mach E) v st) (\<lambda>st. Ok (v, st))))
   | MerkleHidden _ \<Rightarrow> Err HiddenNode
   | CConst v \<Rightarrow>
       rbind (on_budget consume_step st) (\<lambda>st.
       rbind (track_value (mach E) v st) (\<lambda>st. Ok (v, st))))"

text \<open>The first argument is the number of levels still allowed,
  \<open>MAX_EVAL_DEPTH + 1 - depth\<close>.\<close>

primrec eval_node :: "nat \<Rightarrow> env \<Rightarrow> node_eval" where
  "eval_node 0 E node_id input st = Err RecursionDepthExceeded"
| "eval_node (Suc n) E node_id input st =
     rbind (ok_or (ENodeOutOfBounds node_id) (get_node (prog E) node_id)) (\<lambda>nd.
     eval_step E (eval_node n E) node_id nd input st)"

definition evaluate_with_context ::
    "crypto \<Rightarrow> machine \<Rightarrow> Program \<Rightarrow> Value \<Rightarrow> bytes \<Rightarrow> Budget \<Rightarrow> ScriptContext
     \<Rightarrow> EvalError + Value \<times> Budget" where
  "evaluate_with_context C M program input witness_data b context =
     rbind (map_err (\<lambda>_. ETypeMismatch ''typecheck failed'') (typecheck program)) (\<lambda>typed.
     let E = \<lparr>crypt = C, mach = M, prog = program, wdata = witness_data, ctx = context, typed_nodes = typed\<rparr>
     in rbind (eval_node (MAX_EVAL_DEPTH + 1) E (root program) input \<lparr>budget = b, wpos = 0, measured = 0\<rparr>)
     (\<lambda>(result, st).
     if wpos st < length witness_data then Err (WitnessError ''unconsumed witness bytes'')
     else Ok (result, budget st)))"

definition evaluate :: "crypto \<Rightarrow> machine \<Rightarrow> Program \<Rightarrow> Value \<Rightarrow> bytes \<Rightarrow> Budget \<Rightarrow> EvalError + Value \<times> Budget" where
  "evaluate C M program input witness_data b =
     evaluate_with_context C M program input witness_data b empty_context"

end
