(* ===== verification/Script_Serialize.thy ===== *)
theory Script_Serialize
  imports Script_Ast
begin

text \<open>
  The binary format of programs and their Merkle hashes, \<open>script/serialize.rs\<close>. The
  decoder is the admission point of every script: what it returns has passed
  \<open>validate_structure\<close>.
\<close>


section \<open>Operations\<close>

datatype SerializeError =
    UnexpectedEnd
  | UnknownTag byte
  | InvalidJetId u32
  | ValueError string
  | InvalidStructure string

definition id_bytes :: "NodeId \<Rightarrow> bytes" where
  "id_bytes i = to_le 4 i"

fun serialize_node :: "Combinator \<Rightarrow> bytes" where
  "serialize_node Iden = [0x00]"
| "serialize_node (Comp f g) = 0x01 # id_bytes f @ id_bytes g"
| "serialize_node CUnit = [0x02]"
| "serialize_node (CPair f g) = 0x03 # id_bytes f @ id_bytes g"
| "serialize_node (CTake f) = 0x04 # id_bytes f"
| "serialize_node (CDrop f) = 0x05 # id_bytes f"
| "serialize_node (InjL f) = 0x06 # id_bytes f"
| "serialize_node (InjR f) = 0x07 # id_bytes f"
| "serialize_node (CCase f g) = 0x08 # id_bytes f @ id_bytes g"
| "serialize_node (Fold f z k) = 0x09 # id_bytes f @ id_bytes z @ le64 k"
| "serialize_node (ListFold f z) = 0x0A # id_bytes f @ id_bytes z"
| "serialize_node (Jet j) = 0x0B # le32 (jet_code j)"
| "serialize_node CWitness = [0x0C]"
| "serialize_node (MerkleHidden h) = 0x0D # h"
| "serialize_node (CConst v) =
     0x0E # le32 (of_nat (length (Value_serialize v))) @ Value_serialize v"

definition serialize_program :: "Program \<Rightarrow> bytes" where
  "serialize_program p =
     le32 (of_nat (length (nodes p))) @ id_bytes (root p) @ concat (map serialize_node (nodes p))"

text \<open>The node formats with one and with two children.\<close>

definition deser1 :: "(NodeId \<Rightarrow> Combinator) \<Rightarrow> bytes \<Rightarrow> SerializeError + Combinator \<times> nat" where
  "deser1 K rest = (if length rest < 4 then Err UnexpectedEnd
     else Ok (K (of_le (bslice rest 0 4)), 5))"

definition deser2 :: "(NodeId \<Rightarrow> NodeId \<Rightarrow> Combinator) \<Rightarrow> bytes \<Rightarrow> SerializeError + Combinator \<times> nat" where
  "deser2 K rest = (if length rest < 8 then Err UnexpectedEnd
     else Ok (K (of_le (bslice rest 0 4)) (of_le (bslice rest 4 8)), 9))"

definition deserialize_node :: "bytes \<Rightarrow> SerializeError + Combinator \<times> nat" where
  "deserialize_node data = (case data of
     [] \<Rightarrow> Err UnexpectedEnd
   | tag # rest \<Rightarrow>
       if tag = 0x00 then Ok (Iden, 1)
       else if tag = 0x01 then deser2 Comp rest
       else if tag = 0x02 then Ok (CUnit, 1)
       else if tag = 0x03 then deser2 CPair rest
       else if tag = 0x04 then deser1 CTake rest
       else if tag = 0x05 then deser1 CDrop rest
       else if tag = 0x06 then deser1 InjL rest
       else if tag = 0x07 then deser1 InjR rest
       else if tag = 0x08 then deser2 CCase rest
       else if tag = 0x09 then
         (if length rest < 16 then Err UnexpectedEnd
          else Ok (Fold (of_le (bslice rest 0 4)) (of_le (bslice rest 4 8))
                     (u64_le (bslice rest 8 16)), 17))
       else if tag = 0x0A then deser2 ListFold rest
       else if tag = 0x0B then
         (if length rest < 4 then Err UnexpectedEnd
          else let i = u32_le (bslice rest 0 4) in
            rbind (ok_or (InvalidJetId i) (JetId_from_u32 i)) (\<lambda>j. Ok (Jet j, 5)))
       else if tag = 0x0C then Ok (CWitness, 1)
       else if tag = 0x0D then
         (if length rest < 32 then Err UnexpectedEnd
          else Ok (MerkleHidden (bslice rest 0 32), 33))
       else if tag = 0x0E then
         (if length rest < 4 then Err UnexpectedEnd
          else let value_len = unat (u32_le (bslice rest 0 4)) in
            if length rest < 4 + value_len then Err UnexpectedEnd
            else rbind (map_err ValueError (Value_deserialize (bslice rest 4 (4 + value_len))))
              (\<lambda>(v, consumed).
                if consumed \<noteq> value_len then Err (ValueError ''TAG_CONST payload size'')
                else Ok (CConst v, 5 + value_len)))
       else Err (UnknownTag tag))"

definition deserialize_program :: "bytes \<Rightarrow> SerializeError + Program" where
  "deserialize_program data =
     (if length data < 8 then Err UnexpectedEnd
      else let
          node_count = unat (u32_le (bslice data 0 4));
          rt = of_le (bslice data 4 8) in
        if node_count > MAX_SCRIPT_NODES then Err (InvalidStructure ''node_count exceeds maximum'')
        else if node_count > length data - 8
          then Err (InvalidStructure ''node_count exceeds available data'')
        else
          rbind (dec_loop deserialize_node node_count data 8) (\<lambda>(nds, pos).
          if length nds \<noteq> node_count then Err (InvalidStructure ''node count mismatch'')
          else if pos \<noteq> length data then Err (InvalidStructure ''trailing bytes'')
          else let p = \<lparr>nodes = nds, root = rt\<rparr> in
            rbind (map_err InvalidStructure (validate_structure p)) (\<lambda>_. Ok p)))"

text \<open>Merkle hashing refers to a child by its hash.\<close>

definition node_merkle_bytes :: "Combinator \<Rightarrow> bytes list \<Rightarrow> bytes" where
  "node_merkle_bytes nd hs = (case nd of
     Iden \<Rightarrow> [0x00]
   | Comp f g \<Rightarrow> 0x01 # hs ! f @ hs ! g
   | CUnit \<Rightarrow> [0x02]
   | CPair f g \<Rightarrow> 0x03 # hs ! f @ hs ! g
   | CTake f \<Rightarrow> 0x04 # hs ! f
   | CDrop f \<Rightarrow> 0x05 # hs ! f
   | InjL f \<Rightarrow> 0x06 # hs ! f
   | InjR f \<Rightarrow> 0x07 # hs ! f
   | CCase f g \<Rightarrow> 0x08 # hs ! f @ hs ! g
   | Fold f z k \<Rightarrow> 0x09 # hs ! f @ hs ! z @ le64 k
   | ListFold f z \<Rightarrow> 0x0A # hs ! f @ hs ! z
   | Jet j \<Rightarrow> 0x0B # le32 (jet_code j)
   | CWitness \<Rightarrow> [0x0C]
   | MerkleHidden h \<Rightarrow> h
   | CConst v \<Rightarrow> 0x0E # Value_serialize v)"

definition node_merkle_hash :: "crypto \<Rightarrow> Combinator \<Rightarrow> bytes list \<Rightarrow> bytes" where
  "node_merkle_hash C nd hs = (case nd of
     MerkleHidden h \<Rightarrow> h
   | _ \<Rightarrow> domain_hash C DS_SCRIPT (node_merkle_bytes nd hs))"

definition merkle_hash :: "crypto \<Rightarrow> Program \<Rightarrow> bytes" where
  "merkle_hash C p = bottom_up (node_merkle_hash C) ZERO (nodes p) ! root p"

definition node_structural_merkle_hash :: "crypto \<Rightarrow> Combinator \<Rightarrow> bytes list \<Rightarrow> bytes" where
  "node_structural_merkle_hash C nd hs = (case nd of
     CConst v \<Rightarrow> domain_hash C DS_SCRIPT (0x0E # structural_skeleton v)
   | _ \<Rightarrow> node_merkle_hash C nd hs)"

definition structural_merkle_hash :: "crypto \<Rightarrow> Program \<Rightarrow> bytes" where
  "structural_merkle_hash C p = bottom_up (node_structural_merkle_hash C) ZERO (nodes p) ! root p"


section \<open>The codecs\<close>

definition wf_const :: "Value \<Rightarrow> bool" where
  "wf_const v = wf_value (MAX_VALUE_DEPTH + 1) v"

fun wf_node :: "Combinator \<Rightarrow> bool" where
  "wf_node (MerkleHidden h) = (length h = 32)"
| "wf_node (CConst v) = (wf_const v \<and> length (Value_serialize v) < 2 ^ 32)"
| "wf_node nd = list_all (\<lambda>c. c < 2 ^ 32) (children_of nd)"

definition wf_program :: "Program \<Rightarrow> bool" where
  "wf_program p \<longleftrightarrow> list_all wf_node (nodes p) \<and> length (nodes p) \<le> MAX_SCRIPT_NODES
     \<and> validate_structure p = Ok ()"

interpretation val: codec Value_enc Value_deserialize wf_const
  unfolding Value_deserialize_def[abs_def] wf_const_def[abs_def] by (rule value_codec)

abbreviation node_enc :: "Combinator \<Rightarrow> SerializeError + bytes" where
  "node_enc \<equiv> \<lambda>nd. Ok (serialize_node nd)"

lemma jet_code_roundtrip [simp]: "JetId_from_u32 (jet_code j) = Some j"
  by (cases j) (simp_all add: JetId_from_u32_def jet_codes_def)

lemma jet_code_canon: "JetId_from_u32 i = Some j \<Longrightarrow> jet_code j = i"
  by (auto simp: JetId_from_u32_def jet_codes_def split: if_splits)

lemma length_id_bytes [simp]: "length (id_bytes i) = 4"
  by (simp add: id_bytes_def)

lemma id_bytes_roundtrip [simp]: "i < 2 ^ 32 \<Longrightarrow> of_le (id_bytes i) = i"
  by (simp add: id_bytes_def)

lemma id_bytes_canon: "length bs = 4 \<Longrightarrow> id_bytes (of_le bs) = bs"
  by (simp add: id_bytes_def to_le_of_le_id)

lemma of_le_4: "length bs = 4 \<Longrightarrow> of_le bs < 4294967296"
  using of_le_bound[of bs] by simp

lemma node_dec_enc:
  assumes "wf_node nd"
  shows "deserialize_node (serialize_node nd @ r) = Ok (nd, length (serialize_node nd))"
proof (cases nd)
  case (CConst v)
  then have v: "length (Value_serialize v) < 4294967296" "wf_const v"
    using assms by simp_all
  have "Value_deserialize (Value_serialize v) = Ok (v, length (Value_serialize v))"
    using val.dec_enc[OF v(2) refl, of "[]"] by simp
  then show ?thesis using v(1)
    by (simp add: deserialize_node_def CConst unat_of_nat_u32 slice_append_right)
qed (use assms in \<open>simp_all add: deserialize_node_def deser1_def deser2_def slice_append_right\<close>)

lemma deser1_Ok: "deser1 K rest = Ok (nd, k) \<longleftrightarrow>
    4 \<le> length rest \<and> nd = K (of_le (bslice rest 0 4)) \<and> k = 5"
  by (auto simp: deser1_def)

lemma deser2_Ok: "deser2 K rest = Ok (nd, k) \<longleftrightarrow>
    8 \<le> length rest \<and> nd = K (of_le (bslice rest 0 4)) (of_le (bslice rest 4 8)) \<and> k = 9"
  by (auto simp: deser2_def)

lemma take_slices:
  "take 4 rest = bslice rest 0 4" "take 8 rest = bslice rest 0 4 @ bslice rest 4 8"
  "take 16 rest = bslice rest 0 4 @ bslice rest 4 8 @ bslice rest 8 16"
  using take_add[of 4 4 rest] take_add[of 8 8 rest] by (simp_all add: bslice_def)


lemma node_canon:
  assumes "deserialize_node d = Ok (nd, k)"
  shows "wf_node nd \<and> k \<le> length d \<and> serialize_node nd = take k d"
proof -
  obtain tag rest where d: "d = tag # rest" using assms by (cases d) (auto simp: deserialize_node_def)
  show ?thesis
  proof (cases "tag = 0x0E")
    case True
    then obtain vl v where v: "vl = unat (u32_le (bslice rest 0 4))" "4 + vl \<le> length rest"
        "Value_deserialize (bslice rest 4 (4 + vl)) = Ok (v, vl)" "nd = CConst v" "k = Suc (4 + vl)"
      using assms by (auto simp: d deserialize_node_def Let_def result_simps split: if_splits prod.splits)
    note c = val.dec_canon[OF v(3)]
    then have s: "Value_serialize v = bslice rest 4 (4 + vl)" using v(2) by simp
    have le: "le32 (of_nat vl) = bslice rest 0 4" "vl < 2 ^ 32"
      using v(1,2) le_word_roundtrip(2)[of "bslice rest 0 4"] unat_bound[of "u32_le (bslice rest 0 4)"]
      by simp_all
    have len: "length (bslice rest 4 (4 + vl)) = vl" using v(2) by simp
    have "serialize_node nd = 0x0E # take (4 + vl) rest"
      by (simp only: v(4) serialize_node.simps s len le take_add_slice) (simp add: bslice_def)
    then have "serialize_node nd = take k d" by (simp only: v(5) d True take_Suc_Cons)
    then show ?thesis using v(2) le(2) len c s by (simp add: v(4,5) d)
  next
    case False
    then show ?thesis using assms
      by (auto simp: d deserialize_node_def Let_def result_simps deser1_Ok deser2_Ok take_slices
          id_bytes_canon of_le_4 le_word_roundtrip jet_code_canon split: if_splits)
        (simp_all add: bslice_def)
  qed
qed

interpretation node: codec_min node_enc deserialize_node wf_node 1
proof
  fix nd b r
  assume "wf_node nd" "node_enc nd = Ok b"
  then show "deserialize_node (b @ r) = Ok (nd, length b)" using node_dec_enc by auto
next
  fix d nd k
  assume "deserialize_node d = Ok (nd, k)"
  then show "wf_node nd \<and> k \<le> length d \<and> node_enc nd = Ok (take k d)" using node_canon by simp
next
  fix nd b
  assume "wf_node nd" "node_enc nd = Ok b"
  then show "1 \<le> length b" by (cases nd) auto
qed

lemma program_dec_enc:
  assumes "wf_program p"
  shows "deserialize_program (serialize_program p) = Ok p"
proof -
  let ?n = "length (nodes p)" and ?b = "concat (map serialize_node (nodes p))"
  let ?h = "le32 (of_nat ?n) @ id_bytes (root p)"
  have wf: "list_all wf_node (nodes p)" "?n \<le> 65535" "validate_structure p = Ok ()" "root p < ?n"
    using assms by (auto simp: wf_program_def constants validate_structure_Ok)
  have "?n \<le> length ?b"
    using node.enc_loop_min[OF wf(1)] by simp
  moreover have "dec_loop deserialize_node ?n (?h @ ?b @ []) 8 = Ok (nodes p, 8 + length ?b)"
    by (rule node.dec_loop_at[OF wf(1)]) simp_all
  ultimately show ?thesis
    using wf by (cases p) (simp add: deserialize_program_def serialize_program_def Let_def constants
        unat_of_nat_u32 slice_append_right)
qed

lemma program_canon:
  assumes "deserialize_program d = Ok p"
  shows "wf_program p \<and> serialize_program p = d"
proof -
  have l: "8 \<le> length d" and n: "unat (u32_le (bslice d 0 4)) \<le> MAX_SCRIPT_NODES"
      and s: "dec_loop deserialize_node (unat (u32_le (bslice d 0 4))) d 8 = Ok (nodes p, length d)"
      and r: "root p = of_le (bslice d 4 8)" and v: "validate_structure p = Ok ()"
    using assms by (auto simp: deserialize_program_def Let_def result_simps split: if_splits prod.splits)
  note c = node.dec_loop_canon[OF s l]
  have "d = bslice d 0 4 @ bslice d 4 8 @ bslice d 8 (length d)"
    using l by (simp flip: slice_split)
  then show ?thesis using c n r v l
    by (auto simp: wf_program_def serialize_program_def id_bytes_canon le_word_roundtrip)
qed



section \<open>Properties\<close>

definition sample_program :: Program where
  "sample_program = \<lparr>nodes = [Comp 1 2, Iden, CConst (VBool True)], root = 0\<rparr>"

lemma sample_program_wf: "wf_program sample_program"
  by (simp add: sample_program_def wf_program_def wf_const_def constants validate_structure_def
      scan_reachable_def scan_step_def upt_conv_Cons)

text \<open>The well-formed programs are exactly those that the decoder reads back from their
  own encoding.\<close>

theorem program_roundtrip:
  "wf_program p \<longleftrightarrow> deserialize_program (serialize_program p) = Ok p"
  using program_dec_enc program_canon by blast

text \<open>C30. Scripts are canonical: every byte string the decoder accepts is the encoding of the
  well-formed program it returns, so decoding and encoding again never changes the bytes.\<close>

theorem program_canonical:
  assumes "deserialize_program d = Ok p"
  shows "wf_program p \<and> serialize_program p = d"
  using assms by (rule program_canon)

theorem program_canonical_witness:
  "deserialize_program (serialize_program sample_program) = Ok sample_program
   \<and> wf_program sample_program"
  using program_canonical[of "serialize_program sample_program" sample_program]
    program_dec_enc[OF sample_program_wf] by simp

text \<open>C31. A program passes the structural check exactly when its root is a node, every child
  index lies strictly between its parent and the end of the arena, and every node can be
  reached from the root.\<close>

theorem validate_structure_correct:
  "validate_structure p = Ok () \<longleftrightarrow>
     root p < length (nodes p)
     \<and> (\<forall>i < length (nodes p). \<forall>c \<in> set (children_of (nodes p ! i)). i < c \<and> c < length (nodes p))
     \<and> (\<forall>j < length (nodes p). (root p, j) \<in> (edges (nodes p))\<^sup>*)"
  by (simp add: validate_structure_Ok dag_def)

theorem validate_structure_correct_witness:
  "validate_structure sample_program = Ok () \<and> (0, 2) \<in> (edges (nodes sample_program))\<^sup>*"
proof -
  have v: "validate_structure sample_program = Ok ()" using sample_program_wf by (simp add: wf_program_def)
  moreover have "root sample_program = 0" "2 < length (nodes sample_program)"
    by (simp_all add: sample_program_def)
  ultimately show ?thesis using validate_structure_correct[of sample_program] by metis
qed

end
