(* ===== verification/Script_Meaning.thy ===== *)
theory Script_Meaning
  imports Script_Eval Script_Serialize
begin

text \<open>
  What a script means, and that the interpreter computes it: a big-step relation over the nodes
  without any resource, its determinism, the agreement of \<open>eval_node\<close> with it on every
  outcome, and what follows for whole evaluations: independence of budget and allocator,
  canonical witnesses, and values of the types the checker gave.
\<close>

section \<open>The meaning of a program\<close>

text \<open>Big-step evaluation without resources: node \<open>i\<close> on input \<open>x\<close> with the
  witness reader at \<open>w\<close> gives \<open>v\<close> and moves the reader to \<open>w'\<close>. The second relation is
  the iteration of a fold step over the elements.\<close>

inductive big :: "env \<Rightarrow> NodeId \<Rightarrow> Value \<Rightarrow> nat \<Rightarrow> Value \<Rightarrow> nat \<Rightarrow> bool"
  and big_fold :: "env \<Rightarrow> NodeId \<Rightarrow> Value list \<Rightarrow> Value \<Rightarrow> nat \<Rightarrow> Value \<Rightarrow> nat \<Rightarrow> bool"
  for E :: env where
  big_iden: "get_node (prog E) i = Some Iden \<Longrightarrow> big E i x w x w"
| big_unit: "get_node (prog E) i = Some CUnit \<Longrightarrow> big E i x w VUnit w"
| big_comp: "get_node (prog E) i = Some (Comp f g) \<Longrightarrow> big E f x w m w1 \<Longrightarrow> big E g m w1 v w2
    \<Longrightarrow> big E i x w v w2"
| big_pair: "get_node (prog E) i = Some (CPair f g) \<Longrightarrow> big E f x w a w1 \<Longrightarrow> big E g x w1 b w2
    \<Longrightarrow> big E i x w (VPair a b) w2"
| big_take: "get_node (prog E) i = Some (CTake f) \<Longrightarrow> big E f a w v w1 \<Longrightarrow> big E i (VPair a b) w v w1"
| big_drop: "get_node (prog E) i = Some (CDrop f) \<Longrightarrow> big E f b w v w1 \<Longrightarrow> big E i (VPair a b) w v w1"
| big_injl: "get_node (prog E) i = Some (InjL f) \<Longrightarrow> big E f x w v w1 \<Longrightarrow> big E i x w (VLeft v) w1"
| big_injr: "get_node (prog E) i = Some (InjR f) \<Longrightarrow> big E f x w v w1 \<Longrightarrow> big E i x w (VRight v) w1"
| big_left: "get_node (prog E) i = Some (CCase f g) \<Longrightarrow> case_payload_ok E f a \<Longrightarrow> big E f a w v w1
    \<Longrightarrow> big E i (VLeft a) w v w1"
| big_right: "get_node (prog E) i = Some (CCase f g) \<Longrightarrow> case_payload_ok E g a \<Longrightarrow> big E g a w v w1
    \<Longrightarrow> big E i (VRight a) w v w1"
| big_bool: "get_node (prog E) i = Some (CCase f g) \<Longrightarrow> input_is_bool E i
    \<Longrightarrow> big E (if b then g else f) VUnit w v w1 \<Longrightarrow> big E i (VBool b) w v w1"
| big_times: "get_node (prog E) i = Some (Fold f z k) \<Longrightarrow> big E z y w a w1
    \<Longrightarrow> big_fold E f (replicate (unat k) y) a w1 v w2 \<Longrightarrow> big E i (VPair c y) w v w2"
| big_list: "get_node (prog E) i = Some (ListFold f z) \<Longrightarrow> big E z y w a w1
    \<Longrightarrow> big_fold E f xs a w1 v w2 \<Longrightarrow> big E i (VPair (VList xs) y) w v w2"
| big_jet: "get_node (prog E) i = Some (Jet j) \<Longrightarrow> jet_eval (crypt E) j x (ctx E) = Ok v \<Longrightarrow> big E i x w v w"
| big_witness: "get_node (prog E) i = Some CWitness \<Longrightarrow> w < length (wdata E)
    \<Longrightarrow> Value_deserialize (drop w (wdata E)) = Ok (v, n)
    \<Longrightarrow> output_type (typed_nodes E ! i) = TUnit \<or> matches_type v (output_type (typed_nodes E ! i))
    \<Longrightarrow> big E i x w v (w + n)"
| big_const: "get_node (prog E) i = Some (CConst v) \<Longrightarrow> big E i x w v w"
| fold_nil: "big_fold E f [] a w a w"
| fold_cons: "big E f (VPair x a) w a1 w1 \<Longrightarrow> big_fold E f xs a1 w1 v w2 \<Longrightarrow> big_fold E f (x # xs) a w v w2"


inductive_cases big_foldE: "big_fold E f [] a w v w'" "big_fold E f (x # xs) a w v w'"

text \<open>The rules read from the node.\<close>

definition big_node :: "env \<Rightarrow> NodeId \<Rightarrow> Combinator \<Rightarrow> Value \<Rightarrow> nat \<Rightarrow> Value \<Rightarrow> nat \<Rightarrow> bool" where
  "big_node E i nd x w v w' = (case nd of
     Iden \<Rightarrow> v = x \<and> w' = w
   | CUnit \<Rightarrow> v = VUnit \<and> w' = w
   | Comp f g \<Rightarrow> \<exists>m w1. big E f x w m w1 \<and> big E g m w1 v w'
   | CPair f g \<Rightarrow> \<exists>a b w1. v = VPair a b \<and> big E f x w a w1 \<and> big E g x w1 b w'
   | CTake f \<Rightarrow> \<exists>a b. x = VPair a b \<and> big E f a w v w'
   | CDrop f \<Rightarrow> \<exists>a b. x = VPair a b \<and> big E f b w v w'
   | InjL f \<Rightarrow> \<exists>u. v = VLeft u \<and> big E f x w u w'
   | InjR f \<Rightarrow> \<exists>u. v = VRight u \<and> big E f x w u w'
   | CCase f g \<Rightarrow> (\<exists>a. x = VLeft a \<and> case_payload_ok E f a \<and> big E f a w v w')
       \<or> (\<exists>a. x = VRight a \<and> case_payload_ok E g a \<and> big E g a w v w')
       \<or> (\<exists>b. x = VBool b \<and> input_is_bool E i \<and> big E (if b then g else f) VUnit w v w')
   | Fold f z k \<Rightarrow> \<exists>c y a w1. x = VPair c y \<and> big E z y w a w1 \<and> big_fold E f (replicate (unat k) y) a w1 v w'
   | ListFold f z \<Rightarrow> \<exists>xs y a w1. x = VPair (VList xs) y \<and> big E z y w a w1 \<and> big_fold E f xs a w1 v w'
   | Jet j \<Rightarrow> jet_eval (crypt E) j x (ctx E) = Ok v \<and> w' = w
   | CWitness \<Rightarrow> \<exists>n. w < length (wdata E) \<and> Value_deserialize (drop w (wdata E)) = Ok (v, n) \<and> w' = w + n
       \<and> (output_type (typed_nodes E ! i) = TUnit \<or> matches_type v (output_type (typed_nodes E ! i)))
   | MerkleHidden _ \<Rightarrow> False
   | CConst u \<Rightarrow> v = u \<and> w' = w)"

lemma big_invert: "big E i x w v w' \<Longrightarrow> \<exists>nd. get_node (prog E) i = Some nd \<and> big_node E i nd x w v w'"
  by (erule big.cases; simp add: big_node_def; blast?)

lemma big_intro: "get_node (prog E) i = Some nd \<Longrightarrow> big_node E i nd x w v w' \<Longrightarrow> big E i x w v w'"
  by (cases nd) (auto simp: big_node_def intro: big_big_fold.intros)

lemma big_at: "get_node (prog E) i = Some nd \<Longrightarrow> big E i x w v w' \<longleftrightarrow> big_node E i nd x w v w'"
  using big_invert big_intro by fastforce

lemma value_injD:
  "VPair a b = VPair c d \<Longrightarrow> a = c \<and> b = d" "VLeft a = VLeft c \<Longrightarrow> a = c" "VRight a = VRight c \<Longrightarrow> a = c"
  "VBool p = VBool q \<Longrightarrow> p = q" "VList xs = VList ys \<Longrightarrow> xs = ys"
  by simp_all

lemma big_det_both:
  "big E i x w v w' \<Longrightarrow> (\<forall>u u'. big E i x w u u' \<longrightarrow> u = v \<and> u' = w')"
  "big_fold E f xs a w v w' \<Longrightarrow> (\<forall>u u'. big_fold E f xs a w u u' \<longrightarrow> u = v \<and> u' = w')"
proof (induction rule: big_big_fold.inducts)
  case (fold_cons f x a w a1 w1 xs v w2)
  then show ?case by (blast elim: big_foldE)
next
  case (fold_nil f a w)
  then show ?case by (blast elim: big_foldE)
qed (intro allI impI, subst (asm) big_at, assumption, unfold big_node_def Combinator.case,
    (blast dest: value_injD | simp))+

lemmas big_det = big_det_both(1)[rule_format]

section \<open>The interpreter computes the meaning\<close>

text \<open>The outcome of a computation against a relation on values and reader positions: a
  result is related; a failure is one of the tolerated ones or a genuine one, and then
  nothing is related.\<close>

definition genuine :: "EvalError \<Rightarrow> bool" where
  "genuine e \<longleftrightarrow> e \<noteq> RecursionDepthExceeded \<and> (\<forall>j. e \<noteq> ENodeOutOfBounds j)"

definition outcome :: "(EvalError \<Rightarrow> bool) \<Rightarrow> ('a \<Rightarrow> nat \<Rightarrow> bool) \<Rightarrow> (EvalError + 'a \<times> EvalState) \<Rightarrow> bool" where
  "outcome D R m = (case m of Inr (v, st) \<Rightarrow> R v (wpos st)
     | Inl e \<Rightarrow> D e \<or> genuine e \<and> (\<forall>v w. \<not> R v w))"

definition tolerates :: "(EvalError \<Rightarrow> bool) \<Rightarrow> bool" where
  "tolerates D \<longleftrightarrow> D BudgetExceeded \<and> D MemoryExceeded"

lemma outcome_simps [simp]:
  "outcome D R (Ok (v, st)) \<longleftrightarrow> R v (wpos st)"
  "outcome D R (Err e) \<longleftrightarrow> D e \<or> genuine e \<and> (\<forall>v w. \<not> R v w)"
  by (simp_all add: outcome_def)

lemma genuine_simps [simp]:
  "genuine (ETypeMismatch s)" "genuine HiddenNode" "genuine (WitnessError s)" "genuine (EJetError je)"
  by (simp_all add: genuine_def)

lemma outcome_cong: "outcome D R m \<Longrightarrow> (\<And>v w. R v w \<longleftrightarrow> S v w) \<Longrightarrow> outcome D S m"
  by (simp add: outcome_def split: sum.splits prod.splits)

lemma outcome_bind:
  assumes "outcome D R m" "\<And>v st. R v (wpos st) \<Longrightarrow> outcome D (S v (wpos st)) (f (v, st))"
    and "\<And>v w v' w'. R v w \<Longrightarrow> R v' w' \<Longrightarrow> v' = v \<and> w' = w"
  shows "outcome D (\<lambda>u w2. \<exists>v w1. R v w1 \<and> S v w1 u w2) (rbind m f)"
proof (cases m)
  case (Inl e)
  then show ?thesis using assms(1) by auto
next
  case (Inr r)
  obtain v st where r: "r = (v, st)" by fastforce
  then have R: "R v (wpos st)" using assms(1) Inr by simp
  then have "(\<exists>v w1. R v w1 \<and> S v w1 u w2) \<longleftrightarrow> S v (wpos st) u w2" for u w2
    using assms(3) by blast
  then show ?thesis using assms(2)[OF R] Inr r by simp
qed

definition charge :: "(Budget \<Rightarrow> EvalError + Budget) \<Rightarrow> bool" where
  "charge f \<longleftrightarrow> (\<forall>b e. f b = Err e \<longrightarrow> e = BudgetExceeded \<or> e = MemoryExceeded)"

lemma charges [simp]:
  "charge consume_step" "charge (consume_steps n)" "charge consume_cell" "charge (track_memory n)"
  by (simp_all add: charge_def consume_step_def consume_steps_def consume_cell_def track_memory_def)

lemma outcome_charge:
  assumes "charge f" "tolerates D" "\<And>st'. wpos st' = wpos st \<Longrightarrow> outcome D R (k st')"
  shows "outcome D R (rbind (on_budget f st) k)"
  using assms by (cases "f (budget st)") (auto simp: on_budget_def charge_def tolerates_def)

lemma wpos_simps [simp]: "wpos (released n st) = wpos st" "wpos (snd (measure_heap M v st)) = wpos st"
  by (simp_all add: released_def measure_heap_def)

lemma outcome_track:
  assumes "tolerates D" "\<And>st'. wpos st' = wpos st \<Longrightarrow> outcome D R (k st')"
  shows "outcome D R (rbind (track_value M v st) k)"
  unfolding track_value_def measure_heap_def Let_def prod.case
  by (rule outcome_charge) (use assms in simp_all)

lemma outcome_read:
  "outcome D (\<lambda>v w'. \<exists>n. wpos st < length data \<and> Value_deserialize (drop (wpos st) data) = Ok (v, n)
     \<and> w' = wpos st + n \<and> (t = TUnit \<or> matches_type v t)) (read_typed_value data t st)"
  by (cases "Value_deserialize (drop (wpos st) data)") (auto simp: read_typed_value_def read_value_def)

lemma fold_times_rfold: "fold_times k (f y) = rfold f (replicate k y)"
  by (induction k) (rule ext, simp)+

text \<open>The loop unrolled once, and its outcome.\<close>

lemma fold_loop_Cons:
  "rbind (rfold (fold_iter E ev) (x # xs) (a, h, st)) fold_end =
     rbind (on_budget consume_step st) (\<lambda>st.
     rbind (on_budget (track_memory (fst (measure_heap (mach E) x (released h st)) + 2 * value_size (mach E)))
       (snd (measure_heap (mach E) x (released h st)))) (\<lambda>st.
     rbind (ev (VPair x a) (snd (measure_heap (mach E) (VPair x a) st))) (\<lambda>(acc, st').
     rbind (rfold (fold_iter E ev) xs (acc, fst (measure_heap (mach E) (VPair x a) st), st')) fold_end)))"
  by (simp add: fold_iter_def Let_def rbind_assoc case_prod_unfold)

lemma outcome_fold:
  assumes "tolerates D" "\<And>y st. outcome D (big E f y (wpos st)) (ev y st)"
  shows "outcome D (big_fold E f xs a (wpos st)) (rbind (rfold (fold_iter E ev) xs (a, h, st)) fold_end)"
proof (induction xs arbitrary: a h st)
  case Nil
  show ?case by (simp add: fold_end_def fold_nil)
next
  case (Cons x xs)
  have R: "big_fold E f (x # xs) a (wpos st) v w \<longleftrightarrow>
      (\<exists>a1 w1. big E f (VPair x a) (wpos st) a1 w1 \<and> big_fold E f xs a1 w1 v w)" for v w
    by (blast elim: big_foldE intro: fold_cons)
  show ?case
    unfolding fold_loop_Cons R
  proof (intro outcome_charge charges assms(1))
    fix st1 st2 :: EvalState assume w: "wpos st1 = wpos st"
      "wpos st2 = wpos (snd (measure_heap (mach E) x (released h st1)))"
    let ?st = "snd (measure_heap (mach E) (VPair x a) st2)"
    have "wpos ?st = wpos st" using w by simp
    then have ev: "outcome D (big E f (VPair x a) (wpos st)) (ev (VPair x a) ?st)"
      using assms(2)[of "VPair x a" ?st] by simp
    show "outcome D (\<lambda>v w. \<exists>a1 w1. big E f (VPair x a) (wpos st) a1 w1 \<and> big_fold E f xs a1 w1 v w)
        (rbind (ev (VPair x a) ?st) (\<lambda>(acc, st').
         rbind (rfold (fold_iter E ev) xs (acc, fst (measure_heap (mach E) (VPair x a) st2), st')) fold_end))"
      by (rule outcome_bind[OF ev]) (use Cons.IH big_det in \<open>auto\<close>)
  qed
qed

text \<open>Two evaluations in a row, and a continuation that only builds a value from the
  result.\<close>

lemma outcome_seq:
  assumes "outcome D (big E f x w) m" "\<And>v st. outcome D (S v (wpos st)) (k v st)"
  shows "outcome D (\<lambda>u w2. \<exists>v w1. big E f x w v w1 \<and> S v w1 u w2) (rbind m (\<lambda>(v, st). k v st))"
  by (rule outcome_bind[OF assms(1)]) (use assms(2) big_det in \<open>auto dest: big_det\<close>)

lemma outcome_then:
  assumes "outcome D R m" "\<And>v st. outcome D (\<lambda>u w. u = h v \<and> w = wpos st) (k v st)"
  shows "outcome D (\<lambda>u w. \<exists>v. u = h v \<and> R v w) (rbind m (\<lambda>(v, st). k v st))"
proof (cases m)
  case (Inr r)
  obtain v st where r: "r = (v, st)" by fastforce
  then have R: "R v (wpos st)" using assms(1) Inr by simp
  show ?thesis
  proof (cases "k v st")
    case (Inl e)
    then show ?thesis using assms(2)[of v st] Inr r by auto
  next
    case (Inr q)
    then show ?thesis using assms(2)[of v st] \<open>m = Inr r\<close> r R by (cases q) auto
  qed
qed (use assms(1) in auto)

lemmas outcome_same = outcome_then[where h = "\<lambda>v. v", simplified]

lemma outcome_comp:
  assumes "tolerates D" "outcome D (big E f x w) (evf st1)" "\<And>v st. outcome D (big E g v (wpos st)) (evg v st)"
  shows "outcome D (\<lambda>u w2. \<exists>v w1. big E f x w v w1 \<and> big E g v w1 u w2)
    (rbind (evf st1) (\<lambda>(mid, st). let (mid_heap, st) = measure_heap M mid st in
       rbind (evg mid st) (\<lambda>(result, st). Ok (result, released mid_heap st))))"
proof (rule outcome_seq[OF assms(2)])
  fix v and st :: EvalState
  let ?st = "snd (measure_heap M v st)"
  have "outcome D (big E g v (wpos st)) (evg v ?st)" using assms(3)[of v ?st] by simp
  from outcome_then[OF this, of "\<lambda>v. v" "\<lambda>r st'. Ok (r, released (fst (measure_heap M v st)) st')"]
  show "outcome D (big E g v (wpos st)) (let (mid_heap, st) = measure_heap M v st in
       rbind (evg v st) (\<lambda>(result, st). Ok (result, released mid_heap st)))"
    by (simp add: Let_def case_prod_unfold)
qed

lemma outcome_tracked:
  assumes "tolerates D" "outcome D R m" "charge f"
  shows "outcome D (\<lambda>u w. \<exists>v. u = h v \<and> R v w) (rbind m (\<lambda>(v, st). rbind (on_budget f st) (\<lambda>st. Ok (h v, st))))"
  by (rule outcome_then[OF assms(2)]) (rule outcome_charge[OF assms(3,1)], simp)

lemma outcome_eval_step:
  assumes D: "tolerates D" and nd: "get_node (prog E) i = Some nd"
    and ev: "\<And>c x st w. c \<in> set (children_of nd) \<Longrightarrow> wpos st = w \<Longrightarrow> outcome D (big E c x w) (ev c x st)"
  shows "outcome D (big_node E i nd x (wpos st)) (eval_step E ev i nd x st)"
proof -
  note charge = outcome_charge[OF _ D] and track = outcome_track[OF D]
  show ?thesis
  proof (cases nd)
    case (Comp f g)
    show ?thesis
      unfolding Comp eval_step_def big_node_def Combinator.case
      by (intro charge charges outcome_comp D ev) (simp_all add: Comp)
  next
    case (CPair f g)
    have R: "(\<exists>a b w1. v = VPair a b \<and> big E f x w a w1 \<and> big E g x w1 b w')
      \<longleftrightarrow> (\<exists>a w1. big E f x w a w1 \<and> (\<exists>b. v = VPair a b \<and> big E g x w1 b w'))" for v w w' by blast
    show ?thesis
      unfolding CPair eval_step_def big_node_def Combinator.case R
      by (intro charge charges outcome_seq outcome_tracked D ev) (simp_all add: CPair)
  next
    case (CTake f)
    show ?thesis
      unfolding CTake eval_step_def big_node_def Combinator.case
      by (intro charge charges) (cases x, auto intro!: ev simp: CTake)
  next
    case (CDrop f)
    show ?thesis
      unfolding CDrop eval_step_def big_node_def Combinator.case
      by (intro charge charges) (cases x, auto intro!: ev simp: CDrop)
  next
    case (InjL f)
    show ?thesis
      unfolding InjL eval_step_def big_node_def Combinator.case
      by (intro charge charges outcome_tracked D ev) (simp_all add: InjL)
  next
    case (InjR f)
    show ?thesis
      unfolding InjR eval_step_def big_node_def Combinator.case
      by (intro charge charges outcome_tracked D ev) (simp_all add: InjR)
  next
    case (CCase f g)
    show ?thesis
      unfolding CCase eval_step_def big_node_def Combinator.case
      by (intro charge charges) (cases x, auto intro!: ev simp: CCase)
  next
    case (Fold f z k)
    show ?thesis
      unfolding Fold eval_step_def big_node_def Combinator.case fold_times_rfold
      by (intro charge charges) (cases x, auto intro!: outcome_seq outcome_fold D ev simp: Fold)
  next
    case (ListFold f z)
    show ?thesis
      unfolding ListFold eval_step_def big_node_def Combinator.case
      by (intro charge charges) (cases x, auto intro!: outcome_seq outcome_fold D ev simp: ListFold split: Value.splits)
  next
    case (Jet j)
    show ?thesis
      unfolding Jet eval_step_def big_node_def Combinator.case
      by (intro charge charges) (cases "jet_eval (crypt E) j x (ctx E)", auto intro!: track)
  next
    case CWitness
    show ?thesis
      unfolding CWitness eval_step_def big_node_def Combinator.case
    proof (intro charge charges)
      fix st' :: EvalState assume w: "wpos st' = wpos st"
      show "outcome D (\<lambda>v w'. \<exists>n. wpos st < length (wdata E) \<and> Value_deserialize (drop (wpos st) (wdata E)) = Ok (v, n)
          \<and> w' = wpos st + n \<and> (output_type (typed_nodes E ! i) = TUnit \<or> matches_type v (output_type (typed_nodes E ! i))))
        (rbind (read_typed_value (wdata E) (output_type (typed_nodes E ! i)) st') (\<lambda>(v, st).
         rbind (track_value (mach E) v st) (\<lambda>st. Ok (v, st))))"
        unfolding w[symmetric] by (rule outcome_same[OF outcome_read]) (rule track, simp)
    qed
  qed (auto simp: eval_step_def big_node_def intro!: charge track)
qed

definition tolerated :: "env \<Rightarrow> nat \<Rightarrow> NodeId \<Rightarrow> EvalError \<Rightarrow> bool" where
  "tolerated E d i e \<longleftrightarrow> e = BudgetExceeded \<or> e = MemoryExceeded
     \<or> e = RecursionDepthExceeded \<and> d < depths (nodes (prog E)) ! i"

lemma outcome_mono: "outcome D R m \<Longrightarrow> (\<And>e. D e \<Longrightarrow> D' e) \<Longrightarrow> outcome D' R m"
  by (auto simp: outcome_def split: sum.splits)

lemma eval_node_outcome:
  assumes "dag (nodes (prog E))"
  shows "i < length (nodes (prog E)) \<Longrightarrow> outcome (tolerated E d i) (big E i x (wpos st)) (eval_node d E i x st)"
proof (induction d arbitrary: i x st)
  case 0
  then show ?case using depths_pos[OF assms] by (simp add: tolerated_def)
next
  case (Suc d)
  have nd: "get_node (prog E) i = Some (nodes (prog E) ! i)" using Suc.prems by (simp add: get_node_def)
  have "outcome (tolerated E (Suc d) i) (big E c y w) (eval_node d E c y st')"
    if "c \<in> set (children_of (nodes (prog E) ! i))" "wpos st' = w" for c y st' w
    using Suc.IH[of c y st'] that dagD(2)[OF assms Suc.prems] depths_child[OF assms Suc.prems that(1)]
    by (auto elim!: outcome_mono simp: tolerated_def)
  then have "outcome (tolerated E (Suc d) i) (big_node E i (nodes (prog E) ! i) x (wpos st))
      (eval_step E (eval_node d E) i (nodes (prog E) ! i) x st)"
    by (intro outcome_eval_step nd) (simp add: tolerates_def tolerated_def)
  then show ?case by (simp add: nd) (simp add: big_at[OF nd])
qed

text \<open>The meaning does not look at the machine.\<close>

lemma big_machine_both:
  assumes "crypt E' = crypt E" "prog E' = prog E" "wdata E' = wdata E" "ctx E' = ctx E" "typed_nodes E' = typed_nodes E"
  shows "big E i x w v w' \<Longrightarrow> big E' i x w v w'" "big_fold E f xs a w v w' \<Longrightarrow> big_fold E' f xs a w v w'"
proof (induction rule: big_big_fold.inducts)
  case (big_bool i f g b w v w1)
  have "input_is_bool E' i" using big_bool(2) assms by (simp add: input_is_bool_def split: if_splits)
  then show ?case using big_bool assms by (intro big_big_fold.big_bool[of E' i f g]) simp_all
qed (use assms in \<open>simp_all add: case_payload_ok_def input_is_bool_def big_big_fold.intros\<close>)

lemmas big_machine = big_machine_both(1)[rotated 5]

section \<open>Whole evaluations\<close>

text \<open>Evaluation reads the witness left to right, one encoded value at a time.\<close>

lemma Value_deserialize_canon:
  assumes "Value_deserialize d = Ok (v, n)"
  shows "wf_const v" "n \<le> length d" "Value_serialize v = take n d"
  using val.dec_canon[OF assms] by simp_all

lemma Value_deserialize_append:
  assumes "Value_deserialize d = Ok (v, n)"
  shows "Value_deserialize (d @ r) = Ok (v, n)"
proof -
  note c = val.dec_canon[OF assms]
  then have "Value_deserialize (take n d @ (drop n d @ r)) = Ok (v, length (take n d))" by (intro val.dec_enc) auto
  moreover have "take n d @ (drop n d @ r) = d @ r" by (simp only: append_assoc[symmetric] append_take_drop_id)
  ultimately show ?thesis using c by (simp only: length_take min_absorb2)
qed

text \<open>Bytes after those that were read change nothing.\<close>

lemma big_more_witness_both:
  assumes "crypt E' = crypt E" "prog E' = prog E" "wdata E' = wdata E @ r" "ctx E' = ctx E" "typed_nodes E' = typed_nodes E"
  shows "big E i x w v w' \<Longrightarrow> big E' i x w v w'" "big_fold E f xs a w v w' \<Longrightarrow> big_fold E' f xs a w v w'"
proof (induction rule: big_big_fold.inducts)
  case (big_bool i f g b w v w1)
  have "input_is_bool E' i" using big_bool(2) assms by (simp add: input_is_bool_def split: if_splits)
  then show ?case using big_bool assms by (intro big_big_fold.big_bool[of E' i f g]) simp_all
next
  case (big_witness i w v n x)
  then show ?case using assms Value_deserialize_append[OF big_witness(3)]
    by (intro big_big_fold.big_witness) simp_all
qed (use assms in \<open>simp_all add: case_payload_ok_def input_is_bool_def big_big_fold.intros\<close>)

lemmas big_more_witness = big_more_witness_both(1)[rotated 5]

definition reads :: "bytes \<Rightarrow> nat \<Rightarrow> nat \<Rightarrow> bool" where
  "reads d w w' \<longleftrightarrow> (w \<le> length d \<longrightarrow> w \<le> w' \<and> w' \<le> length d
     \<and> (\<exists>vs. list_all wf_const vs \<and> bslice d w w' = concat (map Value_serialize vs)))"

lemma reads_refl [simp]: "reads d w w"
  by (auto simp: reads_def bslice_def intro: exI[of _ "[]"])

lemma reads_trans:
  assumes "reads d w w1" "reads d w1 w2"
  shows "reads d w w2"
  unfolding reads_def
proof (intro impI)
  assume "w \<le> length d"
  then obtain vs us where 1: "w \<le> w1" "list_all wf_const vs" "bslice d w w1 = concat (map Value_serialize vs)"
      and 2: "w1 \<le> w2" "w2 \<le> length d" "list_all wf_const us" "bslice d w1 w2 = concat (map Value_serialize us)"
    using assms unfolding reads_def by blast
  then have "list_all wf_const (vs @ us)" "bslice d w w2 = concat (map Value_serialize (vs @ us))"
    using slice_split[of w w1 w2 d] by simp_all
  then show "w \<le> w2 \<and> w2 \<le> length d
      \<and> (\<exists>vs. list_all wf_const vs \<and> bslice d w w2 = concat (map Value_serialize vs))"
    using 1(1) 2(1,2) by (blast intro: le_trans)
qed

lemma reads_value:
  assumes "w < length d" "Value_deserialize (drop w d) = Ok (v, n)"
  shows "reads d w (w + n)"
  using Value_deserialize_canon[OF assms(2)] assms(1)
  by (auto simp: reads_def bslice_def intro!: exI[of _ "[v]"])

lemma big_reads:
  "big E i x w v w' \<Longrightarrow> reads (wdata E) w w'"
  "big_fold E f xs a w v w' \<Longrightarrow> reads (wdata E) w w'"
  by (induction rule: big_big_fold.inducts) (auto intro: reads_trans reads_value)

text \<open>The environment of an evaluation of a program that type checks.\<close>

definition eval_env :: "crypto \<Rightarrow> machine \<Rightarrow> Program \<Rightarrow> bytes \<Rightarrow> ScriptContext \<Rightarrow> TypedNode list \<Rightarrow> env" where
  "eval_env C M p wd cx typed =
     \<lparr>crypt = C, mach = M, prog = p, wdata = wd, ctx = cx, typed_nodes = typed\<rparr>"

lemma evaluate_outcome:
  assumes "typecheck p = Ok typed"
  shows "case evaluate_with_context C M p x wd b cx of
      Inr (v, b') \<Rightarrow> big (eval_env C M p wd cx typed) (root p) x 0 v (length wd)
    | Inl e \<Rightarrow> e = BudgetExceeded \<or> e = MemoryExceeded
        \<or> e = RecursionDepthExceeded \<and> MAX_EVAL_DEPTH + 1 < max_depth p
        \<or> genuine e \<and> (\<forall>v. \<not> big (eval_env C M p wd cx typed) (root p) x 0 v (length wd))"
proof -
  let ?E = "eval_env C M p wd cx typed"
  define r where "r = eval_node (MAX_EVAL_DEPTH + 1) ?E (root p) x \<lparr>budget = b, wpos = 0, measured = 0\<rparr>"
  have vs: "root p < length (nodes p)" "dag (nodes p)"
    using assms validate_structure_Ok[of p "()"] by (auto elim!: typecheck_Ok)
  have md: "max_depth p = depths (nodes p) ! root p" using vs(1) by (auto simp: max_depth_def depths_def)
  have pe: "prog ?E = p" "wdata ?E = wd" by (simp_all add: eval_env_def)
  have o: "outcome (tolerated ?E (MAX_EVAL_DEPTH + 1) (root p)) (big ?E (root p) x 0) r"
    using eval_node_outcome[of ?E "root p" "MAX_EVAL_DEPTH + 1" x "\<lparr>budget = b, wpos = 0, measured = 0\<rparr>"] vs
    by (simp add: pe r_def)
  have ev: "evaluate_with_context C M p x wd b cx = rbind r (\<lambda>(result, st).
      if wpos st < length wd then Err (WitnessError ''unconsumed witness bytes'') else Ok (result, budget st))"
    by (simp only: r_def evaluate_with_context_def eval_env_def Let_def assms map_err_simps rbind_simps)
  show ?thesis
  proof (cases r)
    case (Inl e)
    then show ?thesis using o unfolding ev by (auto simp: tolerated_def pe md)
  next
    case (Inr q)
    obtain v st where q: "q = (v, st)" by fastforce
    have v: "big ?E (root p) x 0 v (wpos st)" using o Inr q by simp
    have "wpos st \<le> length wd" using big_reads(1)[OF v] by (simp add: reads_def pe)
    moreover have "\<not> big ?E (root p) x 0 u (length wd)" if "wpos st < length wd" for u
      using big_det[OF v, of u "length wd"] that by linarith
    ultimately show ?thesis using v unfolding ev by (cases "wpos st < length wd") (simp_all add: Inr q)
  qed
qed

section \<open>Types of the results\<close>

lemmas type_aliases = u64_type_def u256_type_def bool_type_def bytes_type_def hash256_type_def option_type_def

lemma matches_atoms [simp]:
  "matches_type (VU64 n) u64_type" "matches_type (VU256 d) u256_type" "matches_type (VBool b) bool_type"
  "matches_type (VBytes d) bytes_type" "matches_type (VHash h) hash256_type" "matches_type VUnit TUnit"
  by (simp_all add: matches_type.simps[of "VU64 n"] matches_type.simps[of "VU256 d"] matches_type.simps[of "VBool b"]
      matches_type.simps[of "VBytes d"] matches_type.simps[of "VHash h"] matches_type.simps[of VUnit] type_aliases)

lemma matches_pair [simp]: "matches_type (VPair a b) (TProduct s t) \<longleftrightarrow> matches_type a s \<and> matches_type b t"
  by (simp add: matches_type.simps[of "VPair a b"] type_aliases)

lemma matches_list [simp]:
  "t \<noteq> TBound 256 \<Longrightarrow> matches_type (VList xs) (TList t) \<longleftrightarrow> list_all (\<lambda>e. matches_type e t) xs"
  by (simp add: matches_type.simps[of "VList xs"] type_aliases)

lemma matches_option [simp]:
  "t \<noteq> TUnit \<Longrightarrow> matches_type (VSome v) (option_type t) \<longleftrightarrow> matches_type v t"
  "t \<noteq> TUnit \<Longrightarrow> matches_type VNone (option_type t)"
  by (simp_all add: VSome_def VNone_def matches_type.simps[of "VRight v"] matches_type.simps[of "VLeft VUnit"] type_aliases)

lemma type_alias_neq [simp]: "u64_type \<noteq> TUnit" "hash256_type \<noteq> TUnit" "TProduct s t \<noteq> TBound k"
  by (simp_all add: u64_type_def hash256_type_def)

definition yields :: "Type \<Rightarrow> JetError + Value \<Rightarrow> bool" where
  "yields t m = (case m of Inr v \<Rightarrow> matches_type v t | Inl e \<Rightarrow> True)"

lemma yields_simps [simp]: "yields t (Ok v) \<longleftrightarrow> matches_type v t" "yields t (Err e)"
  by (simp_all add: yields_def)

lemma yields_bind: "(\<And>x. m = Ok x \<Longrightarrow> yields t (f x)) \<Longrightarrow> yields t (rbind m f)"
  by (cases m) simp_all

lemma yields_loops:
  "yields u64_type (list_sum_loop acc vs)" "yields bool_type (list_all_loop vs)"
  "yields bool_type (list_any_loop vs)" "yields (option_type u64_type) (list_find_loop i vs)"
  by (induction vs arbitrary: acc i) (auto split: Value.split option.split intro!: yields_bind)

lemmas jet_defs = jet_add64_def jet_sub64_def jet_mul64_def jet_div64_def jet_mod64_def jet_eq64_def
  jet_lt64_def jet_gt64_def jet_add256_def jet_sub256_def jet_mul256_def jet_div256_def jet_mod256_def
  jet_eq256_def jet_lt256_def jet_gt256_def jet_cat_def jet_slice_def jet_len_def jet_eq_bytes_def
  jet_tx_inputs_def jet_tx_outputs_def jet_tx_value_def jet_tx_script_hash_def jet_tx_input_count_def
  jet_tx_output_count_def jet_self_index_def jet_block_height_def jet_tx_sig_hash_def jet_list_len_def
  jet_list_sum_def jet_list_all_def jet_list_any_def jet_list_find_def jet_sha256_def
  jet_ed25519_verify_def jet_schnorr_verify_def jet_merkle_verify_def

lemma jet_output_type:
  assumes "j \<noteq> ListAt"
  shows "yields (snd (jet_type j)) (jet_eval C j x cx)"
  using assms
  by (cases j; simp add: jet_eval_def jet_type_def jet_defs yields_loops Let_def case_prod_unfold list_all_length
      split: Value.split option.split; (intro yields_bind allI impI conjI)?; simp?;
      (intro impI yields_bind)?; simp?)

lemma infer_type_Unit: "infer_type v = TUnit \<longleftrightarrow> v = VUnit"
  by (cases v) (simp_all add: type_aliases)

lemma infer_type_not_byte: "infer_type v \<noteq> TBound 256"
  by (cases v) (simp_all add: type_aliases)

lemma matches_infer_type: "lists_are_homogeneous v \<Longrightarrow> matches_type v (infer_type v)"
proof (induction v)
  case (VLeft v)
  then show ?case
    by (cases "v = VUnit") (simp_all add: matches_type.simps[of "VLeft a" for a] type_aliases infer_type_Unit)
next
  case (VRight v)
  then show ?case
    by (cases "v = VUnit") (simp_all add: matches_type.simps[of "VRight a" for a] type_aliases infer_type_Unit)
next
  case (VList vs)
  show ?case
  proof (cases vs)
    case (Cons u us)
    have "matches_type e (infer_type u)" if "e \<in> set vs" for e
    proof -
      have "infer_type e = infer_type u" "lists_are_homogeneous e"
        using VList.prems that Cons by (auto simp: list_all_iff)
      then show ?thesis using VList.IH[OF that] by simp
    qed
    then show ?thesis using Cons by (simp add: infer_type_not_byte list_all_iff)
  qed simp
qed simp_all

lemma fixed_list_at:
  assumes "eval_node d E i x st = Ok (v, st')" "get_node (prog E) i = Some (Jet ListAt)"
  shows "\<exists>items k. x = VPair (VList items) (VU64 k)
    \<and> v = (if unat k < length items then VSome (items ! unat k) else VNone)"
proof -
  obtain d' where "d = Suc d'" using assms(1) by (cases d) auto
  then have "eval_step E (eval_node d' E) i (Jet ListAt) x st = Ok (v, st')" using assms by simp
  then have "jet_list_at x = Ok v" by (auto simp: eval_step_def result_simps jet_eval_def)
  then show ?thesis by (auto simp: jet_list_at_def split: Value.splits if_splits)
qed

text \<open>The reported output type of that jet, an optional unit value, fits its result only when the
  result is absent or the unit value.\<close>

lemma list_at_type:
  "matches_type v (option_type TUnit) \<longleftrightarrow> v = VNone \<or> v = VSome VUnit \<or> (\<exists>b. v = VBool b)"
  by (cases v) (auto simp: VSome_def VNone_def option_type_def bool_type_def matches_type.simps)

lemma eval_node_fixed:
  assumes "eval_node d E i x st = Ok (v, st')" "get_node (prog E) i = Some nd" "fixed_output nd = Some t"
    and "nd \<noteq> Jet ListAt" "\<And>u. nd = CConst u \<Longrightarrow> lists_are_homogeneous u"
  shows "matches_type v t"
proof -
  obtain d' where "d = Suc d'" using assms(1) by (cases d) auto
  then have e: "eval_step E (eval_node d' E) i nd x st = Ok (v, st')" using assms(1,2) by simp
  show ?thesis
  proof (cases nd)
    case (Jet j)
    have "jet_eval (crypt E) j x (ctx E) = Ok v" using e Jet by (auto simp: eval_step_def result_simps)
    then show ?thesis using jet_output_type[of j "crypt E" x "ctx E"] assms(3,4) Jet
      by (auto simp: fixed_output_def)
  next
    case (CConst u)
    then show ?thesis using e assms(3,5) by (auto simp: eval_step_def result_simps fixed_output_def matches_infer_type)
  qed (use e assms(3) in \<open>auto simp: eval_step_def result_simps fixed_output_def\<close>)
qed


section \<open>Properties\<close>

definition sample_machine :: machine where
  "sample_machine = \<lparr>value_size = 40, slack = \<lambda>_. 0\<rparr>"

text \<open>A program that pairs its input with a value read from the witness and returns the
  second component.\<close>

definition sample_script :: Program where
  "sample_script = \<lparr>nodes = [Comp 1 2, CPair 3 4, CDrop 3, Iden, CWitness], root = 0\<rparr>"

definition sample_typed :: "TypedNode list" where
  "sample_typed = (case typecheck sample_script of Inr t \<Rightarrow> t | Inl _ \<Rightarrow> [])"

definition sample_wdata :: bytes where
  "sample_wdata = [6, 7, 0, 0, 0, 0, 0, 0, 0]"

definition sample_budget :: "nat \<Rightarrow> Budget" where
  "sample_budget n = \<lparr>steps_remaining = n, cells_remaining = 2, memory_used = 0, memory_limit = 200\<rparr>"

lemma sample_typecheck: "typecheck sample_script = Ok sample_typed"
  unfolding sample_typed_def by code_simp

lemma sample_run:
  assumes "n \<in> {6, 9}"
  shows "evaluate_with_context toy_crypto sample_machine sample_script (VBool True) sample_wdata
     (sample_budget n) empty_context
   = Ok (VU64 7, \<lparr>steps_remaining = n - 6, cells_remaining = 1, memory_used = 0, memory_limit = 200\<rparr>)"
proof -
  have "evaluate_with_context toy_crypto sample_machine sample_script (VBool True) sample_wdata
     (sample_budget 6) empty_context
   = Ok (VU64 7, \<lparr>steps_remaining = 0, cells_remaining = 1, memory_used = 0, memory_limit = 200\<rparr>)"
    by code_simp
  moreover have "evaluate_with_context toy_crypto sample_machine sample_script (VBool True) sample_wdata
     (sample_budget 9) empty_context
   = Ok (VU64 7, \<lparr>steps_remaining = 3, cells_remaining = 1, memory_used = 0, memory_limit = 200\<rparr>)"
    by code_simp
  ultimately show ?thesis using assms by auto
qed

text \<open>C5. The interpreter implements the meaning of the program. For a program that type
  checks and is no deeper than the recursion limit, an evaluation that returns a value has a
  big-step derivation of that value that reads the whole witness, and an evaluation that fails
  either ran out of steps, cells or memory, or the program has no meaning on that input and
  witness; the recursion limit and an out-of-range node are never the reason.\<close>

theorem evaluate_refines_meaning:
  assumes "typecheck p = Ok typed" "max_depth p \<le> MAX_EVAL_DEPTH + 1"
  shows "case evaluate_with_context C M p x wd b cx of
      Inr (v, b') \<Rightarrow> big (eval_env C M p wd cx typed) (root p) x 0 v (length wd)
    | Inl e \<Rightarrow> e = BudgetExceeded \<or> e = MemoryExceeded
        \<or> e \<noteq> RecursionDepthExceeded \<and> (\<forall>j. e \<noteq> ENodeOutOfBounds j)
          \<and> (\<forall>v. \<not> big (eval_env C M p wd cx typed) (root p) x 0 v (length wd))"
  using evaluate_outcome[OF assms(1), of C M wd cx x b] assms(2)
  by (auto simp: genuine_def split: sum.splits)

theorem evaluate_refines_meaning_witness:
  "big (eval_env toy_crypto sample_machine sample_script sample_wdata empty_context sample_typed)
     (root sample_script) (VBool True) 0 (VU64 7) (length sample_wdata)"
proof -
  have "max_depth sample_script \<le> MAX_EVAL_DEPTH + 1" by code_simp
  from evaluate_refines_meaning[OF sample_typecheck this, of toy_crypto sample_machine sample_wdata
      empty_context "VBool True" "sample_budget 9"]
  show ?thesis by (simp add: sample_run)
qed

text \<open>The value of an evaluation depends on the program, the input, the witness and the
  context alone: two evaluations that both return, with whatever budgets and on machines that
  measure memory differently, return the same value.\<close>

theorem evaluate_deterministic:
  assumes "evaluate_with_context C M p x wd b cx = Ok (v, r)"
    and "evaluate_with_context C M' p x wd b' cx = Ok (v', r')"
  shows "v' = v"
proof -
  obtain typed where t: "typecheck p = Ok typed"
    using assms(1) by (cases "typecheck p") (simp_all add: evaluate_with_context_def)
  have "big (eval_env C M p wd cx typed) (root p) x 0 v (length wd)"
    using evaluate_outcome[OF t, of C M wd cx x b] assms(1) by simp
  moreover have "big (eval_env C M' p wd cx typed) (root p) x 0 v' (length wd)"
    using evaluate_outcome[OF t, of C M' wd cx x b'] assms(2) by simp
  then have "big (eval_env C M p wd cx typed) (root p) x 0 v' (length wd)"
    by (rule big_machine) (simp_all add: eval_env_def)
  ultimately show ?thesis using big_det by blast
qed

text \<open>C29. A successful evaluation has consumed its whole witness: the reader has moved from the
  first byte to the end, and the witness is the concatenation of the canonical encodings of
  well-formed values, which the decoder of the reader reads back one after the other up to the last
  byte. So a witness cannot be padded: with any bytes appended to it the same program, on the same
  input and context, returns no value, whatever the budget and the machine.\<close>

theorem evaluate_witness_canonical:
  assumes "evaluate_with_context C M p x wd b cx = Ok (v, r)"
  shows "(\<exists>typed. typecheck p = Ok typed \<and> big (eval_env C M p wd cx typed) (root p) x 0 v (length wd))
    \<and> (\<exists>vs. list_all wf_const vs \<and> wd = concat (map Value_serialize vs)
         \<and> dec_loop Value_deserialize (length vs) wd 0 = Ok (vs, length wd))
    \<and> (\<forall>pad M' b' v' r'. pad \<noteq> [] \<longrightarrow> evaluate_with_context C M' p x (wd @ pad) b' cx \<noteq> Ok (v', r'))"
proof -
  obtain typed where t: "typecheck p = Ok typed"
    using assms by (cases "typecheck p") (simp_all add: evaluate_with_context_def)
  have b: "big (eval_env C M p wd cx typed) (root p) x 0 v (length wd)"
    using evaluate_outcome[OF t, of C M wd cx x b] assms by simp
  from big_reads(1)[OF this] obtain vs where vs: "list_all wf_const vs" "wd = concat (map Value_serialize vs)"
    by (auto simp: reads_def eval_env_def bslice_def)
  have "dec_loop Value_deserialize (length vs) wd 0 = Ok (vs, length wd)"
    using val.dec_loop_at[OF vs(1) enc_loop_total refl, of "[]" 0 "[]"] vs(2) by simp
  moreover have "pad = []" if "evaluate_with_context C M' p x (wd @ pad) b' cx = Ok (v', r')" for pad M' b' v' r'
  proof -
    have "big (eval_env C M' p (wd @ pad) cx typed) (root p) x 0 v' (length (wd @ pad))"
      using evaluate_outcome[OF t, of C M' "wd @ pad" cx x b'] that by simp
    moreover have "big (eval_env C M' p (wd @ pad) cx typed) (root p) x 0 v (length wd)"
      by (rule big_more_witness[OF b]) (simp_all add: eval_env_def)
    ultimately have "length (wd @ pad) = length wd" using big_det by blast
    then show ?thesis by simp
  qed
  ultimately show ?thesis using t b vs by blast
qed

theorem evaluate_witness_canonical_witness:
  "(\<exists>vs. list_all wf_const vs \<and> sample_wdata = concat (map Value_serialize vs)
      \<and> dec_loop Value_deserialize (length vs) sample_wdata 0 = Ok (vs, length sample_wdata))
   \<and> (\<nexists>v r. evaluate_with_context toy_crypto sample_machine sample_script (VBool True) (sample_wdata @ [0])
        (sample_budget 9) empty_context = Ok (v, r))"
  using evaluate_witness_canonical[OF sample_run[of 9]] by simp

text \<open>C28. The checker's output types are right for the nodes whose output it never refines, with
  one exception: in a program that type checks, whenever a unit node, a constant with homogeneous
  lists or a jet other than the list access is evaluated and returns, its value matches the output
  type the checker gave to that node. The list access returns the addressed element, or nothing
  when the index is out of range; the checker reports an optional unit value for it, so its value
  has the reported type only when there is no such element or the element is the unit value.\<close>

theorem fixed_output_sound:
  assumes "typecheck (prog E) = Ok (typed_nodes E)" "get_node (prog E) i = Some nd"
    and "fixed_output nd \<noteq> None" "\<And>u. nd = CConst u \<Longrightarrow> lists_are_homogeneous u"
    and "eval_node d E i x st = Ok (v, st')"
  shows "if nd = Jet ListAt
    then (\<exists>items k. x = VPair (VList items) (VU64 k)
        \<and> v = (if unat k < length items then VSome (items ! unat k) else VNone))
      \<and> (matches_type v (output_type (typed_nodes E ! i)) \<longleftrightarrow> v = VNone \<or> v = VSome VUnit)
    else matches_type v (output_type (typed_nodes E ! i))"
proof -
  obtain t where t: "fixed_output nd = Some t" using assms(3) by blast
  have i: "i < length (nodes (prog E))" "nodes (prog E) ! i = nd"
    using assms(2) by (simp_all add: get_node_def split: if_splits)
  have o: "output_type (typed_nodes E ! i) = t" using typecheck_fixed_output[OF assms(1) i(1)] i(2) t by simp
  show ?thesis
  proof (cases "nd = Jet ListAt")
    case True
    then have ty: "t = option_type TUnit" using t by (simp add: fixed_output_def jet_type_def)
    obtain items k where at: "x = VPair (VList items) (VU64 k)"
        "v = (if unat k < length items then VSome (items ! unat k) else VNone)"
      using fixed_list_at[OF assms(5)] assms(2) True by blast
    have "v \<noteq> VBool b" for b by (simp add: at(2) VSome_def VNone_def)
    then have "matches_type v (output_type (typed_nodes E ! i)) \<longleftrightarrow> v = VNone \<or> v = VSome VUnit"
      unfolding o ty list_at_type by blast
    then show ?thesis unfolding if_P[OF True] using at by blast
  next
    case False
    then show ?thesis using eval_node_fixed[OF assms(5,2) t False assms(4)] o by simp
  qed
qed

definition sample_const_env :: env where
  "sample_const_env = eval_env toy_crypto sample_machine \<lparr>nodes = [CConst (VList [VU64 5])], root = 0\<rparr> [] empty_context
     [\<lparr>combinator = CConst (VList [VU64 5]), input_type = TUnit, output_type = TList u64_type\<rparr>]"

lemma sample_const_facts:
  "typecheck (prog sample_const_env) = Ok (typed_nodes sample_const_env)"
  "get_node (prog sample_const_env) 0 = Some (CConst (VList [VU64 5]))"
  "fixed_output (CConst (VList [VU64 5])) \<noteq> None"
  "eval_node 1 sample_const_env 0 VUnit \<lparr>budget = sample_budget 3, wpos = 0, measured = 0\<rparr>
    = Ok (VList [VU64 5], \<lparr>budget = \<lparr>steps_remaining = 2, cells_remaining = 2, memory_used = 40, memory_limit = 200\<rparr>,
        wpos = 0, measured = 1\<rparr>)"
  by code_simp+

theorem fixed_output_sound_witness:
  "matches_type (VList [VU64 5]) (output_type (typed_nodes sample_const_env ! 0))"
  using fixed_output_sound[OF sample_const_facts(1-3) _ sample_const_facts(4)] by simp

end
