(* ===== verification/Script_Cost.thy ===== *)
theory Script_Cost
  imports Script_Meaning
begin

text \<open>
  The static cost of a script, \<open>src/src/script/cost.rs\<close>: a pass from the highest
  index down over the nodes with checked 64-bit arithmetic; and what the cell bound is worth to
  the interpreter, whose cell budget it becomes.
\<close>


section \<open>The cost pass\<close>

record ScriptCost =
  cells :: u64
  steps :: u64

record ListSizes =
  input_count :: nat
  output_count :: nat

datatype CostError =
    CNodeOutOfBounds NodeId
  | COverflow
  | CInvalidStructure string

definition child_cost :: "NodeId \<Rightarrow> ScriptCost option list \<Rightarrow> CostError + ScriptCost" where
  "child_cost child costs = ok_or (CNodeOutOfBounds child) (costs ! child)"

definition checked :: "u64 option \<Rightarrow> CostError + u64" where
  "checked m = ok_or COverflow m"

definition add_cost :: "u64 \<Rightarrow> u64 \<Rightarrow> CostError + u64" where
  "add_cost a b = checked (checked_add a b)"

definition mul_cost :: "u64 \<Rightarrow> u64 \<Rightarrow> CostError + u64" where
  "mul_cost a b = checked (checked_mul a b)"

text \<open>The cost of a fold of \<open>n\<close> steps, shared by the two folds.\<close>

definition fold_cost :: "ScriptCost \<Rightarrow> ScriptCost \<Rightarrow> u64 \<Rightarrow> CostError + ScriptCost" where
  "fold_cost fc zc n =
     rbind (mul_cost (cells fc) n) (\<lambda>f_cells_total.
     rbind (add_cost (cells zc) f_cells_total) (\<lambda>cs.
     rbind (add_cost (steps fc) 1) (\<lambda>f_steps_plus_1.
     rbind (mul_cost f_steps_plus_1 n) (\<lambda>f_steps_total.
     rbind (add_cost (steps zc) f_steps_total) (\<lambda>s.
     rbind (add_cost s 1) (\<lambda>ss.
     Ok \<lparr>cells = cs, steps = ss\<rparr>))))))"

definition node_cost :: "u64 \<Rightarrow> nat \<Rightarrow> Combinator \<Rightarrow> ScriptCost option list \<Rightarrow> CostError + ScriptCost" where
  "node_cost default_list_size i nd costs = (case nd of
     Iden \<Rightarrow> Ok \<lparr>cells = 0, steps = 1\<rparr>
   | CUnit \<Rightarrow> Ok \<lparr>cells = 0, steps = 1\<rparr>
   | Comp f g \<Rightarrow>
       rbind (child_cost f costs) (\<lambda>fc. rbind (child_cost g costs) (\<lambda>gc.
       rbind (add_cost (cells fc) (cells gc)) (\<lambda>cs.
       rbind (rbind (add_cost (steps fc) (steps gc)) (\<lambda>s. add_cost s 1)) (\<lambda>ss.
       Ok \<lparr>cells = cs, steps = ss\<rparr>))))
   | CPair f g \<Rightarrow>
       rbind (child_cost f costs) (\<lambda>fc. rbind (child_cost g costs) (\<lambda>gc.
       rbind (rbind (add_cost (cells fc) (cells gc)) (\<lambda>c. add_cost c 1)) (\<lambda>cs.
       rbind (rbind (add_cost (steps fc) (steps gc)) (\<lambda>s. add_cost s 1)) (\<lambda>ss.
       Ok \<lparr>cells = cs, steps = ss\<rparr>))))
   | CTake f \<Rightarrow>
       rbind (child_cost f costs) (\<lambda>fc. rbind (add_cost (steps fc) 1) (\<lambda>ss.
       Ok \<lparr>cells = cells fc, steps = ss\<rparr>))
   | CDrop f \<Rightarrow>
       rbind (child_cost f costs) (\<lambda>fc. rbind (add_cost (steps fc) 1) (\<lambda>ss.
       Ok \<lparr>cells = cells fc, steps = ss\<rparr>))
   | InjL f \<Rightarrow>
       rbind (child_cost f costs) (\<lambda>fc. rbind (add_cost (cells fc) 1) (\<lambda>cs.
       rbind (add_cost (steps fc) 1) (\<lambda>ss. Ok \<lparr>cells = cs, steps = ss\<rparr>)))
   | InjR f \<Rightarrow>
       rbind (child_cost f costs) (\<lambda>fc. rbind (add_cost (cells fc) 1) (\<lambda>cs.
       rbind (add_cost (steps fc) 1) (\<lambda>ss. Ok \<lparr>cells = cs, steps = ss\<rparr>)))
   | CCase f g \<Rightarrow>
       rbind (child_cost f costs) (\<lambda>fc. rbind (child_cost g costs) (\<lambda>gc.
       rbind (add_cost (max (cells fc) (cells gc)) 1) (\<lambda>cs.
       rbind (add_cost (max (steps fc) (steps gc)) 1) (\<lambda>ss.
       Ok \<lparr>cells = cs, steps = ss\<rparr>))))
   | Fold f z k \<Rightarrow>
       rbind (child_cost f costs) (\<lambda>fc. rbind (child_cost z costs) (\<lambda>zc. fold_cost fc zc k))
   | ListFold f z \<Rightarrow>
       rbind (child_cost f costs) (\<lambda>fc. rbind (child_cost z costs) (\<lambda>zc. fold_cost fc zc default_list_size))
   | Jet j \<Rightarrow> Ok \<lparr>cells = of_nat (snd (jet_cost j)), steps = of_nat (fst (jet_cost j))\<rparr>
   | CWitness \<Rightarrow> Ok \<lparr>cells = 0, steps = 1\<rparr>
   | MerkleHidden _ \<Rightarrow> Ok \<lparr>cells = 0, steps = 0\<rparr>
   | CConst v \<Rightarrow>
       let serialized_bytes = length (Value_serialize v);
           size_cost = of_nat (max ((serialized_bytes + 63) div 64) 1) in
       rbind (add_cost 1 size_cost) (\<lambda>cs. rbind (add_cost 1 size_cost) (\<lambda>ss.
       Ok \<lparr>cells = cs, steps = ss\<rparr>)))"

definition compute_cost :: "Program \<Rightarrow> ListSizes \<Rightarrow> CostError + ScriptCost" where
  "compute_cost program list_sizes =
     rbind (map_err CInvalidStructure (validate_structure program)) (\<lambda>_.
     let default_list_size = of_nat (max (input_count list_sizes) (output_count list_sizes)) in
     rbind (fill_up (node_cost default_list_size) (nodes program)) (\<lambda>costs.
     ok_or (CNodeOutOfBounds (root program)) (costs ! root program)))"


section \<open>Cells\<close>

abbreviation cells_of :: "EvalState \<Rightarrow> nat" where "cells_of st \<equiv> cells_remaining (budget st)"

definition more_cells :: "nat \<Rightarrow> Budget \<Rightarrow> Budget" where
  "more_cells n b = b\<lparr>cells_remaining := cells_remaining b + n\<rparr>"

definition add_cells :: "nat \<Rightarrow> EvalState \<Rightarrow> EvalState" where
  "add_cells n st = st\<lparr>budget := more_cells n (budget st)\<rparr>"

definition with_cells :: "nat \<Rightarrow> EvalError + 'a \<times> EvalState \<Rightarrow> EvalError + 'a \<times> EvalState" where
  "with_cells n m = rbind m (\<lambda>(v, st). Ok (v, add_cells n st))"

text \<open>A computation that uses at most \<open>k\<close> cells: started with at least \<open>k\<close>, more cells
  make no difference but for what is left over.\<close>

definition uses :: "nat \<Rightarrow> (EvalState \<Rightarrow> EvalError + 'a \<times> EvalState) \<Rightarrow> bool" where
  "uses k F \<longleftrightarrow> (\<forall>st n. k \<le> cells_of st \<longrightarrow> F (add_cells n st) = with_cells n (F st)
     \<and> (\<forall>v st'. F st = Ok (v, st') \<longrightarrow> cells_of st \<le> cells_of st' + k))"

lemma usesI:
  assumes "\<And>st n. k \<le> cells_of st \<Longrightarrow> F (add_cells n st) = with_cells n (F st)"
    and "\<And>st v st'. k \<le> cells_of st \<Longrightarrow> F st = Ok (v, st') \<Longrightarrow> cells_of st \<le> cells_of st' + k"
  shows "uses k F"
  using assms unfolding uses_def by blast

lemma usesD:
  assumes "uses k F" "k \<le> cells_of st"
  shows "F (add_cells n st) = with_cells n (F st)" "F st = Ok (v, st') \<Longrightarrow> cells_of st \<le> cells_of st' + k"
  using assms unfolding uses_def by blast+

lemma with_cells_simps [simp]:
  "with_cells n (Ok (v, st)) = Ok (v, add_cells n st)" "with_cells n (Err e) = Err e"
  by (simp_all add: with_cells_def)

lemma cells_of_add [simp]: "cells_of (add_cells n st) = cells_of st + n" "wpos (add_cells n st) = wpos st"
    "measured (add_cells n st) = measured st"
  by (simp_all add: add_cells_def more_cells_def)

lemma uses_mono:
  assumes "uses k F" "k \<le> k'"
  shows "uses k' F"
proof (rule usesI)
  fix st v st' assume "k' \<le> cells_of st" "F st = Ok (v, st')"
  then have "cells_of st \<le> cells_of st' + k" using usesD(2)[OF assms(1)] assms(2) by simp
  then show "cells_of st \<le> cells_of st' + k'" using assms(2) by simp
qed (use usesD(1)[OF assms(1)] assms(2) in simp)

lemma uses_error [simp]: "uses k (\<lambda>st. Err e)"
  by (simp add: uses_def)

lemma uses_if: "uses k (\<lambda>st. if b then F st else G st) \<longleftrightarrow> (if b then uses k F else uses k G)"
  by simp

lemma uses_bind:
  assumes "uses k1 F" "\<And>v. uses k2 (K v)"
  shows "uses (k1 + k2) (\<lambda>st. rbind (F st) (\<lambda>(v, st). K v st))"
proof (rule usesI)
  fix st :: EvalState and n assume k: "k1 + k2 \<le> cells_of st"
  then have F: "F (add_cells n st) = with_cells n (F st)" using usesD(1)[OF assms(1)] by simp
  show "rbind (F (add_cells n st)) (\<lambda>(v, st). K v st) = with_cells n (rbind (F st) (\<lambda>(v, st). K v st))"
  proof (cases "F st")
    case (Inr r)
    obtain v st1 where r: "r = (v, st1)" by fastforce
    then have "k2 \<le> cells_of st1" using usesD(2)[OF assms(1), of st v st1] Inr k by simp
    then show ?thesis using usesD(1)[OF assms(2)] by (simp add: F Inr r)
  qed (simp add: F)
next
  fix st :: EvalState and v st' assume k: "k1 + k2 \<le> cells_of st" and r: "rbind (F st) (\<lambda>(v, st). K v st) = Ok (v, st')"
  then obtain u st1 where u: "F st = Ok (u, st1)" "K u st1 = Ok (v, st')" by (auto simp: result_simps)
  have "cells_of st \<le> cells_of st1 + k1" using usesD(2)[OF assms(1) _ u(1)] k by simp
  moreover from this have "cells_of st1 \<le> cells_of st' + k2" using usesD(2)[OF assms(2) _ u(2)] k by simp
  ultimately show "cells_of st \<le> cells_of st' + (k1 + k2)" by simp
qed

text \<open>The budget operations that do not touch the cells, and the one that does.\<close>

definition cell_blind :: "(Budget \<Rightarrow> EvalError + Budget) \<Rightarrow> bool" where
  "cell_blind f \<longleftrightarrow> (\<forall>b n. f (more_cells n b) = rbind (f b) (\<lambda>b'. Ok (more_cells n b')))
     \<and> (\<forall>b b'. f b = Ok b' \<longrightarrow> cells_remaining b' = cells_remaining b)"

lemma blind_ops [simp]: "cell_blind consume_step" "cell_blind (consume_steps k)" "cell_blind (track_memory k)"
  by (auto simp: cell_blind_def consume_step_def consume_steps_def track_memory_def more_cells_def)

lemma uses_blind:
  assumes "cell_blind f" "uses k K"
  shows "uses k (\<lambda>st. rbind (on_budget f st) K)"
proof (rule usesI)
  fix st :: EvalState and n assume k: "k \<le> cells_of st"
  have f: "f (more_cells n (budget st)) = rbind (f (budget st)) (\<lambda>b'. Ok (more_cells n b'))"
    using assms(1) unfolding cell_blind_def by blast
  show "rbind (on_budget f (add_cells n st)) K = with_cells n (rbind (on_budget f st) K)"
  proof (cases "f (budget st)")
    case (Inr b)
    then have c: "cells_remaining b = cells_of st" using assms(1) unfolding cell_blind_def by blast
    have "add_cells n st\<lparr>budget := more_cells n b\<rparr> = add_cells n (st\<lparr>budget := b\<rparr>)" by (simp add: add_cells_def)
    then show ?thesis using usesD(1)[OF assms(2), of "st\<lparr>budget := b\<rparr>" n] k c
      by (simp add: on_budget_def f Inr) (simp add: add_cells_def f Inr)
  qed (simp add: on_budget_def add_cells_def f)
next
  fix st :: EvalState and v st' assume "k \<le> cells_of st" "rbind (on_budget f st) K = Ok (v, st')"
  then obtain b where b: "f (budget st) = Ok b" "K (st\<lparr>budget := b\<rparr>) = Ok (v, st')"
    by (auto simp: on_budget_def result_simps)
  then have "cells_remaining b = cells_of st" using assms(1) unfolding cell_blind_def by blast
  then show "cells_of st \<le> cells_of st' + k"
    using usesD(2)[OF assms(2) _ b(2)] \<open>k \<le> cells_of st\<close> by simp
qed

lemma uses_cell:
  assumes "uses k K"
  shows "uses (Suc k) (\<lambda>st. rbind (on_budget consume_cell st) K)"
proof (rule usesI)
  fix st :: EvalState and n assume k: "Suc k \<le> cells_of st"
  let ?st = "st\<lparr>budget := (budget st)\<lparr>cells_remaining := cells_of st - 1\<rparr>\<rparr>"
  have "on_budget consume_cell st = Ok ?st" "on_budget consume_cell (add_cells n st) = Ok (add_cells n ?st)"
    using k by (simp_all add: on_budget_def consume_cell_def add_cells_def more_cells_def)
  then show "rbind (on_budget consume_cell (add_cells n st)) K = with_cells n (rbind (on_budget consume_cell st) K)"
    using usesD(1)[OF assms, of ?st n] k by simp
next
  fix st :: EvalState and v st' assume k: "Suc k \<le> cells_of st" and r: "rbind (on_budget consume_cell st) K = Ok (v, st')"
  let ?st = "st\<lparr>budget := (budget st)\<lparr>cells_remaining := cells_of st - 1\<rparr>\<rparr>"
  have "on_budget consume_cell st = Ok ?st" using k by (simp add: on_budget_def consume_cell_def)
  then have "K ?st = Ok (v, st')" using r by simp
  from usesD(2)[OF assms _ this] have "cells_of st - 1 \<le> cells_of st' + k" using k by simp
  then show "cells_of st \<le> cells_of st' + Suc k" using k by simp
qed

lemma add_cells_simps [simp]:
  "released h (add_cells n st) = add_cells n (released h st)"
  "cells_of (released h st) = cells_of st"
  "fst (measure_heap M v (add_cells n st)) = fst (measure_heap M v st)"
  "snd (measure_heap M v (add_cells n st)) = add_cells n (snd (measure_heap M v st))"
  "cells_of (snd (measure_heap M v st)) = cells_of st"
  by (simp_all add: released_def release_memory_def add_cells_def more_cells_def measure_heap_def)

lemma uses_return [simp]: "uses 0 (\<lambda>st. Ok (v, st))" "uses 0 (\<lambda>st. Ok (v, released h st))"
  by (simp_all add: uses_def)

text \<open>A computation may look at anything but the cells before it runs.\<close>

lemma uses_pre:
  assumes "\<And>x. uses k (K x)" "\<And>st n. g (add_cells n st) = g st"
    and "\<And>st n. h (add_cells n st) = add_cells n (h st)" "\<And>st. cells_of (h st) = cells_of st"
  shows "uses k (\<lambda>st. K (g st) (h st))"
proof (rule usesI)
  show "K (g (add_cells n st)) (h (add_cells n st)) = with_cells n (K (g st) (h st))" if "k \<le> cells_of st" for st n
    using usesD(1)[OF assms(1)[of "g st"], of "h st" n] that assms(2-) by simp
  show "cells_of st \<le> cells_of st' + k" if "k \<le> cells_of st" "K (g st) (h st) = Ok (v, st')" for st v st'
    using usesD(2)[OF assms(1) _ that(2)] that(1) assms(4) by simp
qed

lemma uses_measure:
  assumes "\<And>x. uses k (K x)"
  shows "uses k (\<lambda>st. let (x, st) = measure_heap M v st in K x st)"
  using uses_pre[of k K "\<lambda>st. fst (measure_heap M v st)" "\<lambda>st. snd (measure_heap M v st)"] assms
  by (simp add: Let_def case_prod_unfold)

lemma uses_track:
  assumes "uses k K"
  shows "uses k (\<lambda>st. rbind (track_value M v st) K)"
  using uses_measure[of k "\<lambda>x st. rbind (on_budget (track_memory x) st) K" M v] uses_blind[OF _ assms]
  by (simp add: track_value_def Let_def case_prod_unfold)

lemma uses_read: "uses 0 (read_typed_value d t)"
proof (rule usesI)
  show "read_typed_value d t (add_cells n st) = with_cells n (read_typed_value d t st)" for st n
    by (cases "Value_deserialize (drop (wpos st) d)")
       (simp_all add: read_typed_value_def read_value_def case_prod_unfold add_cells_def)
  show "cells_of st \<le> cells_of st' + 0" if "read_typed_value d t st = Ok (v, st')" for st v st'
    using that by (auto simp: read_typed_value_def read_value_def result_simps split: if_splits)
qed

lemma uses_fold:
  assumes "\<And>y. uses k (ev y)"
  shows "uses (length xs * k) (\<lambda>st. rbind (rfold (fold_iter E ev) xs (a, h, st)) fold_end)"
proof (induction xs arbitrary: a h)
  case Nil
  show ?case by (simp add: fold_end_def)
next
  case (Cons x xs)
  have u: "uses (k + length xs * k) (\<lambda>st. rbind (ev (VPair x a) st) (\<lambda>(acc, st').
      rbind (rfold (fold_iter E ev) xs (acc, g, st')) fold_end))" for g
    by (rule uses_bind[OF assms Cons.IH])
  have "uses (k + length xs * k) (\<lambda>st. rbind (ev (VPair x a) (snd (measure_heap (mach E) (VPair x a) st))) (\<lambda>(acc, st').
      rbind (rfold (fold_iter E ev) xs (acc, fst (measure_heap (mach E) (VPair x a) st), st')) fold_end))"
    by (rule uses_pre[OF u]) simp_all
  then have t: "uses (k + length xs * k) (\<lambda>st. rbind (on_budget (track_memory m) st) (\<lambda>st.
      rbind (ev (VPair x a) (snd (measure_heap (mach E) (VPair x a) st))) (\<lambda>(acc, st').
      rbind (rfold (fold_iter E ev) xs (acc, fst (measure_heap (mach E) (VPair x a) st), st')) fold_end)))" for m
    by (rule uses_blind[OF blind_ops(3)])
  show ?case
    unfolding fold_loop_Cons
    by (rule uses_blind[OF blind_ops(1)], rule uses_pre[where K = "\<lambda>m st. rbind (on_budget (track_memory m) st) _"])
       (use t in simp_all)
qed

lemma add_cost_Ok: "add_cost a b = Ok c \<longleftrightarrow> unat c = unat a + unat b"
  by (simp add: add_cost_def checked_def ok_or_Ok_iff checked_add_Some)

lemma mul_cost_Ok: "mul_cost a b = Ok c \<longleftrightarrow> unat c = unat a * unat b"
  by (simp add: mul_cost_def checked_def ok_or_Ok_iff checked_mul_Some)

lemma child_cost_Ok: "child_cost f costs = Ok c \<longleftrightarrow> costs ! f = Some c"
  by (simp add: child_cost_def ok_or_Ok_iff)

lemma unat_max: "unat (max a b) = max (unat a) (unat b)"
  by (simp add: max_def word_le_nat_alt)

lemmas cost_simps = add_cost_Ok mul_cost_Ok child_cost_Ok unat_max

lemma uses_eval_step:
  assumes c: "node_cost n i nd costs = Ok c" and nl: "\<And>f z. nd \<noteq> ListFold f z"
    and ev: "\<And>ch y fc. ch \<in> set (children_of nd) \<Longrightarrow> costs ! ch = Some fc \<Longrightarrow> uses (unat (cells fc)) (ev ch y)"
  shows "uses (unat (cells c)) (\<lambda>st. eval_step E ev i nd x st)"
proof -
  note step = uses_blind[OF blind_ops(1)]
  note ret = uses_return(1)[THEN uses_mono, OF le0]
  note ev' = ev[THEN uses_mono]
  show ?thesis
  proof (cases nd)
    case (Comp f g)
    with c obtain fc gc where f: "costs ! f = Some fc" "costs ! g = Some gc"
        "unat (cells c) = unat (cells fc) + (unat (cells gc) + 0)"
      by (auto simp: node_cost_def result_simps cost_simps)
    show ?thesis
      unfolding Comp eval_step_def Combinator.case f(3)
      by (intro step uses_bind uses_measure uses_return ev) (use f Comp in simp_all)
  next
    case (CPair f g)
    with c obtain fc gc where f: "costs ! f = Some fc" "costs ! g = Some gc"
        "unat (cells c) = Suc (unat (cells fc) + (unat (cells gc) + 0))"
      by (auto simp: node_cost_def result_simps cost_simps)
    show ?thesis
      unfolding CPair eval_step_def Combinator.case f(3)
      by (intro step uses_cell uses_bind uses_blind[OF blind_ops(3)] uses_return ev) (use f CPair in simp_all)
  next
    case (CTake f)
    with c obtain fc where f: "costs ! f = Some fc" "cells c = cells fc"
      by (auto simp: node_cost_def result_simps cost_simps)
    show ?thesis
      unfolding CTake eval_step_def Combinator.case f(2)
      by (rule step) (cases x; simp; intro ev; use f CTake in simp)
  next
    case (CDrop f)
    with c obtain fc where f: "costs ! f = Some fc" "cells c = cells fc"
      by (auto simp: node_cost_def result_simps cost_simps)
    show ?thesis
      unfolding CDrop eval_step_def Combinator.case f(2)
      by (rule step) (cases x; simp; intro ev; use f CDrop in simp)
  next
    case (InjL f)
    with c obtain fc where f: "costs ! f = Some fc" "unat (cells c) = Suc (unat (cells fc) + 0)"
      by (auto simp: node_cost_def result_simps cost_simps)
    show ?thesis
      unfolding InjL eval_step_def Combinator.case f(2)
      by (intro step uses_cell uses_bind uses_blind[OF blind_ops(3)] uses_return ev) (use f InjL in simp_all)
  next
    case (InjR f)
    with c obtain fc where f: "costs ! f = Some fc" "unat (cells c) = Suc (unat (cells fc) + 0)"
      by (auto simp: node_cost_def result_simps cost_simps)
    show ?thesis
      unfolding InjR eval_step_def Combinator.case f(2)
      by (intro step uses_cell uses_bind uses_blind[OF blind_ops(3)] uses_return ev) (use f InjR in simp_all)
  next
    case (CCase f g)
    with c obtain fc gc where f: "costs ! f = Some fc" "costs ! g = Some gc"
        "unat (cells fc) \<le> unat (cells c)" "unat (cells gc) \<le> unat (cells c)"
      by (auto simp: node_cost_def result_simps cost_simps)
    have e: "uses (unat (cells c)) (ev f y)" "uses (unat (cells c)) (ev g y)" for y
      using ev'[of f fc "unat (cells c)" y] ev'[of g gc "unat (cells c)" y] f CCase by simp_all
    show ?thesis
      unfolding CCase eval_step_def Combinator.case
      by (rule step) (cases x; simp add: e uses_if)
  next
    case (Fold f z k)
    with c obtain fc zc where f: "costs ! f = Some fc" "costs ! z = Some zc"
        "unat (cells c) = unat (cells zc) + unat k * unat (cells fc)"
      by (auto simp: node_cost_def fold_cost_def result_simps cost_simps)
    have "uses (length (replicate (unat k) y) * unat (cells fc))
        (\<lambda>st. rbind (rfold (fold_iter E (ev f)) (replicate (unat k) y) (acc, 0, st)) fold_end)" for acc y
      by (intro uses_fold ev) (use f Fold in simp_all)
    then have "uses (unat (cells c)) (\<lambda>st. rbind (ev z y st) (\<lambda>(acc, st).
        rbind (rfold (fold_iter E (ev f)) (replicate (unat k) y) (acc, 0, st)) fold_end))" for y
      unfolding f(3) by (intro uses_bind ev) (use f Fold in simp_all)
    then show ?thesis
      unfolding Fold eval_step_def Combinator.case fold_times_rfold
      by (intro step) (cases x; simp)
  next
    case (Jet j)
    show ?thesis
      unfolding Jet eval_step_def Combinator.case
      by (rule uses_blind[OF blind_ops(2)])
         (cases "jet_eval (crypt E) j x (ctx E)"; simp add: uses_track ret)
  next
    case CWitness
    have "uses (0 + 0) (\<lambda>st. rbind (read_typed_value (wdata E) (output_type (typed_nodes E ! i)) st) (\<lambda>(v, st).
       rbind (track_value (mach E) v st) (\<lambda>st. Ok (v, st))))"
      by (intro uses_bind uses_read uses_track uses_return)
    then show ?thesis
      unfolding CWitness eval_step_def Combinator.case by (intro step) (auto intro: uses_mono)
  next
    case (ListFold f z)
    then show ?thesis using nl by simp
  qed (simp_all add: eval_step_def step uses_track ret)
qed

lemma node_cost_local: "local_r (node_cost n)"
  unfolding local_r_def
proof (intro allI impI)
  fix i nd and a b :: "ScriptCost option list"
  assume "length a = length b" "\<forall>c \<in> set (children_of nd). a ! c = b ! c"
  then show "node_cost n i nd a = node_cost n i nd b"
    by (cases nd) (simp_all add: node_cost_def child_cost_def)
qed

definition list_fold_free :: "Program \<Rightarrow> bool" where
  "list_fold_free p \<longleftrightarrow> list_all (\<lambda>nd. case nd of ListFold _ _ \<Rightarrow> False | _ \<Rightarrow> True) (nodes p)"

lemma uses_eval_node:
  assumes "dag (nodes (prog E))" "fill_up (node_cost n) (nodes (prog E)) = Ok costs" "list_fold_free (prog E)"
  shows "i < length (nodes (prog E)) \<Longrightarrow> costs ! i = Some c \<Longrightarrow> uses (unat (cells c)) (eval_node d E i x)"
proof (induction d arbitrary: i c x)
  case (Suc d)
  let ?nd = "nodes (prog E) ! i"
  have nd: "get_node (prog E) i = Some ?nd" using Suc.prems by (simp add: get_node_def)
  have c: "node_cost n i ?nd costs = Ok c"
    using fill_up_nth(2)[OF assms(1) node_cost_local assms(2) Suc.prems(1)] Suc.prems(2) by auto
  have "uses (unat (cells c)) (\<lambda>st. eval_step E (eval_node d E) i ?nd x st)"
  proof (rule uses_eval_step[OF c])
    show "?nd \<noteq> ListFold f z" for f z
      using assms(3) Suc.prems(1) by (auto simp: list_fold_free_def list_all_length split: Combinator.splits)
    show "uses (unat (cells fc)) (eval_node d E ch y)"
      if "ch \<in> set (children_of ?nd)" "costs ! ch = Some fc" for ch y fc
      using Suc.IH[of ch fc y] that dagD(2)[OF assms(1) Suc.prems(1)] by simp
  qed
  moreover have "eval_node (Suc d) E i x = (\<lambda>st. eval_step E (eval_node d E) i ?nd x st)"
    by (rule ext) (simp add: nd)
  ultimately show ?case by simp
qed (simp add: uses_def)

text \<open>C19. The cell budget the node gives to a script, its static cell cost, is never the reason
  why an evaluation fails: for a program without list folds, evaluating with the static cell
  cost and evaluating with more cells give the same result or the same error, and leave the
  extra cells untouched.\<close>

theorem static_cells_suffice:
  assumes "compute_cost p ls = Ok c" "list_fold_free p"
  shows "evaluate_with_context C M p x wd (more_cells n (Budget_new s (cells c))) cx
    = rbind (evaluate_with_context C M p x wd (Budget_new s (cells c)) cx) (\<lambda>(v, b). Ok (v, more_cells n b))"
proof -
  obtain costs where co: "validate_structure p = Ok ()"
      "fill_up (node_cost (of_nat (max (input_count ls) (output_count ls)))) (nodes p) = Ok costs" "costs ! root p = Some c"
    using assms(1) by (auto simp: compute_cost_def result_simps Let_def)
  then have vs: "root p < length (nodes p)" "dag (nodes p)" using validate_structure_Ok[of p "()"] by auto
  show ?thesis
  proof (cases "typecheck p")
    case (Inr typed)
    define E where "E = eval_env C M p wd cx typed"
    let ?st = "\<lparr>budget = Budget_new s (cells c), wpos = 0, measured = 0\<rparr> :: EvalState"
    have pe: "prog E = p" "wdata E = wd" by (simp_all add: E_def eval_env_def)
    have ev: "evaluate_with_context C M p x wd b cx = rbind (eval_node (MAX_EVAL_DEPTH + 1) E (root p) x
        \<lparr>budget = b, wpos = 0, measured = 0\<rparr>) (\<lambda>(result, st).
        if wpos st < length wd then Err (WitnessError ''unconsumed witness bytes'') else Ok (result, budget st))" for b
      by (simp only: evaluate_with_context_def E_def eval_env_def Let_def Inr map_err_simps rbind_simps)
    have u: "uses (unat (cells c)) (eval_node (MAX_EVAL_DEPTH + 1) E (root p) x)"
      using uses_eval_node[of E _ costs] co vs assms(2) by (simp add: pe del: eval_node.simps)
    have "unat (cells c) \<le> cells_of ?st" by (simp add: Budget_new_def)
    from usesD(1)[OF u this, of n]
    have "eval_node (MAX_EVAL_DEPTH + 1) E (root p) x (add_cells n ?st)
        = with_cells n (eval_node (MAX_EVAL_DEPTH + 1) E (root p) x ?st)" .
    moreover have "add_cells n ?st = \<lparr>budget = more_cells n (Budget_new s (cells c)), wpos = 0, measured = 0\<rparr>"
      by (simp add: add_cells_def)
    ultimately show ?thesis
      unfolding ev by (cases "eval_node (MAX_EVAL_DEPTH + 1) E (root p) x ?st")
        (auto simp: add_cells_def simp del: eval_node.simps)
  qed (simp add: evaluate_with_context_def)
qed

theorem static_cells_suffice_witness:
  "evaluate_with_context toy_crypto sample_machine sample_script (VBool True) sample_wdata
     (more_cells 5 (Budget_new 100 1)) empty_context
   = rbind (evaluate_with_context toy_crypto sample_machine sample_script (VBool True) sample_wdata
     (Budget_new 100 1) empty_context) (\<lambda>(v, b). Ok (v, more_cells 5 b))"
proof -
  have v: "validate_structure sample_script = Ok ()" by code_simp
  have "compute_cost sample_script \<lparr>input_count = 1, output_count = 1\<rparr> = Ok \<lparr>cells = 1, steps = 6\<rparr>"
    using v by (simp add: compute_cost_def fill_up_def fill_step_def node_cost_def child_cost_def
      add_cost_def checked_def checked_add_def sample_script_def upt_conv_Cons)
  moreover have "list_fold_free sample_script" by code_simp
  ultimately show ?thesis
    using static_cells_suffice[of sample_script "\<lparr>input_count = 1, output_count = 1\<rparr>" "\<lparr>cells = 1, steps = 6\<rparr>"] by simp
qed

end
