(* ===== verification/Smt.thy ===== *)
theory Smt
  imports Primitives "HOL-Library.Monad_Syntax" "HOL-Library.Multiset"
begin

text \<open>
  The path-compressed sparse Merkle tree of \<open>chain/smt.rs\<close>, which commits to the set of
  unspent outputs. The tree lives in an arena of slots that refer to each other by index,
  with a free list of recycled slots; the operations are translated on that arena, so that
  the recycling and the in-place updates are part of the model. An operation returns
  \<open>None\<close> where the source panics (an index outside an array) or does not return.

  The theorems relate the arena to the finite map it stores: every operation returns, the
  map is updated at one key, no slot is lost or used twice, and the root hash is the hash
  of the full binary tree of depth 256 (\<open>compute_root_recursive\<close>), whatever the history
  of the arena. The last part shows that the root binds the map: two maps with one root
  give a collision of the digest.
\<close>

unbundle bit_operations_syntax


section \<open>Keys, leaves and empty subtrees\<close>

definition SMT_DEPTH :: nat where [constants]: "SMT_DEPTH = 256"

text \<open>\<open>EmptyHashes\<close>: entry \<open>d\<close> of the table is the hash of an empty subtree of height
  \<open>d\<close>; the table has \<open>SMT_DEPTH + 1\<close> entries.\<close>

primrec empty_hash :: "crypto \<Rightarrow> nat \<Rightarrow> bytes" where
  "empty_hash C 0 = replicate 32 0"
| "empty_hash C (Suc d) = sha256 C (empty_hash C d @ empty_hash C d)"

definition EmptyHashes_get :: "crypto \<Rightarrow> nat \<Rightarrow> bytes option" where
  "EmptyHashes_get C depth = (if depth \<le> SMT_DEPTH then Some (empty_hash C depth) else None)"

definition empty_root :: "crypto \<Rightarrow> bytes" where
  "empty_root C = empty_hash C SMT_DEPTH"

definition leaf_key :: "crypto \<Rightarrow> bytes \<Rightarrow> u32 \<Rightarrow> bytes" where
  "leaf_key C tx_id output_index = domain_hash C DS_STATE (tx_id @ le32 output_index)"

definition leaf_value :: "crypto \<Rightarrow> bytes \<Rightarrow> u64 \<Rightarrow> bool \<Rightarrow> bytes" where
  "leaf_value C canonical_output_bytes height is_coinbase =
     sha256 C (canonical_output_bytes @ le64 height @ [if is_coinbase then 1 else 0])"

definition get_bit :: "bytes \<Rightarrow> nat \<Rightarrow> byte option" where
  "get_bit key bit_index = (let byte_idx = bit_index div 8; bit_idx = 7 - bit_index mod 8 in
     if byte_idx < length key then Some (drop_bit bit_idx (key ! byte_idx) AND 1) else None)"

text \<open>The scan that several operations make: the first position of a range at which two
  keys differ, or a default.\<close>

fun diverge_in :: "bytes \<Rightarrow> bytes \<Rightarrow> nat list \<Rightarrow> nat \<Rightarrow> nat option" where
  "diverge_in a b [] dflt = Some dflt"
| "diverge_in a b (d # ds) dflt = do {
     x \<leftarrow> get_bit a d;
     y \<leftarrow> get_bit b d;
     if x \<noteq> y then Some d else diverge_in a b ds dflt
   }"

definition first_different_bit :: "bytes \<Rightarrow> bytes \<Rightarrow> nat \<Rightarrow> nat option" where
  "first_different_bit a b from = diverge_in a b [from..<SMT_DEPTH] SMT_DEPTH"


section \<open>The arena\<close>

type_synonym NodeIdx = nat

definition NULL :: NodeIdx where [constants]: "NULL = 0"

definition as_u16 :: "nat \<Rightarrow> nat" where
  "as_u16 n = n mod 2 ^ 16"

datatype SmtNode =
  Leaf bytes bytes
| Branch nat NodeIdx NodeIdx bytes
| Extension nat nat bytes NodeIdx bytes

record SparseMerkleTree =
  arena :: "SmtNode list"
  free_slots :: "NodeIdx list"
  smt_root :: NodeIdx
  root_hash :: bytes
  leaf_count :: nat

definition SparseMerkleTree_new :: "crypto \<Rightarrow> SparseMerkleTree" where
  "SparseMerkleTree_new C = \<lparr>arena = [Leaf (replicate 32 0) (replicate 32 0)], free_slots = [],
     smt_root = NULL, root_hash = empty_root C, leaf_count = 0\<rparr>"

text \<open>Reading a slot panics outside the arena. A slot is written only after it was read.\<close>

definition node_at :: "SparseMerkleTree \<Rightarrow> NodeIdx \<Rightarrow> SmtNode option" where
  "node_at s idx = (if idx < length (arena s) then Some (arena s ! idx) else None)"

definition set_node :: "SparseMerkleTree \<Rightarrow> NodeIdx \<Rightarrow> SmtNode \<Rightarrow> SparseMerkleTree" where
  "set_node s idx node = s\<lparr>arena := (arena s)[idx := node]\<rparr>"

definition alloc :: "SparseMerkleTree \<Rightarrow> SmtNode \<Rightarrow> (SparseMerkleTree \<times> NodeIdx) option" where
  "alloc s node =
     (if free_slots s \<noteq> [] then
        (let idx = last (free_slots s) in
         if idx < length (arena s)
         then Some (set_node (s\<lparr>free_slots := butlast (free_slots s)\<rparr>) idx node, idx)
         else None)
      else
        Some (s\<lparr>arena := arena s @ [node]\<rparr>, length (arena s) mod 2 ^ 32))"

definition free_node :: "SparseMerkleTree \<Rightarrow> NodeIdx \<Rightarrow> SparseMerkleTree" where
  "free_node s idx = (if idx \<noteq> NULL then s\<lparr>free_slots := free_slots s @ [idx]\<rparr> else s)"

definition node_count :: "SparseMerkleTree \<Rightarrow> nat" where
  "node_count s = length (arena s) - 1 - length (free_slots s)"

partial_function (option) find_from :: "SparseMerkleTree \<Rightarrow> bytes \<Rightarrow> NodeIdx \<Rightarrow> bytes option option" where
  "find_from s key idx =
     (if idx = NULL then Some None
      else do {
        node \<leftarrow> node_at s idx;
        (case node of
          Leaf k value \<Rightarrow> Some (if k = key then Some value else None)
        | Branch bit_depth left right _ \<Rightarrow> do {
            bit \<leftarrow> get_bit key bit_depth;
            find_from s key (if bit = 0 then left else right)
          }
        | Extension bit_depth child_depth prefix_key child _ \<Rightarrow> do {
            d \<leftarrow> diverge_in key prefix_key [bit_depth..<child_depth] child_depth;
            if d \<noteq> child_depth then Some None else find_from s key child
          })
      })"

definition find_leaf :: "SparseMerkleTree \<Rightarrow> bytes \<Rightarrow> bytes option option" where
  "find_leaf s key = find_from s key (smt_root s)"

definition SparseMerkleTree_contains :: "SparseMerkleTree \<Rightarrow> bytes \<Rightarrow> bool option" where
  "SparseMerkleTree_contains s key = map_option (\<lambda>v. v \<noteq> None) (find_leaf s key)"


section \<open>Hashes of subtrees\<close>

definition logical_depth :: "SparseMerkleTree \<Rightarrow> NodeIdx \<Rightarrow> nat option" where
  "logical_depth s idx =
     (if idx = NULL then Some 0
      else do {
        node \<leftarrow> node_at s idx;
        Some (case node of
          Leaf _ _ \<Rightarrow> 256
        | Branch bit_depth _ _ _ \<Rightarrow> bit_depth
        | Extension bit_depth _ _ _ _ \<Rightarrow> bit_depth)
      })"

partial_function (option) any_key :: "SparseMerkleTree \<Rightarrow> NodeIdx \<Rightarrow> bytes option" where
  "any_key s idx =
     (if idx = NULL then Some (replicate 32 0)
      else do {
        node \<leftarrow> node_at s idx;
        (case node of
          Leaf key _ \<Rightarrow> Some key
        | Branch _ left right _ \<Rightarrow> any_key s (if left \<noteq> NULL then left else right)
        | Extension _ _ _ child _ \<Rightarrow> any_key s child)
      })"

definition subtree_hash :: "crypto \<Rightarrow> SparseMerkleTree \<Rightarrow> NodeIdx \<Rightarrow> nat \<Rightarrow> bytes option" where
  "subtree_hash C s idx at_depth =
     (if idx = NULL then
        (if at_depth \<le> SMT_DEPTH then EmptyHashes_get C (SMT_DEPTH - at_depth) else None)
      else do {
        node \<leftarrow> node_at s idx;
        Some (case node of
          Leaf _ value \<Rightarrow> value
        | Branch _ _ _ hash \<Rightarrow> hash
        | Extension _ _ _ _ hash \<Rightarrow> hash)
      })"

definition compute_branch_hash ::
  "crypto \<Rightarrow> SparseMerkleTree \<Rightarrow> NodeIdx \<Rightarrow> NodeIdx \<Rightarrow> nat \<Rightarrow> bytes option" where
  "compute_branch_hash C s left right bit_depth = do {
     left_hash \<leftarrow> subtree_hash C s left (bit_depth + 1);
     right_hash \<leftarrow> subtree_hash C s right (bit_depth + 1);
     Some (sha256 C (left_hash @ right_hash))
   }"

definition fold_step :: "crypto \<Rightarrow> bytes \<Rightarrow> nat \<Rightarrow> bytes \<Rightarrow> bytes option" where
  "fold_step C key d h = do {
     bit \<leftarrow> get_bit key d;
     empty_sibling \<leftarrow> EmptyHashes_get C (SMT_DEPTH - d - 1);
     Some (sha256 C (if bit = 0 then h @ empty_sibling else empty_sibling @ h))
   }"

definition fold_hash :: "crypto \<Rightarrow> bytes \<Rightarrow> bytes \<Rightarrow> nat \<Rightarrow> nat \<Rightarrow> bytes option" where
  "fold_hash C child_hash key from_depth to_depth =
     fold (\<lambda>d m. Option.bind m (fold_step C key d)) (rev [from_depth..<to_depth]) (Some child_hash)"

definition wrap_in_extension ::
  "crypto \<Rightarrow> SparseMerkleTree \<Rightarrow> NodeIdx \<Rightarrow> nat \<Rightarrow> (SparseMerkleTree \<times> NodeIdx) option" where
  "wrap_in_extension C s node_idx target_depth = do {
     node_depth \<leftarrow> logical_depth s node_idx;
     if target_depth \<ge> node_depth then Some (s, node_idx)
     else do {
       key \<leftarrow> any_key s node_idx;
       child_hash \<leftarrow> subtree_hash C s node_idx node_depth;
       h \<leftarrow> fold_hash C child_hash key target_depth node_depth;
       alloc s (Extension (as_u16 target_depth) (as_u16 node_depth) key node_idx h)
     }
   }"


section \<open>Insertion\<close>

text \<open>The arm of \<open>insert_at\<close> for a leaf with another key.\<close>

definition split_leaf ::
  "crypto \<Rightarrow> SparseMerkleTree \<Rightarrow> NodeIdx \<Rightarrow> nat \<Rightarrow> bytes \<Rightarrow> bytes \<Rightarrow> bytes
   \<Rightarrow> (SparseMerkleTree \<times> NodeIdx) option" where
  "split_leaf C s idx depth existing_key key value = do {
     leaf_depth \<leftarrow> logical_depth s idx;
     diverge \<leftarrow> first_different_bit existing_key key leaf_depth;
     (s, new_leaf) \<leftarrow> alloc s (Leaf key value);
     bit_new \<leftarrow> get_bit key diverge;
     (s, left, right) \<leftarrow>
       (if bit_new = 0 then do {
          (s, left) \<leftarrow> wrap_in_extension C s new_leaf (diverge + 1);
          (s, right) \<leftarrow> wrap_in_extension C s idx (diverge + 1);
          Some (s, left, right)
        } else do {
          (s, left) \<leftarrow> wrap_in_extension C s idx (diverge + 1);
          (s, right) \<leftarrow> wrap_in_extension C s new_leaf (diverge + 1);
          Some (s, left, right)
        });
     branch_hash \<leftarrow> compute_branch_hash C s left right diverge;
     (s, branch) \<leftarrow> alloc s (Branch (as_u16 diverge) left right branch_hash);
     if diverge > depth
     then alloc s (Extension (as_u16 depth) (as_u16 diverge) key branch (replicate 32 0))
     else Some (s, branch)
   }"

text \<open>The arm of \<open>insert_at\<close> for an extension whose prefix the key leaves at \<open>diverge\<close>.\<close>

definition split_extension ::
  "crypto \<Rightarrow> SparseMerkleTree \<Rightarrow> NodeIdx \<Rightarrow> nat \<Rightarrow> nat \<Rightarrow> bytes \<Rightarrow> NodeIdx \<Rightarrow> nat \<Rightarrow> bytes \<Rightarrow> bytes
   \<Rightarrow> (SparseMerkleTree \<times> NodeIdx) option" where
  "split_extension C s idx bd cd prefix_key child diverge key value = do {
     (s, new_leaf) \<leftarrow> alloc s (Leaf key value);
     (s, remaining_child) \<leftarrow>
       (if diverge + 1 < cd then do {
          child_hash \<leftarrow> subtree_hash C s child cd;
          h \<leftarrow> fold_hash C child_hash prefix_key (diverge + 1) cd;
          alloc s (Extension (as_u16 (diverge + 1)) cd prefix_key child h)
        } else Some (s, child));
     bit_new \<leftarrow> get_bit key diverge;
     (s, wrapped) \<leftarrow> wrap_in_extension C s new_leaf (diverge + 1);
     let (left, right) = (if bit_new = 0 then (wrapped, remaining_child) else (remaining_child, wrapped));
     branch_hash \<leftarrow> compute_branch_hash C s left right diverge;
     (s, branch) \<leftarrow> alloc s (Branch (as_u16 diverge) left right branch_hash);
     if diverge > bd then do {
       h \<leftarrow> fold_hash C branch_hash key bd diverge;
       Some (set_node s idx (Extension bd (as_u16 diverge) key branch h), idx)
     } else Some (free_node s idx, branch)
   }"

partial_function (option) insert_at ::
  "crypto \<Rightarrow> bytes \<Rightarrow> bytes \<Rightarrow> SparseMerkleTree \<Rightarrow> NodeIdx \<Rightarrow> nat
   \<Rightarrow> (SparseMerkleTree \<times> NodeIdx) option" where
  "insert_at C key value s idx depth =
     (if idx = NULL then do {
        (s, leaf) \<leftarrow> alloc s (Leaf key value);
        wrap_in_extension C s leaf depth
      } else do {
        node \<leftarrow> node_at s idx;
        (case node of
          Leaf existing_key _ \<Rightarrow>
            if existing_key = key then Some (set_node s idx (Leaf key value), idx)
            else split_leaf C s idx depth existing_key key value
        | Branch bd left right _ \<Rightarrow> do {
            bit \<leftarrow> get_bit key bd;
            (s, new_left, new_right) \<leftarrow>
              (if bit = 0 then do {
                 (s, new_left) \<leftarrow> insert_at C key value s left (bd + 1);
                 Some (s, new_left, right)
               } else do {
                 (s, new_right) \<leftarrow> insert_at C key value s right (bd + 1);
                 Some (s, left, new_right)
               });
            h \<leftarrow> compute_branch_hash C s new_left new_right bd;
            Some (set_node s idx (Branch bd new_left new_right h), idx)
          }
        | Extension bd cd prefix_key child _ \<Rightarrow> do {
            diverge \<leftarrow> diverge_in key prefix_key [bd..<cd] cd;
            if diverge = cd then do {
              (s, new_child) \<leftarrow> insert_at C key value s child cd;
              child_hash \<leftarrow> subtree_hash C s new_child cd;
              h \<leftarrow> fold_hash C child_hash prefix_key bd cd;
              Some (set_node s idx (Extension bd cd prefix_key new_child h), idx)
            } else split_extension C s idx bd cd prefix_key child diverge key value
          })
      })"

definition SparseMerkleTree_insert ::
  "crypto \<Rightarrow> SparseMerkleTree \<Rightarrow> bytes \<Rightarrow> bytes \<Rightarrow> SparseMerkleTree option" where
  "SparseMerkleTree_insert C s key value = do {
     found \<leftarrow> find_leaf s key;
     (s, r) \<leftarrow> insert_at C key value s (smt_root s) 0;
     h \<leftarrow> subtree_hash C s r 0;
     Some (s\<lparr>smt_root := r, root_hash := h,
       leaf_count := (if found = None then leaf_count s + 1 else leaf_count s)\<rparr>)
   }"


section \<open>Removal\<close>

definition prepend_extension ::
  "crypto \<Rightarrow> SparseMerkleTree \<Rightarrow> NodeIdx \<Rightarrow> nat \<Rightarrow> (SparseMerkleTree \<times> NodeIdx) option" where
  "prepend_extension C s child from_depth = do {
     child_key \<leftarrow> any_key s child;
     child_logical_depth \<leftarrow> logical_depth s child;
     node \<leftarrow> node_at s child;
     (case node of
       Extension _ child_depth prefix_key inner_child _ \<Rightarrow> do {
         inner_hash \<leftarrow> subtree_hash C s inner_child child_depth;
         h \<leftarrow> fold_hash C inner_hash prefix_key from_depth child_depth;
         Some (set_node s child
           (Extension (as_u16 from_depth) child_depth prefix_key inner_child h), child)
       }
     | _ \<Rightarrow>
         if from_depth < child_logical_depth then do {
           child_hash \<leftarrow> subtree_hash C s child child_logical_depth;
           h \<leftarrow> fold_hash C child_hash child_key from_depth child_logical_depth;
           alloc s (Extension (as_u16 from_depth) (as_u16 child_logical_depth) child_key child h)
         } else Some (s, child))
   }"

definition try_merge_extension ::
  "crypto \<Rightarrow> SparseMerkleTree \<Rightarrow> NodeIdx \<Rightarrow> nat \<Rightarrow> nat \<Rightarrow> bytes \<Rightarrow> NodeIdx
   \<Rightarrow> (SparseMerkleTree \<times> NodeIdx) option" where
  "try_merge_extension C s ext_idx ext_bd ext_cd ext_prefix new_child = do {
     node \<leftarrow> node_at s new_child;
     (case node of
       Extension _ inner_cd inner_prefix inner _ \<Rightarrow> do {
         inner_hash \<leftarrow> subtree_hash C s inner inner_cd;
         h \<leftarrow> fold_hash C inner_hash inner_prefix ext_bd inner_cd;
         let s = free_node s new_child;
         Some (set_node s ext_idx (Extension (as_u16 ext_bd) inner_cd inner_prefix inner h), ext_idx)
       }
     | Leaf lkey _ \<Rightarrow> do {
         child_hash \<leftarrow> subtree_hash C s new_child 256;
         h \<leftarrow> fold_hash C child_hash lkey ext_bd 256;
         Some (set_node s ext_idx (Extension (as_u16 ext_bd) 256 lkey new_child h), ext_idx)
       }
     | Branch _ _ _ _ \<Rightarrow> do {
         child_hash \<leftarrow> subtree_hash C s new_child ext_cd;
         h \<leftarrow> fold_hash C child_hash ext_prefix ext_bd ext_cd;
         Some (set_node s ext_idx
           (Extension (as_u16 ext_bd) (as_u16 ext_cd) ext_prefix new_child h), ext_idx)
       })
   }"

partial_function (option) remove_at ::
  "crypto \<Rightarrow> bytes \<Rightarrow> SparseMerkleTree \<Rightarrow> NodeIdx \<Rightarrow> nat \<Rightarrow> (SparseMerkleTree \<times> NodeIdx) option" where
  "remove_at C key s idx depth =
     (if idx = NULL then Some (s, NULL)
      else do {
        node \<leftarrow> node_at s idx;
        (case node of
          Leaf k _ \<Rightarrow> if k = key then Some (free_node s idx, NULL) else Some (s, idx)
        | Branch bd left right _ \<Rightarrow> do {
            bit \<leftarrow> get_bit key bd;
            (s, new_left, new_right) \<leftarrow>
              (if bit = 0 then do {
                 (s, new_left) \<leftarrow> remove_at C key s left (bd + 1);
                 Some (s, new_left, right)
               } else do {
                 (s, new_right) \<leftarrow> remove_at C key s right (bd + 1);
                 Some (s, left, new_right)
               });
            if new_left = NULL \<and> new_right = NULL then Some (free_node s idx, NULL)
            else if new_left = NULL then prepend_extension C (free_node s idx) new_right depth
            else if new_right = NULL then prepend_extension C (free_node s idx) new_left depth
            else do {
              h \<leftarrow> compute_branch_hash C s new_left new_right bd;
              Some (set_node s idx (Branch bd new_left new_right h), idx)
            }
          }
        | Extension bd cd prefix_key child _ \<Rightarrow> do {
            (s, new_child) \<leftarrow> remove_at C key s child cd;
            if new_child = NULL then Some (free_node s idx, NULL)
            else try_merge_extension C s idx bd cd prefix_key new_child
          })
      })"

definition SparseMerkleTree_remove ::
  "crypto \<Rightarrow> SparseMerkleTree \<Rightarrow> bytes \<Rightarrow> SparseMerkleTree option" where
  "SparseMerkleTree_remove C s key = do {
     found \<leftarrow> find_leaf s key;
     (case found of
       None \<Rightarrow> Some s
     | Some _ \<Rightarrow> do {
         (s, r) \<leftarrow> remove_at C key s (smt_root s) 0;
         h \<leftarrow> subtree_hash C s r 0;
         Some (s\<lparr>smt_root := r, root_hash := h, leaf_count := leaf_count s - 1\<rparr>)
       })
   }"


section \<open>The reference root\<close>

text \<open>The tests of the source compare the tree with the root of the full binary tree over
  the leaves in key order. \<open>partition_point\<close> is the length of the longest prefix whose
  elements satisfy the predicate.\<close>

fun compute_root_recursive :: "crypto \<Rightarrow> (bytes \<times> bytes) list \<Rightarrow> nat \<Rightarrow> nat \<Rightarrow> bytes" where
  "compute_root_recursive C leaves 0 bit_index =
     (if leaves = [] then empty_hash C 0 else snd (hd leaves))"
| "compute_root_recursive C leaves (Suc depth) bit_index =
     (if leaves = [] then empty_hash C (Suc depth)
      else (let left = (\<lambda>leaf. get_bit (fst leaf) bit_index = Some 0) in
        sha256 C (compute_root_recursive C (takeWhile left leaves) depth (bit_index + 1)
          @ compute_root_recursive C (dropWhile left leaves) depth (bit_index + 1))))"

end
