(* ===== verification/Smt_Tree.thy ===== *)
theory Smt_Tree
  imports Smt
begin

text \<open>
  The tree that the arena of \<open>chain/smt.rs\<close> describes. The bits of keys and the hash of a
  map over the full binary tree of depth 256; the shape of a path-compressed tree and how
  the slots of the arena store it; which slots are in use and which are free; and what the
  operations that only read the arena return.
\<close>


section \<open>Bits of keys\<close>

definition kbit :: "bytes \<Rightarrow> nat \<Rightarrow> bool" where
  "kbit k d = bit (k ! (d div 8)) (7 - d mod 8)"

definition agree :: "nat \<Rightarrow> bytes \<Rightarrow> bytes \<Rightarrow> bool" where
  "agree d a b \<longleftrightarrow> (\<forall>i<d. kbit a i = kbit b i)"

lemma and_one_bit: "(w :: byte) AND 1 = of_bool (bit w 0)"
  by (simp add: and_one_eq odd_iff_mod_2_eq_one bit_0)

lemma get_bit_Some: "length k = 32 \<Longrightarrow> d < 256 \<Longrightarrow> get_bit k d = Some (of_bool (kbit k d))"
  by (auto simp: get_bit_def kbit_def and_one_bit bit_drop_bit_eq Let_def)

lemma agree_mono: "agree d a b \<Longrightarrow> c \<le> d \<Longrightarrow> agree c a b"
  by (simp add: agree_def)

lemma agree_sym: "agree d a b \<Longrightarrow> agree d b a"
  by (simp add: agree_def)

lemma agree_trans: "agree d a b \<Longrightarrow> agree d b c \<Longrightarrow> agree d a c"
  by (simp add: agree_def)

lemma agree_Suc: "agree (Suc d) a b \<longleftrightarrow> agree d a b \<and> kbit a d = kbit b d"
  by (auto simp: agree_def less_Suc_eq)

lemma agree_0 [simp]: "agree 0 a b"
  by (simp add: agree_def)

lemma byte_bits_eq: "(\<And>n. n < 8 \<Longrightarrow> bit (a :: byte) n = bit b n) \<Longrightarrow> a = b"
  by (rule bit_word_eqI) auto

lemma agree_bytes_eq:
  assumes "agree (8 * n) a b" "i < n"
  shows "a ! i = b ! i"
proof (rule byte_bits_eq)
  fix m :: nat assume "m < 8"
  define q where "q = 7 - m"
  define d where "d = 8 * i + q"
  have "q < 8" by (simp add: q_def)
  then have d: "d div 8 = i" "d mod 8 = q" by (simp_all add: d_def)
  have "d < 8 * (i + 1)" using \<open>q < 8\<close> by (simp add: d_def)
  also have "\<dots> \<le> 8 * n" using \<open>i < n\<close> by (intro mult_le_mono2) simp
  finally have "kbit a d = kbit b d" using assms(1) by (simp add: agree_def)
  then show "bit (a ! i) m = bit (b ! i) m" using \<open>m < 8\<close> d by (simp add: kbit_def q_def)
qed

lemma agree_256_eq:
  assumes "agree 256 a b" "length a = 32" "length b = 32"
  shows "a = b"
  by (rule nth_equalityI) (use assms agree_bytes_eq[of 32 a b] in simp_all)

text \<open>The scan of a range returns the first position where the keys part, or the default.\<close>

lemma diverge_in_spec:
  assumes "length a = 32" "length b = 32" "cd \<le> 256" "bd \<le> cd"
  shows "\<exists>d. diverge_in a b [bd..<cd] cd = Some d \<and> bd \<le> d \<and> d \<le> cd
    \<and> (\<forall>i. bd \<le> i \<longrightarrow> i < d \<longrightarrow> kbit a i = kbit b i)
    \<and> (d < cd \<longrightarrow> kbit a d \<noteq> kbit b d)"
  using assms(4)
proof (induction "cd - bd" arbitrary: bd)
  case (Suc n)
  then have lt: "bd < cd" by simp
  then have upt: "[bd..<cd] = bd # [Suc bd..<cd]" by (simp add: upt_conv_Cons)
  have bits: "get_bit a bd = Some (of_bool (kbit a bd))" "get_bit b bd = Some (of_bool (kbit b bd))"
    using get_bit_Some assms lt by simp_all
  show ?case
  proof (cases "kbit a bd = kbit b bd")
    case True
    from Suc.hyps(1)[of "Suc bd"] Suc.hyps(2) lt obtain d where d:
      "diverge_in a b [Suc bd..<cd] cd = Some d" "Suc bd \<le> d" "d \<le> cd"
      "\<forall>i. Suc bd \<le> i \<longrightarrow> i < d \<longrightarrow> kbit a i = kbit b i"
      "d < cd \<longrightarrow> kbit a d \<noteq> kbit b d" by force
    have "\<forall>i. bd \<le> i \<longrightarrow> i < d \<longrightarrow> kbit a i = kbit b i"
    proof (intro allI impI)
      fix i assume "bd \<le> i" "i < d"
      then show "kbit a i = kbit b i" using d(4) True by (cases "i = bd") auto
    qed
    then show ?thesis using d True by (intro exI[of _ d]) (simp add: upt bits)
  next
    case False
    then show ?thesis using lt by (intro exI[of _ bd]) (simp add: upt bits)
  qed
qed simp


section \<open>The hash of a map\<close>

text \<open>The hash of the full binary subtree of height \<open>n\<close> over the leaves of a map; the
  subtree starts at bit \<open>256 - n\<close>.\<close>

primrec map_hash :: "crypto \<Rightarrow> nat \<Rightarrow> (bytes \<rightharpoonup> bytes) \<Rightarrow> bytes" where
  "map_hash C 0 m = (if m = Map.empty then replicate 32 0 else the_elem (ran m))"
| "map_hash C (Suc n) m = sha256 C (map_hash C n (m |` {k. \<not> kbit k (255 - n)})
     @ map_hash C n (m |` {k. kbit k (255 - n)}))"

lemma map_hash_empty: "map_hash C n Map.empty = empty_hash C n"
  by (induction n) simp_all

lemma map_hash_leaf: "map_hash C 0 [k \<mapsto> v] = v"
  by simp

text \<open>\<open>node_hash C d m\<close> is the hash of the subtree at depth \<open>d\<close>.\<close>

definition node_hash :: "crypto \<Rightarrow> nat \<Rightarrow> (bytes \<rightharpoonup> bytes) \<Rightarrow> bytes" where
  "node_hash C d m = map_hash C (256 - d) m"

lemma node_hash_step:
  assumes "d < 256"
  shows "node_hash C d m = sha256 C (node_hash C (Suc d) (m |` {k. \<not> kbit k d})
    @ node_hash C (Suc d) (m |` {k. kbit k d}))"
proof -
  have "256 - d = Suc (256 - Suc d)" "255 - (256 - Suc d) = d" using assms by simp_all
  then show ?thesis by (simp add: node_hash_def)
qed

lemma node_hash_empty: "d \<le> 256 \<Longrightarrow> node_hash C d Map.empty = empty_hash C (256 - d)"
  by (simp add: node_hash_def map_hash_empty)

lemma node_hash_branch:
  assumes "d < 256" "\<forall>k\<in>dom l. \<not> kbit k d" "\<forall>k\<in>dom r. kbit k d"
  shows "node_hash C d (l ++ r) = sha256 C (node_hash C (Suc d) l @ node_hash C (Suc d) r)"
proof -
  have off: "kbit k d \<Longrightarrow> l k = None" "\<not> kbit k d \<Longrightarrow> r k = None" for k
    using assms(2,3) by (meson domIff)+
  have "(l ++ r) |` {k. \<not> kbit k d} = l"
    using off by (auto simp: restrict_map_def map_add_def fun_eq_iff)
  moreover have "(l ++ r) |` {k. kbit k d} = r"
    using off by (auto simp: restrict_map_def map_add_def fun_eq_iff split: option.splits)
  ultimately show ?thesis using assms(1) by (simp add: node_hash_step)
qed

text \<open>Folding through the empty siblings of an extension gives the hash of the subtree
  above it.\<close>

lemma fold_step_ok:
  assumes "length key = 32" "d < 256" "\<forall>k\<in>dom m. kbit k d = kbit key d"
  shows "fold_step C key d (node_hash C (Suc d) m) = Some (node_hash C d m)"
proof -
  have e: "EmptyHashes_get C (SMT_DEPTH - d - 1) = Some (empty_hash C (256 - Suc d))"
    using assms(2) by (simp add: EmptyHashes_get_def constants)
  show ?thesis
  proof (cases "kbit key d")
    case True
    then have "node_hash C d (Map.empty ++ m)
      = sha256 C (node_hash C (Suc d) Map.empty @ node_hash C (Suc d) m)"
      using assms by (intro node_hash_branch) auto
    then show ?thesis using True e assms
      by (simp add: fold_step_def get_bit_Some node_hash_empty)
  next
    case False
    then have "node_hash C d (m ++ Map.empty)
      = sha256 C (node_hash C (Suc d) m @ node_hash C (Suc d) Map.empty)"
      using assms by (intro node_hash_branch) auto
    then show ?thesis using False e assms
      by (simp add: fold_step_def get_bit_Some node_hash_empty)
  qed
qed

lemma fold_hash_ok:
  assumes "length key = 32" "cd \<le> 256" "bd \<le> cd" "\<forall>k\<in>dom m. agree cd k key"
  shows "fold_hash C (node_hash C cd m) key bd cd = Some (node_hash C bd m)"
  using assms(3)
proof (induction "cd - bd" arbitrary: bd)
  case 0
  then show ?case by (simp add: fold_hash_def)
next
  case (Suc n)
  then have lt: "bd < cd" by simp
  have "fold_hash C (node_hash C cd m) key bd cd
    = Option.bind (fold_hash C (node_hash C cd m) key (Suc bd) cd) (fold_step C key bd)"
    using lt by (simp add: fold_hash_def upt_conv_Cons)
  also have "\<dots> = fold_step C key bd (node_hash C (Suc bd) m)"
    using Suc lt by simp
  also have "\<dots> = Some (node_hash C bd m)"
    using assms lt by (intro fold_step_ok) (auto simp: agree_def)
  finally show ?case .
qed


section \<open>Trees in the arena\<close>

text \<open>The tree that the indices of the arena describe, with the index of every node.\<close>

datatype stree =
  SL NodeIdx bytes bytes
| SB NodeIdx nat stree stree
| SE NodeIdx nat nat bytes stree

primrec idx_of :: "stree \<Rightarrow> NodeIdx" where
  "idx_of (SL i k v) = i"
| "idx_of (SB i d l r) = i"
| "idx_of (SE i d c p t) = i"

primrec slots :: "stree \<Rightarrow> NodeIdx multiset" where
  "slots (SL i k v) = {#i#}"
| "slots (SB i d l r) = add_mset i (slots l + slots r)"
| "slots (SE i d c p t) = add_mset i (slots t)"

primrec tmap :: "stree \<Rightarrow> bytes \<rightharpoonup> bytes" where
  "tmap (SL i k v) = [k \<mapsto> v]"
| "tmap (SB i d l r) = tmap l ++ tmap r"
| "tmap (SE i d c p t) = tmap t"

primrec is_ext :: "stree \<Rightarrow> bool" where
  "is_ext (SL i k v) = False"
| "is_ext (SB i d l r) = False"
| "is_ext (SE i d c p t) = True"

text \<open>The shape at depth \<open>d\<close>: leaves only at depth 256, a branch splits at its own depth,
  an extension is never followed by another and its prefix is the path of all the keys
  below it.\<close>

primrec shape :: "nat \<Rightarrow> stree \<Rightarrow> bool" where
  "shape d (SL i k v) \<longleftrightarrow> d = 256 \<and> length k = 32"
| "shape d (SB i bd l r) \<longleftrightarrow> bd = d \<and> d < 256 \<and> shape (Suc d) l \<and> shape (Suc d) r
     \<and> (\<forall>k\<in>dom (tmap l). \<forall>k'\<in>dom (tmap r). agree d k k' \<and> \<not> kbit k d \<and> kbit k' d)"
| "shape d (SE i bd cd p t) \<longleftrightarrow> bd = d \<and> d < cd \<and> cd \<le> 256 \<and> shape cd t \<and> \<not> is_ext t
     \<and> length p = 32 \<and> (\<forall>k\<in>dom (tmap t). agree cd k p)"

text \<open>The slots of the arena hold the tree, with the hash of every subtree.\<close>

primrec stored :: "crypto \<Rightarrow> SmtNode list \<Rightarrow> stree \<Rightarrow> bool" where
  "stored C a (SL i k v) \<longleftrightarrow> a ! i = Leaf k v"
| "stored C a (SB i d l r) \<longleftrightarrow>
     a ! i = Branch d (idx_of l) (idx_of r) (node_hash C d (tmap l ++ tmap r))
     \<and> stored C a l \<and> stored C a r"
| "stored C a (SE i d c p t) \<longleftrightarrow>
     a ! i = Extension d c p (idx_of t) (node_hash C d (tmap t)) \<and> stored C a t"

lemma idx_in_nodes: "idx_of t \<in># slots t"
  by (cases t) auto

lemma tmap_nonempty: "\<exists>k. k \<in> dom (tmap t)"
  by (induction t) auto

lemma shape_depth: "shape d t \<Longrightarrow> d \<le> 256"
  by (cases t) auto

lemma shape_key_length: "shape d t \<Longrightarrow> k \<in> dom (tmap t) \<Longrightarrow> length k = 32"
  by (induction t arbitrary: d) auto

lemma shape_agree: "shape d t \<Longrightarrow> k \<in> dom (tmap t) \<Longrightarrow> k' \<in> dom (tmap t) \<Longrightarrow> agree d k k'"
proof (induction t arbitrary: d k k')
  case (SB i bd l r)
  obtain kl kr where lr: "kl \<in> dom (tmap l)" "kr \<in> dom (tmap r)"
    using tmap_nonempty[of l] tmap_nonempty[of r] by auto
  have across: "agree d x y" if "x \<in> dom (tmap l)" "y \<in> dom (tmap r)" for x y
    using that SB.prems(1) by simp
  have hub: "agree d x kr" if "x \<in> dom (tmap l) \<or> x \<in> dom (tmap r)" for x
    using that across lr by (meson agree_sym agree_trans)
  have "agree d k kr" "agree d k' kr" using hub SB.prems(2,3) by auto
  then show ?case by (meson agree_sym agree_trans)
next
  case (SE i bd cd p t)
  then have "agree cd k k'" by simp
  then show ?case using SE.prems(1) agree_mono[of cd k k' d] by simp
qed (auto simp: agree_def)

lemma stored_cong:
  "stored C a t \<Longrightarrow> (\<And>j. j \<in># slots t \<Longrightarrow> a' ! j = a ! j) \<Longrightarrow> stored C a' t"
  by (induction t) auto


section \<open>Ownership of slots\<close>

text \<open>Every slot but the sentinel is either in use (\<open>R\<close>) or on the free list, exactly once.\<close>

definition owned :: "SparseMerkleTree \<Rightarrow> NodeIdx multiset \<Rightarrow> bool" where
  "owned s R \<longleftrightarrow> arena s \<noteq> [] \<and> R + mset (free_slots s) = mset [1..<length (arena s)]"

text \<open>What an operation leaves alone: the slots of \<open>R\<close> and the counter; \<open>n\<close> bounds the
  growth of the arena.\<close>

definition keeps :: "nat \<Rightarrow> SparseMerkleTree \<Rightarrow> SparseMerkleTree \<Rightarrow> NodeIdx multiset \<Rightarrow> bool" where
  "keeps n s s' R \<longleftrightarrow> (\<forall>j\<in>#R. arena s' ! j = arena s ! j) \<and> leaf_count s' = leaf_count s
     \<and> smt_root s' = smt_root s \<and> length (arena s) \<le> length (arena s') \<and> length (arena s') \<le> length (arena s) + n"

lemma keeps_same [simp]: "keeps n s s R"
  by (simp add: keeps_def)

lemma keeps_then:
  "keeps a s s1 R \<Longrightarrow> keeps b s1 s2 R' \<Longrightarrow> R \<subseteq># R' \<Longrightarrow> a + b \<le> n \<Longrightarrow> keeps n s s2 R"
  by (auto simp: keeps_def dest: mset_subset_eqD)

lemma keeps_mono: "keeps a s s' R \<Longrightarrow> R' \<subseteq># R \<Longrightarrow> a \<le> b \<Longrightarrow> keeps b s s' R'"
  by (auto simp: keeps_def dest: mset_subset_eqD)

lemma owned_range: "owned s R \<Longrightarrow> i \<in># R \<Longrightarrow> 1 \<le> i \<and> i < length (arena s)"
proof -
  assume o: "owned s R" and i: "i \<in># R"
  have "i \<in># mset [1..<length (arena s)]"
    using o i unfolding owned_def by (metis union_iff)
  then show ?thesis by simp
qed

lemma count_mset_upt: "count (mset [a..<b]) i \<le> 1"
  using distinct_upt[of a b] unfolding distinct_count_atmost_1 by (metis le_refl zero_le_one)

lemma owned_once: "owned s (add_mset i R) \<Longrightarrow> i \<notin># R"
proof
  assume o: "owned s (add_mset i R)" and i: "i \<in># R"
  have "count (add_mset i R + mset (free_slots s)) i \<le> 1"
    using o count_mset_upt[of 1 "length (arena s)" i] unfolding owned_def by metis
  then have "count R i = 0" by simp
  then show False using i by (simp add: not_in_iff[symmetric])
qed

lemma owned_disjoint: "owned s (A + B) \<Longrightarrow> j \<in># A \<Longrightarrow> j \<notin># B"
proof -
  assume o: "owned s (A + B)" and j: "j \<in># A"
  obtain A' where "A = add_mset j A'" using multi_member_split[OF j] by blast
  then have "j \<notin># A' + B" using o by (intro owned_once[of s]) simp
  then show ?thesis by simp
qed

lemma node_at_owned: "owned s R \<Longrightarrow> i \<in># R \<Longrightarrow> node_at s i = Some (arena s ! i)"
  using owned_range by (simp add: node_at_def)

lemma owned_not_null: "owned s R \<Longrightarrow> i \<in># R \<Longrightarrow> i \<noteq> NULL"
  using owned_range by (fastforce simp: constants)

text \<open>An allocation succeeds; with a slot on the free list the arena does not grow.\<close>

lemma alloc_ok:
  assumes "owned s R" "free_slots s = [] \<Longrightarrow> length (arena s) < 2 ^ 32"
  shows "\<exists>s' i. alloc s node = Some (s', i) \<and> owned s' (add_mset i R)
    \<and> keeps (if free_slots s = [] then 1 else 0) s s' R \<and> arena s' ! i = node"
proof (cases "free_slots s = []")
  case True
  let ?n = "length (arena s)"
  let ?s' = "s\<lparr>arena := arena s @ [node]\<rparr>"
  have n: "1 \<le> ?n" using assms(1) by (simp add: owned_def Suc_le_eq)
  have "alloc s node = Some (?s', ?n)" using True assms(2) by (simp add: alloc_def)
  moreover have "owned ?s' (add_mset ?n R)"
    using assms(1) True n by (simp add: owned_def)
  moreover have "keeps 1 s ?s' R"
    using owned_range[OF assms(1)] by (auto simp: keeps_def nth_append)
  ultimately show ?thesis using True by (intro exI[of _ ?s'] exI[of _ ?n]) simp
next
  case False
  let ?i = "last (free_slots s)"
  let ?s' = "set_node (s\<lparr>free_slots := butlast (free_slots s)\<rparr>) ?i node"
  have split: "mset (free_slots s) = add_mset ?i (mset (butlast (free_slots s)))"
    using arg_cong[OF append_butlast_last_id[OF False], of mset] by simp
  have o: "owned (s\<lparr>free_slots := butlast (free_slots s)\<rparr>) (add_mset ?i R)"
    using assms(1) split by (simp add: owned_def)
  have r: "?i < length (arena s)" using owned_range[OF o, of ?i] by simp
  have "alloc s node = Some (?s', ?i)" using False r by (simp add: alloc_def Let_def)
  moreover have "owned ?s' (add_mset ?i R)"
    using o by (simp add: owned_def set_node_def)
  moreover have "keeps 0 s ?s' R"
    using owned_once[OF o] by (auto simp: keeps_def set_node_def intro!: nth_list_update_neq)
  moreover have "arena ?s' ! ?i = node" using r by (simp add: set_node_def)
  ultimately show ?thesis using False by auto
qed

lemma free_node_ok: "owned s (add_mset i R) \<Longrightarrow> owned (free_node s i) R \<and> keeps 0 s (free_node s i) R"
  using owned_not_null[of s "add_mset i R" i]
  by (auto simp: owned_def keeps_def free_node_def)

lemma set_node_ok:
  assumes "owned s (add_mset i R)"
  shows "owned (set_node s i node) (add_mset i R) \<and> keeps 0 s (set_node s i node) R
    \<and> arena (set_node s i node) ! i = node"
  using assms owned_once[OF assms] owned_range[OF assms, of i]
  by (auto simp: owned_def keeps_def set_node_def intro!: nth_list_update_neq)



section \<open>Reading the tree\<close>

definition holds :: "crypto \<Rightarrow> SparseMerkleTree \<Rightarrow> nat \<Rightarrow> stree \<Rightarrow> NodeIdx multiset \<Rightarrow> bool" where
  "holds C s d t X \<longleftrightarrow> shape d t \<and> stored C (arena s) t \<and> owned s (slots t + X)"

lemma holdsI: "shape d t \<Longrightarrow> stored C (arena s) t \<Longrightarrow> owned s (slots t + X) \<Longrightarrow> holds C s d t X"
  by (simp add: holds_def)

lemma holds_frame:
  assumes "holds C s d t X" "keeps n s s' R" "slots t \<subseteq># R" "owned s' (slots t + X')"
  shows "holds C s' d t X'"
  using assms by (auto simp: holds_def keeps_def intro!: stored_cong[of C "arena s" t "arena s'"]
      dest: mset_subset_eqD)

lemma holds_SB:
  "holds C s d (SB i bd l r) X \<longleftrightarrow> bd = d \<and> d < 256
     \<and> arena s ! i = Branch d (idx_of l) (idx_of r) (node_hash C d (tmap l ++ tmap r))
     \<and> holds C s (Suc d) l (add_mset i (slots r + X)) \<and> holds C s (Suc d) r (add_mset i (slots l + X))
     \<and> (\<forall>k\<in>dom (tmap l). \<forall>k'\<in>dom (tmap r). agree d k k' \<and> \<not> kbit k d \<and> kbit k' d)"
  by (auto simp: holds_def ac_simps)

lemma holds_SE:
  "holds C s d (SE i bd cd p t) X \<longleftrightarrow> bd = d \<and> d < cd \<and> cd \<le> 256 \<and> \<not> is_ext t \<and> length p = 32
     \<and> arena s ! i = Extension d cd p (idx_of t) (node_hash C d (tmap t))
     \<and> holds C s cd t (add_mset i X) \<and> (\<forall>k\<in>dom (tmap t). agree cd k p)"
  by (auto simp: holds_def)

lemma holds_SL:
  "holds C s d (SL i k v) X \<longleftrightarrow> d = 256 \<and> length k = 32 \<and> arena s ! i = Leaf k v
     \<and> owned s (add_mset i X)"
  by (auto simp: holds_def)

lemma holds_owned: "holds C s d t X \<Longrightarrow> owned s (slots t + X)"
  by (simp add: holds_def)

lemma holds_shape: "holds C s d t X \<Longrightarrow> shape d t"
  by (simp add: holds_def)

lemma holds_idx:
  assumes "holds C s d t X"
  shows "idx_of t \<noteq> NULL" "node_at s (idx_of t) = Some (arena s ! idx_of t)"
proof -
  have "idx_of t \<in># slots t + X" using idx_in_nodes by simp
  then show "idx_of t \<noteq> NULL" "node_at s (idx_of t) = Some (arena s ! idx_of t)"
    using owned_not_null node_at_owned assms by (auto simp: holds_def)
qed

lemma subtree_hash_ok: "holds C s d t X \<Longrightarrow> subtree_hash C s (idx_of t) e = Some (node_hash C d (tmap t))"
  using holds_idx[of C s d t X]
  by (cases t) (auto simp: subtree_hash_def holds_SL holds_SB holds_SE node_hash_def)

lemma logical_depth_ok: "holds C s d t X \<Longrightarrow> logical_depth s (idx_of t) = Some d"
  using holds_idx[of C s d t X]
  by (cases t) (auto simp: logical_depth_def holds_SL holds_SB holds_SE)

lemma compute_branch_hash_ok:
  assumes "holds C s (Suc d) l X" "holds C s (Suc d) r Y" "d < 256"
    and "\<forall>k\<in>dom (tmap l). \<not> kbit k d" "\<forall>k\<in>dom (tmap r). kbit k d"
  shows "compute_branch_hash C s (idx_of l) (idx_of r) d = Some (node_hash C d (tmap l ++ tmap r))"
  using subtree_hash_ok[OF assms(1)] subtree_hash_ok[OF assms(2)] node_hash_branch[OF assms(3-5)]
  by (simp add: compute_branch_hash_def)

lemma any_key_ok: "holds C s d t X \<Longrightarrow> \<exists>k\<in>dom (tmap t). any_key s (idx_of t) = Some k"
proof (induction t arbitrary: d X)
  case (SL i k v)
  then have "any_key s i = Some k"
    using holds_idx[OF SL] by (simp add: any_key.simps[of s i] holds_SL)
  then show ?case by auto
next
  case (SB i bd l r)
  then have l: "holds C s (Suc d) l (add_mset i (slots r + X))" by (simp add: holds_SB)
  have "any_key s i = any_key s (idx_of l)"
    using holds_idx[OF SB.prems] holds_idx[OF l] SB.prems by (simp add: any_key.simps[of s i] holds_SB)
  then show ?case using SB.IH(1)[OF l] by auto
next
  case (SE i bd cd p t)
  then have t: "holds C s cd t (add_mset i X)" by (simp add: holds_SE)
  have "any_key s i = any_key s (idx_of t)"
    using holds_idx[OF SE.prems] SE.prems by (simp add: any_key.simps[of s i] holds_SE)
  then show ?case using SE.IH[OF t] by auto
qed

lemma find_from_ok:
  "holds C s d t X \<Longrightarrow> length key = 32 \<Longrightarrow> find_from s key (idx_of t) = Some (tmap t key)"
proof (induction t arbitrary: d X)
  case (SL i k v)
  then show ?case using holds_idx[OF SL.prems(1)] by (simp add: find_from.simps[of s key i] holds_SL)
next
  case (SB i bd l r)
  from SB.prems(1) have lr: "holds C s (Suc d) l (add_mset i (slots r + X))"
    "holds C s (Suc d) r (add_mset i (slots l + X))" and d: "d < 256" "bd = d"
    by (simp_all add: holds_SB)
  have "find_from s key i = find_from s key (if kbit key d then idx_of r else idx_of l)"
    using holds_idx[OF SB.prems(1)] SB.prems d
    by (simp add: find_from.simps[of s key i] holds_SB get_bit_Some)
  also have "\<dots> = Some (if kbit key d then tmap r key else tmap l key)"
    using SB.IH lr SB.prems(2) by auto
  also have "(if kbit key d then tmap r key else tmap l key) = (tmap l ++ tmap r) key"
  proof -
    obtain kl kr where "kl \<in> dom (tmap l)" "kr \<in> dom (tmap r)"
      using tmap_nonempty[of l] tmap_nonempty[of r] by auto
    then have "kbit key d \<Longrightarrow> tmap l key = None" "\<not> kbit key d \<Longrightarrow> tmap r key = None"
      using SB.prems(1) unfolding holds_SB by (metis domIff)+
    then show ?thesis by (auto simp: map_add_def split: option.splits)
  qed
  finally show ?case by simp
next
  case (SE i bd cd p t)
  from SE.prems(1) have t: "holds C s cd t (add_mset i X)" and *: "bd = d" "d < cd" "cd \<le> 256"
    "length p = 32" and p: "\<forall>k\<in>dom (tmap t). agree cd k p" by (simp_all add: holds_SE)
  from diverge_in_spec[of key p cd d] SE.prems(2) * obtain e where e:
    "diverge_in key p [d..<cd] cd = Some e" "e \<le> cd" "e < cd \<longrightarrow> kbit key e \<noteq> kbit p e" by auto
  have step: "find_from s key i = (if e \<noteq> cd then Some None else find_from s key (idx_of t))"
    using holds_idx[OF SE.prems(1)] SE.prems * e(1)
    by (simp add: find_from.simps[of s key i] holds_SE)
  show ?case
  proof (cases "e = cd")
    case True
    then show ?thesis using step SE.IH[OF t SE.prems(2)] by simp
  next
    case False
    then have "e < cd" using e(2) by simp
    then have "\<not> agree cd key p" using e(3) unfolding agree_def by blast
    then have "tmap t key = None" using p by (metis domIff)
    then show ?thesis using step False by simp
  qed
qed

end
