(* ===== verification/Smt_Refine.thy ===== *)
theory Smt_Refine
  imports Smt_Tree
begin

text \<open>
  Insertion and removal in the arena of \<open>chain/smt.rs\<close>. Each lemma says that an operation
  returns, that the slots it leaves describe a tree of the right shape whose map is the old
  one updated at one key, that every slot outside the subtree is untouched, and that every
  slot is in use or free exactly once.
\<close>


section \<open>New nodes\<close>

lemma as_u16_id [simp]: "n \<le> 256 \<Longrightarrow> as_u16 n = n"
  by (simp add: as_u16_def)

lemma keeps_length: "keeps n s s' R \<Longrightarrow> length (arena s') \<le> length (arena s) + n"
  by (simp add: keeps_def)

lemma keeps_grow: "keeps (if c then 1 else 0) s s' R \<Longrightarrow> keeps 1 s s' R"
  by (erule keeps_mono) auto

lemma alloc_leaf:
  assumes "owned s X" "length key = 32" "length (arena s) < 2 ^ 32"
  shows "\<exists>s' i. alloc s (Leaf key value) = Some (s', i) \<and> holds C s' 256 (SL i key value) X
    \<and> keeps 1 s s' X"
  using alloc_ok[OF assms(1), of "Leaf key value"] assms(2,3) keeps_grow[of "free_slots s = []" s _ X]
  unfolding holds_SL by metis

lemma alloc_extension_reuse:
  assumes "holds C s nd t X" "\<not> is_ext t" "d < nd" "length key = 32"
    and "\<forall>k\<in>dom (tmap t). agree nd k key" "free_slots s = [] \<Longrightarrow> length (arena s) < 2 ^ 32"
  shows "\<exists>s' i. alloc s (Extension d nd key (idx_of t) (node_hash C d (tmap t))) = Some (s', i)
    \<and> holds C s' d (SE i d nd key t) X \<and> keeps (if free_slots s = [] then 1 else 0) s s' X"
proof -
  obtain s' i where a: "alloc s (Extension d nd key (idx_of t) (node_hash C d (tmap t))) = Some (s', i)"
    and o: "owned s' (add_mset i (slots t + X))"
    and k: "keeps (if free_slots s = [] then 1 else 0) s s' (slots t + X)"
    and n: "arena s' ! i = Extension d nd key (idx_of t) (node_hash C d (tmap t))"
    using alloc_ok[OF holds_owned[OF assms(1)] assms(6)] by blast
  have "holds C s' nd t (add_mset i X)"
    by (rule holds_frame[OF assms(1) k]) (use o in simp_all)
  then have "holds C s' d (SE i d nd key t) X"
    using assms n shape_depth[OF holds_shape[OF assms(1)]] by (simp add: holds_SE)
  moreover have "keeps (if free_slots s = [] then 1 else 0) s s' X" by (rule keeps_mono[OF k]) simp_all
  ultimately show ?thesis using a by blast
qed

lemma alloc_extension:
  assumes "holds C s nd t X" "\<not> is_ext t" "d < nd" "length key = 32"
    and "\<forall>k\<in>dom (tmap t). agree nd k key" "length (arena s) < 2 ^ 32"
  shows "\<exists>s' i. alloc s (Extension d nd key (idx_of t) (node_hash C d (tmap t))) = Some (s', i)
    \<and> holds C s' d (SE i d nd key t) X \<and> keeps 1 s s' X"
  using alloc_extension_reuse[OF assms] keeps_grow by blast

lemma wrap_ok:
  assumes "holds C s nd t X" "\<not> is_ext t" "d \<le> nd" "length (arena s) < 2 ^ 32"
  shows "\<exists>s' t'. wrap_in_extension C s (idx_of t) d = Some (s', idx_of t') \<and> holds C s' d t' X
    \<and> keeps 1 s s' X \<and> tmap t' = tmap t"
proof (cases "d = nd")
  case True
  then show ?thesis using assms logical_depth_ok[OF assms(1)]
    by (intro exI[of _ s] exI[of _ t]) (simp add: wrap_in_extension_def)
next
  case False
  obtain k where k: "k \<in> dom (tmap t)" "any_key s (idx_of t) = Some k"
    using any_key_ok[OF assms(1)] by blast
  have sh: "shape nd t" by (rule holds_shape[OF assms(1)])
  have nd: "nd \<le> 256" by (rule shape_depth[OF sh])
  have len: "length k = 32" by (rule shape_key_length[OF sh k(1)])
  have ag: "\<forall>k'\<in>dom (tmap t). agree nd k' k" using shape_agree[OF sh _ k(1)] by blast
  obtain s' i where a: "alloc s (Extension d nd k (idx_of t) (node_hash C d (tmap t))) = Some (s', i)"
    and h: "holds C s' d (SE i d nd k t) X" "keeps 1 s s' X"
    using alloc_extension[OF assms(1,2) _ len ag assms(4), of d] False assms(3) by auto
  have "wrap_in_extension C s (idx_of t) d = Some (s', i)"
    using False assms(3) nd logical_depth_ok[OF assms(1)] k(2) subtree_hash_ok[OF assms(1)] a
      fold_hash_ok[OF len nd assms(3) ag]
    by (simp add: wrap_in_extension_def)
  then show ?thesis using h by (intro exI[of _ s'] exI[of _ "SE i d nd k t"]) simp
qed

lemma alloc_branch:
  assumes "holds C s (Suc d) l (slots r + X)" "holds C s (Suc d) r (slots l + X)" "d < 256"
    and "\<forall>k\<in>dom (tmap l). \<forall>k'\<in>dom (tmap r). agree d k k' \<and> \<not> kbit k d \<and> kbit k' d"
    and "length (arena s) < 2 ^ 32"
  shows "\<exists>s' i. alloc s (Branch d (idx_of l) (idx_of r) (node_hash C d (tmap l ++ tmap r))) = Some (s', i)
    \<and> holds C s' d (SB i d l r) X \<and> keeps 1 s s' X"
proof -
  obtain s' i where
    a: "alloc s (Branch d (idx_of l) (idx_of r) (node_hash C d (tmap l ++ tmap r))) = Some (s', i)"
    and o: "owned s' (add_mset i (slots l + (slots r + X)))"
    and k: "keeps (if free_slots s = [] then 1 else 0) s s' (slots l + (slots r + X))"
    and n: "arena s' ! i = Branch d (idx_of l) (idx_of r) (node_hash C d (tmap l ++ tmap r))"
    using alloc_ok[OF holds_owned[OF assms(1)] assms(5)] by blast
  have "holds C s' (Suc d) l (add_mset i (slots r + X))"
    by (rule holds_frame[OF assms(1) k]) (use o in simp_all)
  moreover have "holds C s' (Suc d) r (add_mset i (slots l + X))"
    by (rule holds_frame[OF assms(2) k]) (use o in \<open>simp_all add: ac_simps\<close>)
  ultimately have "holds C s' d (SB i d l r) X"
    using assms n by (simp add: holds_SB)
  moreover have "keeps 1 s s' X" by (rule keeps_mono[OF k]) (auto simp: ac_simps)
  ultimately show ?thesis using a by blast
qed


section \<open>Nodes rewritten in place\<close>

lemma set_branch:
  assumes "holds C s (Suc d) l (add_mset i (slots r + X))" "holds C s (Suc d) r (add_mset i (slots l + X))"
    and "d < 256"
    and "\<forall>k\<in>dom (tmap l). \<forall>k'\<in>dom (tmap r). agree d k k' \<and> \<not> kbit k d \<and> kbit k' d"
  shows "\<exists>s'. (do {
      h \<leftarrow> compute_branch_hash C s (idx_of l) (idx_of r) d;
      Some (set_node s i (Branch d (idx_of l) (idx_of r) h), i)
    }) = Some (s', i) \<and> holds C s' d (SB i d l r) X \<and> keeps 0 s s' X"
proof -
  let ?n = "Branch d (idx_of l) (idx_of r) (node_hash C d (tmap l ++ tmap r))"
  let ?s = "set_node s i ?n"
  have bits: "\<forall>k\<in>dom (tmap l). \<not> kbit k d" "\<forall>k\<in>dom (tmap r). kbit k d"
    using assms(4) tmap_nonempty[of l] tmap_nonempty[of r] by blast+
  have "owned s (add_mset i (slots l + (slots r + X)))" using holds_owned[OF assms(1)] by simp
  then have s: "owned ?s (add_mset i (slots l + (slots r + X)))"
    "keeps 0 s ?s (slots l + (slots r + X))" "arena ?s ! i = ?n" using set_node_ok by blast+
  have "holds C ?s (Suc d) l (add_mset i (slots r + X))"
    by (rule holds_frame[OF assms(1) s(2)]) (use s(1) in simp_all)
  moreover have "holds C ?s (Suc d) r (add_mset i (slots l + X))"
    by (rule holds_frame[OF assms(2) s(2)]) (use s(1) in \<open>simp_all add: ac_simps\<close>)
  ultimately have "holds C ?s d (SB i d l r) X" using assms s(3) by (simp add: holds_SB)
  moreover have "keeps 0 s ?s X" by (rule keeps_mono[OF s(2)]) (simp_all add: ac_simps)
  ultimately show ?thesis using compute_branch_hash_ok[OF assms(1,2,3) bits] by simp
qed

lemma set_extension:
  assumes "holds C s cd t (add_mset i X)" "\<not> is_ext t" "d < cd" "length p = 32"
    and "\<forall>k\<in>dom (tmap t). agree cd k p"
  shows "\<exists>s'. (do {
      child_hash \<leftarrow> subtree_hash C s (idx_of t) e;
      h \<leftarrow> fold_hash C child_hash p d cd;
      Some (set_node s i (Extension d cd p (idx_of t) h), i)
    }) = Some (s', i) \<and> holds C s' d (SE i d cd p t) X \<and> keeps 0 s s' X"
proof -
  let ?n = "Extension d cd p (idx_of t) (node_hash C d (tmap t))"
  let ?s = "set_node s i ?n"
  have cd: "cd \<le> 256" by (rule shape_depth[OF holds_shape[OF assms(1)]])
  have "owned s (add_mset i (slots t + X))" using holds_owned[OF assms(1)] by simp
  then have s: "owned ?s (add_mset i (slots t + X))" "keeps 0 s ?s (slots t + X)" "arena ?s ! i = ?n"
    using set_node_ok by blast+
  have "holds C ?s cd t (add_mset i X)"
    by (rule holds_frame[OF assms(1) s(2)]) (use s(1) in simp_all)
  then have "holds C ?s d (SE i d cd p t) X" using assms cd s(3) by (simp add: holds_SE)
  moreover have "keeps 0 s ?s X" by (rule keeps_mono[OF s(2)]) simp_all
  ultimately show ?thesis
    using subtree_hash_ok[OF assms(1)] fold_hash_ok[OF assms(4) cd _ assms(5), of d] assms(3)
    by simp
qed


section \<open>Insertion\<close>

text \<open>What is left of an extension below the point where a key leaves it.\<close>

lemma remaining_ok:
  assumes "holds C s cd t X" "\<not> is_ext t" "e < cd" "length p = 32"
    and "\<forall>k\<in>dom (tmap t). agree cd k p" "length (arena s) < 2 ^ 32"
  shows "\<exists>s' t'. (if e + 1 < cd then do {
      child_hash \<leftarrow> subtree_hash C s (idx_of t) cd;
      h \<leftarrow> fold_hash C child_hash p (e + 1) cd;
      alloc s (Extension (as_u16 (e + 1)) cd p (idx_of t) h)
    } else Some (s, idx_of t)) = Some (s', idx_of t')
    \<and> holds C s' (Suc e) t' X \<and> keeps 1 s s' X \<and> tmap t' = tmap t"
proof (cases "e + 1 < cd")
  case True
  have cd: "cd \<le> 256" by (rule shape_depth[OF holds_shape[OF assms(1)]])
  obtain s' i where "alloc s (Extension (Suc e) cd p (idx_of t) (node_hash C (Suc e) (tmap t))) = Some (s', i)"
    "holds C s' (Suc e) (SE i (Suc e) cd p t) X" "keeps 1 s s' X"
    using alloc_extension[OF assms(1,2) _ assms(4-6), of "Suc e"] True by auto
  then show ?thesis
    using True cd subtree_hash_ok[OF assms(1)] fold_hash_ok[OF assms(4) cd _ assms(5), of "Suc e"]
    by (intro exI[of _ s'] exI[of _ "SE i (Suc e) cd p t"]) simp
next
  case False
  then have "cd = Suc e" using assms(3) by simp
  then show ?thesis using assms(1) by (intro exI[of _ s] exI[of _ t]) simp
qed

text \<open>The extension above a new branch keeps its slot, or gives it back.\<close>

lemma split_top_ok:
  assumes "holds C s e tb (add_mset i X)" "\<not> is_ext tb" "d \<le> e" "length key = 32"
    and "\<forall>k\<in>dom (tmap tb). agree e k key"
  shows "\<exists>s' t'. (if e > d then do {
      h \<leftarrow> fold_hash C (node_hash C e (tmap tb)) key d e;
      Some (set_node s i (Extension d (as_u16 e) key (idx_of tb) h), i)
    } else Some (free_node s i, idx_of tb)) = Some (s', idx_of t')
    \<and> holds C s' d t' X \<and> keeps 0 s s' X \<and> tmap t' = tmap tb"
proof -
  have e: "e \<le> 256" by (rule shape_depth[OF holds_shape[OF assms(1)]])
  have o: "owned s (add_mset i (slots tb + X))" using holds_owned[OF assms(1)] by simp
  show ?thesis
  proof (cases "e > d")
    case True
    have "subtree_hash C s (idx_of tb) e = Some (node_hash C e (tmap tb))"
      by (rule subtree_hash_ok[OF assms(1)])
    then show ?thesis using set_extension[OF assms(1,2) True assms(4,5), of e] True e
      by (auto intro!: exI[of _ "SE i d e key tb"])
  next
    case False
    then have "e = d" using assms(3) by simp
    have f: "owned (free_node s i) (slots tb + X)" "keeps 0 s (free_node s i) (slots tb + X)"
      using free_node_ok[OF o] by blast+
    have "holds C (free_node s i) d tb X"
      using holds_frame[OF assms(1) f(2) _ f(1)] \<open>e = d\<close> by simp
    moreover have "keeps 0 s (free_node s i) X" by (rule keeps_mono[OF f(2)]) simp_all
    ultimately show ?thesis using False by (intro exI[of _ "free_node s i"] exI[of _ tb]) simp
  qed
qed

text \<open>A branch whose sides are chosen by the bit of the new key.\<close>

lemma join_ok:
  assumes "holds C s (Suc e) tn (slots tr + X)" "holds C s (Suc e) tr (slots tn + X)" "e < 256"
    and "tmap tn = [key \<mapsto> value]" "\<forall>k\<in>dom (tmap tr). agree e k key \<and> kbit k e \<noteq> kbit key e"
    and "length (arena s) < 2 ^ 32"
  shows "\<exists>s' tb. compute_branch_hash C s (idx_of (if kbit key e then tr else tn))
      (idx_of (if kbit key e then tn else tr)) e = Some (node_hash C e (tmap tb))
    \<and> alloc s (Branch e (idx_of (if kbit key e then tr else tn))
      (idx_of (if kbit key e then tn else tr)) (node_hash C e (tmap tb))) = Some (s', idx_of tb)
    \<and> holds C s' e tb X \<and> keeps 1 s s' X \<and> \<not> is_ext tb \<and> tmap tb = (tmap tr)(key \<mapsto> value)"
proof -
  let ?l = "if kbit key e then tr else tn" and ?r = "if kbit key e then tn else tr"
  have hl: "holds C s (Suc e) ?l (slots ?r + X)" and hr: "holds C s (Suc e) ?r (slots ?l + X)"
    using assms(1,2) by auto
  have sep: "\<forall>k\<in>dom (tmap ?l). \<forall>k'\<in>dom (tmap ?r). agree e k k' \<and> \<not> kbit k e \<and> kbit k' e"
    using assms(4,5) by (auto intro: agree_sym)
  then have bits: "\<forall>k\<in>dom (tmap ?l). \<not> kbit k e" "\<forall>k\<in>dom (tmap ?r). kbit k e"
    using tmap_nonempty[of ?l] tmap_nonempty[of ?r] by blast+
  have m: "tmap ?l ++ tmap ?r = (tmap tr)(key \<mapsto> value)"
  proof -
    have "tmap tr key = None" using assms(5) by (metis domIff)
    then show ?thesis using assms(4)
      by (auto simp: map_add_def fun_eq_iff split: option.splits)
  qed
  obtain s' b where
    "alloc s (Branch e (idx_of ?l) (idx_of ?r) (node_hash C e (tmap ?l ++ tmap ?r))) = Some (s', b)"
    "holds C s' e (SB b e ?l ?r) X" "keeps 1 s s' X"
    using alloc_branch[OF hl hr assms(3) sep assms(6)] by blast
  then show ?thesis using compute_branch_hash_ok[OF hl hr assms(3) bits] m assms(3)
    by (intro exI[of _ s'] exI[of _ "SB b e ?l ?r"]) simp
qed

lemma split_extension_ok:
  assumes h: "holds C s d (SE i d cd p t) X" and e: "d \<le> e" "e < cd"
    and key: "length key = 32" "agree e key p" "kbit key e \<noteq> kbit p e"
    and len: "length (arena s) + 4 \<le> 2 ^ 32"
  shows "\<exists>s' t'. split_extension C s i d cd p (idx_of t) e key value = Some (s', idx_of t')
    \<and> holds C s' d t' X \<and> keeps 4 s s' X \<and> tmap t' = (tmap t)(key \<mapsto> value)"
proof -
  from h have t: "holds C s cd t (add_mset i X)" and cd: "cd \<le> 256" "\<not> is_ext t" "length p = 32"
    and p: "\<forall>k\<in>dom (tmap t). agree cd k p" by (simp_all add: holds_SE)
  have e256: "e < 256" using e cd by simp
  let ?X = "add_mset i X"
  obtain s1 j where a1: "alloc s (Leaf key value) = Some (s1, j)"
    and h1: "holds C s1 256 (SL j key value) (slots t + ?X)" and k1: "keeps 1 s s1 (slots t + ?X)"
    using alloc_leaf[OF holds_owned[OF t] key(1)] len by fastforce
  have t1: "holds C s1 cd t (add_mset j ?X)"
    by (rule holds_frame[OF t k1]) (use holds_owned[OF h1] in \<open>simp_all add: ac_simps add_mset_commute\<close>)
  obtain s2 tr where a2: "(if e + 1 < cd then do {
          child_hash \<leftarrow> subtree_hash C s1 (idx_of t) cd;
          h \<leftarrow> fold_hash C child_hash p (e + 1) cd;
          alloc s1 (Extension (as_u16 (e + 1)) cd p (idx_of t) h)
        } else Some (s1, idx_of t)) = Some (s2, idx_of tr)"
    and h2: "holds C s2 (Suc e) tr (add_mset j ?X)" and k2: "keeps 1 s1 s2 (add_mset j ?X)"
    and m2: "tmap tr = tmap t"
    using remaining_ok[OF t1 cd(2) e(2) cd(3) p] keeps_length[OF k1] len by force
  have l2: "holds C s2 256 (SL j key value) (slots tr + ?X)"
    by (rule holds_frame[OF h1 k2]) (use holds_owned[OF h2] in \<open>simp_all add: ac_simps add_mset_commute\<close>)
  obtain s3 tn where a3: "wrap_in_extension C s2 j (Suc e) = Some (s3, idx_of tn)"
    and h3: "holds C s3 (Suc e) tn (slots tr + ?X)" and k3: "keeps 1 s2 s3 (slots tr + ?X)"
    and m3: "tmap tn = [key \<mapsto> value]"
    using wrap_ok[OF l2, of "Suc e"] e256 keeps_length[OF k1] keeps_length[OF k2] len by force
  have r3: "holds C s3 (Suc e) tr (slots tn + ?X)"
    by (rule holds_frame[OF h2 k3]) (use holds_owned[OF h3] in \<open>simp_all add: ac_simps\<close>)
  have sep: "\<forall>k\<in>dom (tmap tr). agree e k key \<and> kbit k e \<noteq> kbit key e"
  proof
    fix k assume "k \<in> dom (tmap tr)"
    then have "agree (Suc e) k p" using p m2 agree_mono[of cd k p "Suc e"] e(2) by auto
    then show "agree e k key \<and> kbit k e \<noteq> kbit key e"
      using key(2,3) by (auto simp: agree_Suc intro: agree_trans agree_sym)
  qed
  obtain s4 tb where a4: "compute_branch_hash C s3 (idx_of (if kbit key e then tr else tn))
      (idx_of (if kbit key e then tn else tr)) e = Some (node_hash C e (tmap tb))"
    and b4: "alloc s3 (Branch e (idx_of (if kbit key e then tr else tn))
      (idx_of (if kbit key e then tn else tr)) (node_hash C e (tmap tb))) = Some (s4, idx_of tb)"
    and h4: "holds C s4 e tb ?X" "keeps 1 s3 s4 ?X" "\<not> is_ext tb" "tmap tb = (tmap tr)(key \<mapsto> value)"
    using join_ok[OF h3 r3 e256 m3 sep] keeps_length[OF k1] keeps_length[OF k2] keeps_length[OF k3] len
    by force
  have "\<forall>k\<in>dom (tmap tb). agree e k key" using h4(4) sep by (auto simp: agree_def)
  from split_top_ok[OF h4(1,3) e(1) key(1) this] obtain s5 t' where
    a5: "(if e > d then do {
      h \<leftarrow> fold_hash C (node_hash C e (tmap tb)) key d e;
      Some (set_node s4 i (Extension d (as_u16 e) key (idx_of tb) h), i)
    } else Some (free_node s4 i, idx_of tb)) = Some (s5, idx_of t')"
    and h5: "holds C s5 d t' X" "keeps 0 s4 s5 X" "tmap t' = tmap tb" by blast
  have "split_extension C s i d cd p (idx_of t) e key value = Some (s5, idx_of t')"
    using a1 a2 a3 a4 b4 a5 e256 get_bit_Some[OF key(1) e256]
    by (cases "kbit key e") (simp_all add: split_extension_def)
  moreover have "keeps 4 s s5 X"
  proof -
    have "keeps 2 s s2 X" by (rule keeps_then[OF keeps_mono[OF k1, of X 1] k2]) auto
    then have "keeps 3 s s3 X" by (rule keeps_then[OF _ k3]) auto
    then have "keeps 4 s s4 X" by (rule keeps_then[OF _ h4(2)]) auto
    then show ?thesis by (rule keeps_then[OF _ h5(2)]) auto
  qed
  ultimately show ?thesis using h5 h4(4) m2 by auto
qed

lemma insert_at_ok:
  assumes "holds C s d t X" "length key = 32" "\<forall>k\<in>dom (tmap t). agree d k key"
    and "length (arena s) + 4 \<le> 2 ^ 32"
  shows "\<exists>s' t'. insert_at C key value s (idx_of t) d = Some (s', idx_of t') \<and> holds C s' d t' X
    \<and> keeps 4 s s' X \<and> tmap t' = (tmap t)(key \<mapsto> value) \<and> (is_ext t' \<longrightarrow> is_ext t)"
  using assms
proof (induction t arbitrary: s d X)
  case (SL i k v)
  then have d: "d = 256" "length k = 32" "arena s ! i = Leaf k v" and o: "owned s (add_mset i X)"
    by (simp_all add: holds_SL)
  have k: "k = key" using SL.prems d by (intro agree_256_eq) auto
  let ?s = "set_node s i (Leaf key value)"
  have "insert_at C key value s i d = Some (?s, i)"
    using holds_idx[OF SL.prems(1)] d k by (simp add: insert_at.simps[of C key "value" s i])
  then show ?case using set_node_ok[OF o, of "Leaf key value"] d k keeps_mono[of 0 s ?s X X 4]
    by (intro exI[of _ ?s] exI[of _ "SL i key value"]) (simp add: holds_SL fun_eq_iff)
next
  case (SB i bd l r)
  from SB.prems(1) have l: "holds C s (Suc d) l (add_mset i (slots r + X))"
    and r: "holds C s (Suc d) r (add_mset i (slots l + X))" and d: "d < 256" "bd = d"
    and sep: "\<forall>k\<in>dom (tmap l). \<forall>k'\<in>dom (tmap r). agree d k k' \<and> \<not> kbit k d \<and> kbit k' d"
    by (simp_all add: holds_SB)
  have bits: "\<forall>k\<in>dom (tmap l). \<not> kbit k d" "\<forall>k\<in>dom (tmap r). kbit k d"
    using sep tmap_nonempty[of l] tmap_nonempty[of r] by blast+
  have ag: "\<forall>k\<in>dom (tmap l). agree d k key" "\<forall>k\<in>dom (tmap r). agree d k key"
    using SB.prems(3) by auto
  note unf = insert_at.simps[of C key "value" s i]
  show ?case
  proof (cases "kbit key d")
    case True
    have "\<forall>k\<in>dom (tmap r). agree (Suc d) k key" using ag bits True by (simp add: agree_Suc)
    from SB.IH(2)[OF r SB.prems(2) this SB.prems(4)] obtain s1 r' where
      a1: "insert_at C key value s (idx_of r) (Suc d) = Some (s1, idx_of r')"
      and h1: "holds C s1 (Suc d) r' (add_mset i (slots l + X))" "keeps 4 s s1 (add_mset i (slots l + X))"
        "tmap r' = (tmap r)(key \<mapsto> value)" by blast
    have l1: "holds C s1 (Suc d) l (add_mset i (slots r' + X))"
      by (rule holds_frame[OF l h1(2)]) (use holds_owned[OF h1(1)] in \<open>simp_all add: ac_simps\<close>)
    have "\<forall>k\<in>dom (tmap l). \<forall>k'\<in>dom (tmap r'). agree d k k' \<and> \<not> kbit k d \<and> kbit k' d"
      using sep h1(3) True ag bits by auto
    from set_branch[OF l1 h1(1) d(1) this] obtain s2 where
      a2: "(do { h \<leftarrow> compute_branch_hash C s1 (idx_of l) (idx_of r') d;
        Some (set_node s1 i (Branch d (idx_of l) (idx_of r') h), i) }) = Some (s2, i)"
      and h2: "holds C s2 d (SB i d l r') X" "keeps 0 s1 s2 X" by blast
    have "insert_at C key value s i d = Some (s2, i)"
      using holds_idx[OF SB.prems(1)] SB.prems(1) d True a1 a2 get_bit_Some[OF SB.prems(2) d(1)]
      by (simp add: unf holds_SB)
    moreover have "keeps 4 s s2 X" by (rule keeps_then[OF _ h2(2)]) (use keeps_mono[OF h1(2), of X 4] in auto)
    ultimately show ?thesis using h2 h1(3) by (intro exI[of _ s2] exI[of _ "SB i d l r'"]) simp
  next
    case False
    have "\<forall>k\<in>dom (tmap l). agree (Suc d) k key" using ag bits False by (simp add: agree_Suc)
    from SB.IH(1)[OF l SB.prems(2) this SB.prems(4)] obtain s1 l' where
      a1: "insert_at C key value s (idx_of l) (Suc d) = Some (s1, idx_of l')"
      and h1: "holds C s1 (Suc d) l' (add_mset i (slots r + X))" "keeps 4 s s1 (add_mset i (slots r + X))"
        "tmap l' = (tmap l)(key \<mapsto> value)" by blast
    have r1: "holds C s1 (Suc d) r (add_mset i (slots l' + X))"
      by (rule holds_frame[OF r h1(2)]) (use holds_owned[OF h1(1)] in \<open>simp_all add: ac_simps\<close>)
    have "\<forall>k\<in>dom (tmap l'). \<forall>k'\<in>dom (tmap r). agree d k k' \<and> \<not> kbit k d \<and> kbit k' d"
      using sep h1(3) False ag bits by (auto intro: agree_sym)
    from set_branch[OF h1(1) r1 d(1) this] obtain s2 where
      a2: "(do { h \<leftarrow> compute_branch_hash C s1 (idx_of l') (idx_of r) d;
        Some (set_node s1 i (Branch d (idx_of l') (idx_of r) h), i) }) = Some (s2, i)"
      and h2: "holds C s2 d (SB i d l' r) X" "keeps 0 s1 s2 X" by blast
    have "insert_at C key value s i d = Some (s2, i)"
      using holds_idx[OF SB.prems(1)] SB.prems(1) d False a1 a2 get_bit_Some[OF SB.prems(2) d(1)]
      by (simp add: unf holds_SB)
    moreover have "keeps 4 s s2 X" by (rule keeps_then[OF _ h2(2)]) (use keeps_mono[OF h1(2), of X 4] in auto)
    moreover have "tmap l' ++ tmap r = (tmap l ++ tmap r)(key \<mapsto> value)"
    proof -
      have "tmap r key = None" using bits False by (metis domIff)
      then show ?thesis using h1(3) by (auto simp: map_add_def fun_eq_iff split: option.splits)
    qed
    ultimately show ?thesis using h2 by (intro exI[of _ s2] exI[of _ "SB i d l' r"]) simp
  qed
next
  case (SE i bd cd p t)
  from SE.prems(1) have t: "holds C s cd t (add_mset i X)" and d: "bd = d" "d < cd" "cd \<le> 256"
    "\<not> is_ext t" "length p = 32" and p: "\<forall>k\<in>dom (tmap t). agree cd k p" by (simp_all add: holds_SE)
  obtain k where k: "k \<in> dom (tmap t)" using tmap_nonempty by blast
  have "agree d key k" "agree cd k p" using SE.prems(3) p k by (auto intro: agree_sym)
  then have kp: "agree d key p" using d(2) by (simp add: agree_def)
  note unf = insert_at.simps[of C key "value" s i]
  from diverge_in_spec[OF SE.prems(2) d(5,3), of d] d(2) obtain e where e:
    "diverge_in key p [d..<cd] cd = Some e" "d \<le> e" "e \<le> cd"
    "\<forall>i. d \<le> i \<longrightarrow> i < e \<longrightarrow> kbit key i = kbit p i" "e < cd \<longrightarrow> kbit key e \<noteq> kbit p e" by auto
  have ek: "agree e key p" using e(4) kp unfolding agree_def by (meson not_le)
  show ?case
  proof (cases "e = cd")
    case True
    have "\<forall>k\<in>dom (tmap t). agree cd k key" using p ek True by (auto intro: agree_trans agree_sym)
    from SE.IH[OF t SE.prems(2) this SE.prems(4)] obtain s1 t' where
      a1: "insert_at C key value s (idx_of t) cd = Some (s1, idx_of t')"
      and h1: "holds C s1 cd t' (add_mset i X)" "keeps 4 s s1 (add_mset i X)"
        "tmap t' = (tmap t)(key \<mapsto> value)" "is_ext t' \<longrightarrow> is_ext t" by blast
    have "\<forall>k\<in>dom (tmap t'). agree cd k p" using h1(3) p ek True by auto
    from set_extension[OF h1(1) _ d(2) d(5) this, of cd] h1(4) d(4) obtain s2 where
      a2: "(do { child_hash \<leftarrow> subtree_hash C s1 (idx_of t') cd; h \<leftarrow> fold_hash C child_hash p d cd;
        Some (set_node s1 i (Extension d cd p (idx_of t') h), i) }) = Some (s2, i)"
      and h2: "holds C s2 d (SE i d cd p t') X" "keeps 0 s1 s2 X" by blast
    have "insert_at C key value s i d = Some (s2, i)"
      using holds_idx[OF SE.prems(1)] SE.prems(1) d True a1 a2 e(1) by (simp add: unf holds_SE)
    moreover have "keeps 4 s s2 X" by (rule keeps_then[OF _ h2(2)]) (use keeps_mono[OF h1(2), of X 4] in auto)
    ultimately show ?thesis using h2 h1(3) by (intro exI[of _ s2] exI[of _ "SE i d cd p t'"]) simp
  next
    case False
    then have lt: "e < cd" using e(3) by simp
    have "insert_at C key value s i d = split_extension C s i d cd p (idx_of t) e key value"
      using holds_idx[OF SE.prems(1)] SE.prems(1) d False e(1) by (simp add: unf holds_SE)
    moreover have "holds C s d (SE i d cd p t) X" using SE.prems(1) d by simp
    ultimately obtain s' t' where "insert_at C key value s i d = Some (s', idx_of t')"
      "holds C s' d t' X" "keeps 4 s s' X" "tmap t' = (tmap t)(key \<mapsto> value)"
      using split_extension_ok[of C s d i cd p t X e key "value"] e(2,5) lt SE.prems(2,4) ek by metis
    then show ?thesis by (intro exI[of _ s'] exI[of _ t']) simp
  qed
qed


section \<open>Removal\<close>

text \<open>The subtree an index stands for, with the map it holds; the empty subtree is the null index.\<close>

definition subtree :: "crypto \<Rightarrow> SparseMerkleTree \<Rightarrow> nat \<Rightarrow> NodeIdx multiset \<Rightarrow> NodeIdx
    \<Rightarrow> (bytes \<rightharpoonup> bytes) \<Rightarrow> bool" where
  "subtree C s d X i m \<longleftrightarrow> (if i = NULL then m = Map.empty \<and> owned s X
     else \<exists>t. i = idx_of t \<and> holds C s d t X \<and> tmap t = m)"

lemma subtree_null: "subtree C s d X NULL m \<longleftrightarrow> m = Map.empty \<and> owned s X"
  by (simp add: subtree_def)

lemma subtree_tree: "holds C s d t X \<Longrightarrow> subtree C s d X (idx_of t) (tmap t)"
  using holds_idx[of C s d t X] by (auto simp: subtree_def)

lemma collapse_ok:
  assumes "holds C s (Suc d) t (add_mset i X)" "d < 256"
  shows "\<exists>s' t'. prepend_extension C (free_node s i) (idx_of t) d = Some (s', idx_of t')
    \<and> holds C s' d t' X \<and> keeps 0 s s' X \<and> tmap t' = tmap t"
proof -
  let ?s = "free_node s i"
  have o: "owned s (add_mset i (slots t + X))" using holds_owned[OF assms(1)] by simp
  then have f: "owned ?s (slots t + X)" "keeps 0 s ?s (slots t + X)" using free_node_ok by blast+
  have ne: "free_slots ?s \<noteq> []" using owned_not_null[OF o, of i] by (simp add: free_node_def)
  have h: "holds C ?s (Suc d) t X" using holds_frame[OF assms(1) f(2) _ f(1)] by simp
  have k0: "keeps 0 s ?s X" by (rule keeps_mono[OF f(2)]) simp_all
  obtain k where k: "k \<in> dom (tmap t)" "any_key ?s (idx_of t) = Some k"
    using any_key_ok[OF h] by blast
  have sh: "shape (Suc d) t" by (rule holds_shape[OF h])
  have kl: "length k = 32" by (rule shape_key_length[OF sh k(1)])
  have ag: "\<forall>k'\<in>dom (tmap t). agree (Suc d) k' k" using shape_agree[OF sh _ k(1)] by blast
  note rd = k(2) logical_depth_ok[OF h] holds_idx(2)[OF h]
  have "\<exists>s' t'. prepend_extension C ?s (idx_of t) d = Some (s', idx_of t') \<and> holds C s' d t' X
    \<and> keeps 0 ?s s' X \<and> tmap t' = tmap t"
  proof (cases "is_ext t")
    case True
    then obtain j cd p u where t: "t = SE j (Suc d) cd p u" using sh by (cases t) auto
    from h have u: "holds C ?s cd u (add_mset j X)" "\<not> is_ext u" "d < cd" "length p = 32"
      "\<forall>k\<in>dom (tmap u). agree cd k p" by (simp_all add: t holds_SE)
    from set_extension[OF this, of cd] obtain s' where
      "(do { child_hash \<leftarrow> subtree_hash C ?s (idx_of u) cd; h \<leftarrow> fold_hash C child_hash p d cd;
        Some (set_node ?s j (Extension d cd p (idx_of u) h), j) }) = Some (s', j)"
      "holds C s' d (SE j d cd p u) X" "keeps 0 ?s s' X" by blast
    then show ?thesis using rd h assms(2)
      by (intro exI[of _ s'] exI[of _ "SE j d cd p u"]) (simp add: prepend_extension_def t holds_SE)
  next
    case False
    from alloc_extension_reuse[OF h False _ kl ag, of d] ne obtain s' j where
      "alloc ?s (Extension d (Suc d) k (idx_of t) (node_hash C d (tmap t))) = Some (s', j)"
      "holds C s' d (SE j d (Suc d) k t) X" "keeps 0 ?s s' X" by auto
    then show ?thesis using rd False assms(2) h subtree_hash_ok[OF h] fold_hash_ok[OF kl _ _ ag, of d]
      by (intro exI[of _ s'] exI[of _ "SE j d (Suc d) k t"])
        (cases t; simp add: prepend_extension_def holds_SL holds_SB)
  qed
  then show ?thesis using keeps_then[OF k0, of 0 _ X 0] by fastforce
qed

lemma try_merge_ok:
  assumes "holds C s cd t (add_mset i X)" "d < cd" "length p = 32" "\<forall>k\<in>dom (tmap t). agree cd k p"
  shows "\<exists>s' t'. try_merge_extension C s i d cd p (idx_of t) = Some (s', idx_of t')
    \<and> holds C s' d t' X \<and> keeps 0 s s' X \<and> tmap t' = tmap t"
proof (cases t)
  case (SL j k v)
  with assms(1) have "cd = 256" "arena s ! j = Leaf k v" "length k = 32" by (simp_all add: holds_SL)
  moreover from set_extension[OF assms(1) _ assms(2), of k 256] SL calculation obtain s' where
    "(do { child_hash \<leftarrow> subtree_hash C s (idx_of t) 256; h \<leftarrow> fold_hash C child_hash k d cd;
      Some (set_node s i (Extension d cd k (idx_of t) h), i) }) = Some (s', i)"
    "holds C s' d (SE i d cd k t) X" "keeps 0 s s' X" by (auto simp: agree_def)
  ultimately show ?thesis using SL holds_idx[OF assms(1)] assms(2)
    by (intro exI[of _ s'] exI[of _ "SE i d cd k t"]) (simp add: try_merge_extension_def)
next
  case (SB j bd l r)
  from set_extension[OF assms(1) _ assms(2-4), of cd] SB obtain s' where
    "(do { child_hash \<leftarrow> subtree_hash C s (idx_of t) cd; h \<leftarrow> fold_hash C child_hash p d cd;
      Some (set_node s i (Extension d cd p (idx_of t) h), i) }) = Some (s', i)"
    "holds C s' d (SE i d cd p t) X" "keeps 0 s s' X" by auto
  moreover have "arena s ! j = Branch cd (idx_of l) (idx_of r) (node_hash C cd (tmap l ++ tmap r))"
    "cd \<le> 256" using assms(1) SB by (simp_all add: holds_SB)
  ultimately show ?thesis using SB holds_idx[OF assms(1)] assms(2)
    by (intro exI[of _ s'] exI[of _ "SE i d cd p t"]) (simp add: try_merge_extension_def)
next
  case (SE j bd cd2 p2 u)
  from assms(1) have u: "holds C s cd2 u (add_mset j (add_mset i X))" "\<not> is_ext u" "cd < cd2"
    "length p2 = 32" "\<forall>k\<in>dom (tmap u). agree cd2 k p2" "cd2 \<le> 256"
    and n: "arena s ! j = Extension cd cd2 p2 (idx_of u) (node_hash C cd (tmap u))"
    by (simp_all add: SE holds_SE)
  let ?s = "free_node s j"
  have "owned s (add_mset j (slots u + add_mset i X))" using holds_owned[OF u(1)] by simp
  then have f: "owned ?s (slots u + add_mset i X)" "keeps 0 s ?s (slots u + add_mset i X)"
    using free_node_ok by blast+
  have h: "holds C ?s cd2 u (add_mset i X)" using holds_frame[OF u(1) f(2) _ f(1)] by simp
  have lt: "d < cd2" using assms(2) u(3) by simp
  from set_extension[OF h u(2) lt u(4,5), of cd2] obtain s' where s':
    "(do { child_hash \<leftarrow> subtree_hash C ?s (idx_of u) cd2; h \<leftarrow> fold_hash C child_hash p2 d cd2;
      Some (set_node ?s i (Extension d cd2 p2 (idx_of u) h), i) }) = Some (s', i)"
    "holds C s' d (SE i d cd2 p2 u) X" "keeps 0 ?s s' X" by blast
  have same: "subtree_hash C ?s (idx_of u) cd2 = subtree_hash C s (idx_of u) cd2"
    using subtree_hash_ok[OF h] subtree_hash_ok[OF u(1)] by simp
  have "keeps 0 s s' X" by (rule keeps_then[OF _ s'(3)]) (use keeps_mono[OF f(2), of X 0] in auto)
  then show ?thesis using SE holds_idx[OF assms(1)] s' n same lt u(6)
    by (intro exI[of _ s'] exI[of _ "SE i d cd2 p2 u"]) (simp add: try_merge_extension_def)
qed

lemma map_add_remove_right:
  "k \<notin> dom l \<Longrightarrow> (l ++ r)(k := None) = l ++ r(k := None)"
  by (auto simp: map_add_def fun_eq_iff domIff)

lemma map_add_remove_left:
  "k \<notin> dom r \<Longrightarrow> (l ++ r)(k := None) = l(k := None) ++ r"
  by (auto simp: map_add_def fun_eq_iff domIff split: option.splits)

text \<open>The two sides of a branch after a removal in one of them.\<close>

lemma rebuild_left:
  assumes sub: "subtree C s1 (Suc d) (add_mset i (slots r + X)) j m"
    and k: "keeps 0 s s1 (add_mset i (slots r + X))" and r: "holds C s (Suc d) r Y" and d: "d < 256"
    and sep: "\<forall>k\<in>dom m. \<forall>k'\<in>dom (tmap r). agree d k k' \<and> \<not> kbit k d \<and> kbit k' d"
  shows "\<exists>s' i'. (if j = NULL then prepend_extension C (free_node s1 i) (idx_of r) d
      else do { h \<leftarrow> compute_branch_hash C s1 j (idx_of r) d;
        Some (set_node s1 i (Branch d j (idx_of r) h), i) }) = Some (s', i')
    \<and> subtree C s' d X i' (m ++ tmap r) \<and> keeps 0 s s' X"
proof -
  have k': "keeps 0 s s1 X" by (rule keeps_mono[OF k]) (auto simp: ac_simps)
  have r1: "holds C s1 (Suc d) r Z" if "owned s1 (slots r + Z)" for Z
    by (rule holds_frame[OF r k _ that]) (simp add: ac_simps)
  show ?thesis
  proof (cases "j = NULL")
    case True
    then have m: "m = Map.empty" "owned s1 (add_mset i (slots r + X))" using sub by (simp_all add: subtree_null)
    have "holds C s1 (Suc d) r (add_mset i X)" by (rule r1) (use m(2) in simp)
    from collapse_ok[OF this d] obtain s' t' where t':
      "prepend_extension C (free_node s1 i) (idx_of r) d = Some (s', idx_of t')"
      "holds C s' d t' X" "keeps 0 s1 s' X" "tmap t' = tmap r" by blast
    then show ?thesis using True m(1) subtree_tree[OF t'(2)] keeps_then[OF k' t'(3), of 0] by simp
  next
    case False
    then obtain l where l: "j = idx_of l" "holds C s1 (Suc d) l (add_mset i (slots r + X))" "tmap l = m"
      using sub by (auto simp: subtree_def)
    have "holds C s1 (Suc d) r (add_mset i (slots l + X))"
      by (rule r1) (use holds_owned[OF l(2)] in \<open>simp add: ac_simps\<close>)
    from set_branch[OF l(2) this d] l(3) sep obtain s' where s':
      "(do { h \<leftarrow> compute_branch_hash C s1 j (idx_of r) d;
        Some (set_node s1 i (Branch d j (idx_of r) h), i) }) = Some (s', i)"
      "holds C s' d (SB i d l r) X" "keeps 0 s1 s' X" using l(1) by auto
    then show ?thesis using False l subtree_tree[OF s'(2)] keeps_then[OF k' s'(3), of 0] by simp
  qed
qed

lemma rebuild_right:
  assumes sub: "subtree C s1 (Suc d) (add_mset i (slots l + X)) j m"
    and k: "keeps 0 s s1 (add_mset i (slots l + X))" and l: "holds C s (Suc d) l Y" and d: "d < 256"
    and sep: "\<forall>k\<in>dom (tmap l). \<forall>k'\<in>dom m. agree d k k' \<and> \<not> kbit k d \<and> kbit k' d"
  shows "\<exists>s' i'. (if j = NULL then prepend_extension C (free_node s1 i) (idx_of l) d
      else do { h \<leftarrow> compute_branch_hash C s1 (idx_of l) j d;
        Some (set_node s1 i (Branch d (idx_of l) j h), i) }) = Some (s', i')
    \<and> subtree C s' d X i' (tmap l ++ m) \<and> keeps 0 s s' X"
proof -
  have k': "keeps 0 s s1 X" by (rule keeps_mono[OF k]) (auto simp: ac_simps)
  have l1: "holds C s1 (Suc d) l Z" if "owned s1 (slots l + Z)" for Z
    by (rule holds_frame[OF l k _ that]) (simp add: ac_simps)
  show ?thesis
  proof (cases "j = NULL")
    case True
    then have m: "m = Map.empty" "owned s1 (add_mset i (slots l + X))" using sub by (simp_all add: subtree_null)
    have "holds C s1 (Suc d) l (add_mset i X)" by (rule l1) (use m(2) in simp)
    from collapse_ok[OF this d] obtain s' t' where t':
      "prepend_extension C (free_node s1 i) (idx_of l) d = Some (s', idx_of t')"
      "holds C s' d t' X" "keeps 0 s1 s' X" "tmap t' = tmap l" by blast
    then show ?thesis using True m(1) subtree_tree[OF t'(2)] keeps_then[OF k' t'(3), of 0] by simp
  next
    case False
    then obtain r where r: "j = idx_of r" "holds C s1 (Suc d) r (add_mset i (slots l + X))" "tmap r = m"
      using sub by (auto simp: subtree_def)
    have "holds C s1 (Suc d) l (add_mset i (slots r + X))"
      by (rule l1) (use holds_owned[OF r(2)] in \<open>simp add: ac_simps\<close>)
    from set_branch[OF this r(2) d] r(3) sep obtain s' where s':
      "(do { h \<leftarrow> compute_branch_hash C s1 (idx_of l) j d;
        Some (set_node s1 i (Branch d (idx_of l) j h), i) }) = Some (s', i)"
      "holds C s' d (SB i d l r) X" "keeps 0 s1 s' X" using r(1) by auto
    then show ?thesis using False r subtree_tree[OF s'(2)] keeps_then[OF k' s'(3), of 0] by simp
  qed
qed

lemma remove_at_ok:
  assumes "holds C s d t X" "length key = 32" "key \<in> dom (tmap t)"
  shows "\<exists>s' i'. remove_at C key s (idx_of t) d = Some (s', i')
    \<and> subtree C s' d X i' ((tmap t)(key := None)) \<and> keeps 0 s s' X"
  using assms
proof (induction t arbitrary: s d X)
  case (SL i k v)
  then have o: "owned s (add_mset i X)" and n: "arena s ! i = Leaf k v"
    by (simp_all add: holds_SL)
  have "k = key" using SL.prems(3) by (auto split: if_splits)
  then have "remove_at C key s i d = Some (free_node s i, NULL)"
    using holds_idx[OF SL.prems(1)] n by (simp add: remove_at.simps[of C key s i])
  then show ?case using free_node_ok[OF o] \<open>k = key\<close> by (auto simp: subtree_null)
next
  case (SB i bd l r)
  from SB.prems(1) have l: "holds C s (Suc d) l (add_mset i (slots r + X))"
    and r: "holds C s (Suc d) r (add_mset i (slots l + X))" and d: "d < 256" "bd = d"
    and sep: "\<forall>k\<in>dom (tmap l). \<forall>k'\<in>dom (tmap r). agree d k k' \<and> \<not> kbit k d \<and> kbit k' d"
    and n: "arena s ! i = Branch d (idx_of l) (idx_of r) (node_hash C d (tmap l ++ tmap r))"
    by (simp_all add: holds_SB)
  have bits: "\<forall>k\<in>dom (tmap l). \<not> kbit k d" "\<forall>k\<in>dom (tmap r). kbit k d"
    using sep tmap_nonempty[of l] tmap_nonempty[of r] by blast+
  note unf = remove_at.simps[of C key s i d] holds_idx[OF SB.prems(1), simplified] n
    get_bit_Some[OF SB.prems(2) d(1)] holds_idx(1)[OF l] holds_idx(1)[OF r]
  show ?case
  proof (cases "kbit key d")
    case True
    then have key: "key \<in> dom (tmap r)" "key \<notin> dom (tmap l)" using SB.prems(3) bits by auto
    from SB.IH(2)[OF r SB.prems(2) key(1)] obtain s1 j where
      a1: "remove_at C key s (idx_of r) (Suc d) = Some (s1, j)"
      and h1: "subtree C s1 (Suc d) (add_mset i (slots l + X)) j ((tmap r)(key := None))"
      and k1: "keeps 0 s s1 (add_mset i (slots l + X))" by blast
    have "\<forall>k\<in>dom (tmap l). \<forall>k'\<in>dom ((tmap r)(key := None)). agree d k k' \<and> \<not> kbit k d \<and> kbit k' d"
      using sep by auto
    from rebuild_right[OF h1 k1 l d(1) this] True show ?thesis
      by (cases "j = NULL") (simp_all add: unf a1 map_add_remove_right[OF key(2)])
  next
    case False
    then have key: "key \<in> dom (tmap l)" "key \<notin> dom (tmap r)" using SB.prems(3) bits by auto
    from SB.IH(1)[OF l SB.prems(2) key(1)] obtain s1 j where
      a1: "remove_at C key s (idx_of l) (Suc d) = Some (s1, j)"
      and h1: "subtree C s1 (Suc d) (add_mset i (slots r + X)) j ((tmap l)(key := None))"
      and k1: "keeps 0 s s1 (add_mset i (slots r + X))" by blast
    have "\<forall>k\<in>dom ((tmap l)(key := None)). \<forall>k'\<in>dom (tmap r). agree d k k' \<and> \<not> kbit k d \<and> kbit k' d"
      using sep by auto
    from rebuild_left[OF h1 k1 r d(1) this] False show ?thesis
      by (cases "j = NULL") (simp_all add: unf a1 map_add_remove_left[OF key(2)])
  qed
next
  case (SE i bd cd p t)
  from SE.prems(1) have t: "holds C s cd t (add_mset i X)" and d: "bd = d" "d < cd" "cd \<le> 256"
    "\<not> is_ext t" "length p = 32" and p: "\<forall>k\<in>dom (tmap t). agree cd k p"
    and n: "arena s ! i = Extension d cd p (idx_of t) (node_hash C d (tmap t))" by (simp_all add: holds_SE)
  have "key \<in> dom (tmap t)" using SE.prems(3) by simp
  from SE.IH[OF t SE.prems(2) this] obtain s1 j where
    a1: "remove_at C key s (idx_of t) cd = Some (s1, j)"
    and h1: "subtree C s1 cd (add_mset i X) j ((tmap t)(key := None))"
    and k1: "keeps 0 s s1 (add_mset i X)" by blast
  have k1': "keeps 0 s s1 X" by (rule keeps_mono[OF k1]) simp_all
  note unf = remove_at.simps[of C key s i d] holds_idx[OF SE.prems(1), simplified] n a1
  show ?case
  proof (cases "j = NULL")
    case True
    then have "owned s1 (add_mset i X)" "(tmap t)(key := None) = Map.empty"
      using h1 by (simp_all add: subtree_null)
    moreover have "remove_at C key s i d = Some (free_node s1 i, NULL)" using True by (simp add: unf)
    ultimately show ?thesis using free_node_ok[of s1 i X] keeps_then[OF k1', of 0 _ X 0]
      by (simp add: subtree_null)
  next
    case False
    then obtain u where u: "j = idx_of u" "holds C s1 cd u (add_mset i X)" "tmap u = (tmap t)(key := None)"
      using h1 by (auto simp: subtree_def)
    have "\<forall>k\<in>dom (tmap u). agree cd k p" using u(3) p by auto
    from try_merge_ok[OF u(2) d(2) d(5) this] obtain s' t' where
      "try_merge_extension C s1 i d cd p j = Some (s', idx_of t')" and t': "holds C s' d t' X"
      "keeps 0 s1 s' X" "tmap t' = tmap u" using u(1) by auto
    then have "remove_at C key s i d = Some (s', idx_of t')" using False by (simp add: unf)
    moreover have "subtree C s' d X (idx_of t') ((tmap t)(key := None))"
      using subtree_tree[OF t'(1)] t'(3) u(3) by simp
    moreover have "keeps 0 s s' X" by (rule keeps_then[OF k1' t'(2)]) simp_all
    ultimately show ?thesis unfolding tmap.simps idx_of.simps by blast
  qed
qed

end
