(* ===== verification/Smt_Root.thy ===== *)
theory Smt_Root
  imports Smt_Refine
begin

text \<open>
  The contract of the sparse Merkle tree: it is a finite map with a root that depends on
  the map alone. The contract is a locale, whose clients are sequences of insertions and
  removals; the arena of \<open>chain/smt.rs\<close> is its instance. The root is then compared with
  the full tree over the leaves in key order, and shown to bind the map.
\<close>


section \<open>Authenticated maps\<close>

datatype ('k, 'v) map_op = Put 'k 'v | Del 'k

fun op_key :: "('k, 'v) map_op \<Rightarrow> 'k" where
  "op_key (Put k v) = k"
| "op_key (Del k) = k"

fun op_map :: "('k, 'v) map_op \<Rightarrow> ('k \<rightharpoonup> 'v) \<Rightarrow> ('k \<rightharpoonup> 'v)" where
  "op_map (Put k v) m = m(k \<mapsto> v)"
| "op_map (Del k) m = m(k := None)"

fun run_ops :: "('s \<Rightarrow> 'k \<Rightarrow> 'v \<Rightarrow> 's option) \<Rightarrow> ('s \<Rightarrow> 'k \<Rightarrow> 's option) \<Rightarrow> ('k, 'v) map_op list \<Rightarrow> 's \<Rightarrow> 's option" where
  "run_ops ins del [] s = Some s"
| "run_ops ins del (Put k v # ops) s = Option.bind (ins s k v) (run_ops ins del ops)"
| "run_ops ins del (Del k # ops) s = Option.bind (del s k) (run_ops ins del ops)"

text \<open>A store \<open>s\<close> represents a map \<open>m\<close>. An insertion needs room for \<open>step\<close> more slots.\<close>

locale authenticated_map =
  fixes rep :: "'s \<Rightarrow> ('k \<rightharpoonup> 'v) \<Rightarrow> bool"
    and good :: "'k \<Rightarrow> bool"
    and used :: "'s \<Rightarrow> nat"
    and step :: nat
    and capacity :: nat
    and find :: "'s \<Rightarrow> 'k \<Rightarrow> 'v option option"
    and ins :: "'s \<Rightarrow> 'k \<Rightarrow> 'v \<Rightarrow> 's option"
    and del :: "'s \<Rightarrow> 'k \<Rightarrow> 's option"
    and commit :: "'s \<Rightarrow> 'h"
    and commit_map :: "('k \<rightharpoonup> 'v) \<Rightarrow> 'h"
  assumes find_rep: "rep s m \<Longrightarrow> good k \<Longrightarrow> find s k = Some (m k)"
    and ins_rep: "rep s m \<Longrightarrow> good k \<Longrightarrow> used s + step \<le> capacity \<Longrightarrow>
      \<exists>s'. ins s k v = Some s' \<and> rep s' (m(k \<mapsto> v)) \<and> used s' \<le> used s + step"
    and del_rep: "rep s m \<Longrightarrow> good k \<Longrightarrow>
      \<exists>s'. del s k = Some s' \<and> rep s' (m(k := None)) \<and> used s' \<le> used s"
    and commit_rep: "rep s m \<Longrightarrow> commit s = commit_map m"
begin

lemma run_rep:
  "rep s m \<Longrightarrow> (\<forall>oper\<in>set ops. good (op_key oper)) \<Longrightarrow> used s + length ops * step \<le> capacity \<Longrightarrow>
    \<exists>s'. run_ops ins del ops s = Some s' \<and> rep s' (fold op_map ops m)"
proof (induction ops arbitrary: s m)
  case (Cons oper ops)
  show ?case
  proof (cases oper)
    case (Put k v)
    have "used s + step \<le> capacity" using Cons.prems(3) by simp
    moreover define m1 where "m1 = m(k \<mapsto> v)"
    ultimately obtain s1 where "ins s k v = Some s1" "rep s1 m1" "used s1 \<le> used s + step"
      using ins_rep[OF Cons.prems(1), of k v] Cons.prems(2) Put by auto
    then show ?thesis using Cons.IH[of s1 m1] Cons.prems Put by (simp add: m1_def[symmetric])
  next
    case (Del k)
    moreover define m1 where "m1 = m(k := None)"
    ultimately obtain s1 where "del s k = Some s1" "rep s1 m1" "used s1 \<le> used s"
      using del_rep[OF Cons.prems(1), of k] Cons.prems(2) by auto
    then show ?thesis using Cons.IH[of s1 m1] Cons.prems Del by (simp add: m1_def[symmetric])
  qed
qed simp

lemma commit_history_free:
  "rep s m \<Longrightarrow> rep s' m \<Longrightarrow> commit s = commit s'"
  using commit_rep by metis

end


section \<open>The tree is an authenticated map\<close>

definition smt_rep :: "crypto \<Rightarrow> SparseMerkleTree \<Rightarrow> (bytes \<rightharpoonup> bytes) \<Rightarrow> bool" where
  "smt_rep C s m \<longleftrightarrow> subtree C s 0 {#} (smt_root s) m \<and> finite (dom m) \<and> leaf_count s = card (dom m)
     \<and> root_hash s = node_hash C 0 m"

lemma subtree_hash_subtree:
  "subtree C s d X i m \<Longrightarrow> d \<le> 256 \<Longrightarrow> subtree_hash C s i d = Some (node_hash C d m)"
proof (cases "i = NULL")
  case True
  assume "subtree C s d X i m" "d \<le> 256"
  then have "m = Map.empty" using True by (simp add: subtree_null)
  then show ?thesis using True \<open>d \<le> 256\<close>
    by (simp add: subtree_hash_def EmptyHashes_get_def node_hash_empty constants)
next
  case False
  assume "subtree C s d X i m"
  then obtain t where "i = idx_of t" "holds C s d t X" "tmap t = m" using False by (auto simp: subtree_def)
  then show ?thesis using subtree_hash_ok by auto
qed

lemma subtree_update:
  "subtree C s d X i m \<Longrightarrow> subtree C (s\<lparr>smt_root := r, root_hash := h, leaf_count := n\<rparr>) d X i m"
  by (auto simp: subtree_def holds_def owned_def)

lemma smt_rep_new: "smt_rep C (SparseMerkleTree_new C) Map.empty"
  by (simp add: smt_rep_def SparseMerkleTree_new_def subtree_def owned_def node_hash_empty
      empty_root_def constants)

lemma find_leaf_rep:
  assumes "smt_rep C s m" "length key = 32"
  shows "find_leaf s key = Some (m key)"
proof (cases "smt_root s = NULL")
  case True
  then show ?thesis using assms(1)
    by (simp add: smt_rep_def subtree_null find_leaf_def find_from.simps[of s key NULL])
next
  case False
  then obtain t where "smt_root s = idx_of t" "holds C s 0 t {#}" "tmap t = m"
    using assms(1) by (auto simp: smt_rep_def subtree_def)
  then show ?thesis using find_from_ok[of C s 0 t "{#}" key] assms(2) by (simp add: find_leaf_def)
qed

lemma insert_at_root:
  assumes "subtree C s 0 {#} i m" "length key = 32" "length (arena s) + 4 \<le> 2 ^ 32"
  shows "\<exists>s' i'. insert_at C key v s i 0 = Some (s', i') \<and> subtree C s' 0 {#} i' (m(key \<mapsto> v))
    \<and> keeps 4 s s' {#}"
proof (cases "i = NULL")
  case True
  then have m: "m = Map.empty" "owned s {#}" using assms(1) by (simp_all add: subtree_null)
  obtain s1 j where a1: "alloc s (Leaf key v) = Some (s1, j)" "holds C s1 256 (SL j key v) {#}" "keeps 1 s s1 {#}"
    using alloc_leaf[OF m(2) assms(2), of v C] assms(3) by auto
  have "length (arena s1) < 2 ^ 32" using keeps_length[OF a1(3)] assms(3) by simp
  from wrap_ok[OF a1(2) _ _ this, of 0] obtain s2 t where
    a2: "wrap_in_extension C s1 j 0 = Some (s2, idx_of t)" "holds C s2 0 t {#}" "keeps 1 s1 s2 {#}"
      "tmap t = [key \<mapsto> v]" by auto
  have "keeps 4 s s2 {#}" by (rule keeps_then[OF a1(3) a2(3)]) simp_all
  then show ?thesis using a1 a2 subtree_tree[OF a2(2)] True m(1)
    by (simp add: insert_at.simps[of C key v s NULL])
next
  case False
  then obtain t where t: "i = idx_of t" "holds C s 0 t {#}" "tmap t = m"
    using assms(1) by (auto simp: subtree_def)
  from insert_at_ok[OF t(2) assms(2) _ assms(3), of v] obtain s' t' where
    "insert_at C key v s i 0 = Some (s', idx_of t')" "holds C s' 0 t' {#}" "keeps 4 s s' {#}"
    "tmap t' = m(key \<mapsto> v)" using t(1,3) by auto
  then show ?thesis using subtree_tree[of C s' 0 t' "{#}"] by auto
qed

lemma insert_rep:
  assumes "smt_rep C s m" "length key = 32" "length (arena s) + 4 \<le> 2 ^ 32"
  shows "\<exists>s'. SparseMerkleTree_insert C s key v = Some s' \<and> smt_rep C s' (m(key \<mapsto> v))
    \<and> length (arena s') \<le> length (arena s) + 4"
proof -
  from assms(1) have sub: "subtree C s 0 {#} (smt_root s) m" and fin: "finite (dom m)"
    and lc: "leaf_count s = card (dom m)" by (simp_all add: smt_rep_def)
  from insert_at_root[OF sub assms(2,3), of v] obtain s1 i where
    a1: "insert_at C key v s (smt_root s) 0 = Some (s1, i)" and h1: "subtree C s1 0 {#} i (m(key \<mapsto> v))"
    and k1: "keeps 4 s s1 {#}" by blast
  let ?s = "s1\<lparr>smt_root := i, root_hash := node_hash C 0 (m(key \<mapsto> v)),
    leaf_count := (if m key = None then leaf_count s1 + 1 else leaf_count s1)\<rparr>"
  have "SparseMerkleTree_insert C s key v = Some ?s"
    using find_leaf_rep[OF assms(1,2)] a1 subtree_hash_subtree[OF h1]
    by (simp add: SparseMerkleTree_insert_def)
  moreover have "leaf_count ?s = card (dom (m(key \<mapsto> v)))"
    using lc k1 fin by (auto simp: keeps_def card_insert_if insert_absorb domIff)
  moreover have "subtree C ?s 0 {#} (smt_root ?s) (m(key \<mapsto> v))" using subtree_update[OF h1] by simp
  ultimately show ?thesis using fin k1 unfolding smt_rep_def keeps_def
    by (intro exI[of _ ?s]) simp
qed

lemma remove_rep:
  assumes "smt_rep C s m" "length key = 32"
  shows "\<exists>s'. SparseMerkleTree_remove C s key = Some s' \<and> smt_rep C s' (m(key := None))
    \<and> length (arena s') \<le> length (arena s)"
proof (cases "m key")
  case None
  then have "m(key := None) = m" by (simp add: fun_upd_idem)
  then show ?thesis using assms find_leaf_rep[OF assms] None by (simp add: SparseMerkleTree_remove_def)
next
  case (Some v)
  from assms(1) have sub: "subtree C s 0 {#} (smt_root s) m" and fin: "finite (dom m)"
    and lc: "leaf_count s = card (dom m)" by (simp_all add: smt_rep_def)
  have "smt_root s \<noteq> NULL" using sub Some by (auto simp: subtree_def)
  then obtain t where t: "smt_root s = idx_of t" "holds C s 0 t {#}" "tmap t = m"
    using sub by (auto simp: subtree_def)
  from remove_at_ok[OF t(2) assms(2)] Some obtain s1 i where
    a1: "remove_at C key s (smt_root s) 0 = Some (s1, i)" and h1: "subtree C s1 0 {#} i (m(key := None))"
    and k1: "keeps 0 s s1 {#}" unfolding t by blast
  let ?s = "s1\<lparr>smt_root := i, root_hash := node_hash C 0 (m(key := None)), leaf_count := leaf_count s1 - 1\<rparr>"
  have "SparseMerkleTree_remove C s key = Some ?s"
    using find_leaf_rep[OF assms] Some a1 subtree_hash_subtree[OF h1]
    by (simp add: SparseMerkleTree_remove_def)
  moreover have "leaf_count ?s = card (dom (m(key := None)))"
    using lc k1 fin Some by (simp add: keeps_def domIff)
  moreover have "subtree C ?s 0 {#} (smt_root ?s) (m(key := None))" using subtree_update[OF h1] by simp
  ultimately show ?thesis using fin k1 unfolding smt_rep_def keeps_def
    by (intro exI[of _ ?s]) simp
qed

interpretation smt: authenticated_map "smt_rep C" "\<lambda>k. length k = 32" "\<lambda>s. length (arena s)" 4 "2 ^ 32"
  find_leaf "SparseMerkleTree_insert C" "SparseMerkleTree_remove C" root_hash "node_hash C 0" for C
proof unfold_locales
  show "smt_rep C s m \<Longrightarrow> length k = 32 \<Longrightarrow> find_leaf s k = Some (m k)" for s m k
    by (rule find_leaf_rep)
  show "smt_rep C s m \<Longrightarrow> root_hash s = node_hash C 0 m" for s m
    by (simp add: smt_rep_def)
qed (erule insert_rep remove_rep; assumption)+


text \<open>No slot leaks: the nodes in use are those of the tree, at most four per leaf.\<close>

lemma dom_tmap_SL: "dom (tmap (SL i k v)) = {k}"
  by auto

lemma finite_tmap: "finite (dom (tmap t))"
  by (induction t) (simp_all only: dom_tmap_SL tmap.simps(2,3) dom_map_add finite_Un finite.intros)

lemma size_nodes:
  "shape d t \<Longrightarrow> size (slots t) + (if is_ext t then 2 else 3) \<le> 4 * card (dom (tmap t))"
proof (induction t arbitrary: d)
  case (SL i k v)
  show ?case by (simp add: dom_tmap_SL del: tmap.simps)
next
  case (SB i bd l r)
  have "dom (tmap l) \<inter> dom (tmap r) = {}" using SB.prems by auto
  then have "card (dom (tmap l ++ tmap r)) = card (dom (tmap l)) + card (dom (tmap r))"
    by (simp add: card_Un_disjoint finite_tmap Int_commute add.commute)
  moreover have "size (slots l) + 2 \<le> 4 * card (dom (tmap l))" "size (slots r) + 2 \<le> 4 * card (dom (tmap r))"
    using SB.IH(1)[of "Suc d"] SB.IH(2)[of "Suc d"] SB.prems by (auto split: if_splits)
  ultimately show ?case by simp
next
  case (SE i bd cd p t)
  then show ?case using SE.IH[of cd] by auto
qed

lemma node_count_rep: "smt_rep C s m \<Longrightarrow> node_count s \<le> 4 * leaf_count s"
proof -
  assume r: "smt_rep C s m"
  have own: "owned s R \<Longrightarrow> node_count s = size R" for R
    unfolding owned_def node_count_def
    by (metis One_nat_def add_diff_cancel_right' length_upt size_mset size_union)
  show ?thesis
  proof (cases "smt_root s = NULL")
    case True
    then have "owned s {#}" using r by (simp add: smt_rep_def subtree_null)
    then show ?thesis using own by force
  next
    case False
    then obtain t where t: "holds C s 0 t {#}" "tmap t = m" using r by (auto simp: smt_rep_def subtree_def)
    have "node_count s = size (slots t)" using own[OF holds_owned[OF t(1)]] by simp
    then show ?thesis using size_nodes[OF holds_shape[OF t(1)]] r t(2) by (simp add: smt_rep_def)
  qed
qed


section \<open>The full tree over the leaves in key order\<close>

lemma odd_bit_le:
  fixes a b :: byte
  assumes "a \<le> b" "\<And>n. p < n \<Longrightarrow> n < 8 \<Longrightarrow> bit a n = bit b n" "bit a p"
  shows "bit b p"
proof (rule ccontr)
  assume "\<not> bit b p"
  have eq: "drop_bit (Suc p) a = drop_bit (Suc p) b"
  proof (rule bit_word_eqI)
    fix n
    show "bit (drop_bit (Suc p) a) n = bit (drop_bit (Suc p) b) n"
      using assms(2)[of "Suc p + n"] bit_imp_le_length[of a "Suc p + n"] bit_imp_le_length[of b "Suc p + n"]
      by (auto simp: bit_drop_bit_eq)
  qed
  have "unat a div 2 ^ Suc p = unat b div 2 ^ Suc p"
    using arg_cong[OF eq, of unat] unfolding unat_drop_bit_eq by (simp only: drop_bit_eq_div)
  then have half: "unat a div 2 ^ p div 2 = unat b div 2 ^ p div 2"
    by (simp add: div_mult2_eq[symmetric] mult.commute)
  have "odd (unat a div 2 ^ p)" "even (unat b div 2 ^ p)"
    using assms(3) \<open>\<not> bit b p\<close> bit_unsigned_iff[of a p, where ?'a = nat]
      bit_unsigned_iff[of b p, where ?'a = nat] by (simp_all add: bit_iff_odd[of "unat _"])
  then have "unat b div 2 ^ p < unat a div 2 ^ p"
    using half by (auto elim!: oddE evenE)
  moreover have "unat a div 2 ^ p \<le> unat b div 2 ^ p"
    using assms(1) by (simp add: div_le_mono word_le_nat_alt)
  ultimately show False by simp
qed

lemma lex_less_prefix:
  "lex_less a b \<Longrightarrow> length a = length b \<Longrightarrow> q < length a \<Longrightarrow> (\<And>i. i < q \<Longrightarrow> a ! i = b ! i) \<Longrightarrow> a ! q \<le> b ! q"
proof (induction a b arbitrary: q rule: lex_less.induct)
  case (3 x xs y ys)
  show ?case
  proof (cases q)
    case 0
    then show ?thesis using "3.prems"(1) by auto
  next
    case (Suc r)
    have "x = y" using "3.prems"(4)[of 0] Suc by simp
    then have "lex_less xs ys" using "3.prems"(1) by simp
    moreover have "xs ! i = ys ! i" if "i < r" for i using "3.prems"(4)[of "Suc i"] that Suc by simp
    ultimately show ?thesis using "3.IH"[of r] "3.prems" Suc by simp
  qed
qed simp_all

lemma lex_less_bit:
  assumes "lex_less a b" "agree d a b" "d < 256" "length a = 32" "length b = 32" "kbit a d"
  shows "kbit b d"
proof -
  define q r where "q = d div 8" and "r = d mod 8"
  have d: "d = 8 * q + r" "r < 8" "q < 32" using assms(3) by (auto simp: q_def r_def)
  have "agree (8 * q) a b" by (rule agree_mono[OF assms(2)]) (simp add: d(1))
  then have "a ! q \<le> b ! q"
    using lex_less_prefix[OF assms(1), of q] agree_bytes_eq[of q a b] assms(4,5) d(3) by simp
  moreover have "bit (a ! q) n = bit (b ! q) n" if "7 - r < n" "n < 8" for n
  proof -
    define w e where "w = 7 - n" and "e = 8 * q + w"
    have "w < 8" "w < r" using that d(2) by (auto simp: w_def)
    then have "e div 8 = q" "e mod 8 = w" "e < d" by (simp_all add: e_def d(1))
    moreover have "kbit a e = kbit b e" using assms(2) \<open>e < d\<close> by (simp add: agree_def)
    ultimately show ?thesis using that(2) by (simp add: kbit_def w_def)
  qed
  ultimately show ?thesis using odd_bit_le[of "a ! q" "b ! q" "7 - r"] assms(6)
    by (simp add: kbit_def q_def r_def)
qed

lemma takeWhile_sorted:
  "sorted_wrt (\<lambda>x y. P y \<longrightarrow> P x) xs \<Longrightarrow> takeWhile P xs = filter P xs \<and> dropWhile P xs = filter (\<lambda>x. \<not> P x) xs"
  by (induction xs) (auto simp: filter_empty_conv filter_id_conv)

lemma map_of_filter_key: "map_of (filter (\<lambda>x. P (fst x)) xs) = map_of xs |` {k. P k}"
  by (induction xs) (auto simp: restrict_map_def fun_eq_iff)

definition key_sorted :: "(bytes \<times> bytes) list \<Rightarrow> bool" where
  "key_sorted leaves \<longleftrightarrow> sorted_wrt (\<lambda>a b. lex_less (fst a) (fst b)) leaves"

lemma lex_less_irrefl: "\<not> lex_less a a"
  by (induction a) auto

lemma compute_root_map_hash:
  assumes "n \<le> 256" "key_sorted leaves" "\<forall>a\<in>set leaves. length (fst a) = 32"
    and "\<forall>a\<in>set leaves. \<forall>b\<in>set leaves. agree (256 - n) (fst a) (fst b)"
  shows "compute_root_recursive C leaves n (256 - n) = map_hash C n (map_of leaves)"
  using assms
proof (induction n arbitrary: leaves)
  case 0
  show ?case
  proof (cases leaves)
    case (Cons a rest)
    have "rest = []"
    proof (rule ccontr)
      assume "rest \<noteq> []"
      then obtain b where b: "b \<in> set rest" by (cases rest) auto
      then have "fst a = fst b" using 0 Cons by (intro agree_256_eq) auto
      then show False using 0(2) b Cons lex_less_irrefl by (force simp: key_sorted_def)
    qed
    then have "map_of leaves = [fst a \<mapsto> snd a]" using Cons by (simp add: fun_eq_iff)
    moreover have "compute_root_recursive C leaves 0 (256 - 0) = snd a" using Cons by simp
    ultimately show ?thesis by (simp only: map_hash_leaf)
  qed simp
next
  case (Suc n)
  define d where "d = 255 - n"
  have d: "256 - Suc n = d" "256 - n = Suc d" "d < 256" using Suc.prems(1) by (simp_all add: d_def)
  let ?P = "\<lambda>a :: bytes \<times> bytes. get_bit (fst a) d = Some 0"
  have P: "?P a \<longleftrightarrow> \<not> kbit (fst a) d" if "a \<in> set leaves" for a
    using get_bit_Some[of "fst a" d] Suc.prems(3) that d(3) by simp
  have "sorted_wrt (\<lambda>a b. ?P b \<longrightarrow> ?P a) leaves"
    using Suc.prems(2) unfolding key_sorted_def
  proof (rule sorted_wrt_mono_rel[rotated])
    fix a b assume ab: "a \<in> set leaves" "b \<in> set leaves" "lex_less (fst a) (fst b)"
    show "?P b \<longrightarrow> ?P a" using lex_less_bit[OF ab(3), of d] ab P Suc.prems(3,4) d by auto
  qed
  note tw = takeWhile_sorted[OF this]
  have split: "takeWhile ?P leaves = filter (\<lambda>a. \<not> kbit (fst a) d) leaves"
    "dropWhile ?P leaves = filter (\<lambda>a. kbit (fst a) d) leaves"
    using tw P by (auto intro: filter_cong)
  have IH: "compute_root_recursive C (filter (\<lambda>a. Q (kbit (fst a) d)) leaves) n (Suc d)
      = map_hash C n (map_of leaves |` {k. Q (kbit k d)})" if "Q = id \<or> Q = Not" for Q
  proof -
    let ?L = "filter (\<lambda>a. Q (kbit (fst a) d)) leaves"
    have "compute_root_recursive C ?L n (256 - n) = map_hash C n (map_of ?L)"
    proof (rule Suc.IH)
      show "\<forall>a\<in>set ?L. \<forall>b\<in>set ?L. agree (256 - n) (fst a) (fst b)"
        using Suc.prems(4) that unfolding d by (auto simp: agree_Suc)
    qed (use Suc.prems in \<open>auto simp: key_sorted_def sorted_wrt_filter\<close>)
    then show ?thesis using map_of_filter_key[of "\<lambda>k. Q (kbit k d)" leaves] d(2) by simp
  qed
  show ?case
  proof (cases "leaves = []")
    case True
    then show ?thesis using map_hash_empty[of C "Suc n"] by simp
  next
    case False
    have "compute_root_recursive C leaves (Suc n) (256 - Suc n)
      = sha256 C (compute_root_recursive C (filter (\<lambda>a. \<not> kbit (fst a) d) leaves) n (Suc d)
        @ compute_root_recursive C (filter (\<lambda>a. kbit (fst a) d) leaves) n (Suc d))"
      using False split d(1) by (simp add: Let_def)
    then show ?thesis using IH[of Not] IH[of id] d_def by simp
  qed
qed

lemma compute_root_node_hash:
  assumes "key_sorted leaves" "\<forall>a\<in>set leaves. length (fst a) = 32"
  shows "compute_root_recursive C leaves 256 0 = node_hash C 0 (map_of leaves)"
  using compute_root_map_hash[of 256 leaves C] assms by (simp add: node_hash_def)

lemma key_sorted_distinct: "key_sorted leaves \<Longrightarrow> distinct (map fst leaves)"
  unfolding key_sorted_def
proof (induction leaves)
  case (Cons a leaves)
  then show ?case using lex_less_irrefl by fastforce
qed simp

lemma dom_fold_op_map: "dom (fold op_map ops m) \<subseteq> dom m \<union> op_key ` set ops"
proof (induction ops arbitrary: m)
  case (Cons oper ops)
  then show ?case by (cases oper) (fastforce split: if_splits)+
qed simp

text \<open>C6. Whatever sequence of insertions and removals built it, the path-compressed tree
  returns on every operation, finds exactly the entries of the map that the sequence
  describes, counts them, keeps at most four nodes for each, and has the root hash that \<open>compute_root_recursive\<close> gives for the
  full binary tree of depth 256 over those entries in key order. (Keys are 32-byte hashes;
  four arena slots per operation bound the 32-bit node indices.)\<close>

theorem smt_root_is_full_tree_root:
  assumes "\<forall>oper\<in>set ops. length (op_key oper) = 32" "4 * length ops + 1 \<le> 2 ^ 32"
    and "key_sorted leaves" "map_of leaves = fold op_map ops Map.empty"
  shows "\<exists>s. run_ops (SparseMerkleTree_insert C) (SparseMerkleTree_remove C) ops (SparseMerkleTree_new C) = Some s
    \<and> root_hash s = compute_root_recursive C leaves SMT_DEPTH 0
    \<and> leaf_count s = length leaves \<and> node_count s \<le> 4 * length leaves
    \<and> (\<forall>key. length key = 32 \<longrightarrow> find_leaf s key = Some (map_of leaves key))"
proof -
  have "length (arena (SparseMerkleTree_new C)) + length ops * 4 \<le> 2 ^ 32"
    using assms(2) by (simp add: SparseMerkleTree_new_def)
  from smt.run_rep[OF smt_rep_new assms(1) this] obtain s where
    s: "run_ops (SparseMerkleTree_insert C) (SparseMerkleTree_remove C) ops (SparseMerkleTree_new C) = Some s"
    and r: "smt_rep C s (map_of leaves)" unfolding assms(4) by blast
  have len: "\<forall>a\<in>set leaves. length (fst a) = 32"
  proof
    fix a assume "a \<in> set leaves"
    then have "fst a \<in> dom (fold op_map ops Map.empty)"
      by (simp add: assms(4)[symmetric] dom_map_of_conv_image_fst)
    then show "length (fst a) = 32" using dom_fold_op_map[of ops "Map.empty :: bytes \<rightharpoonup> bytes"] assms(1) by auto
  qed
  have "distinct (map fst leaves)" by (rule key_sorted_distinct[OF assms(3)])
  then have "card (dom (map_of leaves)) = length leaves"
    using distinct_card[of "map fst leaves"] by (simp add: dom_map_of_conv_image_fst)
  then show ?thesis using s r smt.find_rep[OF r] node_count_rep[OF r] compute_root_node_hash[OF assms(3) len]
    by (simp add: smt_rep_def SMT_DEPTH_def)
qed

theorem smt_root_is_full_tree_root_witness:
  "\<exists>s. run_ops (SparseMerkleTree_insert toy_crypto) (SparseMerkleTree_remove toy_crypto)
      [Put (replicate 32 1) ZERO, Put (replicate 32 2) (replicate 32 7), Del (replicate 32 1)]
      (SparseMerkleTree_new toy_crypto) = Some s
    \<and> root_hash s = compute_root_recursive toy_crypto [(replicate 32 2, replicate 32 7)] SMT_DEPTH 0
    \<and> leaf_count s = length [(replicate 32 (2 :: byte), replicate 32 (7 :: byte))]"
proof -
  have ne: "replicate 32 (1 :: byte) \<noteq> replicate 32 2" by simp
  show ?thesis
    using smt_root_is_full_tree_root[of "[Put (replicate 32 1) ZERO, Put (replicate 32 2) (replicate 32 7), Del (replicate 32 1)]"
      "[(replicate 32 2, replicate 32 7)]" toy_crypto] ne
    by (auto simp: key_sorted_def fun_eq_iff)
qed


section \<open>The root binds the map\<close>

text \<open>The 64-byte strings that the full tree over a map hashes.\<close>

primrec preimages :: "crypto \<Rightarrow> nat \<Rightarrow> (bytes \<rightharpoonup> bytes) \<Rightarrow> bytes set" where
  "preimages C 0 m = {}"
| "preimages C (Suc n) m =
     insert (map_hash C n (m |` {k. \<not> kbit k (255 - n)}) @ map_hash C n (m |` {k. kbit k (255 - n)}))
       (preimages C n (m |` {k. \<not> kbit k (255 - n)}) \<union> preimages C n (m |` {k. kbit k (255 - n)}))"

text \<open>The stored values: hashes other than the one an absent leaf stands for.\<close>

definition leaf_values :: "bytes set" where
  "leaf_values = {v. length v = 32 \<and> v \<noteq> ZERO}"

lemma length_map_hash:
  assumes "digest32 C" "ran m \<subseteq> leaf_values" "\<forall>k\<in>dom m. \<forall>k'\<in>dom m. n = 0 \<longrightarrow> k = k'"
  shows "length (map_hash C n m) = 32"
proof (cases n)
  case 0
  show ?thesis
  proof (cases "m = Map.empty")
    case False
    then obtain k v where k: "m k = Some v" by (meson ext not_Some_eq)
    then have "ran m = {v}" using assms(3) 0 by (auto simp: ran_def) (metis domI option.inject)
    then show ?thesis using 0 False assms(2) by (auto simp: leaf_values_def)
  qed (simp add: 0)
qed (use assms(1) in \<open>simp add: digest32_def\<close>)

lemma restrict_parts_eq: "m |` A = m' |` A \<Longrightarrow> m |` (- A) = m' |` (- A) \<Longrightarrow> m = m'"
  by (rule ext) (metis Compl_iff restrict_in)

lemma map_hash_inj:
  assumes "digest32 C" "n \<le> 256" "ran m \<union> ran m' \<subseteq> leaf_values"
    and "\<forall>k\<in>dom m \<union> dom m'. length k = 32"
    and "\<forall>k\<in>dom m \<union> dom m'. \<forall>k'\<in>dom m \<union> dom m'. agree (256 - n) k k'"
    and "map_hash C n m = map_hash C n m'"
    and "inj_on (sha256 C) (preimages C n m \<union> preimages C n m')"
  shows "m = m'"
  using assms
proof (induction n arbitrary: m m')
  case 0
  have one: "k = k'" if "k \<in> dom m \<union> dom m'" "k' \<in> dom m \<union> dom m'" for k k'
    using 0(4,5) that by (intro agree_256_eq) auto
  have val: "map_hash C 0 f = v" "v \<noteq> replicate 32 0" if "f = m \<or> f = m'" "f k = Some v" for f k v
  proof -
    have "f j = (if j = k then Some v else None)" for j
      using that one[of k j] by (cases "f j") (auto simp: domIff)
    then have "f = [k \<mapsto> v]" by (simp add: fun_eq_iff)
    then show "map_hash C 0 f = v" by (simp only: map_hash_leaf)
    have "v \<in> ran m \<union> ran m'" using that by (auto simp: ran_def)
    then show "v \<noteq> replicate 32 0" using 0(3) by (auto simp: leaf_values_def ZERO_def)
  qed
  have nul: "f = Map.empty \<Longrightarrow> map_hash C 0 f = replicate 32 0" for f by simp
  show ?case
  proof (cases "m = Map.empty \<and> m' = Map.empty")
    case False
    then obtain k where k: "k \<in> dom m \<union> dom m'" by fastforce
    have "m \<noteq> Map.empty" "m' \<noteq> Map.empty"
      using k nul val 0(6) by (metis UnE domD)+
    then have "k \<in> dom m" "k \<in> dom m'" using one[of k] k by (metis UnCI dom_eq_empty_conv ex_in_conv)+
    then obtain v where v: "m k = Some v" "m' k = Some v"
      using val 0(6) by (metis domD)
    have "m j = m' j" for j using one[of k j] v by (cases "j = k"; cases "m j"; cases "m' j") (auto simp: domIff)
    then show ?thesis by blast
  qed simp
next
  case (Suc n)
  define d where "d = 255 - n"
  have d: "256 - Suc n = d" "256 - n = Suc d" using Suc.prems(2) by (simp_all add: d_def)
  define L R where "L f = f |` {k. \<not> kbit k d}" and "R f = f |` {k. kbit k d}" for f :: "bytes \<rightharpoonup> bytes"
  have ran: "ran (L f) \<subseteq> ran f" "ran (R f) \<subseteq> ran f" for f
    by (auto simp: L_def R_def ran_def restrict_map_def split: if_splits)
  have doms: "dom (L f) = {k\<in>dom f. \<not> kbit k d}" "dom (R f) = {k\<in>dom f. kbit k d}" for f
    by (auto simp: L_def R_def)
  have agL: "\<forall>k\<in>dom (L m) \<union> dom (L m'). \<forall>k'\<in>dom (L m) \<union> dom (L m'). agree (256 - n) k k'"
    and agR: "\<forall>k\<in>dom (R m) \<union> dom (R m'). \<forall>k'\<in>dom (R m) \<union> dom (R m'). agree (256 - n) k k'"
    using Suc.prems(5) unfolding d doms by (auto simp: agree_Suc)
  have one: "n = 0 \<longrightarrow> k = k'" if "agree (256 - n) k k'" "k \<in> dom m \<union> dom m'" "k' \<in> dom m \<union> dom m'" for k k'
    using that Suc.prems(4) by (auto intro!: agree_256_eq)
  have sub: "dom (L f) \<subseteq> dom f" for f by (auto simp: doms)
  have "length (map_hash C n (L f)) = 32" if f: "f = m \<or> f = m'" for f
  proof (rule length_map_hash[OF Suc.prems(1)])
    show "ran (L f) \<subseteq> leaf_values" using f ran(1)[of f] Suc.prems(3) by auto
    show "\<forall>k\<in>dom (L f). \<forall>k'\<in>dom (L f). n = 0 \<longrightarrow> k = k'"
    proof (intro ballI)
      fix k k' assume k: "k \<in> dom (L f)" "k' \<in> dom (L f)"
      then have "agree (256 - n) k k'" using agL f by blast
      moreover have "k \<in> dom m \<union> dom m'" "k' \<in> dom m \<union> dom m'" using k f sub[of f] by blast+
      ultimately show "n = 0 \<longrightarrow> k = k'" by (rule one)
    qed
  qed
  then have len: "length (map_hash C n (L m)) = 32" "length (map_hash C n (L m')) = 32" by simp_all
  let ?x = "map_hash C n (L m) @ map_hash C n (R m)" and ?y = "map_hash C n (L m') @ map_hash C n (R m')"
  have "sha256 C ?x = sha256 C ?y" using Suc.prems(6) by (simp add: L_def R_def d_def)
  then have "?x = ?y" by (rule inj_onD[OF Suc.prems(7)]) (simp_all add: L_def R_def d_def)
  then have halves: "map_hash C n (L m) = map_hash C n (L m')" "map_hash C n (R m) = map_hash C n (R m')"
    using len by auto
  have pre: "preimages C n (L f) \<subseteq> preimages C (Suc n) f" "preimages C n (R f) \<subseteq> preimages C (Suc n) f" for f
    by (auto simp: L_def R_def d_def)
  have step: "F m = F m'" if F: "F = L \<or> F = R"
    and "\<forall>k\<in>dom (F m) \<union> dom (F m'). \<forall>k'\<in>dom (F m) \<union> dom (F m'). agree (256 - n) k k'"
    and "map_hash C n (F m) = map_hash C n (F m')" for F
  proof (rule Suc.IH[OF Suc.prems(1) _ _ _ that(2,3)])
    show "ran (F m) \<union> ran (F m') \<subseteq> leaf_values" using F ran Suc.prems(3) by blast
    show "\<forall>k\<in>dom (F m) \<union> dom (F m'). length k = 32" using F doms Suc.prems(4) by blast
    show "inj_on (sha256 C) (preimages C n (F m) \<union> preimages C n (F m'))"
      by (rule inj_on_subset[OF Suc.prems(7)]) (use F pre in blast)
  qed (use Suc.prems(2) in simp)
  have "L m = L m'" by (rule step[OF _ agL halves(1)]) simp
  moreover have "R m = R m'" by (rule step[OF _ agR halves(2)]) simp
  ultimately show ?case
    using restrict_parts_eq[of m "{k. kbit k d}" m'] by (simp add: L_def R_def Collect_neg_eq)
qed

lemma ran_fold_op_map:
  "ran m \<subseteq> V \<Longrightarrow> (\<forall>k v. Put k v \<in> set ops \<longrightarrow> v \<in> V) \<Longrightarrow> ran (fold op_map ops m) \<subseteq> V"
proof (induction ops arbitrary: m)
  case (Cons oper ops)
  have "ran (op_map oper m) \<subseteq> V" using Cons.prems by (cases oper) (auto simp: ran_def split: if_splits)
  then show ?case using Cons.IH[of "op_map oper m"] Cons.prems(2) by simp
qed simp

text \<open>The sequences of updates of trees that the state makes: keys and values are digests.\<close>

definition digest_ops :: "(bytes, bytes) map_op list \<Rightarrow> bool" where
  "digest_ops ops \<longleftrightarrow> (\<forall>oper\<in>set ops. length (op_key oper) = 32
     \<and> (case oper of Put k v \<Rightarrow> v \<in> leaf_values | Del k \<Rightarrow> True)) \<and> 4 * length ops + 1 \<le> 2 ^ 32"

lemma digest_ops_rep:
  assumes "digest_ops ops"
    and "run_ops (SparseMerkleTree_insert C) (SparseMerkleTree_remove C) ops (SparseMerkleTree_new C) = Some s"
  shows "root_hash s = map_hash C 256 (fold op_map ops Map.empty)"
    "ran (fold op_map ops Map.empty) \<subseteq> leaf_values" "\<forall>k\<in>dom (fold op_map ops Map.empty). length k = 32"
proof -
  have ok: "\<forall>oper\<in>set ops. length (op_key oper) = 32"
    "length (arena (SparseMerkleTree_new C)) + length ops * 4 \<le> 2 ^ 32"
    using assms(1) by (simp_all add: digest_ops_def SparseMerkleTree_new_def)
  have "smt_rep C s (fold op_map ops Map.empty)"
    using smt.run_rep[OF smt_rep_new ok] assms(2) by auto
  then show "root_hash s = map_hash C 256 (fold op_map ops Map.empty)"
    by (simp add: smt_rep_def node_hash_def)
  show "ran (fold op_map ops Map.empty) \<subseteq> leaf_values"
    by (rule ran_fold_op_map) (use assms(1) in \<open>auto simp: digest_ops_def\<close>)
  show "\<forall>k\<in>dom (fold op_map ops Map.empty). length k = 32"
    using dom_fold_op_map[of ops "Map.empty :: bytes \<rightharpoonup> bytes"] ok(1) by auto
qed

text \<open>C14. The root commits to the contents: two trees with one root, however they were
  built, hold the same map, or else two different strings among those that their full
  trees hash have the same digest.\<close>

theorem smt_root_binds_map:
  assumes "digest32 C" "digest_ops ops" "digest_ops ops'"
    and "run_ops (SparseMerkleTree_insert C) (SparseMerkleTree_remove C) ops (SparseMerkleTree_new C) = Some s"
    and "run_ops (SparseMerkleTree_insert C) (SparseMerkleTree_remove C) ops' (SparseMerkleTree_new C) = Some s'"
    and "root_hash s = root_hash s'"
  defines "m \<equiv> fold op_map ops Map.empty" and "m' \<equiv> fold op_map ops' Map.empty"
  shows "m = m' \<or> (\<exists>x \<in> preimages C SMT_DEPTH m \<union> preimages C SMT_DEPTH m'.
    \<exists>y \<in> preimages C SMT_DEPTH m \<union> preimages C SMT_DEPTH m'. x \<noteq> y \<and> sha256 C x = sha256 C y)"
proof (rule disjCI)
  assume "\<not> (\<exists>x \<in> preimages C SMT_DEPTH m \<union> preimages C SMT_DEPTH m'.
    \<exists>y \<in> preimages C SMT_DEPTH m \<union> preimages C SMT_DEPTH m'. x \<noteq> y \<and> sha256 C x = sha256 C y)"
  then have inj: "inj_on (sha256 C) (preimages C 256 m \<union> preimages C 256 m')"
    unfolding inj_on_def SMT_DEPTH_def by blast
  note r = digest_ops_rep[OF assms(2,4), folded m_def] and r' = digest_ops_rep[OF assms(3,5), folded m'_def]
  show "m = m'"
    by (rule map_hash_inj[OF assms(1) _ _ _ _ _ inj]) (use r r' assms(6) in auto)
qed

theorem smt_root_binds_map_witness:
  "let m = fold op_map ([] :: (bytes, bytes) map_op list) Map.empty;
       m' = fold op_map [Put (replicate 32 (1 :: byte)) (replicate 32 (7 :: byte))] Map.empty in
   m = m' \<or> (\<exists>x \<in> preimages toy_crypto SMT_DEPTH m \<union> preimages toy_crypto SMT_DEPTH m'.
    \<exists>y \<in> preimages toy_crypto SMT_DEPTH m \<union> preimages toy_crypto SMT_DEPTH m'.
      x \<noteq> y \<and> sha256 toy_crypto x = sha256 toy_crypto y)"
proof -
  let ?k = "replicate 32 (1 :: byte)" and ?v = "replicate 32 (7 :: byte)"
  let ?ins = "SparseMerkleTree_insert toy_crypto" and ?del = "SparseMerkleTree_remove toy_crypto"
  obtain s where s: "run_ops ?ins ?del [Put ?k ?v] (SparseMerkleTree_new toy_crypto) = Some s"
    "smt_rep toy_crypto s (fold op_map [Put ?k ?v] Map.empty)"
    using smt.run_rep[OF smt_rep_new[of toy_crypto], of "[Put ?k ?v]"]
    by (fastforce simp: SparseMerkleTree_new_def)
  have sha: "sha256 toy_crypto x = take 32 (rev x @ replicate 32 0)" for x
    by (simp add: toy_crypto_def)
  have e: "empty_hash toy_crypto d = replicate 32 0" for d
    by (induction d) (simp_all add: sha)
  have "root_hash s = node_hash toy_crypto 0 (Map.empty(?k \<mapsto> ?v) ++ Map.empty)"
    using s(2) by (simp only: smt_rep_def op_map.simps fold.simps comp_def id_apply map_add_empty)
  also have "\<dots> = sha256 toy_crypto (node_hash toy_crypto (Suc 0) [?k \<mapsto> ?v] @ node_hash toy_crypto (Suc 0) Map.empty)"
    by (rule node_hash_branch) (simp_all add: kbit_def)
  also have "\<dots> = replicate 32 0" by (simp add: node_hash_empty e sha)
  finally have "root_hash (SparseMerkleTree_new toy_crypto) = root_hash s"
    by (simp add: e SparseMerkleTree_new_def empty_root_def)
  moreover have "digest_ops []" "digest_ops [Put ?k ?v]"
    by (simp_all add: digest_ops_def leaf_values_def ZERO_def)
  ultimately show ?thesis unfolding Let_def
    using smt_root_binds_map[OF toy_digest32 _ _ _ s(1), of "[]" "SparseMerkleTree_new toy_crypto"]
    by (simp only: run_ops.simps)
qed

end
