(* ===== verification/Utxo_State.thy ===== *)
theory Utxo_State
  imports Smt_Root Transactions "HOL-Library.List_Lexorder"
begin

text \<open>
  The set of unspent outputs, \<open>chain/state.rs\<close>: the map from outpoints to entries, the
  sparse Merkle tree that commits to it and the index from scripts to outpoints. The
  operations change the set in place and may fail half-way, so each returns its result
  with the set it leaves behind. \<open>TreePanic\<close> stands for a panic inside the tree.
\<close>


section \<open>Outpoints in order\<close>

text \<open>The derived order of outpoints, which is the iteration order of the ordered maps and
  sets of the source.\<close>

instantiation OutPoint_ext :: (linorder) linorder
begin

definition less_eq_OutPoint_ext :: "'a OutPoint_scheme \<Rightarrow> 'a OutPoint_scheme \<Rightarrow> bool" where
  "less_eq_OutPoint_ext a b \<longleftrightarrow> op_tx_id a < op_tx_id b \<or> op_tx_id a = op_tx_id b
     \<and> (op_output_index a < op_output_index b
        \<or> op_output_index a = op_output_index b \<and> OutPoint.more a \<le> OutPoint.more b)"

definition less_OutPoint_ext :: "'a OutPoint_scheme \<Rightarrow> 'a OutPoint_scheme \<Rightarrow> bool" where
  "less_OutPoint_ext a b \<longleftrightarrow> a \<le> b \<and> \<not> b \<le> a"

instance
  by standard (auto simp: less_eq_OutPoint_ext_def less_OutPoint_ext_def intro: OutPoint.equality)

end


section \<open>Data\<close>

datatype StateError =
  InputNotFound OutPoint
| OutputNotFound OutPoint
| DuplicateRestore OutPoint
| DuplicateOutpoint OutPoint
| Serialization SerError
| IncompleteUndo nat nat
| TreePanic

record UtxoEntry =
  ue_output :: TxOutput
  ue_height :: u64
  ue_is_coinbase :: bool

datatype UtxoMutation = Insert OutPoint UtxoEntry | Remove OutPoint UtxoEntry

fun collect_spent_utxos :: "UtxoMutation list \<Rightarrow> (OutPoint \<times> UtxoEntry) list" where
  "collect_spent_utxos [] = []"
| "collect_spent_utxos (Remove op e # ms) = (op, e) # collect_spent_utxos ms"
| "collect_spent_utxos (Insert _ _ # ms) = collect_spent_utxos ms"

record UtxoSet =
  utxos :: "OutPoint \<rightharpoonup> UtxoEntry"
  smt :: SparseMerkleTree
  by_script :: "bytes \<rightharpoonup> OutPoint set"

definition UtxoSet_new :: "crypto \<Rightarrow> UtxoSet" where
  "UtxoSet_new C = \<lparr>utxos = Map.empty, smt = SparseMerkleTree_new C, by_script = Map.empty\<rparr>"

definition UtxoSet_get :: "UtxoSet \<Rightarrow> OutPoint \<Rightarrow> UtxoEntry option" where
  "UtxoSet_get u op = utxos u op"

definition UtxoSet_contains :: "UtxoSet \<Rightarrow> OutPoint \<Rightarrow> bool" where
  "UtxoSet_contains u op \<longleftrightarrow> utxos u op \<noteq> None"

text \<open>The snapshot for validation: the entries at the given outpoints, with an empty tree
  and index.\<close>

fun snapshot_loop :: "UtxoSet \<Rightarrow> OutPoint list \<Rightarrow> (OutPoint \<rightharpoonup> UtxoEntry) \<Rightarrow> (OutPoint \<rightharpoonup> UtxoEntry)" where
  "snapshot_loop u [] acc = acc"
| "snapshot_loop u (op # ops) acc = (case utxos u op of
     Some entry \<Rightarrow> snapshot_loop u ops (acc(op \<mapsto> entry))
   | None \<Rightarrow> snapshot_loop u ops acc)"

definition snapshot_for_outpoints :: "crypto \<Rightarrow> UtxoSet \<Rightarrow> OutPoint list \<Rightarrow> UtxoSet" where
  "snapshot_for_outpoints C u ops =
     \<lparr>utxos = snapshot_loop u ops Map.empty, smt = SparseMerkleTree_new C, by_script = Map.empty\<rparr>"


section \<open>Insertion and removal\<close>

definition index_add :: "'a \<Rightarrow> bytes \<Rightarrow> (bytes \<rightharpoonup> 'a set) \<Rightarrow> (bytes \<rightharpoonup> 'a set)" where
  "index_add op s ix = ix(s \<mapsto> insert op (case ix s of None \<Rightarrow> {} | Some S \<Rightarrow> S))"

definition index_del :: "'a \<Rightarrow> bytes \<Rightarrow> (bytes \<rightharpoonup> 'a set) \<Rightarrow> (bytes \<rightharpoonup> 'a set)" where
  "index_del op s ix = (case ix s of
     None \<Rightarrow> ix
   | Some S \<Rightarrow> (let S' = S - {op} in if S' = {} then ix(s := None) else ix(s \<mapsto> S')))"

definition UtxoSet_insert :: "crypto \<Rightarrow> OutPoint \<Rightarrow> UtxoEntry \<Rightarrow> UtxoSet \<Rightarrow> (UtxoSet, StateError, unit) run" where
  "UtxoSet_insert C outpoint entry u =
     (if utxos u outpoint \<noteq> None then (Err (DuplicateOutpoint outpoint), u)
      else case TxOutput_serialize (ue_output entry) of
        Inl e \<Rightarrow> (Err (Serialization e), u)
      | Inr b \<Rightarrow>
        (let key = leaf_key C (op_tx_id outpoint) (op_output_index outpoint);
             val = leaf_value C b (ue_height entry) (ue_is_coinbase entry) in
         case SparseMerkleTree_insert C (smt u) key val of
           None \<Rightarrow> (Err TreePanic, u)
         | Some t \<Rightarrow> (Ok (), u\<lparr>smt := t, utxos := (utxos u)(outpoint \<mapsto> entry),
             by_script := index_add outpoint (out_script (ue_output entry)) (by_script u)\<rparr>)))"

definition UtxoSet_remove :: "crypto \<Rightarrow> OutPoint \<Rightarrow> UtxoSet \<Rightarrow> (UtxoSet, StateError, UtxoEntry option) run" where
  "UtxoSet_remove C outpoint u = (case utxos u outpoint of
     None \<Rightarrow> (Ok None, u)
   | Some entry \<Rightarrow>
     (let key = leaf_key C (op_tx_id outpoint) (op_output_index outpoint) in
      case SparseMerkleTree_remove C (smt u) key of
        None \<Rightarrow> (Err TreePanic, u)
      | Some t \<Rightarrow> (Ok (Some entry), u\<lparr>utxos := (utxos u)(outpoint := None), smt := t,
          by_script := index_del outpoint (out_script (ue_output entry)) (by_script u)\<rparr>)))"

definition UtxoSet_state_root :: "UtxoSet \<Rightarrow> bytes" where
  "UtxoSet_state_root u = root_hash (smt u)"


section \<open>Transactions\<close>

definition outpoint :: "bytes \<Rightarrow> u32 \<Rightarrow> OutPoint" where
  "outpoint tx_id index = \<lparr>op_tx_id = tx_id, op_output_index = index\<rparr>"

definition input_outpoint :: "TxInput \<Rightarrow> OutPoint" where
  "input_outpoint i = outpoint (prev_tx_id i) (output_index i)"

fun spend_inputs :: "crypto \<Rightarrow> TxInput list \<Rightarrow> UtxoMutation list \<Rightarrow> UtxoSet
    \<Rightarrow> (UtxoSet, StateError, UtxoMutation list) run" where
  "spend_inputs C [] muts u = (Ok muts, u)"
| "spend_inputs C (i # is) muts u =
     sbind (UtxoSet_remove C (input_outpoint i) u) (\<lambda>r u. case r of
       Some entry \<Rightarrow> spend_inputs C is (muts @ [Remove (input_outpoint i) entry]) u
     | None \<Rightarrow> (Err (InputNotFound (input_outpoint i)), u))"

fun create_outputs :: "crypto \<Rightarrow> bytes \<Rightarrow> u64 \<Rightarrow> bool \<Rightarrow> nat \<Rightarrow> TxOutput list \<Rightarrow> UtxoMutation list \<Rightarrow> UtxoSet
    \<Rightarrow> (UtxoSet, StateError, UtxoMutation list) run" where
  "create_outputs C tx_id height cb idx [] muts u = (Ok muts, u)"
| "create_outputs C tx_id height cb idx (out # outs) muts u =
     (let op = outpoint tx_id (of_nat idx);
          entry = \<lparr>ue_output = out, ue_height = height, ue_is_coinbase = cb\<rparr> in
      sbind (UtxoSet_insert C op entry u) (\<lambda>_ u.
        create_outputs C tx_id height cb (Suc idx) outs (muts @ [Insert op entry]) u))"

definition apply_transaction :: "crypto \<Rightarrow> Transaction \<Rightarrow> u64 \<Rightarrow> UtxoSet
    \<Rightarrow> (UtxoSet, StateError, UtxoMutation list) run" where
  "apply_transaction C tx height u =
     sbind (map_err Serialization (compute_tx_id C tx), u) (\<lambda>tx_id u.
     sbind (if is_coinbase tx then (Ok [], u) else spend_inputs C (inputs tx) [] u) (\<lambda>muts u.
       create_outputs C tx_id height (is_coinbase tx) 0 (outputs tx) muts u))"

fun undo_outputs :: "crypto \<Rightarrow> bytes \<Rightarrow> nat list \<Rightarrow> UtxoSet \<Rightarrow> (UtxoSet, StateError, unit) run" where
  "undo_outputs C tx_id [] u = (Ok (), u)"
| "undo_outputs C tx_id (idx # ids) u =
     sbind (UtxoSet_remove C (outpoint tx_id (of_nat idx)) u) (\<lambda>r u.
       if r = None then (Err (OutputNotFound (outpoint tx_id (of_nat idx))), u)
       else undo_outputs C tx_id ids u)"

fun restore_inputs :: "crypto \<Rightarrow> (OutPoint \<times> UtxoEntry) list \<Rightarrow> UtxoSet \<Rightarrow> (UtxoSet, StateError, unit) run" where
  "restore_inputs C [] u = (Ok (), u)"
| "restore_inputs C ((op, entry) # prev) u =
     (if UtxoSet_contains u op then (Err (DuplicateRestore op), u)
      else sbind (UtxoSet_insert C op entry u) (\<lambda>_ u. restore_inputs C prev u))"

definition undo_transaction :: "crypto \<Rightarrow> Transaction \<Rightarrow> (OutPoint \<times> UtxoEntry) list \<Rightarrow> UtxoSet
    \<Rightarrow> (UtxoSet, StateError, unit) run" where
  "undo_transaction C tx prev_utxos u =
     (if \<not> is_coinbase tx \<and> length prev_utxos \<noteq> length (inputs tx)
      then (Err (IncompleteUndo (length (inputs tx)) (length prev_utxos)), u)
      else
        sbind (map_err Serialization (compute_tx_id C tx), u) (\<lambda>tx_id u.
        sbind (undo_outputs C tx_id [0..<length (outputs tx)] u) (\<lambda>_ u.
        restore_inputs C prev_utxos u)))"

fun drop_outputs :: "crypto \<Rightarrow> bytes \<Rightarrow> nat list \<Rightarrow> UtxoSet \<Rightarrow> (UtxoSet, StateError, unit) run" where
  "drop_outputs C tx_id [] u = (Ok (), u)"
| "drop_outputs C tx_id (idx # ids) u =
     sbind (UtxoSet_remove C (outpoint tx_id (of_nat idx)) u) (\<lambda>_ u. drop_outputs C tx_id ids u)"

fun restore_missing :: "crypto \<Rightarrow> (OutPoint \<times> UtxoEntry) list \<Rightarrow> UtxoSet \<Rightarrow> (UtxoSet, StateError, unit) run" where
  "restore_missing C [] u = (Ok (), u)"
| "restore_missing C ((op, entry) # prev) u =
     (if UtxoSet_contains u op then restore_missing C prev u
      else sbind (UtxoSet_insert C op entry u) (\<lambda>_ u. restore_missing C prev u))"

definition undo_partial_transaction :: "crypto \<Rightarrow> Transaction \<Rightarrow> (OutPoint \<times> UtxoEntry) list \<Rightarrow> UtxoSet
    \<Rightarrow> (UtxoSet, StateError, unit) run" where
  "undo_partial_transaction C tx prev_utxos u =
     sbind (map_err Serialization (compute_tx_id C tx), u) (\<lambda>tx_id u.
     sbind (drop_outputs C tx_id [0..<length (outputs tx)] u) (\<lambda>_ u.
       if is_coinbase tx then (Ok (), u) else restore_missing C prev_utxos u))"


section \<open>Queries by script\<close>

text \<open>The maturity in blocks is a setting of the process (\<open>coinbase_maturity\<close>), an argument here.\<close>

definition mature :: "u64 \<Rightarrow> u64 \<Rightarrow> UtxoEntry \<Rightarrow> bool" where
  "mature coinbase_maturity current_height entry \<longleftrightarrow>
     \<not> (ue_is_coinbase entry \<and> saturating_sub current_height (ue_height entry) < coinbase_maturity)"

fun balance_loop :: "u64 \<Rightarrow> UtxoSet \<Rightarrow> u64 \<Rightarrow> OutPoint list \<Rightarrow> u64 \<Rightarrow> u64" where
  "balance_loop M u h [] acc = acc"
| "balance_loop M u h (op # ops) acc = (case utxos u op of
     Some entry \<Rightarrow>
       if \<not> mature M h entry then balance_loop M u h ops acc
       else balance_loop M u h ops (saturating_add acc (out_value (ue_output entry)))
   | None \<Rightarrow> balance_loop M u h ops acc)"

definition balance_for_script :: "u64 \<Rightarrow> UtxoSet \<Rightarrow> bytes \<Rightarrow> u64 \<Rightarrow> u64" where
  "balance_for_script M u script current_height = (case by_script u script of
     None \<Rightarrow> 0
   | Some S \<Rightarrow> balance_loop M u current_height (sorted_list_of_set S) 0)"

type_synonym utxo_row = "OutPoint \<times> u64 \<times> u64 \<times> bool"

fun page_loop :: "u64 \<Rightarrow> UtxoSet \<Rightarrow> u64 \<Rightarrow> nat \<Rightarrow> OutPoint list \<Rightarrow> utxo_row list \<Rightarrow> utxo_row list" where
  "page_loop M u h limit [] results = results"
| "page_loop M u h limit (op # ops) results = (case utxos u op of
     Some entry \<Rightarrow>
       if mature M h entry then
         (let results = results @ [(op, out_value (ue_output entry), ue_height entry, ue_is_coinbase entry)] in
          if length results \<ge> limit then results else page_loop M u h limit ops results)
       else page_loop M u h limit ops results
   | None \<Rightarrow> page_loop M u h limit ops results)"

definition utxos_for_script :: "u64 \<Rightarrow> UtxoSet \<Rightarrow> bytes \<Rightarrow> u64 \<Rightarrow> nat \<Rightarrow> utxo_row list" where
  "utxos_for_script M u script current_height limit = (case by_script u script of
     None \<Rightarrow> []
   | Some S \<Rightarrow> page_loop M u current_height limit (sorted_list_of_set S) [])"

definition utxos_for_script_paged ::
  "u64 \<Rightarrow> UtxoSet \<Rightarrow> bytes \<Rightarrow> u64 \<Rightarrow> OutPoint option \<Rightarrow> nat \<Rightarrow> utxo_row list" where
  "utxos_for_script_paged M u script current_height after limit = (case by_script u script of
     None \<Rightarrow> []
   | Some S \<Rightarrow>
       (let ops = (case after of
          Some cursor \<Rightarrow> filter (\<lambda>op. cursor < op) (sorted_list_of_set S)
        | None \<Rightarrow> sorted_list_of_set S) in
        page_loop M u current_height limit ops []))"

end
