(* ===== verification/Utxo_Undo.thy ===== *)
theory Utxo_Undo
  imports Utxo_State
begin

text \<open>
  The invariant of the set of unspent outputs and the undo operations of \<open>chain/state.rs\<close>.
  The script index and the tree are functions of the entries; insertion and removal keep
  that; a transaction that was applied is undone exactly, and one that failed half-way is
  rolled back. \<open>no_collision\<close> is the assumption that the leaf keys (digests of outpoints) of
  the outpoints in play differ, \<open>room\<close> that the arena of the tree has free 32-bit indices.
\<close>


section \<open>The invariant\<close>

definition okey :: "crypto \<Rightarrow> OutPoint \<Rightarrow> bytes" where
  "okey C op = leaf_key C (op_tx_id op) (op_output_index op)"

definition entry_leaf :: "crypto \<Rightarrow> UtxoEntry \<Rightarrow> bytes" where
  "entry_leaf C e = (case TxOutput_serialize (ue_output e) of
     Inl _ \<Rightarrow> [] | Inr b \<Rightarrow> leaf_value C b (ue_height e) (ue_is_coinbase e))"

definition serializable :: "UtxoEntry \<Rightarrow> bool" where
  "serializable e \<longleftrightarrow> (\<exists>b. TxOutput_serialize (ue_output e) = Ok b)"

text \<open>The leaves of the tree for the entries \<open>m\<close>; \<open>D\<close> is a set of outpoints in play whose
  leaf keys do not collide.\<close>

definition leaves_of :: "crypto \<Rightarrow> OutPoint set \<Rightarrow> (OutPoint \<rightharpoonup> UtxoEntry) \<Rightarrow> (bytes \<rightharpoonup> bytes) \<Rightarrow> bool" where
  "leaves_of C D m L \<longleftrightarrow> dom L \<subseteq> okey C ` D \<and> (\<forall>op\<in>D. L (okey C op) = map_option (entry_leaf C) (m op))"

definition script_outpoints :: "(OutPoint \<rightharpoonup> UtxoEntry) \<Rightarrow> bytes \<Rightarrow> OutPoint set" where
  "script_outpoints m s = {op. \<exists>e. m op = Some e \<and> out_script (ue_output e) = s}"

definition index_of :: "(OutPoint \<rightharpoonup> UtxoEntry) \<Rightarrow> (bytes \<rightharpoonup> OutPoint set)" where
  "index_of m = (\<lambda>s. if script_outpoints m s = {} then None else Some (script_outpoints m s))"

definition utxo_inv :: "crypto \<Rightarrow> OutPoint set \<Rightarrow> UtxoSet \<Rightarrow> bool" where
  "utxo_inv C D u \<longleftrightarrow> finite (dom (utxos u)) \<and> dom (utxos u) \<subseteq> D \<and> (\<forall>e\<in>ran (utxos u). serializable e)
     \<and> by_script u = index_of (utxos u) \<and> (\<exists>L. leaves_of C D (utxos u) L \<and> smt_rep C (smt u) L)"

definition no_collision :: "crypto \<Rightarrow> OutPoint set \<Rightarrow> bool" where
  "no_collision C D \<longleftrightarrow> digest32 C \<and> inj_on (okey C) D"

definition room :: "nat \<Rightarrow> UtxoSet \<Rightarrow> bool" where
  "room n u \<longleftrightarrow> length (arena (smt u)) + 4 * n \<le> 2 ^ 32"

lemma room_mono: "room n u \<Longrightarrow> k \<le> n \<Longrightarrow> room k u"
  by (simp add: room_def)

lemma length_okey: "digest32 C \<Longrightarrow> length (okey C op) = 32"
  by (simp add: okey_def leaf_key_def domain_hash_def digest32_def)

lemma leaves_of_unique: "leaves_of C D m L \<Longrightarrow> leaves_of C D m L' \<Longrightarrow> L = L'"
proof (rule ext)
  fix k assume L: "leaves_of C D m L" "leaves_of C D m L'"
  show "L k = L' k"
  proof (cases "k \<in> okey C ` D")
    case True
    then show ?thesis using L by (auto simp: leaves_of_def)
  next
    case False
    then have "k \<notin> dom L" "k \<notin> dom L'" using L by (auto simp: leaves_of_def)
    then show ?thesis by (simp add: domIff)
  qed
qed

text \<open>The index and the root are functions of the entries.\<close>

lemma utxo_inv_determined:
  assumes "utxo_inv C D u" "utxo_inv C D u'" "utxos u = utxos u'"
  shows "by_script u = by_script u'" "UtxoSet_state_root u = UtxoSet_state_root u'"
proof -
  show "by_script u = by_script u'" using assms by (simp add: utxo_inv_def)
  obtain L L' where "leaves_of C D (utxos u) L" "smt_rep C (smt u) L"
    "leaves_of C D (utxos u) L'" "smt_rep C (smt u') L'" using assms by (auto simp: utxo_inv_def)
  then show "UtxoSet_state_root u = UtxoSet_state_root u'"
    using leaves_of_unique[of C D "utxos u" L L'] smt.commit_history_free[of C "smt u" L "smt u'"]
    by (simp add: UtxoSet_state_root_def)
qed

lemma utxo_inv_new: "utxo_inv C D (UtxoSet_new C)"
proof -
  have "leaves_of C D Map.empty Map.empty" by (simp add: leaves_of_def)
  then show ?thesis using smt_rep_new[of C]
    by (auto simp: utxo_inv_def UtxoSet_new_def index_of_def script_outpoints_def)
qed

lemma index_of_insert:
  "m op = None \<Longrightarrow> index_of (m(op \<mapsto> e)) = index_add op (out_script (ue_output e)) (index_of m)"
  by (auto simp: index_of_def index_add_def script_outpoints_def fun_eq_iff split: if_splits)

lemma index_of_remove:
  "m op = Some e \<Longrightarrow> index_of (m(op := None)) = index_del op (out_script (ue_output e)) (index_of m)"
proof (rule ext)
  fix s assume m: "m op = Some e"
  have S: "script_outpoints (m(op := None)) s = script_outpoints m s - {op}" for s
    by (auto simp: script_outpoints_def)
  have "op \<in> script_outpoints m (out_script (ue_output e))" using m by (simp add: script_outpoints_def)
  moreover have "op \<notin> script_outpoints m s" if "s \<noteq> out_script (ue_output e)"
    using m that by (auto simp: script_outpoints_def)
  ultimately show "index_of (m(op := None)) s = index_del op (out_script (ue_output e)) (index_of m) s"
    by (cases "s = out_script (ue_output e)") (auto simp: index_of_def index_del_def S Let_def)
qed

lemma leaves_of_insert:
  "inj_on (okey C) D \<Longrightarrow> op \<in> D \<Longrightarrow> leaves_of C D m L \<Longrightarrow>
    leaves_of C D (m(op \<mapsto> e)) (L(okey C op \<mapsto> entry_leaf C e))"
  by (auto simp: leaves_of_def inj_on_def split: if_splits)

lemma leaves_of_remove:
  "inj_on (okey C) D \<Longrightarrow> op \<in> D \<Longrightarrow> leaves_of C D m L \<Longrightarrow>
    leaves_of C D (m(op := None)) (L(okey C op := None))"
  by (auto simp: leaves_of_def inj_on_def split: if_splits)

lemma UtxoSet_insert_ok:
  assumes nc: "no_collision C D" and inv: "utxo_inv C D u" and op: "op \<in> D" "utxos u op = None"
    and e: "serializable e" and room: "room 1 u"
  shows "\<exists>u'. UtxoSet_insert C op e u = (Ok (), u') \<and> utxo_inv C D u' \<and> utxos u' = (utxos u)(op \<mapsto> e)
    \<and> length (arena (smt u')) \<le> length (arena (smt u)) + 4"
proof -
  obtain b where b: "TxOutput_serialize (ue_output e) = Ok b" using e by (auto simp: serializable_def)
  obtain L where L: "leaves_of C D (utxos u) L" "smt_rep C (smt u) L" using inv by (auto simp: utxo_inv_def)
  have C: "digest32 C" "inj_on (okey C) D" using nc by (simp_all add: no_collision_def)
  obtain t where t: "SparseMerkleTree_insert C (smt u) (okey C op) (entry_leaf C e) = Some t"
    "smt_rep C t (L(okey C op \<mapsto> entry_leaf C e))" "length (arena t) \<le> length (arena (smt u)) + 4"
    using smt.ins_rep[OF L(2) length_okey[OF C(1)], of op "entry_leaf C e"] room by (auto simp: room_def)
  let ?u = "u\<lparr>smt := t, utxos := (utxos u)(op \<mapsto> e),
    by_script := index_add op (out_script (ue_output e)) (by_script u)\<rparr>"
  have "UtxoSet_insert C op e u = (Ok (), ?u)"
    using op(2) b t(1) by (simp add: UtxoSet_insert_def okey_def entry_leaf_def)
  moreover have "utxo_inv C D ?u"
    using inv op e t(2) leaves_of_insert[OF C(2) op(1) L(1), of e] index_of_insert[of "utxos u" op e]
    by (auto simp: utxo_inv_def ran_def)
  ultimately show ?thesis using t(3) by auto
qed

lemma UtxoSet_remove_ok:
  assumes nc: "no_collision C D" and inv: "utxo_inv C D u" and op: "utxos u op = Some e"
  shows "\<exists>u'. UtxoSet_remove C op u = (Ok (Some e), u') \<and> utxo_inv C D u' \<and> utxos u' = (utxos u)(op := None)
    \<and> length (arena (smt u')) \<le> length (arena (smt u))"
proof -
  obtain L where L: "leaves_of C D (utxos u) L" "smt_rep C (smt u) L" using inv by (auto simp: utxo_inv_def)
  have C: "digest32 C" "inj_on (okey C) D" using nc by (simp_all add: no_collision_def)
  have D: "op \<in> D" using inv op by (auto simp: utxo_inv_def)
  obtain t where t: "SparseMerkleTree_remove C (smt u) (okey C op) = Some t"
    "smt_rep C t (L(okey C op := None))" "length (arena t) \<le> length (arena (smt u))"
    using smt.del_rep[OF L(2) length_okey[OF C(1)], of op] by auto
  let ?u = "u\<lparr>utxos := (utxos u)(op := None), smt := t,
    by_script := index_del op (out_script (ue_output e)) (by_script u)\<rparr>"
  have "UtxoSet_remove C op u = (Ok (Some e), ?u)"
    using op t(1) by (simp add: UtxoSet_remove_def okey_def)
  moreover have "utxo_inv C D ?u"
    using inv op t(2) leaves_of_remove[OF C(2) D L(1)] index_of_remove[of "utxos u" op e]
    by (auto simp: utxo_inv_def ran_def)
  ultimately show ?thesis using t(3) by auto
qed

lemma UtxoSet_remove_None: "utxos u op = None \<Longrightarrow> UtxoSet_remove C op u = (Ok None, u)"
  by (simp add: UtxoSet_remove_def)



section \<open>The mutation log\<close>

text \<open>What an entry of the log says about the map, forwards and backwards.\<close>

fun redo :: "UtxoMutation \<Rightarrow> (OutPoint \<rightharpoonup> UtxoEntry) \<Rightarrow> (OutPoint \<rightharpoonup> UtxoEntry) option" where
  "redo (Insert op e) m = (if m op = None then Some (m(op \<mapsto> e)) else None)"
| "redo (Remove op e) m = (if m op = Some e then Some (m(op := None)) else None)"

fun revert :: "UtxoMutation \<Rightarrow> (OutPoint \<rightharpoonup> UtxoEntry) \<Rightarrow> (OutPoint \<rightharpoonup> UtxoEntry) option" where
  "revert (Insert op e) m = (if m op = Some e then Some (m(op := None)) else None)"
| "revert (Remove op e) m = (if m op = None then Some (m(op \<mapsto> e)) else None)"

fun replay :: "('m \<Rightarrow> 's \<Rightarrow> 's option) \<Rightarrow> 'm list \<Rightarrow> 's \<Rightarrow> 's option" where
  "replay f [] s = Some s"
| "replay f (x # xs) s = Option.bind (f x s) (replay f xs)"

lemma replay_append: "replay f (xs @ ys) s = Option.bind (replay f xs s) (replay f ys)"
  by (induction xs arbitrary: s) (auto split: Option.bind_split)

lemma revert_redo: "redo x m = Some m' \<Longrightarrow> revert x m' = Some m"
  by (cases x) (auto simp: fun_upd_idem split: if_splits)

lemma replay_rev: "replay redo xs m = Some m' \<Longrightarrow> replay revert (rev xs) m' = Some m"
proof (induction xs arbitrary: m)
  case (Cons x xs)
  then obtain m1 where "redo x m = Some m1" "replay redo xs m1 = Some m'"
    by (auto simp: Option.bind_eq_Some_conv)
  then show ?case using Cons.IH revert_redo[of x m m1] by (simp add: replay_append)
qed simp

abbreviation removals :: "(OutPoint \<times> UtxoEntry) list \<Rightarrow> UtxoMutation list" where
  "removals sp \<equiv> map (\<lambda>(op, e). Remove op e) sp"

lemma collect_append: "collect_spent_utxos (xs @ ys) = collect_spent_utxos xs @ collect_spent_utxos ys"
  by (induction xs rule: collect_spent_utxos.induct) auto

lemma collect_removals [simp]: "collect_spent_utxos (removals sp) = sp"
  by (induction sp) auto


lemma replay_removals_dom:
  "replay redo (removals sp) m = Some m' \<Longrightarrow> dom m' = dom m - fst ` set sp"
proof (induction sp arbitrary: m)
  case (Cons a sp)
  obtain op e where a: "a = (op, e)" by (cases a)
  then have "replay redo (removals sp) (m(op := None)) = Some m'" using Cons.prems by (auto split: if_splits)
  from Cons.IH[OF this] show ?case using a by (auto split: if_splits)
qed simp


section \<open>Spending and creating\<close>

lemma spend_inputs_spec:
  assumes nc: "no_collision C D" and inv: "utxo_inv C D u"
  shows "\<exists>r u'. spend_inputs C is muts u = (r, u') \<and> utxo_inv C D u'
    \<and> length (arena (smt u')) \<le> length (arena (smt u))
    \<and> (\<forall>op. utxos u' op = utxos u op \<or> op \<in> input_outpoint ` set is \<and> utxos u' op = None)
    \<and> (case r of
        Inr ms \<Rightarrow> \<exists>sp. ms = muts @ removals sp \<and> map fst sp = map input_outpoint is
          \<and> replay redo (removals sp) (utxos u) = Some (utxos u')
      | Inl e \<Rightarrow> \<exists>i\<in>set is. e = InputNotFound (input_outpoint i))
    \<and> ((\<exists>ms. r = Ok ms) \<longleftrightarrow> distinct (map input_outpoint is) \<and> input_outpoint ` set is \<subseteq> dom (utxos u))"
  using inv
proof (induction "is" arbitrary: muts u)
  case (Cons i "is")
  let ?op = "input_outpoint i"
  show ?case
  proof (cases "utxos u ?op")
    case None
    then have "spend_inputs C (i # is) muts u = (Err (InputNotFound ?op), u)"
      using UtxoSet_remove_None[of u ?op C] by simp
    then show ?thesis using Cons.prems None by auto
  next
    case (Some e)
    from UtxoSet_remove_ok[OF nc Cons.prems Some] obtain u1 where u1:
      "UtxoSet_remove C ?op u = (Ok (Some e), u1)" "utxo_inv C D u1" "utxos u1 = (utxos u)(?op := None)"
      "length (arena (smt u1)) \<le> length (arena (smt u))" by blast
    from Cons.IH[OF u1(2), of "muts @ [Remove ?op e]"] obtain r u' where r:
      "spend_inputs C is (muts @ [Remove ?op e]) u1 = (r, u')" "utxo_inv C D u'"
      "length (arena (smt u')) \<le> length (arena (smt u1))"
      "\<forall>op. utxos u' op = utxos u1 op \<or> op \<in> input_outpoint ` set is \<and> utxos u' op = None"
      "case r of
        Inr ms \<Rightarrow> \<exists>sp. ms = (muts @ [Remove ?op e]) @ removals sp \<and> map fst sp = map input_outpoint is
          \<and> replay redo (removals sp) (utxos u1) = Some (utxos u')
      | Inl e \<Rightarrow> \<exists>i\<in>set is. e = InputNotFound (input_outpoint i)"
      "(\<exists>ms. r = Ok ms) \<longleftrightarrow> distinct (map input_outpoint is) \<and> input_outpoint ` set is \<subseteq> dom (utxos u1)"
      by blast
    have run: "spend_inputs C (i # is) muts u = (r, u')" using u1(1) r(1) by simp
    have frame: "\<forall>op. utxos u' op = utxos u op \<or> op \<in> input_outpoint ` set (i # is) \<and> utxos u' op = None"
    proof
      fix op show "utxos u' op = utxos u op \<or> op \<in> input_outpoint ` set (i # is) \<and> utxos u' op = None"
        using r(4) u1(3) by (cases "op = ?op") (auto dest: spec[of _ op])
    qed
    have res: "case r of
        Inr ms \<Rightarrow> \<exists>sp. ms = muts @ removals sp \<and> map fst sp = map input_outpoint (i # is)
          \<and> replay redo (removals sp) (utxos u) = Some (utxos u')
      | Inl e \<Rightarrow> \<exists>i\<in>set (i # is). e = InputNotFound (input_outpoint i)"
    proof (cases r)
      case (Inr ms)
      then obtain sp where "ms = muts @ removals ((?op, e) # sp)" "map fst sp = map input_outpoint is"
        "replay redo (removals sp) (utxos u1) = Some (utxos u')" using r(5) by auto
      then show ?thesis using Inr Some u1(3) by (auto intro!: exI[of _ "(?op, e) # sp"])
    qed (use r(5) in auto)
    have "(\<exists>ms. r = Ok ms) \<longleftrightarrow> distinct (map input_outpoint (i # is)) \<and> input_outpoint ` set (i # is) \<subseteq> dom (utxos u)"
    proof -
      have "dom (utxos u1) = dom (utxos u) - {?op}" using u1(3) by auto
      moreover have "?op \<in> dom (utxos u)" using Some by auto
      ultimately show ?thesis using r(6) by (auto simp: subset_Diff_insert)
    qed
    then show ?thesis using run frame res r(2,3) u1(4) by (intro exI[of _ r] exI[of _ u']) simp
  qed
qed (auto intro: exI[of _ "[]"])

text \<open>The outputs of a transaction as entries, with their outpoints.\<close>

fun output_entries :: "bytes \<Rightarrow> u64 \<Rightarrow> bool \<Rightarrow> nat \<Rightarrow> TxOutput list \<Rightarrow> (OutPoint \<times> UtxoEntry) list" where
  "output_entries tx_id height cb idx [] = []"
| "output_entries tx_id height cb idx (out # outs) =
     (outpoint tx_id (of_nat idx), \<lparr>ue_output = out, ue_height = height, ue_is_coinbase = cb\<rparr>)
     # output_entries tx_id height cb (Suc idx) outs"

abbreviation creations :: "(OutPoint \<times> UtxoEntry) list \<Rightarrow> UtxoMutation list" where
  "creations es \<equiv> map (\<lambda>(op, e). Insert op e) es"

lemma collect_creations [simp]: "collect_spent_utxos (creations es) = []"
  by (induction es) auto

lemma output_entries_ops:
  "map fst (output_entries tx_id height cb idx outs)
     = map (\<lambda>i. outpoint tx_id (of_nat i)) [idx..<idx + length outs]"
  by (induction outs arbitrary: idx) (auto simp: upt_conv_Cons simp del: upt_Suc)

lemma outpoint_inj: "inj_on (\<lambda>i. outpoint tx_id (of_nat i)) {..<2 ^ 32}"
  by (auto simp: inj_on_def outpoint_def word_unat_eq_iff unat_of_nat)

lemma output_entries_distinct:
  "idx + length outs \<le> 2 ^ 32 \<Longrightarrow> distinct (map fst (output_entries tx_id height cb idx outs))"
  unfolding output_entries_ops
  by (subst distinct_map) (auto intro!: inj_on_subset[OF outpoint_inj])

lemma create_outputs_spec:
  assumes nc: "no_collision C D" and "utxo_inv C D u" "room (length outs) u"
    and "fst ` set (output_entries tx_id height cb idx outs) \<subseteq> D" "idx + length outs \<le> 2 ^ 32"
    and "\<forall>out\<in>set outs. \<exists>b. TxOutput_serialize out = Ok b"
  shows "\<exists>r u'. create_outputs C tx_id height cb idx outs muts u = (r, u') \<and> utxo_inv C D u'
    \<and> length (arena (smt u')) \<le> length (arena (smt u)) + 4 * length outs
    \<and> (\<forall>op. utxos u' op = utxos u op \<or> op \<in> fst ` set (output_entries tx_id height cb idx outs))
    \<and> (case r of
        Inr ms \<Rightarrow> ms = muts @ creations (output_entries tx_id height cb idx outs)
          \<and> replay redo (creations (output_entries tx_id height cb idx outs)) (utxos u) = Some (utxos u')
      | Inl e \<Rightarrow> \<exists>op\<in>fst ` set (output_entries tx_id height cb idx outs). e = DuplicateOutpoint op)
    \<and> ((\<exists>ms. r = Ok ms) \<longleftrightarrow> fst ` set (output_entries tx_id height cb idx outs) \<inter> dom (utxos u) = {})"
  using assms(2-)
proof (induction outs arbitrary: idx muts u)
  case (Cons out outs)
  let ?op = "outpoint tx_id (of_nat idx)"
  let ?e = "\<lparr>ue_output = out, ue_height = height, ue_is_coinbase = cb\<rparr>"
  let ?es = "output_entries tx_id height cb (Suc idx) outs"
  show ?case
  proof (cases "utxos u ?op")
    case (Some x)
    then have "create_outputs C tx_id height cb idx (out # outs) muts u = (Err (DuplicateOutpoint ?op), u)"
      by (simp add: UtxoSet_insert_def Let_def)
    then show ?thesis using Cons.prems Some by auto
  next
    case None
    have ser: "serializable ?e" using Cons.prems(5) by (simp add: serializable_def)
    have op: "?op \<in> D" "room 1 u" using Cons.prems(2,3) by (auto intro: room_mono)
    from UtxoSet_insert_ok[OF nc Cons.prems(1) op(1) None ser op(2)] obtain u1 where u1:
      "UtxoSet_insert C ?op ?e u = (Ok (), u1)" "utxo_inv C D u1" "utxos u1 = (utxos u)(?op \<mapsto> ?e)"
      "length (arena (smt u1)) \<le> length (arena (smt u)) + 4" by blast
    have p: "room (length outs) u1" "fst ` set ?es \<subseteq> D" "Suc idx + length outs \<le> 2 ^ 32"
      "\<forall>out\<in>set outs. \<exists>b. TxOutput_serialize out = Ok b"
      using Cons.prems u1(4) by (auto simp: room_def)
    from Cons.IH[OF u1(2) p, of "muts @ [Insert ?op ?e]"] obtain r u' where r:
      "create_outputs C tx_id height cb (Suc idx) outs (muts @ [Insert ?op ?e]) u1 = (r, u')" "utxo_inv C D u'"
      "length (arena (smt u')) \<le> length (arena (smt u1)) + 4 * length outs"
      "\<forall>op. utxos u' op = utxos u1 op \<or> op \<in> fst ` set ?es"
      "case r of
        Inr ms \<Rightarrow> ms = (muts @ [Insert ?op ?e]) @ creations ?es
          \<and> replay redo (creations ?es) (utxos u1) = Some (utxos u')
      | Inl e \<Rightarrow> \<exists>op\<in>fst ` set ?es. e = DuplicateOutpoint op"
      "(\<exists>ms. r = Ok ms) \<longleftrightarrow> fst ` set ?es \<inter> dom (utxos u1) = {}"
      by blast
    have run: "create_outputs C tx_id height cb idx (out # outs) muts u = (r, u')"
      using u1(1) r(1) by (simp add: Let_def)
    have new: "?op \<notin> fst ` set ?es"
      using output_entries_distinct[OF Cons.prems(4), of tx_id height cb] by (simp add: image_def)
    have "\<forall>op. utxos u' op = utxos u op \<or> op \<in> fst ` set (output_entries tx_id height cb idx (out # outs))"
      using r(4) u1(3) by (auto split: if_splits)
    moreover have "case r of
        Inr ms \<Rightarrow> ms = muts @ creations (output_entries tx_id height cb idx (out # outs))
          \<and> replay redo (creations (output_entries tx_id height cb idx (out # outs))) (utxos u) = Some (utxos u')
      | Inl e \<Rightarrow> \<exists>op\<in>fst ` set (output_entries tx_id height cb idx (out # outs)). e = DuplicateOutpoint op"
      using r(5) None u1(3) by (cases r) simp_all
    moreover have "(\<exists>ms. r = Ok ms) \<longleftrightarrow>
        fst ` set (output_entries tx_id height cb idx (out # outs)) \<inter> dom (utxos u) = {}"
      using r(6) None new u1(3) by auto
    ultimately show ?thesis using run r(2,3) u1(4) by (intro exI[of _ r] exI[of _ u']) simp
  qed
qed auto


section \<open>Applying a transaction\<close>

abbreviation tx_entries :: "bytes \<Rightarrow> u64 \<Rightarrow> Transaction \<Rightarrow> (OutPoint \<times> UtxoEntry) list" where
  "tx_entries tx_id height tx \<equiv> output_entries tx_id height (is_coinbase tx) 0 (outputs tx)"

definition tx_outpoints :: "bytes \<Rightarrow> Transaction \<Rightarrow> OutPoint set" where
  "tx_outpoints tx_id tx = (\<lambda>i. outpoint tx_id (of_nat i)) ` {0..<length (outputs tx)}"

lemma tx_entries_outpoints: "fst ` set (tx_entries tx_id height tx) = tx_outpoints tx_id tx"
  using arg_cong[OF output_entries_ops[of tx_id height "is_coinbase tx" 0 "outputs tx"], of set]
  by (simp add: tx_outpoints_def)

lemma enc_loop_each: "enc_loop enc xs = Ok b \<Longrightarrow> x \<in> set xs \<Longrightarrow> \<exists>c. enc x = Ok c"
  by (induction xs arbitrary: b) (auto simp: result_simps)

lemma compute_tx_id_outputs:
  assumes "compute_tx_id C tx = Ok tx_id"
  shows "length (outputs tx) \<le> 65535" "\<forall>out\<in>set (outputs tx). \<exists>b. TxOutput_serialize out = Ok b"
  using assms enc_loop_each[of TxOutput_serialize "outputs tx"]
  by (auto simp: compute_tx_id_def signing_bytes_def serialize_header_def serialize_body_def result_simps
      split: if_splits)

text \<open>The inputs that a transaction spends: a coinbase has a placeholder.\<close>

definition spent_inputs :: "Transaction \<Rightarrow> TxInput list" where
  "spent_inputs tx = (if is_coinbase tx then [] else inputs tx)"

definition ready :: "crypto \<Rightarrow> OutPoint set \<Rightarrow> Transaction \<Rightarrow> bytes \<Rightarrow> UtxoSet \<Rightarrow> bool" where
  "ready C D tx tx_id u \<longleftrightarrow> no_collision C D \<and> utxo_inv C D u \<and> compute_tx_id C tx = Ok tx_id
     \<and> tx_outpoints tx_id tx \<subseteq> D \<and> room (length (inputs tx) + length (outputs tx)) u"

lemma apply_transaction_spec:
  assumes "ready C D tx tx_id u"
  shows "\<exists>r u'. apply_transaction C tx height u = (r, u') \<and> utxo_inv C D u'
    \<and> length (arena (smt u')) \<le> length (arena (smt u)) + 4 * length (outputs tx)
    \<and> (\<forall>op. utxos u' op = utxos u op \<or> op \<in> input_outpoint ` set (spent_inputs tx) \<and> utxos u' op = None
        \<or> op \<in> tx_outpoints tx_id tx)
    \<and> (case r of
        Inr ms \<Rightarrow> \<exists>sp. ms = removals sp @ creations (tx_entries tx_id height tx)
          \<and> map fst sp = map input_outpoint (spent_inputs tx)
          \<and> replay redo ms (utxos u) = Some (utxos u')
      | Inl e \<Rightarrow> (\<exists>i\<in>set (spent_inputs tx). e = InputNotFound (input_outpoint i))
          \<or> (\<exists>op\<in>tx_outpoints tx_id tx. e = DuplicateOutpoint op))
    \<and> ((\<exists>ms. r = Ok ms) \<longleftrightarrow> distinct (map input_outpoint (spent_inputs tx))
        \<and> input_outpoint ` set (spent_inputs tx) \<subseteq> dom (utxos u)
        \<and> tx_outpoints tx_id tx \<inter> (dom (utxos u) - input_outpoint ` set (spent_inputs tx)) = {})"
proof -
  from assms have nc: "no_collision C D" and inv: "utxo_inv C D u" and id: "compute_tx_id C tx = Ok tx_id"
    and D: "tx_outpoints tx_id tx \<subseteq> D" and room: "room (length (inputs tx) + length (outputs tx)) u"
    by (simp_all add: ready_def)
  have spend: "(if is_coinbase tx then (Ok [], u) else spend_inputs C (inputs tx) [] u)
    = spend_inputs C (spent_inputs tx) [] u" by (simp add: spent_inputs_def)
  have unf: "apply_transaction C tx height u = sbind (spend_inputs C (spent_inputs tx) [] u)
    (\<lambda>muts u. create_outputs C tx_id height (is_coinbase tx) 0 (outputs tx) muts u)"
    by (simp add: apply_transaction_def id spend)
  let ?ins = "input_outpoint ` set (spent_inputs tx)"
  from spend_inputs_spec[OF nc inv, of "spent_inputs tx" "[]"] obtain r1 u1 where r1:
    "spend_inputs C (spent_inputs tx) [] u = (r1, u1)" "utxo_inv C D u1"
    "length (arena (smt u1)) \<le> length (arena (smt u))"
    "\<forall>op. utxos u1 op = utxos u op \<or> op \<in> ?ins \<and> utxos u1 op = None"
    "case r1 of
        Inr ms \<Rightarrow> \<exists>sp. ms = [] @ removals sp \<and> map fst sp = map input_outpoint (spent_inputs tx)
          \<and> replay redo (removals sp) (utxos u) = Some (utxos u1)
      | Inl e \<Rightarrow> \<exists>i\<in>set (spent_inputs tx). e = InputNotFound (input_outpoint i)"
    "(\<exists>ms. r1 = Ok ms) \<longleftrightarrow> distinct (map input_outpoint (spent_inputs tx)) \<and> ?ins \<subseteq> dom (utxos u)" by blast
  show ?thesis
  proof (cases r1)
    case (Inl e)
    then show ?thesis using r1 unf by auto
  next
    case (Inr ms)
    then obtain sp where sp: "ms = removals sp" "map fst sp = map input_outpoint (spent_inputs tx)"
      "replay redo (removals sp) (utxos u) = Some (utxos u1)" using r1(5) by auto
    have p: "room (length (outputs tx)) u1" "fst ` set (tx_entries tx_id height tx) \<subseteq> D"
      "0 + length (outputs tx) \<le> 2 ^ 32"
      using room r1(3) D compute_tx_id_outputs[OF id] by (auto simp: room_def tx_entries_outpoints)
    from create_outputs_spec[OF nc r1(2) p compute_tx_id_outputs(2)[OF id], of ms] obtain r u' where r:
      "create_outputs C tx_id height (is_coinbase tx) 0 (outputs tx) ms u1 = (r, u')" "utxo_inv C D u'"
      "length (arena (smt u')) \<le> length (arena (smt u1)) + 4 * length (outputs tx)"
      "\<forall>op. utxos u' op = utxos u1 op \<or> op \<in> tx_outpoints tx_id tx"
      "case r of
        Inr ms' \<Rightarrow> ms' = ms @ creations (tx_entries tx_id height tx)
          \<and> replay redo (creations (tx_entries tx_id height tx)) (utxos u1) = Some (utxos u')
      | Inl e \<Rightarrow> \<exists>op\<in>tx_outpoints tx_id tx. e = DuplicateOutpoint op"
      "(\<exists>ms. r = Ok ms) \<longleftrightarrow> tx_outpoints tx_id tx \<inter> dom (utxos u1) = {}"
      unfolding tx_entries_outpoints by blast
    have run: "apply_transaction C tx height u = (r, u')" using unf r1(1) Inr r(1) by simp
    have d1: "dom (utxos u1) = dom (utxos u) - ?ins"
      using replay_removals_dom[OF sp(3)] arg_cong[OF sp(2), of set] by simp
    have "\<forall>op. utxos u' op = utxos u op \<or> op \<in> ?ins \<and> utxos u' op = None \<or> op \<in> tx_outpoints tx_id tx"
      using r(4) r1(4) by metis
    moreover have "case r of
        Inr ms \<Rightarrow> \<exists>sp. ms = removals sp @ creations (tx_entries tx_id height tx)
          \<and> map fst sp = map input_outpoint (spent_inputs tx)
          \<and> replay redo ms (utxos u) = Some (utxos u')
      | Inl e \<Rightarrow> (\<exists>i\<in>set (spent_inputs tx). e = InputNotFound (input_outpoint i))
          \<or> (\<exists>op\<in>tx_outpoints tx_id tx. e = DuplicateOutpoint op)"
      using r(5) sp by (cases r) (auto simp: replay_append)
    moreover have "(\<exists>ms. r = Ok ms) \<longleftrightarrow> distinct (map input_outpoint (spent_inputs tx))
        \<and> ?ins \<subseteq> dom (utxos u) \<and> tx_outpoints tx_id tx \<inter> (dom (utxos u) - ?ins) = {}"
      using r(6) r1(6) Inr d1 by simp
    ultimately show ?thesis using run r(2,3) r1(3) by (intro exI[of _ r] exI[of _ u']) simp
  qed
qed


section \<open>Undoing a transaction\<close>

lemma replay_removals:
  "replay redo (removals sp) m = Some m' \<Longrightarrow>
    distinct (map fst sp) \<and> (\<forall>(op, e)\<in>set sp. m op = Some e) \<and> m' = m |` (- fst ` set sp)"
proof (induction sp arbitrary: m)
  case (Cons a sp)
  obtain op e where a: "a = (op, e)" by (cases a)
  define m1 where "m1 = m(op := None)"
  have m: "m op = Some e" "replay redo (removals sp) m1 = Some m'"
    using Cons.prems a by (auto simp: m1_def split: if_splits)
  from Cons.IH[OF m(2)] have IH: "distinct (map fst sp)" "\<forall>(op, e)\<in>set sp. m1 op = Some e"
    "m' = m1 |` (- fst ` set sp)" by auto
  have "op \<notin> fst ` set sp" using IH(2) by (auto simp: m1_def)
  moreover have "\<forall>(op, e)\<in>set sp. m op = Some e" using IH(2) by (auto simp: m1_def split: if_splits)
  moreover have "m' = m |` (- fst ` set (a # sp))"
    using IH(3) a by (auto simp: m1_def restrict_map_def fun_eq_iff)
  ultimately show ?case using IH(1) a m(1) by auto
qed (simp add: restrict_map_def)

lemma replay_creations:
  "replay redo (creations es) m = Some m' \<Longrightarrow>
    distinct (map fst es) \<and> fst ` set es \<inter> dom m = {} \<and> m' = m ++ map_of es"
proof (induction es arbitrary: m)
  case (Cons a es)
  obtain op e where a: "a = (op, e)" by (cases a)
  define m1 where "m1 = m(op \<mapsto> e)"
  have m: "m op = None" "replay redo (creations es) m1 = Some m'"
    using Cons.prems a by (auto simp: m1_def split: if_splits)
  from Cons.IH[OF m(2)] have IH: "distinct (map fst es)" "fst ` set es \<inter> dom m1 = {}" "m' = m1 ++ map_of es"
    by auto
  have new: "op \<notin> fst ` set es" using IH(2) by (auto simp: m1_def)
  show ?case
  proof (intro conjI)
    show "distinct (map fst (a # es))" using IH(1) new a by simp
    show "fst ` set (a # es) \<inter> dom m = {}" using IH(2) a m(1) by (auto simp: m1_def)
    show "m' = m ++ map_of (a # es)"
      using IH(3) a new by (auto simp: m1_def map_add_def fun_eq_iff map_of_eq_None_iff split: option.splits)
  qed
qed simp

text \<open>Removing a list of outpoints, and inserting a list of entries.\<close>

lemma drop_outputs_ok:
  assumes nc: "no_collision C D" and "utxo_inv C D u"
  shows "\<exists>u'. drop_outputs C tx_id ids u = (Ok (), u') \<and> utxo_inv C D u'
    \<and> length (arena (smt u')) \<le> length (arena (smt u))
    \<and> utxos u' = utxos u |` (- (\<lambda>i. outpoint tx_id (of_nat i)) ` set ids)"
  using assms(2)
proof (induction ids arbitrary: u)
  case (Cons i ids)
  let ?op = "outpoint tx_id (of_nat i)"
  obtain r u1 where u1: "UtxoSet_remove C ?op u = (Ok r, u1)" "utxo_inv C D u1"
    "length (arena (smt u1)) \<le> length (arena (smt u))" "utxos u1 = (utxos u)(?op := None)"
  proof (cases "utxos u ?op")
    case None
    then show ?thesis using that[of None u] UtxoSet_remove_None[of u ?op C] Cons.prems by (simp add: fun_upd_idem)
  next
    case (Some e)
    then show ?thesis using that[of "Some e"] UtxoSet_remove_ok[OF nc Cons.prems Some] by blast
  qed
  from Cons.IH[OF u1(2)] obtain u' where "drop_outputs C tx_id ids u1 = (Ok (), u')" "utxo_inv C D u'"
    "length (arena (smt u')) \<le> length (arena (smt u1))"
    "utxos u' = utxos u1 |` (- (\<lambda>i. outpoint tx_id (of_nat i)) ` set ids)" by blast
  then show ?case using u1 by (auto simp: restrict_map_def fun_eq_iff)
qed (simp add: restrict_map_def)

lemma undo_outputs_drop:
  "distinct (map (\<lambda>i. outpoint tx_id (of_nat i)) ids) \<Longrightarrow>
   \<forall>i\<in>set ids. utxos u (outpoint tx_id (of_nat i)) \<noteq> None \<Longrightarrow>
   undo_outputs C tx_id ids u = drop_outputs C tx_id ids u"
proof (induction ids arbitrary: u)
  case (Cons i ids)
  let ?op = "outpoint tx_id (of_nat i)"
  obtain e where e: "utxos u ?op = Some e" using Cons.prems(2) by auto
  show ?case
  proof (cases "SparseMerkleTree_remove C (smt u) (leaf_key C (op_tx_id ?op) (op_output_index ?op))")
    case None
    then show ?thesis using e by (simp add: UtxoSet_remove_def)
  next
    case (Some t)
    let ?u = "u\<lparr>utxos := (utxos u)(?op := None), smt := t,
      by_script := index_del ?op (out_script (ue_output e)) (by_script u)\<rparr>"
    have "UtxoSet_remove C ?op u = (Ok (Some e), ?u)" using e Some by (simp add: UtxoSet_remove_def)
    moreover have "undo_outputs C tx_id ids ?u = drop_outputs C tx_id ids ?u"
    proof (rule Cons.IH)
      show "\<forall>i\<in>set ids. utxos ?u (outpoint tx_id (of_nat i)) \<noteq> None"
        using Cons.prems by (force simp: image_iff)
    qed (use Cons.prems in simp)
    ultimately show ?thesis by simp
  qed
qed simp

lemma restore_missing_ok:
  assumes nc: "no_collision C D" and "utxo_inv C D u" "room (length prev) u"
    and "fst ` set prev \<subseteq> D" "\<forall>(op, e)\<in>set prev. serializable e"
  shows "\<exists>u'. restore_missing C prev u = (Ok (), u') \<and> utxo_inv C D u'
    \<and> length (arena (smt u')) \<le> length (arena (smt u)) + 4 * length prev
    \<and> utxos u' = map_of prev ++ utxos u"
  using assms(2-)
proof (induction prev arbitrary: u)
  case (Cons a prev)
  obtain op e where a: "a = (op, e)" by (cases a)
  show ?case
  proof (cases "utxos u op")
    case (Some x)
    have "room (length prev) u" using Cons.prems(2) by (auto intro: room_mono)
    from Cons.IH[OF Cons.prems(1) this] obtain u' where u': "restore_missing C prev u = (Ok (), u')" "utxo_inv C D u'"
      "length (arena (smt u')) \<le> length (arena (smt u)) + 4 * length prev" "utxos u' = map_of prev ++ utxos u"
      using Cons.prems by auto
    have m: "map_of prev ++ utxos u = map_of (a # prev) ++ utxos u"
      using Some a by (auto simp: map_add_def fun_eq_iff split: option.splits)
    have "restore_missing C (a # prev) u = (Ok (), u')" using u'(1) a Some by (simp add: UtxoSet_contains_def)
    then show ?thesis unfolding m[symmetric] using u' by (intro exI[of _ u']) simp
  next
    case None
    have op: "op \<in> D" "serializable e" "room 1 u" using Cons.prems a by (auto intro: room_mono)
    from UtxoSet_insert_ok[OF nc Cons.prems(1) op(1) None op(2,3)] obtain u1 where u1:
      "UtxoSet_insert C op e u = (Ok (), u1)" "utxo_inv C D u1" "utxos u1 = (utxos u)(op \<mapsto> e)"
      "length (arena (smt u1)) \<le> length (arena (smt u)) + 4" by blast
    have "room (length prev) u1" using Cons.prems(2) u1(4) by (simp add: room_def)
    from Cons.IH[OF u1(2) this] obtain u' where u': "restore_missing C prev u1 = (Ok (), u')" "utxo_inv C D u'"
      "length (arena (smt u')) \<le> length (arena (smt u1)) + 4 * length prev" "utxos u' = map_of prev ++ utxos u1"
      using Cons.prems by auto
    have m: "map_of prev ++ utxos u1 = map_of (a # prev) ++ utxos u"
      using None a u1(3) by (auto simp: map_add_def fun_eq_iff split: option.splits)
    have "restore_missing C (a # prev) u = (Ok (), u')" using u'(1) u1(1) a None by (simp add: UtxoSet_contains_def)
    then show ?thesis unfolding m[symmetric] using u' u1(4) by (intro exI[of _ u']) simp
  qed
qed simp

lemma restore_inputs_missing:
  "distinct (map fst prev) \<Longrightarrow> fst ` set prev \<inter> dom (utxos u) = {} \<Longrightarrow>
   restore_inputs C prev u = restore_missing C prev u"
proof (induction prev arbitrary: u)
  case (Cons a prev)
  obtain op e where a: "a = (op, e)" by (cases a)
  have op: "utxos u op = None" using Cons.prems(2) a by auto
  have "restore_inputs C prev u1 = restore_missing C prev u1" if "UtxoSet_insert C op e u = (Ok x, u1)" for x u1
  proof (rule Cons.IH)
    have "utxos u1 = (utxos u)(op \<mapsto> e)" using that
      by (auto simp: UtxoSet_insert_def Let_def split: if_splits sum.splits option.splits)
    then show "fst ` set prev \<inter> dom (utxos u1) = {}" using Cons.prems a by auto
  qed (use Cons.prems in simp)
  then show ?case using op a
    by (cases "UtxoSet_insert C op e u"; cases "fst (UtxoSet_insert C op e u)")
      (auto simp: UtxoSet_contains_def)
qed simp

lemma tx_outpoints_upt: "(\<lambda>i. outpoint tx_id (of_nat i)) ` set [0..<length (outputs tx)] = tx_outpoints tx_id tx"
  by (simp add: tx_outpoints_def)

lemma tx_outpoints_distinct:
  "compute_tx_id C tx = Ok tx_id \<Longrightarrow> distinct (map (\<lambda>i. outpoint tx_id (of_nat i)) [0..<length (outputs tx)])"
  using output_entries_distinct[of 0 "outputs tx" tx_id 0 False] compute_tx_id_outputs(1)[of C tx tx_id]
  by (simp add: output_entries_ops)

text \<open>Dropping the outputs and restoring the spent entries, whatever part of the transaction
  has been applied.\<close>

lemma rollback_ok:
  assumes nc: "no_collision C D" and inv: "utxo_inv C D u" and inv': "utxo_inv C D u'"
    and room: "room (length prev) u'"
    and prev: "\<forall>(op, e)\<in>set prev. utxos u op = Some e"
    and part: "\<forall>op. op \<notin> tx_outpoints tx_id tx \<longrightarrow> utxos u' op = utxos u op \<or> op \<in> fst ` set prev \<and> utxos u' op = None"
    and out: "\<forall>op\<in>tx_outpoints tx_id tx. op \<in> dom (utxos u) \<longrightarrow> op \<in> fst ` set prev"
  shows "\<exists>u1 u2. drop_outputs C tx_id [0..<length (outputs tx)] u' = (Ok (), u1)
    \<and> utxos u1 = utxos u' |` (- tx_outpoints tx_id tx)
    \<and> restore_missing C prev u1 = (Ok (), u2) \<and> utxo_inv C D u2 \<and> utxos u2 = utxos u
    \<and> length (arena (smt u2)) \<le> length (arena (smt u')) + 4 * length prev"
proof -
  from drop_outputs_ok[OF nc inv', of tx_id "[0..<length (outputs tx)]"] obtain u1 where u1:
    "drop_outputs C tx_id [0..<length (outputs tx)] u' = (Ok (), u1)" "utxo_inv C D u1"
    "length (arena (smt u1)) \<le> length (arena (smt u'))" "utxos u1 = utxos u' |` (- tx_outpoints tx_id tx)"
    unfolding tx_outpoints_upt by blast
  have rm: "room (length prev) u1" using room u1(3) by (simp add: room_def)
  have pv: "utxos u (fst x) = Some (snd x)" if "x \<in> set prev" for x
    using bspec[OF prev that] by (simp add: case_prod_beta)
  have pd: "fst ` set prev \<subseteq> D"
  proof
    fix op assume "op \<in> fst ` set prev"
    then have "op \<in> dom (utxos u)" using pv by auto
    then show "op \<in> D" using inv by (auto simp: utxo_inv_def)
  qed
  have "serializable (snd x)" if "x \<in> set prev" for x
    using ranI[of "utxos u", OF pv[OF that]] inv by (simp add: utxo_inv_def)
  then have "\<forall>(op, e)\<in>set prev. serializable e" by (simp add: case_prod_beta)
  from restore_missing_ok[OF nc u1(2) rm pd this] obtain u2 where
    u2: "restore_missing C prev u1 = (Ok (), u2)" "utxo_inv C D u2" "utxos u2 = map_of prev ++ utxos u1"
      "length (arena (smt u2)) \<le> length (arena (smt u1)) + 4 * length prev" by blast
  have p: "map_of prev op = (if op \<in> fst ` set prev then utxos u op else None)" for op
  proof (cases "map_of prev op")
    case None
    then show ?thesis by (simp add: map_of_eq_None_iff)
  next
    case (Some e)
    then have "(op, e) \<in> set prev" by (rule map_of_SomeD)
    then show ?thesis using Some pv[of "(op, e)"] by force
  qed
  have "utxos u2 op = utxos u op" for op
  proof (cases "op \<in> tx_outpoints tx_id tx")
    case True
    then have "utxos u1 op = None" using u1(4) by simp
    then have "utxos u2 op = map_of prev op" using u2(3) by (simp add: map_add_def)
    moreover have "op \<notin> fst ` set prev \<Longrightarrow> utxos u op = None" using out True by (auto simp: domIff)
    ultimately show ?thesis using p[of op] by simp
  next
    case False
    then have *: "utxos u1 op = utxos u' op" using u1(4) by simp
    have v: "utxos u2 op = (case utxos u' op of None \<Rightarrow> map_of prev op | Some x \<Rightarrow> Some x)"
      using u2(3) * by (simp add: map_add_def)
    have "utxos u' op = utxos u op \<or> op \<in> fst ` set prev \<and> utxos u' op = None"
      using part False by (simp only: simp_thms)
    then show ?thesis
    proof (elim disjE conjE)
      assume "utxos u' op = utxos u op"
      then show ?thesis using v p[of op] by (simp split: option.splits)
    next
      assume "op \<in> fst ` set prev" "utxos u' op = None"
      then show ?thesis using v p[of op] by simp
    qed
  qed
  then have "utxos u2 = utxos u" by blast
  moreover have "length (arena (smt u2)) \<le> length (arena (smt u')) + 4 * length prev" using u1(3) u2(4) by linarith
  ultimately show ?thesis using u1 u2 by blast
qed


lemma undo_applied_ok:
  assumes r: "ready C D tx tx_id u" and a: "apply_transaction C tx height u = (Ok muts, u')"
    and inv_v: "utxo_inv C D v" and same: "utxos v = utxos u'" and room: "room (length (inputs tx)) v"
  shows "\<exists>v'. undo_transaction C tx (collect_spent_utxos muts) v = (Ok (), v') \<and> utxo_inv C D v'
    \<and> utxos v' = utxos u \<and> length (arena (smt v')) \<le> length (arena (smt v)) + 4 * length (inputs tx)"
proof -
  from r have nc: "no_collision C D" and inv: "utxo_inv C D u" and id: "compute_tx_id C tx = Ok tx_id" by (simp_all add: ready_def)
  let ?outs = "tx_outpoints tx_id tx" and ?ids = "[0..<length (outputs tx)]"
  from apply_transaction_spec[OF r, of height] a obtain sp where
    muts: "muts = removals sp @ creations (tx_entries tx_id height tx)"
    and fst: "map fst sp = map input_outpoint (spent_inputs tx)"
    and rp: "replay redo muts (utxos u) = Some (utxos v)" unfolding same by auto
  from rp obtain m1 where m1: "replay redo (removals sp) (utxos u) = Some m1"
    "replay redo (creations (tx_entries tx_id height tx)) m1 = Some (utxos v)"
    by (auto simp: muts replay_append Option.bind_eq_Some_conv)
  note sp = replay_removals[OF m1(1)] and es = replay_creations[OF m1(2), unfolded tx_entries_outpoints]
  have spent: "collect_spent_utxos muts = sp" by (simp add: muts collect_append)
  have len: "length sp = length (spent_inputs tx)" using arg_cong[OF fst, of length] by simp
  have off: "utxos v op = m1 op" if "op \<notin> ?outs" for op
    using that es tx_entries_outpoints[of tx_id height tx] by (simp add: map_add_def map_of_eq_None_iff[THEN iffD2])
  have rm: "room (length sp) v" using room len by (auto simp: room_def spent_inputs_def)
  have m1': "m1 op = (if op \<in> fst ` set sp then None else utxos u op)" for op
    using sp by (simp add: restrict_map_def)
  have p1: "\<forall>(op, e)\<in>set sp. utxos u op = Some e" using sp by blast
  have p2: "\<forall>op. op \<notin> ?outs \<longrightarrow> utxos v op = utxos u op \<or> op \<in> fst ` set sp \<and> utxos v op = None"
    using off m1' by simp
  have p3: "\<forall>op\<in>?outs. op \<in> dom (utxos u) \<longrightarrow> op \<in> fst ` set sp"
    using es m1' by (metis disjoint_iff domIff)
  from rollback_ok[OF nc inv inv_v rm p1 p2 p3] obtain u1 u2 where u1: "drop_outputs C tx_id ?ids v = (Ok (), u1)"
    "utxos u1 = utxos v |` (- ?outs)" and u2: "restore_missing C sp u1 = (Ok (), u2)" "utxo_inv C D u2"
    "utxos u2 = utxos u" "length (arena (smt u2)) \<le> length (arena (smt v)) + 4 * length sp" by blast
  have "undo_outputs C tx_id ?ids v = drop_outputs C tx_id ?ids v"
  proof (rule undo_outputs_drop[OF tx_outpoints_distinct[OF id]])
    show "\<forall>i\<in>set ?ids. utxos v (outpoint tx_id (of_nat i)) \<noteq> None"
    proof
      fix i assume "i \<in> set ?ids"
      then have "outpoint tx_id (of_nat i) \<in> ?outs" by (auto simp: tx_outpoints_def)
      then have "outpoint tx_id (of_nat i) \<in> fst ` set (tx_entries tx_id height tx)"
        by (simp add: tx_entries_outpoints)
      then show "utxos v (outpoint tx_id (of_nat i)) \<noteq> None" using es
        by (metis map_add_None map_of_eq_None_iff)
    qed
  qed
  moreover have "restore_inputs C sp u1 = restore_missing C sp u1"
  proof (rule restore_inputs_missing)
    have gone: "utxos u1 op = None" if op: "op \<in> fst ` set sp" for op
    proof (cases "op \<in> ?outs")
      case False
      then have "utxos u1 op = m1 op" using u1(2) off[OF False] by simp
      also have "\<dots> = None" unfolding m1'[of op] using op by (simp only: if_True)
      finally show ?thesis .
    qed (simp add: u1(2))
    show "fst ` set sp \<inter> dom (utxos u1) = {}"
    proof (rule equals0I)
      fix op assume op: "op \<in> fst ` set sp \<inter> dom (utxos u1)"
      have "utxos u1 op = None" by (rule gone[OF IntD1[OF op]])
      then show False using IntD2[OF op] by (simp add: domIff)
    qed
    show "distinct (map fst sp)" by (rule conjunct1[OF sp])
  qed
  moreover have "is_coinbase tx \<or> length sp = length (inputs tx)" using len by (simp add: spent_inputs_def)
  ultimately have "undo_transaction C tx (collect_spent_utxos muts) v = (Ok (), u2)"
    using u1(1) u2(1) by (auto simp: undo_transaction_def spent id)
  moreover have "length sp \<le> length (inputs tx)" using len by (simp add: spent_inputs_def)
  ultimately show ?thesis using u2(2-4) by (intro exI[of _ u2]) simp
qed


section \<open>Properties\<close>

text \<open>A coinbase and the empty set, on which the properties are instantiated.\<close>

definition sample_coinbase :: Transaction where
  "sample_coinbase = \<lparr>inputs = [\<lparr>prev_tx_id = ZERO, output_index = 7\<rparr>],
     outputs = [\<lparr>out_value = 500, out_script = replicate 32 1, datum = None, datum_hash = None\<rparr>],
     witnesses = [\<lparr>witness = [], redeemer = None\<rparr>]\<rparr>"

definition sample_id :: bytes where
  "sample_id = (case compute_tx_id toy_crypto sample_coinbase of Inr x \<Rightarrow> x | Inl _ \<Rightarrow> [])"

lemma sample_id: "compute_tx_id toy_crypto sample_coinbase = Ok sample_id"
proof -
  have "\<exists>b. signing_bytes sample_coinbase = Ok b"
    by (simp add: sample_coinbase_def signing_bytes_def serialize_header_def serialize_body_def
        TxOutput_serialize_def serialize_varbytes_def serialize_opt_varbytes_def)
  then show ?thesis by (auto simp: sample_id_def compute_tx_id_def)
qed

lemma utxos_new [simp]: "utxos (UtxoSet_new C) = Map.empty"
  by (simp add: UtxoSet_new_def)

lemma sample_ready:
  "ready toy_crypto {outpoint sample_id 0} sample_coinbase sample_id (UtxoSet_new toy_crypto)"
proof -
  have "room (length (inputs sample_coinbase) + length (outputs sample_coinbase)) (UtxoSet_new toy_crypto)"
    by (simp add: room_def UtxoSet_new_def SparseMerkleTree_new_def sample_coinbase_def)
  moreover have "tx_outpoints sample_id sample_coinbase = {outpoint sample_id 0}"
    by (simp add: tx_outpoints_def sample_coinbase_def)
  ultimately show ?thesis
    by (simp add: ready_def sample_id utxo_inv_new no_collision_def toy_digest32)
qed

lemma sample_applies:
  "\<exists>muts u. apply_transaction toy_crypto sample_coinbase 3 (UtxoSet_new toy_crypto) = (Ok muts, u)
    \<and> utxo_inv toy_crypto {outpoint sample_id 0} u \<and> utxos u (outpoint sample_id 0)
      = Some \<lparr>ue_output = outputs sample_coinbase ! 0, ue_height = 3, ue_is_coinbase = True\<rparr>"
proof -
  have cb: "is_coinbase sample_coinbase" "spent_inputs sample_coinbase = []"
    by (simp_all add: is_coinbase_def sample_coinbase_def spent_inputs_def)
  obtain r u where run: "apply_transaction toy_crypto sample_coinbase 3 (UtxoSet_new toy_crypto) = (r, u)"
    by fastforce
  with apply_transaction_spec[OF sample_ready, of 3] cb(2) obtain ms where r: "r = Ok ms"
    "utxo_inv toy_crypto {outpoint sample_id 0} u" "ms = creations (tx_entries sample_id 3 sample_coinbase)"
    "replay redo ms Map.empty = Some (utxos u)" by auto
  have "tx_entries sample_id 3 sample_coinbase = [(outpoint sample_id 0,
      \<lparr>ue_output = outputs sample_coinbase ! 0, ue_height = 3, ue_is_coinbase = True\<rparr>)]"
    using cb(1) by (simp add: sample_coinbase_def)
  then have "utxos u = [outpoint sample_id 0 \<mapsto>
      \<lparr>ue_output = outputs sample_coinbase ! 0, ue_height = 3, ue_is_coinbase = True\<rparr>]"
    using r(3,4) by simp
  then show ?thesis using run r(1,2) by simp
qed

text \<open>The mutation log that \<open>apply_transaction\<close> returns is exact: replayed forwards on the
  entries before the transaction it gives the entries after it, and replayed in reverse
  order it gives the entries before. The new set satisfies the invariant: its script index
  and its tree are those of its entries.\<close>

theorem apply_transaction_log:
  assumes "ready C D tx tx_id u" "apply_transaction C tx height u = (Ok muts, u')"
  shows "replay redo muts (utxos u) = Some (utxos u') \<and> replay revert (rev muts) (utxos u') = Some (utxos u)
    \<and> utxo_inv C D u'"
  using apply_transaction_spec[OF assms(1), of height] assms(2) replay_rev[of muts "utxos u" "utxos u'"]
  by auto

text \<open>\<open>undo_transaction\<close> is the inverse of \<open>apply_transaction\<close>: given the spent entries of
  the log it succeeds and restores the entries, the script index and the state root.\<close>

theorem undo_transaction_inverse:
  assumes r: "ready C D tx tx_id u" and a: "apply_transaction C tx height u = (Ok muts, u')"
  shows "\<exists>u''. undo_transaction C tx (collect_spent_utxos muts) u' = (Ok (), u'')
    \<and> utxos u'' = utxos u \<and> by_script u'' = by_script u \<and> UtxoSet_state_root u'' = UtxoSet_state_root u"
proof -
  have u': "utxo_inv C D u'" "length (arena (smt u')) \<le> length (arena (smt u)) + 4 * length (outputs tx)"
    using apply_transaction_spec[OF r, of height] a by auto
  have inv: "utxo_inv C D u" using r by (simp add: ready_def)
  have "room (length (inputs tx)) u'" using r u'(2) by (simp add: ready_def room_def)
  from undo_applied_ok[OF r a u'(1) refl this] obtain v where
    "undo_transaction C tx (collect_spent_utxos muts) u' = (Ok (), v)" "utxo_inv C D v" "utxos v = utxos u" by blast
  then show ?thesis using utxo_inv_determined[of C D v u] inv by (intro exI[of _ v]) simp
qed

text \<open>\<open>undo_partial_transaction\<close> repairs a set that a failing (or successful)
  \<open>apply_transaction\<close> left behind, from snapshots of the entries it would have consumed,
  as long as no output of the transaction was already in the set.\<close>

theorem undo_partial_transaction_restores:
  assumes r: "ready C D tx tx_id u" and a: "apply_transaction C tx height u = (res, u')"
    and fresh: "tx_outpoints tx_id tx \<inter> dom (utxos u) = {}"
    and prev: "\<forall>(op, e)\<in>set prev. utxos u op = Some e" "length prev \<le> length (inputs tx)"
    and all: "input_outpoint ` set (inputs tx) \<inter> dom (utxos u) \<subseteq> fst ` set prev"
  shows "\<exists>u''. undo_partial_transaction C tx prev u' = (Ok (), u'')
    \<and> utxos u'' = utxos u \<and> by_script u'' = by_script u \<and> UtxoSet_state_root u'' = UtxoSet_state_root u"
proof -
  from r have nc: "no_collision C D" and inv: "utxo_inv C D u" and id: "compute_tx_id C tx = Ok tx_id"
    and room: "room (length (inputs tx) + length (outputs tx)) u" by (simp_all add: ready_def)
  let ?outs = "tx_outpoints tx_id tx"
  define sp where "sp = (if is_coinbase tx then [] else prev)"
  from apply_transaction_spec[OF r, of height] a have inv': "utxo_inv C D u'"
    and ar: "length (arena (smt u')) \<le> length (arena (smt u)) + 4 * length (outputs tx)"
    and part: "\<forall>op. utxos u' op = utxos u op \<or> op \<in> input_outpoint ` set (spent_inputs tx) \<and> utxos u' op = None
        \<or> op \<in> ?outs" by auto
  have rm: "room (length sp) u'" using room ar prev(2) by (simp add: room_def sp_def)
  have p1: "\<forall>(op, e)\<in>set sp. utxos u op = Some e" using prev(1) by (simp add: sp_def)
  have p2: "\<forall>op. op \<notin> ?outs \<longrightarrow> utxos u' op = utxos u op \<or> op \<in> fst ` set sp \<and> utxos u' op = None"
  proof (intro allI impI)
    fix op assume "op \<notin> ?outs"
    with spec[OF part, of op] have "utxos u' op = utxos u op
      \<or> op \<in> input_outpoint ` set (spent_inputs tx) \<and> utxos u' op = None" by (simp only: simp_thms)
    then show "utxos u' op = utxos u op \<or> op \<in> fst ` set sp \<and> utxos u' op = None"
    proof (elim disjE conjE)
      assume op: "op \<in> input_outpoint ` set (spent_inputs tx)" "utxos u' op = None"
      then have i: "op \<in> input_outpoint ` set (inputs tx)" "sp = prev"
        by (auto simp: spent_inputs_def sp_def split: if_splits)
      show ?thesis
      proof (cases "op \<in> dom (utxos u)")
        case True
        then have "op \<in> fst ` set sp" using subsetD[OF all IntI[OF i(1) True]] i(2) by simp
        then show ?thesis using op(2) by simp
      qed (use op(2) in \<open>simp add: domIff\<close>)
    qed simp
  qed
  have p3: "\<forall>op\<in>?outs. op \<in> dom (utxos u) \<longrightarrow> op \<in> fst ` set sp" using fresh by blast
  from rollback_ok[OF nc inv inv' rm p1 p2 p3] obtain u1 u2 where u1: "drop_outputs C tx_id [0..<length (outputs tx)] u' = (Ok (), u1)"
    and u2: "restore_missing C sp u1 = (Ok (), u2)" "utxo_inv C D u2" "utxos u2 = utxos u" by blast
  have "undo_partial_transaction C tx prev u' = (Ok (), u2)"
    using u1 u2(1) by (auto simp: undo_partial_transaction_def id sp_def)
  then show ?thesis using u2(3) utxo_inv_determined[OF u2(2) inv u2(3)] by (intro exI[of _ u2]) simp
qed

end
