(* ===== verification/Utxo_Query.thy ===== *)
theory Utxo_Query
  imports Utxo_Undo
begin

text \<open>
  The queries by script of \<open>chain/state.rs\<close> answer from the index; with the invariant of the
  set they answer as a scan of all entries would.
\<close>


section \<open>Balances\<close>

lemma unat_saturating_add: "unat (saturating_add a b) = min (2 ^ LENGTH('a) - 1) (unat a + unat (b :: 'a::len word))"
proof (cases "checked_add a b")
  case None
  then have "2 ^ LENGTH('a) \<le> unat a + unat b" by (simp add: checked_None)
  then show ?thesis using None by (simp add: saturating_add_def unsigned_minus_1_eq_mask mask_eq_exp_minus_1)
next
  case (Some c)
  then have "unat c = unat a + unat b" by (simp add: checked_add_Some)
  then show ?thesis using Some unat_bound[of c] by (simp add: saturating_add_def)
qed

definition spendable :: "u64 \<Rightarrow> u64 \<Rightarrow> UtxoSet \<Rightarrow> OutPoint \<Rightarrow> bool" where
  "spendable M h u op \<longleftrightarrow> (\<exists>e. utxos u op = Some e \<and> mature M h e)"

definition amount_at :: "UtxoSet \<Rightarrow> OutPoint \<Rightarrow> nat" where
  "amount_at u op = (case utxos u op of None \<Rightarrow> 0 | Some e \<Rightarrow> unat (out_value (ue_output e)))"

lemma balance_loop_sum:
  "unat (balance_loop M u h ops acc)
     = min (2 ^ 64 - 1) (unat acc + sum_list (map (amount_at u) (filter (spendable M h u) ops)))"
proof (induction ops arbitrary: acc)
  case Nil
  then show ?case using unat_bound[of acc] by simp
next
  case (Cons op ops)
  show ?case
  proof (cases "utxos u op")
    case (Some e)
    then show ?thesis using Cons.IH
      by (auto simp: spendable_def amount_at_def unat_saturating_add)
  qed (use Cons.IH in \<open>simp add: spendable_def\<close>)
qed

lemma script_outpoints_finite: "finite (dom m) \<Longrightarrow> finite (script_outpoints m s)"
  by (rule finite_subset[of _ "dom m"]) (auto simp: script_outpoints_def)

text \<open>The balance of a script, read through the script index, is the sum of the values of
  all mature entries of the set with that script, saturated at 64 bits.\<close>

theorem balance_for_script_sum:
  assumes "utxo_inv C D u"
  shows "unat (balance_for_script M u script h)
    = min (2 ^ 64 - 1) (\<Sum>op \<in> {op \<in> script_outpoints (utxos u) script. spendable M h u op}. amount_at u op)"
proof -
  let ?S = "script_outpoints (utxos u) script"
  have fin: "finite ?S" using assms script_outpoints_finite by (auto simp: utxo_inv_def)
  have ix: "by_script u script = (if ?S = {} then None else Some ?S)"
    using assms by (simp add: utxo_inv_def index_of_def)
  have "sum_list (map (amount_at u) (filter (spendable M h u) (sorted_list_of_set ?S)))
    = (\<Sum>op \<in> {op \<in> ?S. spendable M h u op}. amount_at u op)"
    using fin by (simp add: sum_list_distinct_conv_sum_set)
  then show ?thesis using ix balance_loop_sum[of M u h "sorted_list_of_set ?S" 0]
    by (auto simp: balance_for_script_def)
qed

section \<open>Pages\<close>

definition row :: "UtxoSet \<Rightarrow> OutPoint \<Rightarrow> utxo_row" where
  "row u op = (op, case utxos u op of
     Some e \<Rightarrow> (out_value (ue_output e), ue_height e, ue_is_coinbase e) | None \<Rightarrow> (0, 0, False))"

lemma page_loop_take:
  assumes "length results < max 1 limit"
  shows "page_loop M u h limit ops results
    = take (max 1 limit) (results @ map (row u) (filter (spendable M h u) ops))"
  using assms
proof (induction ops arbitrary: results)
  case (Cons op ops)
  show ?case
  proof (cases "spendable M h u op")
    case False
    then show ?thesis using Cons by (auto simp: spendable_def split: option.splits)
  next
    case True
    then obtain e where e: "utxos u op = Some e" "mature M h e" by (auto simp: spendable_def)
    let ?r = "results @ [row u op]"
    have step: "page_loop M u h limit (op # ops) results
      = (if length ?r \<ge> limit then ?r else page_loop M u h limit ops ?r)"
      using e by (simp add: row_def Let_def)
    show ?thesis
    proof (cases "length ?r \<ge> limit")
      case full: True
      then have "max 1 limit = length ?r" using Cons.prems by (auto simp: max_def split: if_splits)
      then show ?thesis using full step True by simp
    next
      case False
      then show ?thesis using Cons.IH[of ?r] step True by simp
    qed
  qed
qed simp

text \<open>All rows of a script after a cursor, in the order of the outpoints.\<close>

definition rows_after :: "u64 \<Rightarrow> UtxoSet \<Rightarrow> bytes \<Rightarrow> u64 \<Rightarrow> OutPoint option \<Rightarrow> utxo_row list" where
  "rows_after M u script h after = map (row u) (filter (spendable M h u)
     (filter (\<lambda>op. case after of None \<Rightarrow> True | Some c \<Rightarrow> c < op)
       (sorted_list_of_set (script_outpoints (utxos u) script))))"

lemma filter_after_split:
  assumes "sorted_wrt (<) (xs @ l # ys)" "\<forall>x\<in>set (xs @ l # ys). P x \<longleftrightarrow> l < (x :: 'a :: linorder)"
  shows "filter P (xs @ l # ys) = ys"
proof -
  have "\<not> P x" if "x \<in> set xs" for x using assms that by (auto simp: sorted_wrt_append)
  moreover have "\<not> P l" using assms by simp
  moreover have "P y" if "y \<in> set ys" for y using assms that by (auto simp: sorted_wrt_append)
  ultimately show ?thesis by (simp add: filter_empty_conv filter_id_conv)
qed

lemma rows_after_chunk:
  assumes "1 \<le> n" "take n (rows_after M u script h after) \<noteq> []"
  shows "rows_after M u script h after = take n (rows_after M u script h after)
    @ rows_after M u script h (Some (fst (last (take n (rows_after M u script h after)))))"
proof -
  let ?L = "sorted_list_of_set (script_outpoints (utxos u) script)"
  let ?A = "\<lambda>op. case after of None \<Rightarrow> True | Some c \<Rightarrow> c < op"
  define xs where "xs = filter (spendable M h u) (filter ?A ?L)"
  have rows: "rows_after M u script h after = map (row u) xs" by (simp add: rows_after_def xs_def)
  then have "take n xs \<noteq> []" using assms by (simp add: take_map)
  then obtain zs l where zl: "take n xs = zs @ [l]" by (cases "take n xs" rule: rev_cases) auto
  then have xs: "xs = zs @ l # drop n xs" by (metis append_Cons append_Nil append_assoc append_take_drop_id)
  have fst: "fst (last (take n (rows_after M u script h after))) = l"
    by (simp add: rows take_map zl row_def)
  have "sorted_wrt (<) ?L" by simp
  then have "sorted_wrt (<) xs" unfolding xs_def by (intro sorted_wrt_filter)
  then have ws: "filter (\<lambda>op. l < op) xs = drop n xs"
    using filter_after_split[of zs l "drop n xs" "\<lambda>op. l < op"] xs by simp
  have "l \<in> set xs" by (subst xs) simp
  then have "?A l" by (simp add: xs_def)
  then have "filter (spendable M h u) (filter (\<lambda>op. l < op) ?L) = filter (\<lambda>op. l < op) xs"
    unfolding xs_def by (auto simp: conj_ac split: option.splits intro!: filter_cong)
  then have "rows_after M u script h (Some l) = map (row u) (drop n xs)"
    by (simp add: rows_after_def ws)
  then show ?thesis unfolding fst unfolding rows take_map by (simp add: map_append[symmetric] del: map_append)
qed

lemma paged_take:
  assumes "utxo_inv C D u"
  shows "utxos_for_script_paged M u script h after limit = take (max 1 limit) (rows_after M u script h after)"
proof -
  let ?S = "script_outpoints (utxos u) script"
  have "by_script u script = (if ?S = {} then None else Some ?S)"
    using assms by (simp add: utxo_inv_def index_of_def)
  then show ?thesis
    by (auto simp: utxos_for_script_paged_def rows_after_def page_loop_take split: option.splits)
qed

text \<open>C40. Paging is complete: a page is the first \<open>limit\<close> rows, or the first row for a limit of
  zero, since the loop tests the limit only after it has added a row, of the mature entries of the script after the cursor in outpoint order, and the rows after
  a non-empty page are exactly those after its last outpoint, so following the cursors lists
  every mature entry of the script once.\<close>

theorem utxos_for_script_paged_complete:
  assumes "utxo_inv C D u"
  shows "let page = utxos_for_script_paged M u script h after limit in
    page = take (max 1 limit) (rows_after M u script h after)
    \<and> (page \<noteq> [] \<longrightarrow> rows_after M u script h after = page @ rows_after M u script h (Some (fst (last page))))
    \<and> set (rows_after M u script h None) = row u ` {op \<in> script_outpoints (utxos u) script. spendable M h u op}
    \<and> distinct (rows_after M u script h None)"
proof -
  have fin: "finite (script_outpoints (utxos u) script)"
    using assms script_outpoints_finite by (auto simp: utxo_inv_def)
  have inj: "inj (row u)" by (auto simp: inj_def row_def)
  show ?thesis unfolding Let_def paged_take[OF assms]
  proof (intro conjI impI)
    show "rows_after M u script h after = take (max 1 limit) (rows_after M u script h after)
      @ rows_after M u script h (Some (fst (last (take (max 1 limit) (rows_after M u script h after)))))"
      if "take (max 1 limit) (rows_after M u script h after) \<noteq> []"
      by (rule rows_after_chunk[OF _ that]) simp
    show "set (rows_after M u script h None)
      = row u ` {op \<in> script_outpoints (utxos u) script. spendable M h u op}"
      using fin by (auto simp: rows_after_def)
    show "distinct (rows_after M u script h None)"
      using inj by (simp add: rows_after_def distinct_map inj_on_subset[OF inj])
  qed simp
qed

theorem utxos_for_script_paged_complete_witness:
  "\<exists>muts u. apply_transaction toy_crypto sample_coinbase 3 (UtxoSet_new toy_crypto) = (Ok muts, u)
    \<and> utxos_for_script_paged 360 u (replicate 32 1) 363 None 2
        = take (max 1 2) (rows_after 360 u (replicate 32 1) 363 None)"
proof -
  obtain muts u where a: "apply_transaction toy_crypto sample_coinbase 3 (UtxoSet_new toy_crypto) = (Ok muts, u)"
    and i: "utxo_inv toy_crypto {outpoint sample_id 0} u" using sample_applies by blast
  show ?thesis
    using a utxos_for_script_paged_complete[OF i, unfolded Let_def, of 360 "replicate 32 1" 363 None 2]
    by (intro exI conjI) (assumption, elim conjE)
qed

end
