(* ===== verification/Tx_Validation.thy ===== *)
theory Tx_Validation
  imports Tx_Cost Script_Cost Script_Serialize Utxo_Query
begin

text \<open>
  The validation of transactions, the first half of \<open>consensus/validation.rs\<close>: the
  admission of output scripts, the checks of a spending transaction against the set of unspent
  outputs and the checks of a coinbase. The functions take the settings of the process as a
  record: the linked cryptography, the memory layout of values, the signature domain (the
  genesis block id) and the coinbase maturity. Error messages keep their text without the
  interpolated values. The 128-bit accumulators are natural numbers, see \<open>Tx_Cost\<close>.
\<close>


section \<open>Loops that stop at the first error\<close>

fun enum_loop :: "(nat \<Rightarrow> 'a \<Rightarrow> 'e + unit) \<Rightarrow> nat \<Rightarrow> 'a list \<Rightarrow> 'e + unit" where
  "enum_loop f i [] = Ok ()"
| "enum_loop f i (x # xs) = rbind (f i x) (\<lambda>_. enum_loop f (Suc i) xs)"

text \<open>The first element that is in the set of those seen before it.\<close>

fun first_dup :: "'a set \<Rightarrow> 'a list \<Rightarrow> 'a option" where
  "first_dup seen [] = None"
| "first_dup seen (x # xs) = (if x \<in> seen then Some x else first_dup (insert x seen) xs)"

definition no_dup :: "('a \<Rightarrow> 'e) \<Rightarrow> 'a list \<Rightarrow> 'e + unit" where
  "no_dup err xs = (case first_dup {} xs of None \<Rightarrow> Ok () | Some x \<Rightarrow> Err (err x))"

lemma enum_loop_Ok [result_simps]:
  "enum_loop f i xs = Ok u \<longleftrightarrow> (\<forall>k<length xs. f (i + k) (xs ! k) = Ok ())"
proof (induction xs arbitrary: i)
  case (Cons x xs)
  have "(\<forall>k<length (x # xs). f (i + k) ((x # xs) ! k) = Ok ())
      \<longleftrightarrow> f i x = Ok () \<and> (\<forall>k<length xs. f (Suc i + k) (xs ! k) = Ok ())"
    by (simp add: All_less_Suc2)
  then show ?case using Cons.IH by (simp add: result_simps)
qed simp

lemma enum_loop_all: "enum_loop (\<lambda>_. f) i xs = Ok u \<longleftrightarrow> (\<forall>x\<in>set xs. f x = Ok ())"
  by (simp add: result_simps all_set_conv_all_nth)

lemma first_dup_None: "first_dup seen xs = None \<longleftrightarrow> distinct xs \<and> set xs \<inter> seen = {}"
  by (induction xs arbitrary: seen) auto

lemma no_dup_Ok [result_simps]: "no_dup err xs = Ok u \<longleftrightarrow> distinct xs"
  using first_dup_None[of "{}" xs] by (auto simp: no_dup_def split: option.splits)


section \<open>Errors and settings\<close>

datatype (plugins only: code) ValidationError =
    InvalidVersion u32
  | InvalidHeight u64 u64
  | InvalidPrevBlockId
  | PowFailed
  | InvalidDifficulty
  | TimestampBelowMtp u64 u64
  | TimestampTooFarAhead u64 u64
  | TimestampGapTooLarge u64 u64
  | InvalidTxRoot
  | InvalidStateRoot
  | NoCoinbase
  | NoTransactions
  | BlockTooLarge nat
  | DuplicateTransaction bytes
  | DoubleSpend OutPoint
  | NonCoinbaseSentinel nat
  | NoInputs
  | NoOutputs
  | UtxoNotFound OutPoint
  | DuplicateInput OutPoint
  | PubkeyHashMismatch nat
  | SignatureInvalid nat
  | WitnessInvalid nat string
  | OutputBelowDust nat u64
  | ValueOverflow
  | InsufficientInputValue
  | FeeBelowMinimum nat nat
  | CoinbaseImmature OutPoint u64
  | TxTooLarge nat
  | CostOverflow
  | WitnessCountMismatch nat nat
  | IllTypedScript nat
  | AmbiguousScript nat
  | ScriptEvalFailed nat string
  | DatumHashMismatch nat
  | WitnessOversized nat nat
  | DatumOversized nat nat
  | RedeemerOversized nat nat
  | Phase1HasRedeemer nat
  | RewardOverflow
  | ArithmeticOverflow
  | StateCorrupted string
  | CoinbaseBadInputCount nat
  | CoinbaseBadOutputIndex u32 u32
  | CoinbaseHeightOverflow u64
  | CoinbaseWrongReward u64 u64
  | CoinbaseZeroOutput nat
  | CoinbaseWitnessNotEmpty
  | CoinbaseHasRedeemer
  | CoinbaseWitnessCountMismatch nat nat
  | InputMissing nat
  | Panicked

record settings =
  lib :: crypto
  layout :: machine
  signature_domain :: bytes
  coinbase_maturity :: u64


section \<open>Admission of output scripts\<close>

definition script_input_type :: Type where
  "script_input_type =
     TProduct bytes_type (TProduct (option_type bytes_type) (TProduct (option_type bytes_type) TUnit))"

fun script_input_accepts :: "Type \<Rightarrow> Type \<Rightarrow> bool" where
  "script_input_accepts script_type runtime_type =
     (script_type = runtime_type \<or> script_type = TUnit
      \<or> (case (script_type, runtime_type) of
           (TProduct a1 a2, TProduct b1 b2) \<Rightarrow> script_input_accepts a1 b1 \<and> script_input_accepts a2 b2
         | (TSum a1 a2, TSum b1 b2) \<Rightarrow> script_input_accepts a1 b1 \<and> script_input_accepts a2 b2
         | (TList a1, TList b1) \<Rightarrow> script_input_accepts a1 b1
         | _ \<Rightarrow> False))"

declare script_input_accepts.simps [simp del]

text \<open>The two passes over the nodes: the edges of a combinator, then its output against
  the outputs of its children.\<close>

fun strict_edge :: "TypedNode list \<Rightarrow> Combinator \<Rightarrow> bool" where
  "strict_edge typed (Comp f g) = (output_type (typed ! f) = input_type (typed ! g))"
| "strict_edge typed (CCase f g) = (output_type (typed ! f) = output_type (typed ! g))"
| "strict_edge typed (CPair f g) =
     (let f_in = input_type (typed ! f); g_in = input_type (typed ! g);
          f_out = output_type (typed ! f); g_out = output_type (typed ! g) in
      \<not> (f_in \<noteq> TUnit \<and> g_in \<noteq> TUnit \<and> f_in \<noteq> g_in) \<and> \<not> (f_out = TUnit \<or> g_out = TUnit))"
| "strict_edge typed (Fold f z n) =
     (let f_out = output_type (typed ! f); z_out = output_type (typed ! z) in
      \<not> (f_out \<noteq> z_out \<or> f_out = TUnit \<or> z_out = TUnit))"
| "strict_edge typed (ListFold f z) =
     (let f_out = output_type (typed ! f); z_out = output_type (typed ! z) in
      \<not> (f_out \<noteq> z_out \<or> f_out = TUnit \<or> z_out = TUnit))"
| "strict_edge typed _ = True"

fun produced_output :: "TypedNode list \<Rightarrow> nat \<Rightarrow> Combinator \<Rightarrow> bool" where
  "produced_output typed i (Comp f g) =
     (output_type (typed ! i) = TUnit \<or> output_type (typed ! i) = output_type (typed ! g))"
| "produced_output typed i (CCase f g) =
     (let node_out = output_type (typed ! i);
          f_out = output_type (typed ! f); g_out = output_type (typed ! g) in
      node_out = TUnit \<or> \<not> (f_out = TUnit \<or> g_out = TUnit) \<and> \<not> (node_out \<noteq> f_out \<or> node_out \<noteq> g_out))"
| "produced_output typed i _ = True"

definition strict_type_edges :: "Program \<Rightarrow> TypedNode list \<Rightarrow> bool" where
  "strict_type_edges program typed \<longleftrightarrow>
     list_all (strict_edge typed) (nodes program)
     \<and> list_all (\<lambda>i. produced_output typed i (nodes program ! i)) [0..<length (nodes program)]"

fun node_admissible :: "Combinator \<Rightarrow> bool" where
  "node_admissible (Jet j) = is_implemented j"
| "node_admissible (MerkleHidden h) = False"
| "node_admissible (CConst v) = lists_are_homogeneous v"
| "node_admissible _ = True"

definition validate_output_script :: "nat \<Rightarrow> TxOutput \<Rightarrow> ValidationError + unit" where
  "validate_output_script idx out =
     rbind (map_err (\<lambda>_. IllTypedScript idx) (deserialize_program (out_script out))) (\<lambda>program.
     rbind (map_err (\<lambda>_. IllTypedScript idx) (typecheck program)) (\<lambda>typed_nodes.
     let root_output_type = output_type (typed_nodes ! root program) in
     if root_output_type \<noteq> bool_type then Err (IllTypedScript idx)
     else if \<not> strict_type_edges program typed_nodes then Err (IllTypedScript idx)
     else if \<not> list_all node_admissible (nodes program) then Err (IllTypedScript idx)
     else let root_input_type = input_type (typed_nodes ! root program) in
     if \<not> script_input_accepts root_input_type script_input_type then Err (IllTypedScript idx)
     else if max_depth program > MAX_EVAL_DEPTH then Err (IllTypedScript idx)
     else case compute_cost program \<lparr>input_count = 1, output_count = 1\<rparr> of
       Inr cost \<Rightarrow> if unat (steps cost) > MAX_SCRIPT_STEPS then Err (IllTypedScript idx) else Ok ()
     | Inl _ \<Rightarrow> Err (IllTypedScript idx)))"

text \<open>The guard on one output that the transaction and the coinbase checks share, and its
  variant of the structural check, which also rejects an empty script by itself.\<close>

definition check_output_script :: "nat \<Rightarrow> TxOutput \<Rightarrow> ValidationError + unit" where
  "check_output_script idx out =
     (if is_phase1_script (out_script out) then
        (case deserialize_program (out_script out) of
           Inr _ \<Rightarrow> Err (AmbiguousScript idx)
         | Inl _ \<Rightarrow> Ok ())
      else validate_output_script idx out)"

definition check_script_admissible :: "nat \<Rightarrow> TxOutput \<Rightarrow> ValidationError + unit" where
  "check_script_admissible idx out =
     (if out_script out = [] then Err (IllTypedScript idx) else check_output_script idx out)"


section \<open>Inputs\<close>

definition validate_phase1_input :: "settings \<Rightarrow> nat \<Rightarrow> TxWitness \<Rightarrow> TxOutput \<Rightarrow> bytes \<Rightarrow> ValidationError + unit" where
  "validate_phase1_input S idx w utxo_output msg =
     (if length (witness w) \<noteq> 96 then Err (WitnessInvalid idx ''witness length != 96'')
      else if redeemer w \<noteq> None then Err (Phase1HasRedeemer idx)
      else let pubkey_bytes = bslice (witness w) 0 32; sig_bytes = bslice (witness w) 32 96;
               expected_hash = pubkey_hash_from_key (lib S) pubkey_bytes in
      if expected_hash \<noteq> out_script utxo_output then Err (PubkeyHashMismatch idx)
      else if is_weak_ed25519_key (lib S) pubkey_bytes then Err (SignatureInvalid idx)
      else if \<not> vk_from_bytes (lib S) pubkey_bytes then Err (SignatureInvalid idx)
      else if \<not> vk_verify (lib S) pubkey_bytes msg sig_bytes then Err (SignatureInvalid idx)
      else Ok ())"

definition resolve_datum :: "crypto \<Rightarrow> TxOutput \<Rightarrow> TxWitness \<Rightarrow> string + bytes option" where
  "resolve_datum C utxo w = (case datum utxo of
     Some d \<Rightarrow>
       rbind (case datum_hash utxo of
          Some h \<Rightarrow> if sha256 C d \<noteq> h then Err ''datum_hash does not match inline datum'' else Ok ()
        | None \<Rightarrow> Ok ()) (\<lambda>_. Ok (Some d))
   | None \<Rightarrow> (case datum_hash utxo of
       Some h \<Rightarrow> (case redeemer w of
          Some provided \<Rightarrow>
            if length provided > MAX_DATUM_SIZE then Err ''hash-committed datum exceeds MAX_DATUM_SIZE''
            else if sha256 C provided = h then Ok (Some provided)
            else Err ''datum hash mismatch''
        | None \<Rightarrow> Err ''datum required: output has datum_hash but no datum provided'')
     | None \<Rightarrow> Ok None))"

definition optional_bytes :: "bytes option \<Rightarrow> Value" where
  "optional_bytes x = (case x of Some r \<Rightarrow> VRight (VBytes r) | None \<Rightarrow> VLeft VUnit)"

definition build_script_input :: "bytes \<Rightarrow> bytes option \<Rightarrow> bytes option \<Rightarrow> Value" where
  "build_script_input w r d = VPair (VBytes w) (VPair (optional_bytes r) (VPair (optional_bytes d) VUnit))"

definition validate_script_input :: "settings \<Rightarrow> nat \<Rightarrow> TxWitness \<Rightarrow> TxOutput \<Rightarrow> ScriptContext \<Rightarrow> ValidationError + nat" where
  "validate_script_input S idx w utxo_output context =
     rbind (map_err (\<lambda>_. ScriptEvalFailed idx ''script deserialization failed'')
              (deserialize_program (out_script utxo_output))) (\<lambda>program.
     if serialize_program program \<noteq> out_script utxo_output
     then Err (ScriptEvalFailed idx ''script serialization is non-canonical'')
     else
     rbind (map_err (\<lambda>_. ScriptEvalFailed idx ''script type-check failed'') (typecheck program)) (\<lambda>_.
     rbind (map_err (\<lambda>_. ScriptEvalFailed idx ''datum resolution failed'')
              (resolve_datum (lib S) utxo_output w)) (\<lambda>d.
     let input_value = build_script_input (witness w) (redeemer w) d;
         list_sizes = \<lparr>input_count = length (tx_inputs context), output_count = length (tx_outputs context)\<rparr> in
     rbind (map_err (\<lambda>_. ScriptEvalFailed idx ''cost computation failed'')
              (compute_cost program list_sizes)) (\<lambda>cost.
     if unat (steps cost) > MAX_SCRIPT_STEPS
     then Err (ScriptEvalFailed idx ''script cost exceeds consensus cap'')
     else case evaluate_with_context (lib S) (layout S) program input_value (witness w)
            (Budget_new (of_nat MAX_SCRIPT_STEPS) (cells cost)) (with_self_index context (of_nat idx)) of
       Inr (v, b) \<Rightarrow>
         if as_bool v = Some True then Ok (MAX_SCRIPT_STEPS - steps_remaining b)
         else Err (ScriptEvalFailed idx ''script returned (expected Bool(true) or Right(Unit))'')
     | Inl _ \<Rightarrow> Err (ScriptEvalFailed idx ''script evaluation failed'')))))"

fun context_inputs :: "crypto \<Rightarrow> UtxoSet \<Rightarrow> nat \<Rightarrow> TxInput list \<Rightarrow> ValidationError + TxInputInfo list" where
  "context_inputs C u i [] = Ok []"
| "context_inputs C u i (inp # ins) =
     rbind (ok_or (InputMissing i) (UtxoSet_get u (input_outpoint inp))) (\<lambda>utxo.
     rbind (context_inputs C u (Suc i) ins) (\<lambda>infos.
     Ok (\<lparr>ii_prev_tx_id = prev_tx_id inp, ii_output_index = output_index inp,
          ii_value = out_value (ue_output utxo),
          ii_script_hash = sha256 C (out_script (ue_output utxo))\<rparr> # infos)))"

definition build_script_context :: "settings \<Rightarrow> Transaction \<Rightarrow> UtxoSet \<Rightarrow> u64 \<Rightarrow> ValidationError + ScriptContext" where
  "build_script_context S tx u current_height =
     rbind (context_inputs (lib S) u 0 (inputs tx)) (\<lambda>ins.
     let outs = map (\<lambda>out. \<lparr>oi_value = out_value out, oi_script_hash = sha256 (lib S) (out_script out),
                            oi_datum_hash = datum_hash out\<rparr>) (outputs tx) in
     rbind (map_err (\<lambda>_. TxTooLarge 0) (sig_message (signature_domain S) tx)) (\<lambda>msg.
     Ok \<lparr>tx_inputs = ins, tx_outputs = outs, self_index = 0, block_height = current_height, sig_hash = msg\<rparr>))"


section \<open>Transactions\<close>

definition check_witness_size :: "nat \<Rightarrow> TxWitness \<Rightarrow> ValidationError + unit" where
  "check_witness_size idx w =
     rbind (ensure (length (witness w) \<le> MAX_WITNESS_SIZE) (WitnessOversized idx (length (witness w)))) (\<lambda>_.
     case redeemer w of
       Some r \<Rightarrow> ensure (length r \<le> MAX_REDEEMER_SIZE) (RedeemerOversized idx (length r))
     | None \<Rightarrow> Ok ())"

definition check_datum_size :: "nat \<Rightarrow> TxOutput \<Rightarrow> ValidationError + unit" where
  "check_datum_size idx out = (case datum out of
     Some d \<Rightarrow> ensure (length d \<le> MAX_DATUM_SIZE) (DatumOversized idx (length d))
   | None \<Rightarrow> Ok ())"

definition check_datum_hash :: "crypto \<Rightarrow> nat \<Rightarrow> TxOutput \<Rightarrow> ValidationError + unit" where
  "check_datum_hash C idx out = (case (datum out, datum_hash out) of
     (Some d, Some h) \<Rightarrow> ensure (sha256 C d = h) (DatumHashMismatch idx)
   | _ \<Rightarrow> Ok ())"

definition check_dust :: "nat \<Rightarrow> TxOutput \<Rightarrow> ValidationError + unit" where
  "check_dust idx out = ensure (unat (out_value out) \<ge> DUST_THRESHOLD) (OutputBelowDust idx (out_value out))"

definition check_tx_size :: "Transaction \<Rightarrow> ValidationError + unit" where
  "check_tx_size tx =
     rbind (map_err (\<lambda>_. TxTooLarge 0) (Transaction_serialize tx)) (\<lambda>serialized.
     ensure (length serialized \<le> MAX_TX_SIZE) (TxTooLarge (length serialized)))"

definition check_duplicate_inputs :: "Transaction \<Rightarrow> ValidationError + unit" where
  "check_duplicate_inputs tx = no_dup DuplicateInput (map input_outpoint (inputs tx))"

text \<open>The first pass over the inputs: existence, maturity and value.\<close>

fun lookup_inputs :: "settings \<Rightarrow> UtxoSet \<Rightarrow> u64 \<Rightarrow> TxInput list \<Rightarrow> nat \<Rightarrow> UtxoEntry list
    \<Rightarrow> ValidationError + nat \<times> UtxoEntry list" where
  "lookup_inputs S u h [] total_input input_utxos = Ok (total_input, input_utxos)"
| "lookup_inputs S u h (i # is) total_input input_utxos =
     rbind (ok_or (UtxoNotFound (input_outpoint i)) (UtxoSet_get u (input_outpoint i))) (\<lambda>utxo_entry.
     rbind (if ue_is_coinbase utxo_entry then
              let age = saturating_sub h (ue_height utxo_entry) in
              ensure (\<not> age < coinbase_maturity S) (CoinbaseImmature (input_outpoint i) age)
            else Ok ()) (\<lambda>_.
     lookup_inputs S u h is (total_input + unat (out_value (ue_output utxo_entry)))
       (input_utxos @ [utxo_entry])))"

fun sum_outputs :: "TxOutput list \<Rightarrow> nat \<Rightarrow> nat" where
  "sum_outputs [] acc = acc"
| "sum_outputs (out # outs) acc = sum_outputs outs (acc + unat (out_value out))"

text \<open>The second pass over the inputs with their witnesses: signatures and scripts.\<close>

fun verify_inputs :: "settings \<Rightarrow> bytes \<Rightarrow> ScriptContext \<Rightarrow> nat \<Rightarrow> (UtxoEntry \<times> TxWitness) list \<Rightarrow> nat \<Rightarrow> nat
    \<Rightarrow> ValidationError + nat \<times> nat" where
  "verify_inputs S msg context idx [] script_cost validation_cost = Ok (script_cost, validation_cost)"
| "verify_inputs S msg context idx ((e, w) # rest) script_cost validation_cost =
     (if is_phase1_script (out_script (ue_output e)) then
        rbind (validate_phase1_input S idx w (ue_output e) msg) (\<lambda>_.
        let sig_msg_cost = div_ceil (length msg) 64 * 8 in
        verify_inputs S msg context (Suc idx) rest
          (script_cost + (PHASE1_SCRIPT_EVAL_COST + sig_msg_cost)) validation_cost)
      else
        rbind (validate_script_input S idx w (ue_output e) context) (\<lambda>cost.
        verify_inputs S msg context (Suc idx) rest (script_cost + cost)
          (validation_cost + div_ceil (length (out_script (ue_output e))) 64 * 10)))"

definition validate_transaction :: "settings \<Rightarrow> Transaction \<Rightarrow> UtxoSet \<Rightarrow> u64 \<Rightarrow> ValidationError + nat \<times> nat \<times> nat" where
  "validate_transaction S tx u current_height =
     rbind (ensure (inputs tx \<noteq> []) NoInputs) (\<lambda>_.
     rbind (ensure (outputs tx \<noteq> []) NoOutputs) (\<lambda>_.
     rbind (ensure (length (witnesses tx) = length (inputs tx))
              (WitnessCountMismatch (length (inputs tx)) (length (witnesses tx)))) (\<lambda>_.
     rbind (enum_loop check_witness_size 0 (witnesses tx)) (\<lambda>_.
     rbind (enum_loop check_datum_size 0 (outputs tx)) (\<lambda>_.
     rbind (check_tx_size tx) (\<lambda>_.
     rbind (check_duplicate_inputs tx) (\<lambda>_.
     rbind (enum_loop (\<lambda>idx out. rbind (check_dust idx out) (\<lambda>_. check_datum_hash (lib S) idx out)) 0 (outputs tx)) (\<lambda>_.
     rbind (lookup_inputs S u current_height (inputs tx) 0 []) (\<lambda>(total_input, input_utxos).
     let total_output = sum_outputs (outputs tx) 0 in
     rbind (ensure (\<not> (total_input > U64_MAX \<or> total_output > U64_MAX)) ValueOverflow) (\<lambda>_.
     rbind (ensure (\<not> total_input < total_output) InsufficientInputValue) (\<lambda>_.
     rbind (enum_loop check_output_script 0 (outputs tx)) (\<lambda>_.
     rbind (map_err (\<lambda>_. TxTooLarge 0) (sig_message (signature_domain S) tx)) (\<lambda>msg.
     rbind (build_script_context S tx u current_height) (\<lambda>script_context.
     rbind (verify_inputs S msg script_context 0 (zip input_utxos (witnesses tx)) 0 0) (\<lambda>(script_cost, validation_cost).
     rbind (ensure (\<not> script_cost > MAX_TX_SCRIPT_BUDGET)
              (ScriptEvalFailed (length (inputs tx) - 1) ''total script cost exceeds per-transaction budget'')) (\<lambda>_.
     let fee = total_input - total_output in
     rbind (ok_or CostOverflow (min_fee_with_script_cost tx script_cost validation_cost)) (\<lambda>min_fee.
     rbind (ensure (\<not> fee < min_fee) (FeeBelowMinimum fee min_fee)) (\<lambda>_.
     Ok (fee, script_cost, validation_cost)))))))))))))))))))"


section \<open>Coinbase\<close>

definition height_index :: "u64 \<Rightarrow> ValidationError + u32" where
  "height_index height = (if unat height < 2 ^ 32 then Ok (ucast height) else Err (CoinbaseHeightOverflow height))"

definition check_coinbase_witness :: "u64 \<Rightarrow> Transaction \<Rightarrow> ValidationError + unit" where
  "check_coinbase_witness height tx =
     rbind (ensure (length (witnesses tx) = 1) (CoinbaseWitnessCountMismatch 1 (length (witnesses tx)))) (\<lambda>_.
     rbind (ensure (\<not> (height \<noteq> 0 \<and> witness (witnesses tx ! 0) \<noteq> [])) CoinbaseWitnessNotEmpty) (\<lambda>_.
     ensure (redeemer (witnesses tx ! 0) = None) CoinbaseHasRedeemer))"

definition check_coinbase_output :: "crypto \<Rightarrow> nat \<Rightarrow> TxOutput \<Rightarrow> ValidationError + unit" where
  "check_coinbase_output C idx out =
     rbind (check_dust idx out) (\<lambda>_.
     rbind (check_datum_size idx out) (\<lambda>_.
     check_datum_hash C idx out))"

definition validate_coinbase :: "settings \<Rightarrow> Transaction \<Rightarrow> u64 \<Rightarrow> u64 \<Rightarrow> ValidationError + unit" where
  "validate_coinbase S tx height expected_reward =
     rbind (ensure (length (inputs tx) = 1) (CoinbaseBadInputCount (length (inputs tx)))) (\<lambda>_.
     rbind (ensure (prev_tx_id (inputs tx ! 0) = ZERO) (CoinbaseBadInputCount 0)) (\<lambda>_.
     rbind (check_tx_size tx) (\<lambda>_.
     rbind (height_index height) (\<lambda>expected_idx.
     rbind (ensure (output_index (inputs tx ! 0) = expected_idx)
              (CoinbaseBadOutputIndex expected_idx (output_index (inputs tx ! 0)))) (\<lambda>_.
     rbind (check_coinbase_witness height tx) (\<lambda>_.
     rbind (enum_loop (check_coinbase_output (lib S)) 0 (outputs tx)) (\<lambda>_.
     rbind (enum_loop check_output_script 0 (outputs tx)) (\<lambda>_.
     let total_output = sum_outputs (outputs tx) 0 in
     if total_output > U64_MAX then Err (CoinbaseWrongReward expected_reward (of_nat U64_MAX))
     else if total_output \<noteq> unat expected_reward
     then Err (CoinbaseWrongReward expected_reward (of_nat total_output))
     else Ok ()))))))))"

end
