(* ===== verification/Blocks.thy ===== *)
theory Blocks
  imports Transactions
begin

text \<open>
  Block headers and blocks, \<open>types/block.rs\<close>: the 156-byte header layout, the
  block identifier, and the wire format of a block.
\<close>


section \<open>Data and operations\<close>

definition HEADER_SIZE :: nat where [constants]: "HEADER_SIZE = 156"

record BlockHeader =
  version :: u32
  height :: u64
  prev_block_id :: bytes
  timestamp :: u64
  difficulty_target :: bytes
  nonce :: u64
  tx_root :: bytes
  state_root :: bytes

record Block =
  header :: BlockHeader
  transactions :: "Transaction list"

definition BlockHeader_serialize :: "BlockHeader \<Rightarrow> bytes" where
  "BlockHeader_serialize h =
     le32 (version h) @ le64 (height h) @ prev_block_id h @ le64 (timestamp h)
     @ difficulty_target h @ le64 (nonce h) @ tx_root h @ state_root h"

definition BlockHeader_deserialize :: "bytes \<Rightarrow> BlockHeader" where
  "BlockHeader_deserialize data =
     \<lparr>version = u32_le (bslice data 0 4),
      height = u64_le (bslice data 4 12),
      prev_block_id = bslice data 12 44,
      timestamp = u64_le (bslice data 44 52),
      difficulty_target = bslice data 52 84,
      nonce = u64_le (bslice data 84 92),
      tx_root = bslice data 92 124,
      state_root = bslice data 124 156\<rparr>"

definition block_id :: "crypto \<Rightarrow> BlockHeader \<Rightarrow> bytes" where
  "block_id C h = sha256 C (BlockHeader_serialize h)"

text \<open>The transaction count is written with a cast to 32 bits.\<close>

definition Block_serialize :: "Block \<Rightarrow> SerError + bytes" where
  "Block_serialize b =
     rbind (enc_loop Transaction_serialize (transactions b)) (\<lambda>txs.
     Ok (BlockHeader_serialize (header b) @ le32 (of_nat (length (transactions b))) @ txs))"

definition Block_deserialize :: "bytes \<Rightarrow> SerError + Block \<times> nat" where
  "Block_deserialize data =
     (if length data < HEADER_SIZE + 4 then Err UnexpectedEof
      else let
          hdr = BlockHeader_deserialize (take HEADER_SIZE data);
          pos = HEADER_SIZE;
          tx_count = unat (u32_le (bslice data pos (pos + 4)));
          pos = pos + 4;
          max_txs = MAX_BLOCK_SIZE div MIN_TX_SIZE in
        if tx_count > max_txs then Err (InvalidData ''tx_count exceeds maximum'')
        else
          rbind (dec_loop Transaction_deserialize tx_count data pos) (\<lambda>(txs, pos).
          Ok (\<lparr>header = hdr, transactions = txs\<rparr>, pos)))"

definition wf_header :: "BlockHeader \<Rightarrow> bool" where
  "wf_header h \<longleftrightarrow> is_hash256 (prev_block_id h) \<and> is_hash256 (difficulty_target h)
     \<and> is_hash256 (tx_root h) \<and> is_hash256 (state_root h)"

definition wf_block :: "Block \<Rightarrow> bool" where
  "wf_block b \<longleftrightarrow> wf_header (header b) \<and> list_all wf_transaction (transactions b)
     \<and> length (transactions b) \<le> MAX_BLOCK_SIZE div MIN_TX_SIZE"


section \<open>The codecs\<close>

lemma length_header: "wf_header h \<Longrightarrow> length (BlockHeader_serialize h) = HEADER_SIZE"
  by (simp add: BlockHeader_serialize_def wf_header_def is_hash256_def HEADER_SIZE_def)

lemma header_dec_enc: "wf_header h \<Longrightarrow> BlockHeader_deserialize (BlockHeader_serialize h) = h"
  by (simp add: BlockHeader_serialize_def BlockHeader_deserialize_def wf_header_def is_hash256_def
      slice_append_right)

lemma header_wf: "length d = HEADER_SIZE \<Longrightarrow> wf_header (BlockHeader_deserialize d)"
  by (simp add: BlockHeader_deserialize_def wf_header_def is_hash256_def HEADER_SIZE_def)

lemma header_canon:
  assumes "length d = HEADER_SIZE"
  shows "BlockHeader_serialize (BlockHeader_deserialize d) = d"
proof -
  have "d = bslice d 0 4 @ bslice d 4 12 @ bslice d 12 44 @ bslice d 44 52 @ bslice d 52 84
      @ bslice d 84 92 @ bslice d 92 124 @ bslice d 124 156"
    using assms by (simp add: HEADER_SIZE_def flip: slice_split)
  then show ?thesis
    using assms by (simp add: BlockHeader_deserialize_def BlockHeader_serialize_def HEADER_SIZE_def
        le_word_roundtrip)
qed

interpretation blk: codec_min Block_serialize Block_deserialize wf_block 160
proof
  fix x b r
  assume wf: "wf_block x" and "Block_serialize x = Ok b"
  then obtain t where e: "enc_loop Transaction_serialize (transactions x) = Ok t"
      and b: "b = BlockHeader_serialize (header x) @ le32 (of_nat (length (transactions x))) @ t"
    by (auto simp: Block_serialize_def result_simps)
  let ?h = "BlockHeader_serialize (header x)"
  let ?n = "le32 (of_nat (length (transactions x)))"
  have wfs: "wf_header (header x)" "list_all wf_transaction (transactions x)"
      "length (transactions x) \<le> 83886"
    using wf by (simp_all add: wf_block_def constants)
  have "dec_loop Transaction_deserialize (length (transactions x)) ((?h @ ?n) @ t @ r) 160
      = Ok (transactions x, 160 + length t)"
    using length_header[OF wfs(1)] by (intro tx.dec_loop_at wfs e) (simp_all add: constants)
  then show "Block_deserialize (b @ r) = Ok (x, length b)"
    using wfs length_header[OF wfs(1)] header_dec_enc[OF wfs(1)]
    by (simp add: Block_deserialize_def Let_def b constants slice_append_right unat_of_nat_u32)
next
  fix d x n
  assume "Block_deserialize d = Ok (x, n)"
  then have l: "160 \<le> length d" and h: "header x = BlockHeader_deserialize (take 156 d)"
      and c: "unat (u32_le (bslice d 156 160)) \<le> 83886"
      and s: "dec_loop Transaction_deserialize (unat (u32_le (bslice d 156 160))) d 160
        = Ok (transactions x, n)"
    by (auto simp: Block_deserialize_def Let_def result_simps constants split: if_splits prod.splits)
  note t = tx.dec_loop_canon[OF s l]
  have hd: "wf_header (header x)" "BlockHeader_serialize (header x) = take 156 d"
    using l h header_wf[of "take 156 d"] header_canon[of "take 156 d"] by (simp_all add: constants)
  have "take n d = bslice d 0 156 @ bslice d 156 160 @ bslice d 160 n"
    using t slice_split[of 0 156 n d] slice_split[of 156 160 n d] by (simp add: bslice_def)
  then show "wf_block x \<and> n \<le> length d \<and> Block_serialize x = Ok (take n d)"
    using t c hd l
    by (simp add: wf_block_def Block_serialize_def constants le_word_roundtrip)
       (simp add: bslice_def)
next
  fix x b
  assume "wf_block x" "Block_serialize x = Ok b"
  then show "160 \<le> length b"
    by (auto simp: Block_serialize_def wf_block_def length_header constants result_simps)
qed



section \<open>Properties\<close>

definition sample_header :: BlockHeader where
  "sample_header = \<lparr>version = 1, height = 5, prev_block_id = replicate 32 1, timestamp = 1700000000,
     difficulty_target = replicate 32 2, nonce = 77, tx_root = replicate 32 3,
     state_root = replicate 32 4\<rparr>"

definition sample_block :: Block where
  "sample_block = \<lparr>header = sample_header, transactions = [sample_tx]\<rparr>"

lemma sample_header_wf: "wf_header sample_header"
  by (simp add: sample_header_def wf_header_def is_hash256_def)

lemma sample_block_wf: "wf_block sample_block"
  using sample_header_wf sample_tx_wf by (simp add: sample_block_def wf_block_def constants)

lemma sample_block_bytes: "\<exists>b. Block_serialize sample_block = Ok b"
  using sample_tx_bytes(2) by (auto simp: sample_block_def Block_serialize_def)

text \<open>A well-formed block is read back from its own encoding, whatever bytes follow.\<close>

theorem block_roundtrip:
  assumes "wf_block x" "Block_serialize x = Ok b"
  shows "Block_deserialize (b @ r) = Ok (x, length b)"
  using assms by (rule blk.dec_enc)

text \<open>C37. Block encodings are canonical, and the header of a decoded block re-encodes to the
  156 bytes it was read from, so its identifier is the digest of those bytes.\<close>

theorem block_canonical:
  assumes "Block_deserialize d = Ok (x, n)"
  shows "wf_block x \<and> n \<le> length d \<and> Block_serialize x = Ok (take n d)
    \<and> block_id C (header x) = sha256 C (take HEADER_SIZE d)"
proof -
  have "header x = BlockHeader_deserialize (take HEADER_SIZE d)" "HEADER_SIZE \<le> length d"
    using assms by (auto simp: Block_deserialize_def Let_def result_simps split: if_splits prod.splits)
  then show ?thesis using blk.dec_canon[OF assms] header_canon[of "take HEADER_SIZE d"]
    by (simp add: block_id_def)
qed

theorem block_canonical_witness:
  "\<exists>x n. Block_deserialize (replicate 160 0) = Ok (x, n) \<and> Block_serialize x = Ok (take n (replicate 160 0))"
proof -
  have "\<exists>x n. Block_deserialize (replicate 160 0) = Ok (x, n)"
    by (simp add: Block_deserialize_def constants Let_def bslice_def u32_le_def)
  then show ?thesis using block_canonical by blast
qed

end
