(* ===== verification/Reward.thy ===== *)
theory Reward
  imports Primitives
begin

text \<open>
  The block reward, \<open>src/src/consensus/reward.rs\<close>: a base reward plus an
  exponentially decaying part, computed in Q64.64 fixed point from a table of 4097 entries with
  linear interpolation. The table is the recurrence of \<open>build_lut\<close> at 128-bit width.
\<close>

unbundle bit_operations_syntax


section \<open>The code\<close>

definition LUT_K :: u128 where "LUT_K = 18443622869203936790"

primrec LUT :: "nat \<Rightarrow> u128" where
  "LUT 0 = push_bit 64 1"
| "LUT (Suc i) = drop_bit 64 (LUT i * LUT_K)"

declare LUT.simps(2) [simp del]

text \<open>\<open>None\<close> is the panic of the final checked addition.\<close>

definition block_reward :: "u64 \<Rightarrow> u64 option" where
  "block_reward height = (let q = unat height div HALF_LIFE; r = unat height mod HALF_LIFE in
     if q \<ge> 128 then Some (of_nat BASE_REWARD)
     else let bucket_size = (HALF_LIFE + 4095) div 4096;
              bucket = r div bucket_size;
              frac = r mod bucket_size;
              lut_lo = LUT bucket;
              lut_hi = LUT (bucket + 1);
              diff = lut_lo - lut_hi;
              interp = lut_lo - diff * of_nat frac div of_nat bucket_size;
              product = of_nat DECAY_COMPONENT * interp;
              shift = 64 + q;
              decay = (if shift \<ge> 128 then 0 else ucast (drop_bit shift product))
          in checked_add (of_nat BASE_REWARD) decay)"


section \<open>The table\<close>

definition lut_step :: "nat \<Rightarrow> nat" where
  "lut_step x = x * 18443622869203936790 div 2 ^ 64"

definition lut :: "nat \<Rightarrow> nat" where
  "lut n = (lut_step ^^ n) (2 ^ 64)"

lemma lut_0: "lut 0 = 2 ^ 64" and lut_Suc: "lut (Suc n) = lut_step (lut n)"
  by (simp_all add: lut_def)

lemma lut_step_le: "lut_step x \<le> x"
proof -
  have "lut_step x \<le> x * 2 ^ 64 div 2 ^ 64" unfolding lut_step_def by (intro div_le_mono mult_le_mono2) simp
  then show ?thesis by simp
qed

lemma lut_antimono: "m \<le> n \<Longrightarrow> lut n \<le> lut m"
  by (rule lift_Suc_antimono_le[of lut]) (simp_all add: lut_Suc lut_step_le)

lemma lut_le: "lut n \<le> 2 ^ 64"
  using lut_antimono[of 0 n] by (simp add: lut_0)

text \<open>Truncation loses at most one unit per step, so the table is close to multiplicative;
  twelve doublings bound its last entry from below.\<close>

lemma lut_step_lower: "x * 18443622869203936790 < (lut_step x + 1) * 2 ^ 64"
  unfolding lut_step_def using dividend_less_div_times[of "2 ^ 64" "x * 18443622869203936790"] by simp

lemma lut_multiplicative:
  "x * lut n \<le> ((lut_step ^^ n) x + n) * 2 ^ 64"
proof (induction n)
  case 0
  show ?case by (simp add: lut_0)
next
  case (Suc n)
  define K where "K = (18443622869203936790 :: nat)"
  define T where "T = (2 ^ 64 :: nat)"
  let ?y = "(lut_step ^^ n) x"
  have K: "K \<le> T" by (simp add: K_def T_def)
  have T: "0 < T" by (simp add: T_def)
  have 1: "lut (Suc n) * T \<le> lut n * K"
    unfolding lut_Suc lut_step_def K_def[symmetric] T_def[symmetric] by simp
  have 2: "?y * K < (lut_step ?y + 1) * T" using lut_step_lower[of ?y] by (simp add: K_def T_def)
  have IH: "x * lut n \<le> (?y + n) * T" using Suc by (simp add: T_def)
  have "x * lut (Suc n) * T \<le> x * lut n * K" using mult_le_mono2[OF 1, of x] by (simp only: mult.assoc)
  also have "\<dots> \<le> (?y + n) * T * K" using IH by (rule mult_le_mono1)
  also have "\<dots> = (?y * K + n * K) * T" by (simp only: algebra_simps)
  also have "\<dots> \<le> ((lut_step ?y + 1) * T + n * T) * T"
    using 2 K by (intro mult_le_mono1 add_mono mult_le_mono2) simp_all
  finally have "x * lut (Suc n) * T \<le> ((lut_step ?y + Suc n) * T) * T" by (simp add: algebra_simps)
  then show ?case using T by (simp add: T_def)
qed

lemma lut_double: "lut n * lut n \<le> (lut (2 * n) + n) * 2 ^ 64"
  using lut_multiplicative[of "lut n" n] unfolding lut_def[of "2 * n"]
  by (simp add: lut_def mult_2 funpow_add)

lemma lut_double_bound:
  assumes "b \<le> lut n" "(c + n) * 2 ^ 64 \<le> b * b"
  shows "c \<le> lut (2 * n)"
proof -
  have "(c + n) * 2 ^ 64 \<le> (lut (2 * n) + n) * 2 ^ 64"
    using assms(2) mult_le_mono[OF assms(1) assms(1)] lut_double[of n] by linarith
  then show ?thesis by simp
qed

lemma lut_last: "2 ^ 63 \<le> lut 4096"
proof -
  have "18443622869203936790 \<le> lut 1" by (simp add: lut_def lut_step_def)
  then have "18440502192808731416 \<le> lut 2" using lut_double_bound[of 18443622869203936790 1 18440502192808731416] by simp
  then have "18434262423992137260 \<le> lut 4" using lut_double_bound[of 18440502192808731416 2 18434262423992137260] by simp
  then have "18421789219753179461 \<le> lut 8" using lut_double_bound[of 18434262423992137260 4 18421789219753179461] by simp
  then have "18396868124856590177 \<le> lut 16" using lut_double_bound[of 18421789219753179461 8 18396868124856590177] by simp
  then have "18347127029626796214 \<le> lut 32" using lut_double_bound[of 18396868124856590177 16 18347127029626796214] by simp
  then have "18248047942564105298 \<le> lut 64" using lut_double_bound[of 18347127029626796214 32 18248047942564105298] by simp
  then have "18051492034775930718 \<le> lut 128" using lut_double_bound[of 18248047942564105298 64 18051492034775930718] by simp
  then have "17664708925299830409 \<le> lut 256" using lut_double_bound[of 18051492034775930718 128 17664708925299830409] by simp
  then have "16915827539467638383 \<le> lut 512" using lut_double_bound[of 17664708925299830409 256 16915827539467638383] by simp
  then have "15511963531430364672 \<le> lut 1024" using lut_double_bound[of 16915827539467638383 512 15511963531430364672] by simp
  then have "13044091230352167050 \<le> lut 2048" using lut_double_bound[of 15511963531430364672 1024 13044091230352167050] by simp
  then have "9223758693993430808 \<le> lut 4096" using lut_double_bound[of 13044091230352167050 2048 9223758693993430808] by simp
  then show ?thesis by simp
qed


section \<open>The interpolation\<close>

definition interp :: "nat \<Rightarrow> nat" where
  "interp r = lut (r div 1540) - (lut (r div 1540) - lut (Suc (r div 1540))) * (r mod 1540) div 1540"

lemma interp_bounds: "lut (Suc (r div 1540)) \<le> interp r" "interp r \<le> lut (r div 1540)"
proof -
  let ?lo = "lut (r div 1540)" and ?hi = "lut (Suc (r div 1540))"
  have hi: "?hi \<le> ?lo" by (rule lut_antimono) simp
  have "(?lo - ?hi) * (r mod 1540) div 1540 \<le> (?lo - ?hi) * 1540 div 1540"
    by (intro div_le_mono mult_le_mono2) simp
  then have "(?lo - ?hi) * (r mod 1540) div 1540 \<le> ?lo - ?hi" by simp
  then show "?hi \<le> interp r" unfolding interp_def using hi by linarith
  show "interp r \<le> ?lo" by (simp add: interp_def)
qed

lemma interp_Suc: "interp (Suc r) \<le> interp r"
proof (cases "Suc (r mod 1540) = 1540")
  case True
  then have "Suc r div 1540 = Suc (r div 1540)" by (simp add: div_Suc mod_Suc)
  then show ?thesis using interp_bounds(1)[of r] interp_bounds(2)[of "Suc r"] by simp
next
  case False
  then have "Suc r div 1540 = r div 1540" "Suc r mod 1540 = Suc (r mod 1540)" by (simp_all add: div_Suc mod_Suc)
  moreover have "d * m div 1540 \<le> d * Suc m div 1540" for d m :: nat by (intro div_le_mono) simp
  ultimately show ?thesis unfolding interp_def by (simp add: diff_le_mono2)
qed

lemma interp_antimono: "r \<le> s \<Longrightarrow> interp s \<le> interp r"
  by (rule lift_Suc_antimono_le[of interp]) (simp_all add: interp_Suc)

lemma interp_le: "interp r \<le> 2 ^ 64"
  using interp_bounds(2)[of r] lut_le[of "r div 1540"] by simp

lemma interp_last: "r < HALF_LIFE \<Longrightarrow> 2 ^ 63 \<le> interp r"
proof -
  assume "r < HALF_LIFE"
  then have "Suc (r div 1540) \<le> 4096" by (simp add: constants)
  then show ?thesis using lut_last lut_antimono[of "Suc (r div 1540)" 4096] interp_bounds(1)[of r] by linarith
qed


section \<open>The reward in natural numbers\<close>

definition reward_at :: "nat \<Rightarrow> nat" where
  "reward_at h = BASE_REWARD + (if h div HALF_LIFE \<ge> 64 then 0
     else DECAY_COMPONENT * interp (h mod HALF_LIFE) div 2 ^ (64 + h div HALF_LIFE))"

lemma reward_Suc: "reward_at (Suc h) \<le> reward_at h"
proof (cases "Suc (h mod HALF_LIFE) = HALF_LIFE")
  case True
  let ?q = "h div HALF_LIFE"
  have q: "Suc h div HALF_LIFE = Suc ?q" "Suc h mod HALF_LIFE = 0"
    using True by (simp_all add: div_Suc mod_Suc constants)
  have "2 ^ 63 \<le> interp (h mod HALF_LIFE)" by (rule interp_last) (simp add: constants)
  then have i: "2 ^ 64 \<le> interp (h mod HALF_LIFE) * 2" by simp
  have "interp 0 = 2 ^ 64" by (simp add: interp_def lut_0)
  then have "DECAY_COMPONENT * interp 0 div 2 ^ (64 + Suc ?q)
      \<le> DECAY_COMPONENT * (interp (h mod HALF_LIFE) * 2) div 2 ^ (64 + Suc ?q)"
    using i by (intro div_le_mono mult_le_mono2) simp
  also have "(2 :: nat) ^ (64 + Suc ?q) = 2 ^ (64 + ?q) * 2" by (simp only: add_Suc_right power_Suc2)
  also have "DECAY_COMPONENT * (interp (h mod HALF_LIFE) * 2) div (2 ^ (64 + ?q) * 2)
      = DECAY_COMPONENT * interp (h mod HALF_LIFE) * 2 div (2 ^ (64 + ?q) * 2)"
    by (simp only: mult.assoc)
  also have "\<dots> = DECAY_COMPONENT * interp (h mod HALF_LIFE) div 2 ^ (64 + ?q)" by simp
  finally have "DECAY_COMPONENT * interp 0 div 2 ^ (64 + Suc ?q) \<le> DECAY_COMPONENT * interp (h mod HALF_LIFE) div 2 ^ (64 + ?q)"
    by (simp only: add_Suc_right power_Suc2)
  then show ?thesis unfolding reward_at_def q by (simp del: add_Suc_right)
next
  case False
  then have q: "Suc h div HALF_LIFE = h div HALF_LIFE" "Suc h mod HALF_LIFE = Suc (h mod HALF_LIFE)"
    by (simp_all add: div_Suc mod_Suc constants)
  have "DECAY_COMPONENT * interp (Suc (h mod HALF_LIFE)) div n \<le> DECAY_COMPONENT * interp (h mod HALF_LIFE) div n" for n
    by (intro div_le_mono mult_le_mono2 interp_Suc)
  then show ?thesis unfolding reward_at_def q by simp
qed

lemma reward_antimono: "h \<le> h' \<Longrightarrow> reward_at h' \<le> reward_at h"
  by (rule lift_Suc_antimono_le[of reward_at]) (simp_all add: reward_Suc)

lemma reward_0: "reward_at 0 = BASE_REWARD + DECAY_COMPONENT"
  by (simp add: reward_at_def interp_def lut_0)


section \<open>The code computes the reward\<close>

lemma unat_LUT: "unat (LUT i) = lut i"
proof (induction i)
  case 0
  show ?case by (simp add: lut_0 push_bit_eq_mult)
next
  case (Suc i)
  have "lut i * 18443622869203936790 \<le> 2 ^ 64 * 18443622869203936790" by (intro mult_le_mono1 lut_le)
  then have "unat (LUT i * LUT_K) = lut i * 18443622869203936790"
    by (simp add: unat_word_ariths Suc LUT_K_def)
  then show ?case by (simp add: LUT.simps(2) drop_bit_eq_div unat_div lut_Suc lut_step_def)
qed

lemma unat_word_diff: "b \<le> a \<Longrightarrow> unat (a - b :: 'a :: len word) = unat a - unat b"
  by (simp add: unat_sub)

lemma unat_interp:
  assumes "r < HALF_LIFE"
  shows "unat (LUT (r div 1540) - (LUT (r div 1540) - LUT (r div 1540 + 1)) * of_nat (r mod 1540) div of_nat 1540) = interp r"
proof -
  let ?b = "r div 1540" and ?f = "r mod 1540"
  let ?d = "LUT ?b - LUT (?b + 1)"
  have d: "unat ?d = lut ?b - lut (Suc ?b)"
    using lut_antimono[of ?b "Suc ?b"] by (simp add: unat_word_diff word_le_nat_alt unat_LUT)
  have f: "unat (of_nat ?f :: u128) = ?f" by (simp add: unat_of_nat)
  have "(lut ?b - lut (Suc ?b)) * ?f \<le> 2 ^ 64 * 1540"
    using lut_le[of ?b] by (intro mult_le_mono) simp_all
  then have p: "unat (?d * of_nat ?f) = (lut ?b - lut (Suc ?b)) * ?f"
    by (simp only: unat_word_ariths d f) simp
  have q: "unat (?d * of_nat ?f div of_nat 1540) = (lut ?b - lut (Suc ?b)) * ?f div 1540"
    by (simp only: unat_div p) (simp add: unat_of_nat)
  have "(lut ?b - lut (Suc ?b)) * ?f div 1540 \<le> (lut ?b - lut (Suc ?b)) * 1540 div 1540"
    by (intro div_le_mono mult_le_mono2) simp
  then have "(lut ?b - lut (Suc ?b)) * ?f div 1540 \<le> lut ?b" by linarith
  then have "?d * of_nat ?f div of_nat 1540 \<le> LUT ?b" by (simp only: word_le_nat_alt q unat_LUT)
  then show ?thesis by (simp only: unat_word_diff q unat_LUT interp_def)
qed

lemma block_reward_value: "\<exists>r. block_reward h = Some r \<and> unat r = reward_at (unat h)"
proof (cases "unat h div HALF_LIFE \<ge> 128")
  case True
  then show ?thesis by (simp add: block_reward_def reward_at_def Let_def) (simp add: constants)
next
  case False
  let ?q = "unat h div HALF_LIFE" and ?r = "unat h mod HALF_LIFE"
  define i where "i = LUT (?r div 1540) - (LUT (?r div 1540) - LUT (?r div 1540 + 1)) * of_nat (?r mod 1540) div of_nat 1540"
  define decay :: u64 where
    "decay = (if 64 + ?q \<ge> 128 then 0 else ucast (drop_bit (64 + ?q) (of_nat DECAY_COMPONENT * i)))"
  have br: "block_reward h = checked_add (of_nat BASE_REWARD) decay"
    using False by (simp add: block_reward_def Let_def decay_def i_def HALF_LIFE_def)
  have ui: "unat i = interp ?r" unfolding i_def by (rule unat_interp) (simp add: constants)
  have "DECAY_COMPONENT * interp ?r \<le> DECAY_COMPONENT * 2 ^ 64" by (intro mult_le_mono2 interp_le)
  then have p: "unat (of_nat DECAY_COMPONENT * i) = DECAY_COMPONENT * interp ?r"
    by (simp add: unat_word_ariths ui constants)
  have le: "DECAY_COMPONENT * interp ?r div 2 ^ (64 + ?q) \<le> DECAY_COMPONENT"
  proof -
    have "DECAY_COMPONENT * interp ?r div 2 ^ (64 + ?q) \<le> DECAY_COMPONENT * 2 ^ 64 div 2 ^ (64 + ?q)"
      by (intro div_le_mono mult_le_mono2 interp_le)
    also have "\<dots> = DECAY_COMPONENT div 2 ^ ?q" by (simp add: power_add div_mult2_eq[symmetric])
    also have "\<dots> \<le> DECAY_COMPONENT" by simp
    finally show ?thesis .
  qed
  have ud: "unat decay = (if 64 \<le> ?q then 0 else DECAY_COMPONENT * interp ?r div 2 ^ (64 + ?q))"
    using le by (simp add: decay_def unsigned_ucast_eq take_bit_eq_mod unat_drop_bit_eq drop_bit_eq_div[where 'a = nat] p) (simp add: constants)
  let ?b = "of_nat BASE_REWARD :: u64"
  have b: "unat ?b = BASE_REWARD" by (simp add: constants)
  have "unat decay \<le> DECAY_COMPONENT" using ud le by simp
  then have "unat ?b + unat decay < 2 ^ LENGTH(64)" unfolding b by (simp add: constants)
  then have s: "unat (?b + decay) = unat ?b + unat decay" by (intro unat_add_nowrap)
  then have "block_reward h = Some (?b + decay)" by (simp only: br checked_add_Some)
  moreover have "unat (?b + decay) = reward_at (unat h)" unfolding s b ud reward_at_def by simp
  ultimately show ?thesis by blast
qed


section \<open>Properties\<close>

text \<open>C39. The reward never overflows, never falls below the base reward, never exceeds the reward
  of the genesis block, and never rises with the height: for heights in order, both rewards exist
  and lie in the opposite order between the base reward and the base plus the decaying part.\<close>

theorem block_reward_decreasing:
  assumes "h \<le> h'"
  shows "\<exists>r r'. block_reward h = Some r \<and> block_reward h' = Some r'
    \<and> BASE_REWARD \<le> unat r' \<and> r' \<le> r \<and> unat r \<le> BASE_REWARD + DECAY_COMPONENT"
proof -
  obtain r r' where r: "block_reward h = Some r" "unat r = reward_at (unat h)"
      "block_reward h' = Some r'" "unat r' = reward_at (unat h')"
    using block_reward_value by meson
  have "reward_at (unat h') \<le> reward_at (unat h)" "reward_at (unat h) \<le> reward_at 0"
    using assms by (simp_all add: reward_antimono word_le_nat_alt)
  then have "BASE_REWARD \<le> unat r'" "r' \<le> r" "unat r \<le> BASE_REWARD + DECAY_COMPONENT"
    using r by (simp_all add: reward_0 word_le_nat_alt) (simp add: reward_at_def)
  then show ?thesis using r by blast
qed

theorem block_reward_decreasing_witness:
  "\<exists>r r'. block_reward 43200 = Some r \<and> block_reward 630720000 = Some r'
    \<and> BASE_REWARD \<le> unat r' \<and> r' \<le> r \<and> unat r \<le> BASE_REWARD + DECAY_COMPONENT"
  by (rule block_reward_decreasing) simp

text \<open>At the multiples of the half-life the reward is exact: the base reward plus the decaying
  part halved once per half-life, rounded down, and nothing of it from the 64th half-life on.\<close>

theorem block_reward_half_lives:
  assumes "n * HALF_LIFE < 2 ^ 64"
  shows "map_option unat (block_reward (of_nat (n * HALF_LIFE)))
    = Some (BASE_REWARD + (if n < 64 then DECAY_COMPONENT div 2 ^ n else 0))"
proof -
  obtain r where r: "block_reward (of_nat (n * HALF_LIFE)) = Some r"
      "unat r = reward_at (unat (of_nat (n * HALF_LIFE) :: u64))"
    using block_reward_value by blast
  have "unat (of_nat (n * HALF_LIFE) :: u64) = n * HALF_LIFE"
    using assms by (simp only: unat_of_nat) simp
  moreover have "interp 0 = 2 ^ 64" by (simp add: interp_def lut_0)
  moreover have "DECAY_COMPONENT * 2 ^ 64 div 2 ^ (64 + n) = DECAY_COMPONENT div 2 ^ n"
    by (simp add: power_add)
  moreover have "HALF_LIFE > 0" by (simp add: constants)
  ultimately show ?thesis using r by (simp add: reward_at_def)
qed

end
