(* ===== verification/Difficulty.thy ===== *)
theory Difficulty
  imports Blocks Bytes256
begin

text \<open>
  Difficulty, work and fork choice: \<open>src/src/consensus/difficulty.rs\<close>,
  \<open>src/src/consensus/pow.rs\<close> and \<open>src/src/chain/fork_choice.rs\<close>. Targets and work
  are 32-byte big-endian arrays, the arithmetic is the 64-bit-limb and byte-wise one of the code.
  Reading a header from the database is a parameter that may fail.
\<close>

unbundle bit_operations_syntax


section \<open>Limb arithmetic\<close>

definition be_limbs :: "bytes \<Rightarrow> u128 list" where
  "be_limbs v = map (\<lambda>i. of_nat (of_be (bslice v (8 * i) (8 * i + 8)))) [0, 1, 2, 3]"

text \<open>Multiplication by a 64-bit number from the least significant limb up.\<close>

fun mul_limb_loop :: "u128 list \<Rightarrow> u128 \<Rightarrow> u128 list \<times> u128" where
  "mul_limb_loop [] num = ([], 0)"
| "mul_limb_loop (l # ls) num = (let (ps, carry) = mul_limb_loop ls num; val = l * num + carry
     in ((val AND 0xFFFFFFFFFFFFFFFF) # ps, drop_bit 64 val))"

text \<open>Division from the most significant limb down; \<open>None\<close> is the early return with the
  saturated result.\<close>

fun div_limb_loop :: "bool \<Rightarrow> u128 list \<Rightarrow> u128 \<Rightarrow> u128 \<Rightarrow> u64 list option" where
  "div_limb_loop first [] remainder den = Some []"
| "div_limb_loop first (p # ps) remainder den =
     (let cur = push_bit 64 remainder OR p; q = cur div den; remainder = cur mod den in
      if first then (if q > 0 then None else div_limb_loop False ps remainder den)
      else if q > 0xFFFFFFFFFFFFFFFF then None
      else map_option ((#) (ucast q)) (div_limb_loop False ps remainder den))"

definition max_256 :: bytes where "max_256 = replicate 32 0xFF"

definition mul_div_256 :: "bytes \<Rightarrow> u64 \<Rightarrow> u64 \<Rightarrow> bytes" where
  "mul_div_256 val numerator denominator =
     (let (ps, carry) = mul_limb_loop (be_limbs val) (ucast numerator) in
      case div_limb_loop True (carry # ps) 0 (ucast denominator) of
        None \<Rightarrow> max_256
      | Some result_limbs \<Rightarrow> concat (map (\<lambda>l. to_be 8 (unat l)) result_limbs))"

definition retarget :: "bytes \<Rightarrow> u64 \<Rightarrow> bytes" where
  "retarget old_target actual_time_secs =
     (let expected_time = (RETARGET_WINDOW - 1) * TARGET_BLOCK_TIME_SECS;
          actual = (if actual_time_secs = 0 then 1 else actual_time_secs);
          min_time = expected_time div MAX_RETARGET_FACTOR;
          max_time = expected_time * MAX_RETARGET_FACTOR;
          clamped_time = (if unat actual < min_time then min_time else if unat actual > max_time then max_time
            else unat actual);
          new_target = mul_div_256 old_target (of_nat clamped_time) (of_nat expected_time)
      in if new_target = replicate 32 0 then replicate 31 0 @ [1] else new_target)"


section \<open>Work\<close>

definition div_256 :: "bytes \<Rightarrow> bytes \<Rightarrow> bytes" where
  "div_256 a b = fst (long_div ge_256 sub_256_inplace a b)"

definition work_from_target :: "bytes \<Rightarrow> bytes" where
  "work_from_target target =
     (if target = replicate 32 0 then max_256
      else let numerator = fst (sub_loop_int (replicate 32 0) target);
               quotient = div_256 numerator target;
               (result, carry) = add_loop16 quotient (replicate 32 0) 1
           in if carry > 0 then max_256 else result)"

definition add_work :: "bytes \<Rightarrow> bytes \<Rightarrow> bytes" where
  "add_work a b = (let (result, carry) = add_loop16 a b 0 in if carry > 0 then max_256 else result)"


section \<open>Expected difficulty\<close>

datatype DifficultyError =
    AncestorNotFound bytes
  | DOther string

type_synonym header_source = "bytes \<Rightarrow> DifficultyError + BlockHeader option"

text \<open>The target of the genesis block, with or without the \<open>testnet\<close> feature.\<close>

definition genesis_target :: "bool \<Rightarrow> bytes" where
  "genesis_target testnet = (if testnet then replicate 32 0xFF else 1 # replicate 31 0)"

definition fetch_header :: "header_source \<Rightarrow> bytes \<Rightarrow> DifficultyError + BlockHeader" where
  "fetch_header get i = rbind (get i) (\<lambda>h. ok_or (AncestorNotFound i) h)"

primrec walk_back :: "header_source \<Rightarrow> nat \<Rightarrow> bytes \<Rightarrow> DifficultyError + bytes" where
  "walk_back get 0 current_id = Ok current_id"
| "walk_back get (Suc n) current_id =
     rbind (fetch_header get current_id) (\<lambda>hdr. walk_back get n (prev_block_id hdr))"

text \<open>The database read reports its failure as a string.\<close>

type_synonym header_db = "bytes \<Rightarrow> string + BlockHeader option"

definition storage_source :: "header_db \<Rightarrow> header_source" where
  "storage_source db i = map_err DOther (db i)"

definition expected_difficulty :: "bool \<Rightarrow> header_db \<Rightarrow> bytes \<Rightarrow> u64 \<Rightarrow> DifficultyError + bytes" where
  "expected_difficulty testnet db prev h =
     (if h = 0 then Ok (genesis_target testnet)
      else rbind (fetch_header (storage_source db) prev) (\<lambda>parent.
        if unat h mod RETARGET_WINDOW \<noteq> 0 then Ok (difficulty_target parent)
        else rbind (walk_back (storage_source db) (RETARGET_WINDOW - 1) prev) (\<lambda>current_id.
          rbind (fetch_header (storage_source db) current_id) (\<lambda>window_start.
          Ok (retarget (difficulty_target parent) (saturating_sub (timestamp parent) (timestamp window_start)))))))"

record ForwardHeaderOverlay =
  fho_storage :: header_db
  fho_overlay :: "bytes \<rightharpoonup> BlockHeader"

definition overlay_new :: "header_db \<Rightarrow> ForwardHeaderOverlay" where
  "overlay_new db = \<lparr>fho_storage = db, fho_overlay = Map.empty\<rparr>"

definition overlay_insert :: "crypto \<Rightarrow> BlockHeader \<Rightarrow> ForwardHeaderOverlay \<Rightarrow> ForwardHeaderOverlay" where
  "overlay_insert C hdr o' = o'\<lparr>fho_overlay := (fho_overlay o')(block_id C hdr \<mapsto> hdr)\<rparr>"

definition overlay_get_header :: "ForwardHeaderOverlay \<Rightarrow> header_source" where
  "overlay_get_header o' i = (case fho_overlay o' i of
     Some h \<Rightarrow> Ok (Some h)
   | None \<Rightarrow> map_err DOther (fho_storage o' i))"

definition expected_difficulty_overlay ::
    "bool \<Rightarrow> ForwardHeaderOverlay \<Rightarrow> bytes \<Rightarrow> u64 \<Rightarrow> DifficultyError + bytes" where
  "expected_difficulty_overlay testnet o' prev h =
     (if h = 0 then Ok (genesis_target testnet)
      else rbind (fetch_header (overlay_get_header o') prev) (\<lambda>parent.
        if unat h mod RETARGET_WINDOW \<noteq> 0 then Ok (difficulty_target parent)
        else rbind (walk_back (overlay_get_header o') (RETARGET_WINDOW - 1) prev) (\<lambda>current_id.
          rbind (fetch_header (overlay_get_header o') current_id) (\<lambda>window_start.
          Ok (retarget (difficulty_target parent) (saturating_sub (timestamp parent) (timestamp window_start)))))))"

definition needs_retarget :: "u64 \<Rightarrow> bool" where
  "needs_retarget h \<longleftrightarrow> h > 0 \<and> unat h mod RETARGET_WINDOW = 0"


section \<open>Proof of work\<close>

datatype PowError = PowParams string | PowHash string

definition ARGON2_MEMORY_KIB :: nat where [constants]: "ARGON2_MEMORY_KIB = 65536"
definition ARGON2_ITERATIONS :: nat where [constants]: "ARGON2_ITERATIONS = 2"
definition ARGON2_PARALLELISM :: nat where [constants]: "ARGON2_PARALLELISM = 1"
definition ARGON2_OUTPUT_LEN :: nat where [constants]: "ARGON2_OUTPUT_LEN = 32"

definition compute_pow :: "crypto \<Rightarrow> BlockHeader \<Rightarrow> PowError + bytes" where
  "compute_pow C hdr = (let header_bytes = BlockHeader_serialize hdr;
     pw = domain_hash C DS_POW_P header_bytes;
     salt = domain_hash C DS_POW_S header_bytes
   in rbind (map_err PowParams (argon2_params C ARGON2_MEMORY_KIB ARGON2_ITERATIONS ARGON2_PARALLELISM ARGON2_OUTPUT_LEN))
     (\<lambda>_. map_err PowHash
       (argon2id C ARGON2_MEMORY_KIB ARGON2_ITERATIONS ARGON2_PARALLELISM ARGON2_OUTPUT_LEN pw salt)))"

definition verify_pow :: "crypto \<Rightarrow> BlockHeader \<Rightarrow> PowError + bool" where
  "verify_pow C hdr = rbind (compute_pow C hdr) (\<lambda>pow. Ok (lex_less pow (difficulty_target hdr)))"


section \<open>Fork choice\<close>

record ChainTip =
  tip_block_id :: bytes
  tip_height :: u64
  cumulative_work :: bytes

definition ChainTip_new :: "bytes \<Rightarrow> u64 \<Rightarrow> bytes \<Rightarrow> bytes \<Rightarrow> ChainTip" where
  "ChainTip_new bid h target parent_work =
     \<lparr>tip_block_id = bid, tip_height = h, cumulative_work = add_work parent_work (work_from_target target)\<rparr>"

definition ChainTip_genesis :: "bytes \<Rightarrow> bytes \<Rightarrow> ChainTip" where
  "ChainTip_genesis bid target = \<lparr>tip_block_id = bid, tip_height = 0, cumulative_work = work_from_target target\<rparr>"

definition is_better_chain :: "ChainTip \<Rightarrow> ChainTip \<Rightarrow> bool" where
  "is_better_chain candidate current =
     (if lex_less (cumulative_work current) (cumulative_work candidate) then True
      else if lex_less (cumulative_work candidate) (cumulative_work current) then False
      else tip_height candidate > tip_height current)"


section \<open>What the limb arithmetic computes\<close>

text \<open>The number a list of 64-bit limbs stands for, most significant limb first.\<close>

fun bval :: "nat list \<Rightarrow> nat" where
  "bval [] = 0"
| "bval (x # xs) = x * 2 ^ (64 * length xs) + bval xs"

abbreviation limbs_ok :: "u128 list \<Rightarrow> bool" where
  "limbs_ok ls \<equiv> list_all (\<lambda>l. unat l < 2 ^ 64) ls"

lemma bval_bound: "list_all (\<lambda>x. x < 2 ^ 64) xs \<Longrightarrow> bval xs < 2 ^ (64 * length xs)"
proof (induction xs)
  case (Cons x xs)
  then have "bval (x # xs) < Suc x * 2 ^ (64 * length xs)" by simp
  also have "\<dots> \<le> 2 ^ 64 * 2 ^ (64 * length xs)" using Cons.prems by (intro mult_le_mono1) simp
  finally show ?case by (simp add: power_add)
qed simp

lemma mul_step:
  fixes l num c :: u128
  assumes "unat l < 2 ^ 64" "unat num < 2 ^ 64" "unat c < 2 ^ 64"
  shows "unat (l * num + c) = unat l * unat num + unat c" "unat (drop_bit 64 (l * num + c)) < 2 ^ 64"
proof -
  have "unat l * unat num \<le> (2 ^ 64 - 1) * (2 ^ 64 - 1)" using assms by (intro mult_le_mono) simp_all
  then have b: "unat l * unat num + unat c < 2 ^ 128" using assms(3) by simp
  then show u: "unat (l * num + c) = unat l * unat num + unat c" by (simp add: unat_word_ariths)
  show "unat (drop_bit 64 (l * num + c)) < 2 ^ 64"
    unfolding u128_high64 u using b by (intro less_mult_imp_div_less) simp
qed

lemma mul_limb_loop_value:
  "limbs_ok ls \<Longrightarrow> unat num < 2 ^ 64 \<Longrightarrow> mul_limb_loop ls num = (ps, c) \<Longrightarrow>
   length ps = length ls \<and> limbs_ok ps \<and> unat c < 2 ^ 64
   \<and> unat c * 2 ^ (64 * length ls) + bval (map unat ps) = bval (map unat ls) * unat num"
proof (induction ls arbitrary: ps c)
  case (Cons l ls)
  obtain qs k where r: "mul_limb_loop ls num = (qs, k)" by fastforce
  then have ih: "length qs = length ls" "limbs_ok qs" "unat k < 2 ^ 64"
      "unat k * 2 ^ (64 * length ls) + bval (map unat qs) = bval (map unat ls) * unat num"
    using Cons by auto
  let ?v = "l * num + k"
  have v: "unat ?v = unat l * unat num + unat k" "unat (drop_bit 64 ?v) < 2 ^ 64"
    using mul_step[of l num k] Cons.prems ih(3) by simp_all
  have ps: "ps = (?v AND 0xFFFFFFFFFFFFFFFF) # qs" "c = drop_bit 64 ?v"
    using Cons.prems(3) r by (simp_all add: Let_def)
  let ?B = "2 ^ (64 * length ls) :: nat"
  have "unat c * 2 ^ (64 * length (l # ls)) + bval (map unat ps)
      = (unat (drop_bit 64 ?v) * 2 ^ 64 + unat (?v AND 0xFFFFFFFFFFFFFFFF)) * ?B + bval (map unat qs)"
    unfolding ps by (simp add: ih(1) power_add algebra_simps)
  also have "\<dots> = (unat l * unat num + unat k) * ?B + bval (map unat qs)"
    by (simp only: u128_low64 u128_high64 div_mult_mod_eq v(1))
  also have "\<dots> = bval (map unat (l # ls)) * unat num" using ih(4) by (simp add: algebra_simps)
  finally show ?case using ps ih v(2) by (simp add: u128_low64)
qed simp

lemma div_step:
  fixes r p den :: u128
  assumes "unat p < 2 ^ 64" "unat r < unat den" "unat den < 2 ^ 64"
  defines "cur \<equiv> push_bit 64 r OR p"
  shows "unat cur = unat r * 2 ^ 64 + unat p" "unat (cur div den) < 2 ^ 64" "unat (cur mod den) < unat den"
proof -
  have rb: "unat r * 2 ^ 64 + unat p < unat den * 2 ^ 64"
  proof -
    have "unat r * 2 ^ 64 + unat p < Suc (unat r) * 2 ^ 64" using assms(1) by simp
    also have "\<dots> \<le> unat den * 2 ^ 64" using assms(2) by (intro mult_le_mono1) simp
    finally show ?thesis .
  qed
  have "unat den * 2 ^ 64 \<le> 2 ^ 64 * 2 ^ 64" using assms(3) by (intro mult_le_mono1) simp
  then have r: "unat r * 2 ^ 64 + unat p < 2 ^ 128" using rb by simp
  have pr: "push_bit 64 r AND p = 0"
  proof (rule bit_word_eqI)
    fix n assume "n < LENGTH(128)"
    have "unat (take_bit 64 p) = unat p" using assms(1) by (simp only: unsigned_take_bit_eq take_bit_nat_eq_self)
    then have "p = take_bit 64 p" by (simp only: word_unat_eq_iff)
    then have "bit p n \<Longrightarrow> n < 64" by (metis bit_take_bit_iff)
    then show "bit (push_bit 64 r AND p) n \<longleftrightarrow> bit 0 n" by (auto simp: bit_simps)
  qed
  have "cur = push_bit 64 r + p" unfolding cur_def using pr by (simp add: disjunctive_add_eq_or)
  moreover have "unat (push_bit 64 r) = unat r * 2 ^ 64"
    using r by (simp add: push_bit_eq_mult unat_word_ariths)
  ultimately show u: "unat cur = unat r * 2 ^ 64 + unat p" using r by (simp add: unat_word_ariths)
  show "unat (cur div den) < 2 ^ 64" using rb by (simp add: unat_div u less_mult_imp_div_less mult.commute)
  show "unat (cur mod den) < unat den" using assms(2) by (simp add: unat_mod)
qed

lemma div_limb_loop_value:
  "limbs_ok ps \<Longrightarrow> unat r < unat den \<Longrightarrow> unat den < 2 ^ 64 \<Longrightarrow>
   \<exists>qs. div_limb_loop False ps r den = Some qs \<and> length qs = length ps
     \<and> bval (map unat qs) = (unat r * 2 ^ (64 * length ps) + bval (map unat ps)) div unat den"
proof (induction ps arbitrary: r)
  case (Cons p ps)
  define cur where "cur = push_bit 64 r OR p"
  have c: "unat cur = unat r * 2 ^ 64 + unat p" "unat (cur div den) < 2 ^ 64" "unat (cur mod den) < unat den"
    using div_step[of p r den] Cons.prems by (simp_all add: cur_def)
  obtain qs where qs: "div_limb_loop False ps (cur mod den) den = Some qs" "length qs = length ps"
      "bval (map unat qs) = (unat (cur mod den) * 2 ^ (64 * length ps) + bval (map unat ps)) div unat den"
    using Cons.IH[of "cur mod den"] Cons.prems c(3) by auto
  have "\<not> cur div den > 0xFFFFFFFFFFFFFFFF" using c(2) by (simp add: word_less_nat_alt)
  then have eq: "div_limb_loop False (p # ps) r den = Some (ucast (cur div den) # qs)"
    using qs(1) by (simp add: Let_def cur_def)
  let ?B = "2 ^ (64 * length ps) :: nat" and ?d = "unat den"
  have "bval (map unat (ucast (cur div den) # qs :: u64 list)) = unat cur div ?d * ?B + (unat cur mod ?d * ?B + bval (map unat ps)) div ?d"
    using c(2) qs by (simp add: unat_ucast_u64 unat_div unat_mod)
  also have "\<dots> = (unat cur div ?d * ?B * ?d + (unat cur mod ?d * ?B + bval (map unat ps))) div ?d"
    using Cons.prems by simp
  also have "unat cur div ?d * ?B * ?d + (unat cur mod ?d * ?B + bval (map unat ps))
      = (unat cur div ?d * ?d + unat cur mod ?d) * ?B + bval (map unat ps)" by (simp only: algebra_simps)
  also have "\<dots> = unat r * 2 ^ (64 * length (p # ps)) + bval (map unat (p # ps))"
    by (simp only: div_mult_mod_eq c(1)) (simp add: power_add algebra_simps)
  finally show ?case using eq qs(2) by auto
qed simp

lemma be_limbs_value:
  assumes "length v = 32"
  shows "bval (map unat (be_limbs v)) = of_be v" "limbs_ok (be_limbs v)" "length (be_limbs v) = 4"
proof -
  have l: "of_be (bslice v i (i + 8)) < 2 ^ 64" if "i + 8 \<le> 32" for i
    using of_be_bound[of "bslice v i (i + 8)"] that assms by simp
  have u: "unat (of_nat (of_be (bslice v i (i + 8))) :: u128) = of_be (bslice v i (i + 8))" if "i + 8 \<le> 32" for i
    using l[OF that] by (simp add: unat_of_nat)
  have "v = bslice v 0 8 @ bslice v 8 16 @ bslice v 16 24 @ bslice v 24 32"
    using assms by (simp flip: slice_split)
  then have "of_be v = of_be (bslice v 0 8 @ bslice v 8 16 @ bslice v 16 24 @ bslice v 24 32)" by (rule arg_cong)
  then show "bval (map unat (be_limbs v)) = of_be v"
    using u[of 0] u[of 8] u[of 16] u[of 24] assms by (simp add: be_limbs_def of_be_append)
  show "limbs_ok (be_limbs v)" "length (be_limbs v) = 4"
    using u[of 0] u[of 8] u[of 16] u[of 24] l[of 0] l[of 8] l[of 16] l[of 24] by (simp_all add: be_limbs_def)
qed

lemma concat_limbs:
  "of_be (concat (map (\<lambda>l. to_be 8 (unat l)) (ls :: u64 list))) = bval (map unat ls)
   \<and> length (concat (map (\<lambda>l. to_be 8 (unat l)) ls)) = 8 * length ls"
proof (induction ls)
  case (Cons l ls)
  have "of_be (to_be 8 (unat l)) = unat l" using limb_bound[of l] by (simp add: of_be_to_be)
  then show ?case using Cons by (simp add: of_be_append p256)
qed simp

lemma of_be_ones: "of_be (replicate n 0xFF) + 1 = 256 ^ n"
  by (induction n) (simp_all add: of_be_Cons)

lemma max_256_value: "of_be max_256 = 2 ^ 256 - 1" "length max_256 = 32"
  using of_be_ones[of 32] by (simp_all add: max_256_def)

lemma mul_div_256_value:
  assumes "length v = 32" "d \<noteq> 0"
  shows "mul_div_256 v n d = to_be 32 (min (of_be v * unat n div unat d) (2 ^ 256 - 1))"
proof -
  obtain ps c where m: "mul_limb_loop (be_limbs v) (ucast n) = (ps, c)" by fastforce
  note bl = be_limbs_value[OF assms(1)]
  have mv: "length ps = 4" "limbs_ok ps" "unat c < 2 ^ 64" "unat c * 2 ^ 256 + bval (map unat ps) = of_be v * unat n"
    using mul_limb_loop_value[OF bl(2) _ m] bl limb_bound[of n] by (simp_all add: unat_ucast_u128)
  let ?d = "ucast d :: u128"
  have d: "unat ?d = unat d" "0 < unat d" "unat ?d < 2 ^ 64"
    using assms(2) limb_bound[of d] by (simp_all add: unat_ucast_u128 unat_gt_0)
  show ?thesis
  proof (cases "c div ?d > 0")
    case True
    then have "unat d \<le> unat c"
      using d by (simp add: word_less_nat_alt unat_div unat_ucast_u128 div_greater_zero_iff)
    then have "unat d * 2 ^ 256 \<le> of_be v * unat n" using mv(4) mult_le_mono1[of "unat d" "unat c" "2 ^ 256"] by linarith
    then have "2 ^ 256 \<le> of_be v * unat n div unat d" using d(2) by (simp add: less_eq_div_iff_mult_less_eq mult.commute)
    then have "to_be 32 (min (of_be v * unat n div unat d) (2 ^ 256 - 1)) = max_256"
      using to_be_of_be_id[of max_256 32] max_256_value by simp
    then show ?thesis using True m by (simp add: mul_div_256_def Let_def)
  next
    case False
    then have c0: "c div ?d = 0" by (simp add: word_gt_0)
    then have lt: "unat c < unat d" using d by (simp add: word_unat_eq_iff unat_div unat_ucast_u128 div_eq_0_iff)
    have cm: "c mod ?d = c" using lt d by (simp add: word_unat_eq_iff unat_mod)
    obtain qs where q: "div_limb_loop False ps c ?d = Some qs" "length qs = 4"
        "bval (map unat qs) = of_be v * unat n div unat d"
      using div_limb_loop_value[OF mv(2), of c ?d] mv lt d by auto
    have eq: "mul_div_256 v n d = concat (map (\<lambda>l. to_be 8 (unat l)) qs)"
      using m q(1) c0 cm by (simp add: mul_div_256_def Let_def)
    have "list_all (\<lambda>x. x < 2 ^ 64) (map unat qs)" using limb_bound by (simp add: list_all_iff)
    then have "bval (map unat qs) < 2 ^ 256" using bval_bound[of "map unat qs"] q(2) by simp
    then show ?thesis
      unfolding eq using concat_limbs[of qs] q to_be_of_be_id[of "concat (map (\<lambda>l. to_be 8 (unat l)) qs)" 32]
      by (simp add: min_def)
  qed
qed


section \<open>Retargeting\<close>

definition clamp_time :: "nat \<Rightarrow> nat" where
  "clamp_time t = max 10797 (min t 172760)"

lemma retarget_value:
  assumes "length old = 32"
  shows "of_be (retarget old t) = max 1 (min (of_be old * clamp_time (unat t) div 43190) (2 ^ 256 - 1))"
    and "length (retarget old t) = 32"
proof -
  let ?c = "clamp_time (unat t)"
  let ?n = "min (of_be old * ?c div 43190) (2 ^ 256 - 1)"
  have c: "(if unat (if t = 0 then 1 else t) < 10797 then 10797 else if 172760 < unat (if t = 0 then 1 else t) then 172760
      else unat (if t = 0 then 1 else t)) = ?c"
    by (auto simp: clamp_time_def unat_eq_0)
  have "?c \<le> 172760" by (simp add: clamp_time_def)
  then have u: "unat (of_nat ?c :: u64) = ?c" by (simp add: unat_of_nat)
  have nt: "mul_div_256 old (of_nat ?c) 43190 = to_be 32 ?n"
    using mul_div_256_value[OF assms, of 43190 "of_nat ?c"] by (simp add: u)
  have k: "(RETARGET_WINDOW - 1) * TARGET_BLOCK_TIME_SECS = 43190" "43190 div MAX_RETARGET_FACTOR = 10797"
      "43190 * MAX_RETARGET_FACTOR = 172760" "(of_nat 43190 :: u64) = 43190"
    by (simp_all add: constants)
  have r: "retarget old t = (if to_be 32 ?n = replicate 32 0 then replicate 31 0 @ [1] else to_be 32 ?n)"
    by (simp only: retarget_def Let_def k c nt)
  have n: "of_be (to_be 32 ?n) = ?n" by (simp add: of_be_to_be min_def)
  have "to_be 32 ?n = replicate 32 0 \<longleftrightarrow> ?n = 0"
    using n of_be_inj[of "to_be 32 ?n" "replicate 32 0"] by auto
  then show "of_be (retarget old t) = max 1 ?n" using n unfolding r by (auto simp: of_be_append of_be_Cons)
  show "length (retarget old t) = 32" unfolding r by simp
qed


section \<open>Work\<close>

lemma work_from_target_value:
  assumes "length t = 32"
  shows "of_be (work_from_target t) = (if of_be t = 0 then 2 ^ 256 - 1 else min (2 ^ 256 div of_be t) (2 ^ 256 - 1))"
    and "length (work_from_target t) = 32"
proof -
  have z: "t = replicate 32 0 \<longleftrightarrow> of_be t = 0" using of_be_inj[of t "replicate 32 0"] assms by auto
  define D where "D = of_be t"
  have "of_be (work_from_target t) = (if D = 0 then 2 ^ 256 - 1 else min (2 ^ 256 div D) (2 ^ 256 - 1))
     \<and> length (work_from_target t) = 32"
  proof (cases "D = 0")
    case True
    then show ?thesis using z by (simp add: work_from_target_def D_def max_256_value)
  next
    case False
    define num where "num = fst (sub_loop_int (replicate 32 0) t)"
    have "D < 256 ^ 32" using of_be_bound[of t] assms by (simp add: D_def)
    then have b: "D < 2 ^ 256" by simp
    have s: "length num = 32" "int (of_be num) = - int D + snd (sub_loop_int (replicate 32 0) t) * 2 ^ 256"
        "snd (sub_loop_int (replicate 32 0) t) \<in> {0, 1}"
      using sub_loop_int_value[of "replicate 32 0" t] assms by (simp_all add: num_def D_def)
    have "snd (sub_loop_int (replicate 32 0) t) = 1" using s(2,3) False by auto
    then have n: "of_be num + D = 2 ^ 256" using s(2) by (simp add: of_nat_eq_iff[where 'a = int, symmetric])
    define q where "q = div_256 num t"
    have q: "length q = 32" "of_be q = of_be num div D"
      using work_div.long_div_value[of num t] s(1) assms False by (simp_all add: q_def div_256_def D_def)
    have "(of_be num + D) div D = of_be num div D + 1" using False by (rule div_add_self2)
    then have w: "of_be q + 1 = 2 ^ 256 div D" using n q(2) by simp
    obtain res c where rc: "add_loop16 q (replicate 32 0) 1 = (res, c)" by fastforce
    have a: "length res = 32" "unat c \<le> 1" "of_be res + unat c * 2 ^ 256 = 2 ^ 256 div D"
      using add_loop16_value[of q "replicate 32 0" 1] q(1) w by (simp_all add: rc)
    have e: "work_from_target t = (if c > 0 then max_256 else res)"
      using False z by (simp add: work_from_target_def Let_def D_def num_def[symmetric] q_def[symmetric] rc)
    show ?thesis
    proof (cases "c > 0")
      case True
      then have "unat c = 1" using a(2) by (simp add: word_less_nat_alt)
      then have "2 ^ 256 \<le> 2 ^ 256 div D" using a(3) by simp
      then show ?thesis using False True e max_256_value by simp
    next
      case False
      then have c0: "unat c = 0" by (simp add: word_gt_0)
      have "of_be res < 256 ^ 32" using of_be_bound[of res] a(1) by simp
      then have "of_be res = 2 ^ 256 div D" "of_be res \<le> 2 ^ 256 - 1" using a(3) c0 by simp_all
      then show ?thesis using False \<open>D \<noteq> 0\<close> e a(1) by (simp add: min_def)
    qed
  qed
  then show "of_be (work_from_target t) = (if of_be t = 0 then 2 ^ 256 - 1 else min (2 ^ 256 div of_be t) (2 ^ 256 - 1))"
    "length (work_from_target t) = 32" by (simp_all add: D_def)
qed

lemma add_work_value:
  assumes "length a = 32" "length b = 32"
  shows "of_be (add_work a b) = min (of_be a + of_be b) (2 ^ 256 - 1)" "length (add_work a b) = 32"
proof -
  obtain res c where rc: "add_loop16 a b 0 = (res, c)" by fastforce
  have v: "length res = 32" "unat c \<le> 1" "of_be res + unat c * 2 ^ 256 = of_be a + of_be b"
    using add_loop16_value[of a b 0] assms by (simp_all add: rc)
  have "of_be res < 256 ^ 32" using of_be_bound[of res] v(1) by simp
  then have r: "of_be res < 2 ^ 256" by simp
  have "of_be (add_work a b) = min (of_be a + of_be b) (2 ^ 256 - 1) \<and> length (add_work a b) = 32"
  proof (cases "c > 0")
    case True
    then have "unat c = 1" using v(2) by (simp add: word_less_nat_alt)
    then show ?thesis using True v(3) by (simp add: add_work_def rc max_256_value)
  next
    case False
    then have "unat c = 0" by (simp add: word_gt_0)
    then show ?thesis using False v r by (simp add: add_work_def rc)
  qed
  then show "of_be (add_work a b) = min (of_be a + of_be b) (2 ^ 256 - 1)" "length (add_work a b) = 32" by simp_all
qed

lemma work_positive: "length t = 32 \<Longrightarrow> 1 \<le> of_be (work_from_target t)"
proof -
  assume t: "length t = 32"
  then have "of_be t < 256 ^ 32" using of_be_bound[of t] by simp
  then have "of_be t \<le> 2 ^ 256" by simp
  then have "1 \<le> 2 ^ 256 div of_be t" if "of_be t \<noteq> 0" using that by (simp add: Suc_le_eq div_greater_zero_iff)
  then show ?thesis unfolding work_from_target_value(1)[OF t] by simp
qed

lemma is_better_chain_value:
  assumes "length (cumulative_work a) = length (cumulative_work b)"
  shows "is_better_chain a b \<longleftrightarrow> of_be (cumulative_work b) < of_be (cumulative_work a)
     \<or> of_be (cumulative_work b) = of_be (cumulative_work a) \<and> tip_height b < tip_height a"
  using lex_less_of_be[of "cumulative_work b" "cumulative_work a"] lex_less_of_be[of "cumulative_work a" "cumulative_work b"] assms
  by (auto simp: is_better_chain_def)

text \<open>A source of headers that agrees with another gives the same walk.\<close>

lemma overlay_agrees:
  assumes "\<And>i h. fho_overlay o' i = Some h \<Longrightarrow> fho_storage o' i = Ok (Some h)"
  shows "overlay_get_header o' = storage_source (fho_storage o')"
  using assms by (auto simp: overlay_get_header_def storage_source_def fun_eq_iff split: option.splits)


section \<open>Properties\<close>

text \<open>C25. Retargeting computes the old target times the measured time over the expected 43190
  seconds, rounded down, with the measured time clamped to a quarter (rounded down) and four
  times the expected one, never below 1 and never above the largest 256-bit number.\<close>

theorem retarget_exact:
  assumes "length old = 32"
  shows "of_be (retarget old t)
    = max 1 (min (of_be old * max 10797 (min (unat t) 172760) div 43190) (2 ^ 256 - 1))"
  using retarget_value(1)[OF assms] by (simp add: clamp_time_def)

theorem retarget_exact_witness: "of_be (retarget (1 # replicate 31 0) 86380) = 2 * 2 ^ 248"
  using retarget_exact[of "1 # replicate 31 0" 86380] by (simp add: of_be_Cons)

text \<open>The work of a target is the number of hashes expected per solution, the floor of
  2 to the 256 over the target, saturated at the largest 256-bit number, which is also the work of
  the unattainable target zero.\<close>

theorem work_exact:
  assumes "length target = 32"
  shows "of_be (work_from_target target)
    = (if of_be target = 0 then 2 ^ 256 - 1 else min (2 ^ 256 div of_be target) (2 ^ 256 - 1))"
  by (rule work_from_target_value(1)[OF assms])

text \<open>C27. A block always wins over its own parent: the tip made from a parent's cumulative work and
  any 32-byte target, at a greater height, is preferred to the parent's tip, even where the
  cumulative work has saturated.\<close>

theorem child_tip_better:
  assumes "length (cumulative_work parent) = 32" "length target = 32" "tip_height parent < h"
  shows "is_better_chain (ChainTip_new bid h target (cumulative_work parent)) parent"
proof -
  let ?w = "cumulative_work parent"
  have w: "of_be (add_work ?w (work_from_target target)) = min (of_be ?w + of_be (work_from_target target)) (2 ^ 256 - 1)"
      "length (add_work ?w (work_from_target target)) = 32"
    using add_work_value[OF assms(1) work_from_target_value(2)[OF assms(2)]] by simp_all
  have "of_be ?w < 256 ^ 32" using of_be_bound[of ?w] assms(1) by simp
  then have "of_be ?w \<le> 2 ^ 256 - 1" by simp
  then have "of_be ?w < of_be (add_work ?w (work_from_target target))
      \<or> of_be ?w = of_be (add_work ?w (work_from_target target))"
    using w(1) work_positive[OF assms(2)] by linarith
  then show ?thesis
    using is_better_chain_value[of "ChainTip_new bid h target ?w" parent] w(2) assms(1,3) by (auto simp: ChainTip_new_def)
qed

theorem child_tip_better_witness:
  "is_better_chain (ChainTip_new [] 1 (genesis_target False) max_256) \<lparr>tip_block_id = [], tip_height = 0, cumulative_work = max_256\<rparr>"
  using child_tip_better[of "\<lparr>tip_block_id = [], tip_height = 0, cumulative_work = max_256\<rparr>" "genesis_target False" 1 "[]"]
  by (simp add: genesis_target_def max_256_value)

text \<open>The fork choice is a strict order on tips: no tip is better than itself, and a tip better
  than one that is better than a third is better than the third, so a node following it cannot
  reorganise in circles.\<close>

theorem fork_choice_strict_order:
  assumes "list_all (\<lambda>t. length (cumulative_work t) = 32) [a, b, c]"
  shows "\<not> is_better_chain a a \<and> (is_better_chain a b \<and> is_better_chain b c \<longrightarrow> is_better_chain a c)"
  using assms is_better_chain_value[of a a] is_better_chain_value[of a b] is_better_chain_value[of b c]
    is_better_chain_value[of a c] by auto

text \<open>C26. Difficulty computed through the overlay of unconfirmed headers is the difficulty computed
  from storage, errors included, whenever storage also has every header of the overlay.\<close>

theorem overlay_difficulty_agrees:
  assumes "\<And>i h. fho_overlay o' i = Some h \<Longrightarrow> fho_storage o' i = Ok (Some h)"
  shows "expected_difficulty_overlay testnet o' prev h = expected_difficulty testnet (fho_storage o') prev h"
proof -
  have "overlay_get_header o' = storage_source (fho_storage o')" using assms by (rule overlay_agrees)
  then show ?thesis unfolding expected_difficulty_overlay_def expected_difficulty_def by (simp only:)
qed

theorem overlay_difficulty_agrees_witness:
  "expected_difficulty_overlay False
     (overlay_insert toy_crypto sample_header (overlay_new (\<lambda>i. Ok (Some sample_header)))) [] 7
   = expected_difficulty False (\<lambda>i. Ok (Some sample_header)) [] 7"
proof -
  let ?o = "overlay_insert toy_crypto sample_header (overlay_new (\<lambda>i. Ok (Some sample_header)))"
  have "fho_overlay ?o i = Some h \<Longrightarrow> fho_storage ?o i = Ok (Some h)" for i h
    by (simp add: overlay_insert_def overlay_new_def split: if_splits)
  from overlay_difficulty_agrees[of ?o, OF this, of False "[]" 7] show ?thesis
    by (simp add: overlay_insert_def overlay_new_def)
qed

text \<open>Proof of work is a numeric test: where the memory-hard hash returns as many bytes as the
  target has, the check accepts a header exactly when the hash, as a big-endian number, is strictly
  below the target, and a target of zero is never met.\<close>

theorem verify_pow_numeric:
  assumes "compute_pow C hdr = Ok pow" "length pow = length (difficulty_target hdr)"
  shows "verify_pow C hdr = Ok (of_be pow < of_be (difficulty_target hdr))"
  using lex_less_of_be[OF assms(2)] assms(1) by (simp add: verify_pow_def)

end
