(* ===== verification/Block_Validation.thy ===== *)
theory Block_Validation
  imports Tx_Validation Blocks Reward Difficulty
begin

text \<open>
  The validation of blocks, the second half of \<open>consensus/validation.rs\<close>: the structural
  check, the header check, the application of a block's transactions with validation and roll-back
  on failure, the application without validation of the trusted part of the chain, and the undo of
  a block. The operations that change the set of unspent outputs return it also when they fail.
  \<open>Panicked\<close> is an index out of range on a block without transactions.
\<close>


section \<open>Structure\<close>

definition structure_coinbase_output :: "crypto \<Rightarrow> nat \<Rightarrow> TxOutput \<Rightarrow> ValidationError + unit" where
  "structure_coinbase_output C idx out =
     rbind (check_dust idx out) (\<lambda>_.
     rbind (check_datum_size idx out) (\<lambda>_.
     rbind (check_datum_hash C idx out) (\<lambda>_.
     check_script_admissible idx out)))"

definition structure_coinbase :: "crypto \<Rightarrow> u64 \<Rightarrow> Transaction \<Rightarrow> ValidationError + unit" where
  "structure_coinbase C h coinbase =
     rbind (ensure (length (inputs coinbase) = 1) (CoinbaseBadInputCount (length (inputs coinbase)))) (\<lambda>_.
     rbind (ensure (prev_tx_id (inputs coinbase ! 0) = ZERO) (CoinbaseBadInputCount 0)) (\<lambda>_.
     rbind (height_index h) (\<lambda>expected_idx.
     rbind (ensure (output_index (inputs coinbase ! 0) = expected_idx)
              (CoinbaseBadOutputIndex expected_idx (output_index (inputs coinbase ! 0)))) (\<lambda>_.
     rbind (check_coinbase_witness h coinbase) (\<lambda>_.
     enum_loop (structure_coinbase_output C) 0 (outputs coinbase))))))"

definition structure_tx :: "crypto \<Rightarrow> Transaction \<Rightarrow> ValidationError + unit" where
  "structure_tx C tx =
     rbind (ensure (inputs tx \<noteq> []) NoInputs) (\<lambda>_.
     rbind (ensure (outputs tx \<noteq> []) NoOutputs) (\<lambda>_.
     rbind (ensure (length (witnesses tx) = length (inputs tx))
              (WitnessCountMismatch (length (inputs tx)) (length (witnesses tx)))) (\<lambda>_.
     rbind (enum_loop check_witness_size 0 (witnesses tx)) (\<lambda>_.
     rbind (enum_loop (\<lambda>idx out.
              rbind (check_datum_size idx out) (\<lambda>_.
              rbind (check_datum_hash C idx out) (\<lambda>_.
              check_script_admissible idx out))) 0 (outputs tx)) (\<lambda>_.
     rbind (check_tx_size tx) (\<lambda>_.
     rbind (check_duplicate_inputs tx) (\<lambda>_.
     enum_loop check_dust 0 (outputs tx))))))))"

definition validate_block_structure :: "settings \<Rightarrow> Block \<Rightarrow> ValidationError + unit" where
  "validate_block_structure S block = (case transactions block of
     [] \<Rightarrow> Err NoTransactions
   | coinbase # txs \<Rightarrow>
       rbind (structure_coinbase (lib S) (height (header block)) coinbase) (\<lambda>_.
       enum_loop (\<lambda>_. structure_tx (lib S)) 0 txs))"


section \<open>Header\<close>

fun wtx_ids :: "crypto \<Rightarrow> Transaction list \<Rightarrow> SerError + bytes list" where
  "wtx_ids C [] = Ok []"
| "wtx_ids C (tx # txs) = rbind (wtx_id C tx) (\<lambda>i. rbind (wtx_ids C txs) (\<lambda>is. Ok (i # is)))"

definition compute_tx_root :: "crypto \<Rightarrow> Transaction list \<Rightarrow> SerError + bytes" where
  "compute_tx_root C txs = rbind (wtx_ids C txs) (\<lambda>ids. Ok (merkle_root C DS_TXROOT ids))"

definition median_time_past :: "u64 list \<Rightarrow> u64" where
  "median_time_past timestamps = (let sorted_ts = sort timestamps in sorted_ts ! (length sorted_ts div 2))"

text \<open>The identifiers are computed and entered one by one, so an error of a later transaction
  does not hide an earlier duplicate.\<close>

fun check_tx_ids :: "crypto \<Rightarrow> bytes set \<Rightarrow> Transaction list \<Rightarrow> ValidationError + unit" where
  "check_tx_ids C seen [] = Ok ()"
| "check_tx_ids C seen (tx # txs) =
     rbind (map_err (\<lambda>_. TxTooLarge 0) (compute_tx_id C tx)) (\<lambda>tx_id.
     if tx_id \<in> seen then Err (DuplicateTransaction tx_id) else check_tx_ids C (insert tx_id seen) txs)"

definition check_parent :: "crypto \<Rightarrow> BlockHeader \<Rightarrow> BlockHeader option \<Rightarrow> ValidationError + unit" where
  "check_parent C h parent =
     rbind (case parent of
         Some p \<Rightarrow>
           rbind (ok_or ArithmeticOverflow (checked_add (height p) 1)) (\<lambda>expected_height.
           ensure (height h = expected_height) (InvalidHeight expected_height (height h)))
       | None \<Rightarrow> ensure (height h = 0) (InvalidHeight 0 (height h))) (\<lambda>_.
     case parent of
         Some p \<Rightarrow> ensure (prev_block_id h = block_id C p) InvalidPrevBlockId
       | None \<Rightarrow> ensure (prev_block_id h = ZERO) InvalidPrevBlockId)"

definition check_timestamp :: "BlockHeader \<Rightarrow> BlockHeader option \<Rightarrow> u64 list \<Rightarrow> u64 option \<Rightarrow> ValidationError + unit" where
  "check_timestamp h parent ancestor_timestamps wall_clock =
     rbind (if ancestor_timestamps = [] then Ok ()
            else let mtp = median_time_past ancestor_timestamps in
              ensure (\<not> timestamp h \<le> mtp) (TimestampBelowMtp mtp (timestamp h))) (\<lambda>_.
     rbind (case wall_clock of
         Some wc \<Rightarrow>
           rbind (ok_or ArithmeticOverflow (checked_add wc (of_nat MAX_TIMESTAMP_DRIFT))) (\<lambda>max_future.
           ensure (\<not> timestamp h > max_future) (TimestampTooFarAhead max_future (timestamp h)))
       | None \<Rightarrow> Ok ()) (\<lambda>_.
     case parent of
         Some p \<Rightarrow>
           rbind (ok_or ArithmeticOverflow (checked_add (timestamp p) (of_nat MAX_TIMESTAMP_GAP))) (\<lambda>max_gap.
           ensure (\<not> timestamp h > max_gap) (TimestampGapTooLarge (timestamp p) (timestamp h)))
       | None \<Rightarrow> Ok ()))"

definition check_block_body :: "crypto \<Rightarrow> Block \<Rightarrow> ValidationError + unit" where
  "check_block_body C block =
     rbind (map_err (\<lambda>_. TxTooLarge 0) (Block_serialize block)) (\<lambda>block_bytes.
     rbind (ensure (length block_bytes \<le> MAX_BLOCK_SIZE) (BlockTooLarge (length block_bytes))) (\<lambda>_.
     case transactions block of
       [] \<Rightarrow> Err NoCoinbase
     | coinbase # txs \<Rightarrow>
         rbind (ensure (is_coinbase coinbase) NoCoinbase) (\<lambda>_.
         rbind (enum_loop (\<lambda>i tx. ensure (\<not> is_coinbase tx) (NonCoinbaseSentinel i)) 1 txs) (\<lambda>_.
         rbind (check_tx_ids C {} (coinbase # txs)) (\<lambda>_.
         rbind (no_dup DoubleSpend (concat (map (\<lambda>tx. map input_outpoint (inputs tx)) txs))) (\<lambda>_.
         rbind (map_err (\<lambda>_. TxTooLarge 0) (compute_tx_root C (coinbase # txs))) (\<lambda>computed_tx_root.
         ensure (tx_root (header block) = computed_tx_root) InvalidTxRoot))))))) "

definition validate_block_header_inner ::
    "settings \<Rightarrow> Block \<Rightarrow> BlockHeader option \<Rightarrow> u64 list \<Rightarrow> bytes \<Rightarrow> u64 option \<Rightarrow> bool \<Rightarrow> ValidationError + unit" where
  "validate_block_header_inner S block parent ancestor_timestamps expected_target wall_clock skip_pow =
     (let h = header block; C = lib S in
      rbind (ensure (version h = VERSION) (InvalidVersion (version h))) (\<lambda>_.
      rbind (check_parent C h parent) (\<lambda>_.
      rbind (ensure (difficulty_target h = expected_target) InvalidDifficulty) (\<lambda>_.
      rbind (if skip_pow then Ok ()
             else case verify_pow C h of
               Inr True \<Rightarrow> Ok ()
             | _ \<Rightarrow> Err PowFailed) (\<lambda>_.
      rbind (check_timestamp h parent ancestor_timestamps wall_clock) (\<lambda>_.
      check_block_body C block))))))"

definition validate_block_header ::
    "settings \<Rightarrow> Block \<Rightarrow> BlockHeader option \<Rightarrow> u64 list \<Rightarrow> bytes \<Rightarrow> u64 option \<Rightarrow> ValidationError + unit" where
  "validate_block_header S block parent ancestor_timestamps expected_target wall_clock =
     validate_block_header_inner S block parent ancestor_timestamps expected_target wall_clock False"

definition validate_block_header_skip_pow ::
    "settings \<Rightarrow> Block \<Rightarrow> BlockHeader option \<Rightarrow> u64 list \<Rightarrow> bytes \<Rightarrow> u64 option \<Rightarrow> ValidationError + unit" where
  "validate_block_header_skip_pow S block parent ancestor_timestamps expected_target wall_clock =
     validate_block_header_inner S block parent ancestor_timestamps expected_target wall_clock True"


section \<open>Undo\<close>

definition spent_by :: "Transaction \<Rightarrow> (OutPoint \<times> UtxoEntry) list \<Rightarrow> (OutPoint \<times> UtxoEntry) list" where
  "spent_by tx spent = filter (\<lambda>(op, _). list_ex (\<lambda>i. input_outpoint i = op) (inputs tx)) spent"

fun undo_txs :: "crypto \<Rightarrow> (OutPoint \<times> UtxoEntry) list \<Rightarrow> Transaction list \<Rightarrow> UtxoSet \<Rightarrow> (UtxoSet, string, unit) run" where
  "undo_txs C spent [] u = (Ok (), u)"
| "undo_txs C spent (tx # txs) u =
     (case undo_transaction C tx (spent_by tx spent) u of
        (Inl _, u) \<Rightarrow> (Err ''undo_applied_transactions failed'', u)
      | (Inr _, u) \<Rightarrow> undo_txs C spent txs u)"

definition undo_applied_transactions :: "crypto \<Rightarrow> Block \<Rightarrow> nat \<Rightarrow> (OutPoint \<times> UtxoEntry) list \<Rightarrow> UtxoSet
    \<Rightarrow> (UtxoSet, string, unit) run" where
  "undo_applied_transactions C block applied_count spent u =
     undo_txs C spent (rev (take applied_count (transactions block))) u"

definition undo_block_transactions :: "crypto \<Rightarrow> Block \<Rightarrow> (OutPoint \<times> UtxoEntry) list \<Rightarrow> UtxoSet
    \<Rightarrow> (UtxoSet, string, unit) run" where
  "undo_block_transactions C block spent u =
     undo_applied_transactions C block (length (transactions block)) spent u"

text \<open>The failure exit of the two functions below: undo what was applied, then report the error,
  or the given message when the undo fails too.\<close>

definition fail_rolled_back :: "crypto \<Rightarrow> Block \<Rightarrow> nat \<Rightarrow> (OutPoint \<times> UtxoEntry) list \<Rightarrow> string \<Rightarrow> ValidationError
    \<Rightarrow> UtxoSet \<Rightarrow> (UtxoSet, ValidationError, 'a) run" where
  "fail_rolled_back C block applied_count spent msg e u =
     (case undo_applied_transactions C block applied_count spent u of
        (Inl _, u) \<Rightarrow> (Err (StateCorrupted msg), u)
      | (Inr _, u) \<Rightarrow> (Err e, u))"


section \<open>Validation and application\<close>

text \<open>The bytes one spent output adds to the undo metadata.\<close>

definition entry_bytes :: "UtxoEntry \<Rightarrow> nat" where
  "entry_bytes e = 53 + (case TxOutput_serialize (ue_output e) of Inr b \<Rightarrow> length b | Inl _ \<Rightarrow> 0)"

fun apply_validated :: "settings \<Rightarrow> u64 \<Rightarrow> Transaction list \<Rightarrow> nat \<Rightarrow> UtxoSet \<Rightarrow> (UtxoSet, ValidationError, nat) run" where
  "apply_validated S h [] total_fees u = (Ok total_fees, u)"
| "apply_validated S h (tx # txs) total_fees u =
     sbind (validate_transaction S tx u h, u) (\<lambda>(fee, _, _) u.
     case apply_transaction (lib S) tx h u of
       (Inl _, u) \<Rightarrow> (Err (StateCorrupted ''tx apply''), u)
     | (Inr _, u) \<Rightarrow> apply_validated S h txs (total_fees + fee) u)"

definition expected_coinbase :: "u64 \<Rightarrow> nat \<Rightarrow> ValidationError + u64" where
  "expected_coinbase h total_fees =
     rbind (ok_or Panicked (block_reward h)) (\<lambda>reward.
     ok_or RewardOverflow (checked_add reward (of_nat total_fees)))"

definition validate_and_apply_block_transactions ::
    "settings \<Rightarrow> Block \<Rightarrow> UtxoSet \<Rightarrow> (UtxoSet, ValidationError, nat) run" where
  "validate_and_apply_block_transactions S block u = (let h = height (header block) in
     case transactions block of
       [] \<Rightarrow> (Err Panicked, u)
     | coinbase # txs \<Rightarrow>
       (case apply_transaction (lib S) coinbase h u of
          (Inl _, u) \<Rightarrow> (Err (StateCorrupted ''coinbase apply''), u)
        | (Inr _, u) \<Rightarrow>
          sbind (apply_validated S h txs 0 u) (\<lambda>total_fees u.
          if total_fees > U64_MAX then (Err ValueOverflow, u)
          else sbind (expected_coinbase h total_fees, u) (\<lambda>expected_reward u.
          sbind (validate_coinbase S coinbase h expected_reward, u) (\<lambda>_ u.
          (Ok total_fees, u))))))"

definition validate_block_transactions :: "settings \<Rightarrow> Block \<Rightarrow> UtxoSet \<Rightarrow> ValidationError + nat" where
  "validate_block_transactions S block u = fst (validate_and_apply_block_transactions S block u)"

text \<open>The inner loop of the atomic application: the entries the transaction will spend, up to the
  limit on undo metadata. A failure carries the size reached and the entries collected.\<close>

fun snapshot_inputs :: "UtxoSet \<Rightarrow> TxInput list \<Rightarrow> (OutPoint \<times> UtxoEntry) list \<Rightarrow> nat
    \<Rightarrow> (nat \<times> (OutPoint \<times> UtxoEntry) list) + (OutPoint \<times> UtxoEntry) list \<times> nat" where
  "snapshot_inputs u [] spent size_so_far = Ok (spent, size_so_far)"
| "snapshot_inputs u (i # is) spent size_so_far = (case UtxoSet_get u (input_outpoint i) of
     Some entry \<Rightarrow>
       (let spent_bytes = size_so_far + entry_bytes entry in
        if spent_bytes > MAX_SPENT_UTXOS_SIZE then Err (spent_bytes, spent)
        else snapshot_inputs u is (spent @ [(input_outpoint i, entry)]) spent_bytes)
   | None \<Rightarrow> snapshot_inputs u is spent size_so_far)"

record progress =
  mutations :: "UtxoMutation list"
  spent_utxos :: "(OutPoint \<times> UtxoEntry) list"
  spent_utxos_bytes :: nat
  applied_count :: nat
  total_fees :: nat

definition undo_failed_apply :: "crypto \<Rightarrow> Block \<Rightarrow> progress \<Rightarrow> Transaction \<Rightarrow> (OutPoint \<times> UtxoEntry) list \<Rightarrow> UtxoSet
    \<Rightarrow> (UtxoSet, ValidationError, progress) run" where
  "undo_failed_apply C block g tx tx_spent u =
     (case undo_partial_transaction C tx tx_spent u of
        (Inl _, u) \<Rightarrow> (Err (StateCorrupted ''tx apply: partial undo failed''), u)
      | (Inr _, u) \<Rightarrow> fail_rolled_back C block (applied_count g) (spent_utxos g)
          ''tx apply: rollback failed'' (StateCorrupted ''tx apply'') u)"

fun apply_atomic :: "settings \<Rightarrow> Block \<Rightarrow> Transaction list \<Rightarrow> progress \<Rightarrow> UtxoSet
    \<Rightarrow> (UtxoSet, ValidationError, progress) run" where
  "apply_atomic S block [] g u = (Ok g, u)"
| "apply_atomic S block (tx # txs) g u = (let C = lib S; h = height (header block) in
     case validate_transaction S tx u h of
       Inl e \<Rightarrow> fail_rolled_back C block (applied_count g) (spent_utxos g) ''rollback failed'' e u
     | Inr (fee, _, _) \<Rightarrow>
       (case snapshot_inputs u (inputs tx) (spent_utxos g) (spent_utxos_bytes g) of
          Inl (spent_bytes, spent) \<Rightarrow>
            fail_rolled_back C block (applied_count g) spent
              ''undo metadata overflow: rollback failed'' (BlockTooLarge spent_bytes) u
        | Inr (spent, spent_bytes) \<Rightarrow>
          (let g = g\<lparr>spent_utxos := spent, spent_utxos_bytes := spent_bytes, total_fees := total_fees g + fee\<rparr> in
           case apply_transaction C tx h u of
             (Inl _, u) \<Rightarrow> undo_failed_apply C block g tx (spent_by tx spent) u
           | (Inr m, u) \<Rightarrow> apply_atomic S block txs
               (g\<lparr>mutations := mutations g @ m, applied_count := applied_count g + 1\<rparr>) u)))"

text \<open>The coinbase is applied first in both functions below.\<close>

definition apply_coinbase :: "crypto \<Rightarrow> Transaction \<Rightarrow> u64 \<Rightarrow> UtxoSet \<Rightarrow> (UtxoSet, ValidationError, progress) run" where
  "apply_coinbase C coinbase h u =
     (case apply_transaction C coinbase h u of
        (Inr m, u) \<Rightarrow> (Ok \<lparr>mutations = m, spent_utxos = [], spent_utxos_bytes = 0, applied_count = 1, total_fees = 0\<rparr>, u)
      | (Inl _, u) \<Rightarrow>
        (case undo_transaction C coinbase [] u of
           (Inl _, u) \<Rightarrow> (Err (StateCorrupted ''coinbase apply: rollback also failed''), u)
         | (Inr _, u) \<Rightarrow> (Err (StateCorrupted ''coinbase apply''), u)))"

definition validate_and_apply_block_transactions_atomic ::
    "settings \<Rightarrow> Block \<Rightarrow> UtxoSet \<Rightarrow> (UtxoSet, ValidationError, nat \<times> UtxoMutation list) run" where
  "validate_and_apply_block_transactions_atomic S block u = (let C = lib S; h = height (header block) in
     case transactions block of
       [] \<Rightarrow> (Err Panicked, u)
     | coinbase # txs \<Rightarrow>
       sbind (apply_coinbase C coinbase h u) (\<lambda>g u.
       sbind (apply_atomic S block txs g u) (\<lambda>g u.
       if total_fees g > U64_MAX then
         fail_rolled_back C block (applied_count g) (spent_utxos g) ''ValueOverflow: rollback failed'' ValueOverflow u
       else case expected_coinbase h (total_fees g) of
         Inl Panicked \<Rightarrow> (Err Panicked, u)
       | Inl e \<Rightarrow> fail_rolled_back C block (applied_count g) (spent_utxos g) ''RewardOverflow: rollback failed'' e u
       | Inr expected_reward \<Rightarrow>
         (case validate_coinbase S coinbase h expected_reward of
            Inl e \<Rightarrow> fail_rolled_back C block (applied_count g) (spent_utxos g) ''rollback failed'' e u
          | Inr _ \<Rightarrow> (Ok (total_fees g, mutations g), u)))))"


section \<open>Application without validation\<close>

text \<open>The inner loop: the entries to be spent and their total value; a failure carries the error,
  the message for a failed roll-back and the entries collected.\<close>

fun snapshot_trusted :: "UtxoSet \<Rightarrow> TxInput list \<Rightarrow> (OutPoint \<times> UtxoEntry) list \<Rightarrow> nat \<Rightarrow> nat
    \<Rightarrow> (ValidationError \<times> string \<times> (OutPoint \<times> UtxoEntry) list) + (OutPoint \<times> UtxoEntry) list \<times> nat \<times> nat" where
  "snapshot_trusted u [] spent size_so_far input_sum = Ok (spent, size_so_far, input_sum)"
| "snapshot_trusted u (i # is) spent size_so_far input_sum = (case UtxoSet_get u (input_outpoint i) of
     None \<Rightarrow> Err (StateCorrupted ''missing input utxo'', ''missing input utxo: rollback failed'', spent)
   | Some entry \<Rightarrow>
       (let spent_bytes = size_so_far + entry_bytes entry in
        if spent_bytes > MAX_SPENT_UTXOS_SIZE
        then Err (BlockTooLarge spent_bytes, ''undo metadata overflow: rollback failed'', spent)
        else snapshot_trusted u is (spent @ [(input_outpoint i, entry)]) spent_bytes
               (input_sum + unat (out_value (ue_output entry)))))"

fun apply_trusted :: "crypto \<Rightarrow> Block \<Rightarrow> Transaction list \<Rightarrow> progress \<Rightarrow> UtxoSet
    \<Rightarrow> (UtxoSet, ValidationError, progress) run" where
  "apply_trusted C block [] g u = (Ok g, u)"
| "apply_trusted C block (tx # txs) g u =
     (case snapshot_trusted u (inputs tx) (spent_utxos g) (spent_utxos_bytes g) 0 of
        Inl (e, msg, spent) \<Rightarrow> fail_rolled_back C block (applied_count g) spent msg e u
      | Inr (spent, spent_bytes, input_sum) \<Rightarrow>
        (let output_sum = sum_outputs (outputs tx) 0;
             tx_spent = drop (length (spent_utxos g)) spent in
         if input_sum < output_sum then
           fail_rolled_back C block (applied_count g) spent ''outputs exceed inputs: rollback failed'' ValueOverflow u
         else
           let g = g\<lparr>spent_utxos := spent, spent_utxos_bytes := spent_bytes,
                      total_fees := total_fees g + (input_sum - output_sum)\<rparr> in
           case apply_transaction C tx (height (header block)) u of
             (Inl _, u) \<Rightarrow> undo_failed_apply C block g tx tx_spent u
           | (Inr m, u) \<Rightarrow> apply_trusted C block txs
               (g\<lparr>mutations := mutations g @ m, applied_count := applied_count g + 1\<rparr>) u))"

definition apply_block_transactions_assume_valid ::
    "crypto \<Rightarrow> Block \<Rightarrow> UtxoSet \<Rightarrow> (UtxoSet, ValidationError, nat \<times> UtxoMutation list) run" where
  "apply_block_transactions_assume_valid C block u = (let h = height (header block) in
     case transactions block of
       [] \<Rightarrow> (Err Panicked, u)
     | coinbase # txs \<Rightarrow>
       sbind (apply_coinbase C coinbase h u) (\<lambda>g u.
       sbind (apply_trusted C block txs g u) (\<lambda>g u.
       if total_fees g > U64_MAX then
         fail_rolled_back C block (applied_count g) (spent_utxos g) ''ValueOverflow: rollback failed'' ValueOverflow u
       else (Ok (total_fees g, mutations g), u))))"

end
