(* ===== verification/Tx_Rules.thy ===== *)
theory Tx_Rules
  imports Block_Validation
begin

text \<open>
  What the validation of a transaction means. \<open>valid_spend\<close> states the rules a spending
  transaction must satisfy over the entries it consumes, without passes, accumulators or an order
  of checks; the validator accepts exactly the transactions that satisfy them, with the fee and the
  script costs the rules determine.
\<close>


section \<open>The rules\<close>

text \<open>An input locked by the hash of a key.\<close>

definition signed :: "settings \<Rightarrow> bytes \<Rightarrow> TxOutput \<Rightarrow> TxWitness \<Rightarrow> bool" where
  "signed S msg out w \<longleftrightarrow> (\<exists>key sig. witness w = key @ sig \<and> length key = 32 \<and> length sig = 64
     \<and> redeemer w = None \<and> out_script out = pubkey_hash_from_key (lib S) key
     \<and> \<not> is_weak_ed25519_key (lib S) key \<and> vk_from_bytes (lib S) key \<and> vk_verify (lib S) key msg sig)"

text \<open>An input locked by a script: the program, its datum, its static cost, and the run that
  returns true and leaves the budget \<open>b\<close>.\<close>

definition unlocked :: "settings \<Rightarrow> ScriptContext \<Rightarrow> nat \<Rightarrow> TxOutput \<Rightarrow> TxWitness \<Rightarrow> Budget \<Rightarrow> bool" where
  "unlocked S cx idx out w b \<longleftrightarrow> (\<exists>p d cost v.
     deserialize_program (out_script out) = Ok p
     \<and> resolve_datum (lib S) out w = Ok d
     \<and> compute_cost p \<lparr>input_count = length (tx_inputs cx), output_count = length (tx_outputs cx)\<rparr> = Ok cost
     \<and> unat (steps cost) \<le> MAX_SCRIPT_STEPS
     \<and> evaluate_with_context (lib S) (layout S) p (build_script_input (witness w) (redeemer w) d) (witness w)
         (Budget_new (of_nat MAX_SCRIPT_STEPS) (cells cost)) (with_self_index cx (of_nat idx)) = Ok (v, b)
     \<and> as_bool v = Some True)"

text \<open>What authorises spending an entry, with the two costs it is charged for.\<close>

definition authorised :: "settings \<Rightarrow> bytes \<Rightarrow> ScriptContext \<Rightarrow> nat \<Rightarrow> UtxoEntry \<times> TxWitness \<Rightarrow> nat \<times> nat \<Rightarrow> bool" where
  "authorised S msg cx idx = (\<lambda>(e, w) cost. let out = ue_output e in
     if is_phase1_script (out_script out)
     then signed S msg out w \<and> cost = (5000 + 8 * chunks (length msg), 0)
     else (\<exists>b. unlocked S cx idx out w b
       \<and> cost = (MAX_SCRIPT_STEPS - steps_remaining b, 10 * chunks (length (out_script out)))))"

definition input_info :: "crypto \<Rightarrow> TxInput \<times> UtxoEntry \<Rightarrow> TxInputInfo" where
  "input_info C = (\<lambda>(i, e). \<lparr>ii_prev_tx_id = prev_tx_id i, ii_output_index = output_index i,
     ii_value = out_value (ue_output e), ii_script_hash = sha256 C (out_script (ue_output e))\<rparr>)"

definition spend_context :: "settings \<Rightarrow> Transaction \<Rightarrow> UtxoEntry list \<Rightarrow> u64 \<Rightarrow> bytes \<Rightarrow> ScriptContext" where
  "spend_context S tx es h msg = \<lparr>tx_inputs = map (input_info (lib S)) (zip (inputs tx) es),
     tx_outputs = map (\<lambda>out. \<lparr>oi_value = out_value out, oi_script_hash = sha256 (lib S) (out_script out),
       oi_datum_hash = datum_hash out\<rparr>) (outputs tx),
     self_index = 0, block_height = h, sig_hash = msg\<rparr>"

definition entry_value :: "UtxoEntry \<Rightarrow> nat" where
  "entry_value e = unat (out_value (ue_output e))"

text \<open>What admission requires of the program in an output.\<close>

definition admissible :: "Program \<Rightarrow> bool" where
  "admissible p \<longleftrightarrow> (\<exists>typed cost. typecheck p = Ok typed
     \<and> output_type (typed ! root p) = bool_type \<and> strict_type_edges p typed
     \<and> list_all node_admissible (nodes p) \<and> script_input_accepts (input_type (typed ! root p)) script_input_type
     \<and> max_depth p \<le> MAX_EVAL_DEPTH
     \<and> compute_cost p \<lparr>input_count = 1, output_count = 1\<rparr> = Ok cost \<and> unat (steps cost) \<le> MAX_SCRIPT_STEPS)"

definition script_ok :: "bytes \<Rightarrow> bool" where
  "script_ok script \<longleftrightarrow> (if is_phase1_script script then \<exists>e. deserialize_program script = Err e
     else \<exists>p. deserialize_program script = Ok p \<and> admissible p)"

definition output_ok :: "settings \<Rightarrow> TxOutput \<Rightarrow> bool" where
  "output_ok S out \<longleftrightarrow> DUST_THRESHOLD \<le> unat (out_value out)
     \<and> pred_option (\<lambda>d. length d \<le> MAX_DATUM_SIZE \<and> pred_option (\<lambda>h. sha256 (lib S) d = h) (datum_hash out)) (datum out)
     \<and> script_ok (out_script out)"

definition witness_ok :: "TxWitness \<Rightarrow> bool" where
  "witness_ok w \<longleftrightarrow> length (witness w) \<le> MAX_WITNESS_SIZE \<and> pred_option (\<lambda>r. length r \<le> MAX_REDEEMER_SIZE) (redeemer w)"

text \<open>The rules: \<open>es\<close> are the entries spent, in the order of the inputs, and \<open>costs\<close> what each
  input is charged; the last line is the fee rule in hundredths.\<close>

definition valid_spend :: "settings \<Rightarrow> Transaction \<Rightarrow> UtxoSet \<Rightarrow> u64 \<Rightarrow> nat \<Rightarrow> nat \<Rightarrow> nat \<Rightarrow> bool" where
  "valid_spend S tx u h fee sc vc \<longleftrightarrow> (\<exists>es costs b msg.
     inputs tx \<noteq> [] \<and> outputs tx \<noteq> []
     \<and> length (witnesses tx) = length (inputs tx) \<and> (\<forall>w\<in>set (witnesses tx). witness_ok w)
     \<and> Transaction_serialize tx = Ok b \<and> length b \<le> MAX_TX_SIZE
     \<and> distinct (map input_outpoint (inputs tx))
     \<and> map (\<lambda>i. utxos u (input_outpoint i)) (inputs tx) = map Some es
     \<and> (\<forall>e\<in>set es. mature (coinbase_maturity S) h e)
     \<and> (\<forall>out\<in>set (outputs tx). output_ok S out)
     \<and> (\<Sum>e\<leftarrow>es. entry_value e) = (\<Sum>out\<leftarrow>outputs tx. unat (out_value out)) + fee
     \<and> (\<Sum>e\<leftarrow>es. entry_value e) < 2 ^ 64
     \<and> sig_message (signature_domain S) tx = Ok msg
     \<and> length costs = length es
     \<and> (\<forall>k<length es. authorised S msg (spend_context S tx es h msg) k (es ! k, witnesses tx ! k) (costs ! k))
     \<and> sc = (\<Sum>c\<leftarrow>costs. fst c) \<and> vc = (\<Sum>c\<leftarrow>costs. snd c) \<and> sc \<le> MAX_TX_SCRIPT_BUDGET
     \<and> sc + vc + base_cost tx (length b) \<le> 100 * fee
     \<and> sc + vc + base_cost tx (length b) < 2 ^ 64)"


section \<open>The passes\<close>

lemma sum_outputs_eq: "sum_outputs outs acc = acc + (\<Sum>out\<leftarrow>outs. unat (out_value out))"
  by (induction outs acc rule: sum_outputs.induct) auto

lemma mature_iff:
  "(if ue_is_coinbase e then let age = saturating_sub h (ue_height e) in ensure (\<not> age < M) (f age) else Ok ()) = Ok x
    \<longleftrightarrow> mature M h e"
  by (auto simp: mature_def Let_def result_simps)

lemma ex_map_Cons: "(\<exists>ys. x # xs = map f ys \<and> P ys) \<longleftrightarrow> (\<exists>y ys. x = f y \<and> xs = map f ys \<and> P (y # ys))"
  by (auto simp: Cons_eq_map_conv)

lemma ex_length_Suc: "(\<exists>ys. length ys = Suc n \<and> P ys) \<longleftrightarrow> (\<exists>y ys. length ys = n \<and> P (y # ys))"
  by (auto simp: length_Suc_conv)

lemma lookup_inputs_Ok:
  "lookup_inputs S u h is t acc = Ok (t', acc') \<longleftrightarrow> (\<exists>es. map (\<lambda>i. utxos u (input_outpoint i)) is = map Some es
     \<and> (\<forall>e\<in>set es. mature (coinbase_maturity S) h e) \<and> t' = t + (\<Sum>e\<leftarrow>es. entry_value e) \<and> acc' = acc @ es)"
proof (induction "is" arbitrary: t acc)
  case (Cons i "is")
  have "lookup_inputs S u h (i # is) t acc = Ok (t', acc') \<longleftrightarrow>
    (\<exists>e. utxos u (input_outpoint i) = Some e \<and> mature (coinbase_maturity S) h e
       \<and> lookup_inputs S u h is (t + entry_value e) (acc @ [e]) = Ok (t', acc'))"
    by (simp add: result_simps mature_iff UtxoSet_get_def entry_value_def)
  also have "\<dots> \<longleftrightarrow> (\<exists>e es. utxos u (input_outpoint i) = Some e \<and> mature (coinbase_maturity S) h e
       \<and> map (\<lambda>i. utxos u (input_outpoint i)) is = map Some es \<and> (\<forall>e\<in>set es. mature (coinbase_maturity S) h e)
       \<and> t' = t + entry_value e + (\<Sum>e\<leftarrow>es. entry_value e) \<and> acc' = acc @ [e] @ es)"
    by (simp add: Cons.IH)
  also have "\<dots> \<longleftrightarrow> (\<exists>es. map (\<lambda>i. utxos u (input_outpoint i)) (i # is) = map Some es
     \<and> (\<forall>e\<in>set es. mature (coinbase_maturity S) h e) \<and> t' = t + (\<Sum>e\<leftarrow>es. entry_value e) \<and> acc' = acc @ es)"
    unfolding list.map ex_map_Cons by (auto simp: add.assoc)
  finally show ?case .
qed auto

lemma context_inputs_eq:
  "map (\<lambda>i. utxos u (input_outpoint i)) is = map Some es \<Longrightarrow>
    context_inputs C u n is = Ok (map (input_info C) (zip is es))"
proof (induction "is" arbitrary: n es)
  case (Cons i "is")
  then obtain e es' where "es = e # es'" "utxos u (input_outpoint i) = Some e"
    "map (\<lambda>i. utxos u (input_outpoint i)) is = map Some es'" by (cases es) auto
  then show ?case using Cons.IH by (simp add: UtxoSet_get_def input_info_def)
qed simp

lemma build_script_context_eq:
  "map (\<lambda>i. utxos u (input_outpoint i)) (inputs tx) = map Some es \<Longrightarrow> sig_message (signature_domain S) tx = Ok msg \<Longrightarrow>
    build_script_context S tx u h = Ok (spend_context S tx es h msg)"
  by (simp add: build_script_context_def context_inputs_eq spend_context_def)

lemma validate_phase1_input_Ok: "validate_phase1_input S idx w out msg = Ok x \<longleftrightarrow> signed S msg out w"
proof -
  have "validate_phase1_input S idx w out msg = Ok x \<longleftrightarrow> length (witness w) = 96 \<and> redeemer w = None
      \<and> pubkey_hash_from_key (lib S) (take 32 (witness w)) = out_script out
      \<and> \<not> is_weak_ed25519_key (lib S) (take 32 (witness w)) \<and> vk_from_bytes (lib S) (take 32 (witness w))
      \<and> vk_verify (lib S) (take 32 (witness w)) msg (drop 32 (witness w))"
    by (auto simp: validate_phase1_input_def Let_def bslice_def split: if_splits)
  also have "\<dots> \<longleftrightarrow> signed S msg out w"
  proof
    assume "length (witness w) = 96 \<and> redeemer w = None
      \<and> pubkey_hash_from_key (lib S) (take 32 (witness w)) = out_script out
      \<and> \<not> is_weak_ed25519_key (lib S) (take 32 (witness w)) \<and> vk_from_bytes (lib S) (take 32 (witness w))
      \<and> vk_verify (lib S) (take 32 (witness w)) msg (drop 32 (witness w))"
    then show "signed S msg out w" unfolding signed_def
      by (intro exI[of _ "take 32 (witness w)"] exI[of _ "drop 32 (witness w)"]) simp
  qed (auto simp: signed_def)
  finally show ?thesis .
qed

lemma unless_Ok: "(if c then Err e else m) = Ok x \<longleftrightarrow> \<not> c \<and> m = Ok x"
  by simp

lemma script_result_Ok:
  "(case r of Inl _ \<Rightarrow> Err e | Inr (v, b) \<Rightarrow> if P v then Ok (f b) else Err e') = Ok n
    \<longleftrightarrow> (\<exists>v b. r = Ok (v, b) \<and> P v \<and> n = f b)"
  by (auto split: sum.splits)

lemma evaluate_typechecks: "evaluate_with_context C M p x wd b cx = Ok r \<Longrightarrow> \<exists>t. typecheck p = Ok t"
  by (auto simp: evaluate_with_context_def result_simps)

lemma validate_script_input_Ok:
  "validate_script_input S idx w out cx = Ok n
    \<longleftrightarrow> (\<exists>b. unlocked S cx idx out w b \<and> n = MAX_SCRIPT_STEPS - steps_remaining b)"
proof -
  have "validate_script_input S idx w out cx = Ok n \<longleftrightarrow> (\<exists>p. deserialize_program (out_script out) = Ok p
     \<and> serialize_program p = out_script out \<and> (\<exists>t. typecheck p = Ok t)
     \<and> (\<exists>d. resolve_datum (lib S) out w = Ok d
     \<and> (\<exists>cost. compute_cost p \<lparr>input_count = length (tx_inputs cx), output_count = length (tx_outputs cx)\<rparr> = Ok cost
     \<and> unat (steps cost) \<le> MAX_SCRIPT_STEPS
     \<and> (\<exists>v b. evaluate_with_context (lib S) (layout S) p (build_script_input (witness w) (redeemer w) d) (witness w)
         (Budget_new (of_nat MAX_SCRIPT_STEPS) (cells cost)) (with_self_index cx (of_nat idx)) = Ok (v, b)
       \<and> as_bool v = Some True \<and> n = MAX_SCRIPT_STEPS - steps_remaining b))))"
    unfolding validate_script_input_def Let_def
    by (simp only: result_simps unless_Ok script_result_Ok not_less not_not) blast
  then show ?thesis
    unfolding unlocked_def using program_canon evaluate_typechecks by blast
qed

lemma verify_inputs_Ok:
  "verify_inputs S msg cx idx ews sc vc = Ok (sc', vc') \<longleftrightarrow> (\<exists>costs. length costs = length ews
     \<and> (\<forall>k<length ews. authorised S msg cx (idx + k) (ews ! k) (costs ! k))
     \<and> sc' = sc + (\<Sum>c\<leftarrow>costs. fst c) \<and> vc' = vc + (\<Sum>c\<leftarrow>costs. snd c))"
proof (induction ews arbitrary: idx sc vc)
  case (Cons ew ews)
  obtain e w where ew: "ew = (e, w)" by (cases ew)
  have "verify_inputs S msg cx idx (ew # ews) sc vc = Ok (sc', vc') \<longleftrightarrow>
    (\<exists>c. authorised S msg cx idx ew c \<and> verify_inputs S msg cx (Suc idx) ews (sc + fst c) (vc + snd c) = Ok (sc', vc'))"
    by (auto simp: ew authorised_def Let_def result_simps validate_phase1_input_Ok validate_script_input_Ok
        PHASE1_SCRIPT_EVAL_COST_def div_ceil_64 mult.commute)
  also have "\<dots> \<longleftrightarrow> (\<exists>c costs. authorised S msg cx idx ew c \<and> length costs = length ews
     \<and> (\<forall>k<length ews. authorised S msg cx (Suc idx + k) (ews ! k) (costs ! k))
     \<and> sc' = sc + fst c + (\<Sum>c\<leftarrow>costs. fst c) \<and> vc' = vc + snd c + (\<Sum>c\<leftarrow>costs. snd c))"
    by (simp add: Cons.IH)
  also have "\<dots> \<longleftrightarrow> (\<exists>costs. length costs = length (ew # ews)
     \<and> (\<forall>k<length (ew # ews). authorised S msg cx (idx + k) ((ew # ews) ! k) (costs ! k))
     \<and> sc' = sc + (\<Sum>c\<leftarrow>costs. fst c) \<and> vc' = vc + (\<Sum>c\<leftarrow>costs. snd c))"
    unfolding length_Cons ex_length_Suc by (auto simp: All_less_Suc2 add.assoc)
  finally show ?case .
qed auto

lemma cost_check_Ok:
  "(case r of Inl _ \<Rightarrow> Err e | Inr c \<Rightarrow> if P c then Err e' else Ok ()) = Ok () \<longleftrightarrow> (\<exists>c. r = Ok c \<and> \<not> P c)"
  by (auto split: sum.splits)

lemma validate_output_script_Ok:
  "validate_output_script i out = Ok () \<longleftrightarrow> (\<exists>p. deserialize_program (out_script out) = Ok p \<and> admissible p)"
  unfolding validate_output_script_def admissible_def Let_def
  by (simp only: result_simps unless_Ok cost_check_Ok not_less not_not) blast

lemma check_output_script_Ok:
  "check_output_script i out = Ok () \<longleftrightarrow> script_ok (out_script out)"
  by (auto simp: script_ok_def check_output_script_def validate_output_script_Ok split: sum.splits)

lemma output_checks:
  "(\<forall>k<length outs. check_datum_size k (outs ! k) = Ok ())
    \<and> (\<forall>k<length outs. rbind (check_dust k (outs ! k)) (\<lambda>_. check_datum_hash (lib S) k (outs ! k)) = Ok ())
    \<and> (\<forall>k<length outs. check_output_script k (outs ! k) = Ok ()) \<longleftrightarrow> (\<forall>out\<in>set outs. output_ok S out)"
proof -
  have one: "check_datum_size k out = Ok () \<and> rbind (check_dust k out) (\<lambda>_. check_datum_hash (lib S) k out) = Ok ()
      \<and> check_output_script k out = Ok () \<longleftrightarrow> output_ok S out" for k out
    by (auto simp: check_output_script_Ok check_datum_size_def check_dust_def check_datum_hash_def output_ok_def result_simps
        split: option.splits)
  have "(\<forall>out\<in>set outs. output_ok S out) \<longleftrightarrow> (\<forall>k<length outs. check_datum_size k (outs ! k) = Ok ()
      \<and> rbind (check_dust k (outs ! k)) (\<lambda>_. check_datum_hash (lib S) k (outs ! k)) = Ok ()
      \<and> check_output_script k (outs ! k) = Ok ())"
    by (simp only: one all_set_conv_all_nth)
  then show ?thesis by blast
qed

lemma witness_checks: "(\<forall>k<length ws. check_witness_size k (ws ! k) = Ok ()) \<longleftrightarrow> (\<forall>w\<in>set ws. witness_ok w)"
proof -
  have one: "check_witness_size k w = Ok () \<longleftrightarrow> witness_ok w" for k w
    by (auto simp: check_witness_size_def witness_ok_def result_simps split: option.splits)
  show ?thesis unfolding all_set_conv_all_nth one by blast
qed

lemma min_fee_demanded:
  assumes "Transaction_serialize tx = Ok b" "length b \<le> MAX_TX_SIZE"
  shows "(\<exists>m. min_fee_with_script_cost tx sc vc = Some m \<and> \<not> fee < m) \<longleftrightarrow>
    sc + vc + base_cost tx (length b) \<le> 100 * fee \<and> sc + vc + base_cost tx (length b) < 2 ^ 64"
proof -
  have "length b \<le> U64_MAX" using assms(2) by (simp add: constants)
  note eq = tx_cost_with_script_cost_eq[OF assms(1) this, of sc vc]
  show ?thesis
  proof (cases "sc + vc + base_cost tx (length b) > U64_MAX")
    case True
    then show ?thesis by (simp add: min_fee_with_script_cost_def eq) (simp add: constants)
  next
    case False
    then have le: "sc + vc + base_cost tx (length b) \<le> U64_MAX" by simp
    have "min_fee_with_script_cost tx sc vc = Some ((sc + vc + base_cost tx (length b) + 99) div 100)"
      using le by (simp add: min_fee_with_script_cost_def eq ceil_div_fee[OF le])
    moreover have "\<not> fee < (n + 99) div 100 \<longleftrightarrow> n \<le> 100 * fee" for n by linarith
    ultimately show ?thesis using le by (simp add: constants)
  qed
qed

section \<open>The validator and the rules\<close>

lemma validate_transaction_Ok:
  "validate_transaction S tx u h = Ok (fee, sc, vc) \<longleftrightarrow> (\<exists>b t es msg cx m.
     inputs tx \<noteq> [] \<and> outputs tx \<noteq> [] \<and> length (witnesses tx) = length (inputs tx)
     \<and> (\<forall>k<length (witnesses tx). check_witness_size k (witnesses tx ! k) = Ok ())
     \<and> (\<forall>k<length (outputs tx). check_datum_size k (outputs tx ! k) = Ok ())
     \<and> Transaction_serialize tx = Ok b \<and> length b \<le> MAX_TX_SIZE
     \<and> distinct (map input_outpoint (inputs tx))
     \<and> (\<forall>k<length (outputs tx). rbind (check_dust k (outputs tx ! k)) (\<lambda>_. check_datum_hash (lib S) k (outputs tx ! k)) = Ok ())
     \<and> lookup_inputs S u h (inputs tx) 0 [] = Ok (t, es)
     \<and> \<not> (t > U64_MAX \<or> sum_outputs (outputs tx) 0 > U64_MAX) \<and> \<not> t < sum_outputs (outputs tx) 0
     \<and> (\<forall>k<length (outputs tx). check_output_script k (outputs tx ! k) = Ok ())
     \<and> sig_message (signature_domain S) tx = Ok msg \<and> build_script_context S tx u h = Ok cx
     \<and> verify_inputs S msg cx 0 (zip es (witnesses tx)) 0 0 = Ok (sc, vc)
     \<and> \<not> sc > MAX_TX_SCRIPT_BUDGET \<and> fee = t - sum_outputs (outputs tx) 0
     \<and> min_fee_with_script_cost tx sc vc = Some m \<and> \<not> fee < m)"
  unfolding validate_transaction_def check_tx_size_def check_duplicate_inputs_def Let_def
  by (simp only: result_simps split_paired_Ex prod.case add_0 sum.inject prod.inject) blast

lemma validate_transaction_sound:
  assumes "validate_transaction S tx u h = Ok (fee, sc, vc)"
  shows "valid_spend S tx u h fee sc vc"
proof -
  obtain b t es msg cx m where v:
     "inputs tx \<noteq> []" "outputs tx \<noteq> []" "length (witnesses tx) = length (inputs tx)"
     "\<forall>k<length (witnesses tx). check_witness_size k (witnesses tx ! k) = Ok ()"
     "\<forall>k<length (outputs tx). check_datum_size k (outputs tx ! k) = Ok ()"
     "Transaction_serialize tx = Ok b" "length b \<le> MAX_TX_SIZE" "distinct (map input_outpoint (inputs tx))"
     "\<forall>k<length (outputs tx). rbind (check_dust k (outputs tx ! k)) (\<lambda>_. check_datum_hash (lib S) k (outputs tx ! k)) = Ok ()"
     "lookup_inputs S u h (inputs tx) 0 [] = Ok (t, es)"
     "\<not> (t > U64_MAX \<or> sum_outputs (outputs tx) 0 > U64_MAX)" "\<not> t < sum_outputs (outputs tx) 0"
     "\<forall>k<length (outputs tx). check_output_script k (outputs tx ! k) = Ok ()"
     "sig_message (signature_domain S) tx = Ok msg" "build_script_context S tx u h = Ok cx"
     "verify_inputs S msg cx 0 (zip es (witnesses tx)) 0 0 = Ok (sc, vc)"
     "\<not> sc > MAX_TX_SCRIPT_BUDGET" "fee = t - sum_outputs (outputs tx) 0"
     "min_fee_with_script_cost tx sc vc = Some m" "\<not> fee < m"
    using assms unfolding validate_transaction_Ok by (elim exE conjE)
  have es: "map (\<lambda>i. utxos u (input_outpoint i)) (inputs tx) = map Some es"
      "\<forall>e\<in>set es. mature (coinbase_maturity S) h e" "t = (\<Sum>e\<leftarrow>es. entry_value e)"
    using v(10) by (auto simp: lookup_inputs_Ok)
  have len: "length es = length (inputs tx)" using arg_cong[OF es(1), of length] by simp
  have cx: "cx = spend_context S tx es h msg" using build_script_context_eq[OF es(1) v(14)] v(15) by simp
  obtain costs where c: "length costs = length es"
      "\<forall>k<length es. authorised S msg cx k (es ! k, witnesses tx ! k) (costs ! k)"
      "sc = (\<Sum>c\<leftarrow>costs. fst c)" "vc = (\<Sum>c\<leftarrow>costs. snd c)"
    using v(3,16) len by (auto simp: verify_inputs_Ok)
  have outs: "\<forall>out\<in>set (outputs tx). output_ok S out" using v(5,9,13) output_checks[of "outputs tx" S] by blast
  have "(\<Sum>e\<leftarrow>es. entry_value e) = (\<Sum>out\<leftarrow>outputs tx. unat (out_value out)) + fee"
    using v(12,18) es(3) by (simp add: sum_outputs_eq)
  moreover have "(\<Sum>e\<leftarrow>es. entry_value e) < 2 ^ 64" using v(11) es(3) by (simp add: constants)
  moreover have "sc + vc + base_cost tx (length b) \<le> 100 * fee" "sc + vc + base_cost tx (length b) < 2 ^ 64"
    using min_fee_demanded[OF v(6,7), of sc vc fee] v(19,20) by blast+
  ultimately show ?thesis
    unfolding valid_spend_def
    using v(1-3,6-8,14) v(4)[unfolded witness_checks] es(1,2) outs c[unfolded cx] v(17)[unfolded not_less] by blast
qed

lemma validate_transaction_complete:
  assumes "valid_spend S tx u h fee sc vc"
  shows "validate_transaction S tx u h = Ok (fee, sc, vc)"
proof -
  obtain es costs b msg where r:
     "inputs tx \<noteq> []" "outputs tx \<noteq> []"
     "length (witnesses tx) = length (inputs tx)" "\<forall>w\<in>set (witnesses tx). witness_ok w"
     "Transaction_serialize tx = Ok b" "length b \<le> MAX_TX_SIZE" "distinct (map input_outpoint (inputs tx))"
     "map (\<lambda>i. utxos u (input_outpoint i)) (inputs tx) = map Some es"
     "\<forall>e\<in>set es. mature (coinbase_maturity S) h e" "\<forall>out\<in>set (outputs tx). output_ok S out"
     "(\<Sum>e\<leftarrow>es. entry_value e) = (\<Sum>out\<leftarrow>outputs tx. unat (out_value out)) + fee"
     "(\<Sum>e\<leftarrow>es. entry_value e) < 2 ^ 64" "sig_message (signature_domain S) tx = Ok msg"
     "length costs = length es"
     "\<forall>k<length es. authorised S msg (spend_context S tx es h msg) k (es ! k, witnesses tx ! k) (costs ! k)"
     "sc = (\<Sum>c\<leftarrow>costs. fst c)" "vc = (\<Sum>c\<leftarrow>costs. snd c)" "sc \<le> MAX_TX_SCRIPT_BUDGET"
     "sc + vc + base_cost tx (length b) \<le> 100 * fee" "sc + vc + base_cost tx (length b) < 2 ^ 64"
    using assms unfolding valid_spend_def by (elim exE conjE)
  let ?t = "\<Sum>e\<leftarrow>es. entry_value e"
  have len: "length es = length (inputs tx)" using arg_cong[OF r(8), of length] by simp
  have look: "lookup_inputs S u h (inputs tx) 0 [] = Ok (?t, es)"
    unfolding lookup_inputs_Ok using r(8,9) by (intro exI[of _ es]) simp
  have ver: "verify_inputs S msg (spend_context S tx es h msg) 0 (zip es (witnesses tx)) 0 0 = Ok (sc, vc)"
    unfolding verify_inputs_Ok using r(3,14-17) len by (intro exI[of _ costs]) simp
  obtain m where m: "min_fee_with_script_cost tx sc vc = Some m" "\<not> fee < m"
    using min_fee_demanded[OF r(5,6), of sc vc fee] r(19,20) by blast
  have sums: "\<not> (?t > U64_MAX \<or> sum_outputs (outputs tx) 0 > U64_MAX)" "\<not> ?t < sum_outputs (outputs tx) 0"
      "fee = ?t - sum_outputs (outputs tx) 0"
    using r(11,12) by (simp_all add: sum_outputs_eq constants)
  have outs: "\<forall>k<length (outputs tx). check_datum_size k (outputs tx ! k) = Ok ()"
      "\<forall>k<length (outputs tx). rbind (check_dust k (outputs tx ! k)) (\<lambda>_. check_datum_hash (lib S) k (outputs tx ! k)) = Ok ()"
      "\<forall>k<length (outputs tx). check_output_script k (outputs tx ! k) = Ok ()"
    using r(10) output_checks[of "outputs tx" S] by blast+
  show ?thesis
    unfolding validate_transaction_Ok
    using r(1-3,5-7,13) r(4)[folded witness_checks] look ver m sums outs
      build_script_context_eq[OF r(8,13), of h] r(18)[folded not_less] by blast
qed

text \<open>C2. The validator accepts a transaction with a fee and script costs if and only if the rules of
  \<open>valid_spend\<close> hold: distinct existing mature inputs, each authorised by a signature or by a
  script that returns true within its budget, admissible outputs above the dust limit, the value of
  the inputs equal to that of the outputs plus the fee, sizes and script budget within their limits,
  and one hundred times the fee at least the cost.\<close>

theorem validate_transaction_iff:
  "validate_transaction S tx u h = Ok (fee, sc, vc) \<longleftrightarrow> valid_spend S tx u h fee sc vc"
  using validate_transaction_sound validate_transaction_complete by blast

end
