(* ===== verification/Script_Admission.thy ===== *)
theory Script_Admission
  imports Tx_Rules
begin

text \<open>
  What the admission of an output script is worth to the one who will spend it: the evaluation of
  an admitted program, on any input, witness, context and budget, comes to an end within the
  recursion limit, passes the type check that evaluation starts with, and never meets a hidden or
  missing node or an unimplemented jet.
\<close>


section \<open>Errors of the program text\<close>

fun structural :: "EvalError \<Rightarrow> bool" where
  "structural HiddenNode = True"
| "structural (ENodeOutOfBounds _) = True"
| "structural RecursionDepthExceeded = True"
| "structural (EJetError (JNotImplemented _)) = True"
| "structural _ = False"

definition smooth :: "EvalError + 'a \<Rightarrow> bool" where
  "smooth r \<longleftrightarrow> (\<forall>e. r = Err e \<longrightarrow> \<not> structural e)"

lemma smooth_simps [simp]: "smooth (Ok x)" "smooth (Err e) \<longleftrightarrow> \<not> structural e"
  by (auto simp: smooth_def)

lemma smooth_bind: "smooth m \<Longrightarrow> (\<And>x. m = Ok x \<Longrightarrow> smooth (f x)) \<Longrightarrow> smooth (rbind m f)"
  by (cases m) auto

lemma smooth_ops [simp]:
  "smooth (consume_step b)" "smooth (consume_steps n b)" "smooth (consume_cell b)" "smooth (track_memory n b)"
  by (auto simp: consume_step_def consume_steps_def consume_cell_def track_memory_def)

lemma smooth_on_budget: "(\<And>b. smooth (f b)) \<Longrightarrow> smooth (on_budget f st)"
  by (auto simp: on_budget_def intro!: smooth_bind)

lemma smooth_track: "smooth (track_value M v st)"
  by (auto simp: track_value_def intro!: smooth_on_budget split: prod.split)

lemma smooth_read: "smooth (read_typed_value d t st)"
  by (auto simp: read_typed_value_def read_value_def smooth_def result_simps rbind_Err_iff map_err_Err_iff split: if_splits)

lemma smooth_fold_iter:
  assumes "\<And>x st. smooth (ev x st)"
  shows "smooth (fold_iter E ev elem s)"
  using assms
  by (cases s) (auto simp: fold_iter_def Let_def intro!: smooth_bind smooth_on_budget split: prod.split)

lemma smooth_fold_times: "(\<And>s. smooth (f s)) \<Longrightarrow> smooth (fold_times k f s)"
  by (induction k arbitrary: s) (auto intro: smooth_bind)

lemma smooth_rfold: "(\<And>x s. smooth (f x s)) \<Longrightarrow> smooth (rfold f xs s)"
  by (induction xs arbitrary: s) (auto intro: smooth_bind)

definition implemented :: "JetError + 'a \<Rightarrow> bool" where
  "implemented r \<longleftrightarrow> (\<forall>s. r \<noteq> Err (JNotImplemented s))"

lemma implemented_simps [simp]: "implemented (Ok x)" "implemented (Err e) \<longleftrightarrow> (\<forall>s. e \<noteq> JNotImplemented s)"
  by (auto simp: implemented_def)

lemma implemented_bind: "implemented m \<Longrightarrow> (\<And>x. implemented (f x)) \<Longrightarrow> implemented (rbind m f)"
  by (cases m) auto

lemma implemented_ok_or [simp]: "implemented (ok_or e m) \<longleftrightarrow> m \<noteq> None \<or> (\<forall>s. e \<noteq> JNotImplemented s)"
  by (cases m) auto

lemma implemented_parts [simp]:
  "implemented (extract_u64_pair x)" "implemented (extract_u256 x)" "implemented (to_byte_slice x)"
  by (auto simp: extract_u64_pair_def extract_u256_def to_byte_slice_def split: Value.split)

lemma implemented_u256_pair [simp]: "implemented (extract_u256_pair x)"
  by (auto simp: extract_u256_pair_def split: Value.split intro!: implemented_bind)

lemma implemented_mul [simp]: "implemented (mul_u256_full a b)"
  by (auto simp: mul_u256_full_def Let_def)

lemma implemented_loops [simp]:
  "implemented (list_sum_loop acc vs)" "implemented (list_all_loop vs)"
  "implemented (list_any_loop vs)" "implemented (list_find_loop i vs)"
  by (induction vs arbitrary: acc i) (auto split: Value.split option.split intro!: implemented_bind)

lemma jet_implemented: "j \<noteq> SchnorrVerify \<Longrightarrow> implemented (jet_eval C j x cx)"
  by (cases j; simp add: jet_eval_def jet_defs jet_list_at_def Let_def case_prod_unfold
      split: Value.split option.split; (intro implemented_bind allI impI conjI)?; simp?;
      (intro impI implemented_bind)?; simp?)


lemma smooth_jet: "is_implemented j \<Longrightarrow> smooth (map_err EJetError (jet_eval C j x cx))"
  using jet_implemented[of j C x cx]
  by (cases "jet_eval C j x cx"; cases "projl (jet_eval C j x cx)") (auto simp: is_implemented_def)


section \<open>Evaluation\<close>

lemmas smooth_intros = smooth_bind smooth_on_budget smooth_track smooth_read smooth_fold_times smooth_rfold
  smooth_fold_iter smooth_jet

lemma smooth_fold_end: "smooth (fold_end s)"
  by (cases s) (simp add: fold_end_def)

lemma smooth_eval_step:
  assumes "node_admissible nd" and ev: "\<And>c x st. c \<in> set (children_of nd) \<Longrightarrow> smooth (ev c x st)"
  shows "smooth (eval_step E ev i nd x st)"
proof (cases nd)
  case (Jet j)
  then show ?thesis using assms(1)
    by (auto simp: eval_step_def intro!: smooth_intros)
qed (use assms in \<open>auto simp: eval_step_def Let_def intro!: smooth_intros smooth_fold_end split: prod.split Value.split\<close>)

lemma smooth_eval_node:
  assumes "dag (nodes (prog E))" "list_all node_admissible (nodes (prog E))"
  shows "i < length (nodes (prog E)) \<Longrightarrow> depths (nodes (prog E)) ! i \<le> n \<Longrightarrow> smooth (eval_node n E i x st)"
proof (induction n arbitrary: i x st)
  case 0
  then show ?case using depths_pos[OF assms(1), of i] by simp
next
  case (Suc n)
  let ?nd = "nodes (prog E) ! i"
  have get: "get_node (prog E) i = Some ?nd" using Suc.prems(1) by (simp add: get_node_def)
  have "smooth (eval_step E (eval_node n E) i ?nd x st)"
  proof (rule smooth_eval_step)
    show "node_admissible ?nd" using assms(2) Suc.prems(1) by (simp add: list_all_length)
    fix c y st' assume c: "c \<in> set (children_of ?nd)"
    have "c < length (nodes (prog E))" using dagD[OF assms(1) Suc.prems(1) c] by simp
    moreover have "depths (nodes (prog E)) ! c \<le> n" using depths_child[OF assms(1) Suc.prems(1) c] Suc.prems(2) by simp
    ultimately show "smooth (eval_node n E c y st')" by (rule Suc.IH)
  qed
  then show ?case by (simp add: get)
qed

lemma admissible_smooth:
  assumes "deserialize_program d = Ok p" "admissible p"
  shows "smooth (evaluate_with_context C M p x wd b cx)"
proof -
  obtain typed where t: "typecheck p = Ok typed" "list_all node_admissible (nodes p)" "max_depth p \<le> MAX_EVAL_DEPTH"
    using assms(2) by (auto simp: admissible_def)
  have vs: "root p < length (nodes p)" "dag (nodes p)"
    using program_canon[OF assms(1)] validate_structure_Ok[of p "()"] by (auto simp: wf_program_def)
  let ?E = "\<lparr>crypt = C, mach = M, prog = p, wdata = wd, ctx = cx, typed_nodes = typed\<rparr>"
  have "depths (nodes p) ! root p \<le> MAX_EVAL_DEPTH + 1"
    using t(3) vs(1) by (auto simp: max_depth_def depths_def split: if_splits)
  then have "smooth (eval_node (MAX_EVAL_DEPTH + 1) ?E (root p) x \<lparr>budget = b, wpos = 0, measured = 0\<rparr>)"
    using vs t(2) by (intro smooth_eval_node) simp_all
  then show ?thesis
    by (auto simp: evaluate_with_context_def t(1) Let_def intro!: smooth_bind split: prod.split)
qed

text \<open>C10. An output script that passes admission can be run: it decodes, it passes the type
  check with which every evaluation starts, with a boolean result and a root that takes the input
  of a spend, and its evaluation on any input, witness, context and budget ends within the
  recursion limit of the interpreter without meeting a hidden node, a missing node or an
  unimplemented jet. It may still run out of budget, reject its witness, or fail in a jet or with a
  type mismatch of the value at hand, for instance on an input of another shape.\<close>

theorem admitted_script_runs:
  assumes "validate_output_script k out = Ok ()"
  shows "\<exists>p typed. deserialize_program (out_script out) = Ok p
    \<and> typecheck p = Ok typed \<and> output_type (typed ! root p) = bool_type
    \<and> script_input_accepts (input_type (typed ! root p)) script_input_type
    \<and> (\<forall>C M x wd b cx e. evaluate_with_context C M p x wd b cx = Err e
        \<longrightarrow> e \<noteq> RecursionDepthExceeded \<and> e \<noteq> HiddenNode \<and> (\<forall>i. e \<noteq> ENodeOutOfBounds i)
          \<and> (\<forall>s. e \<noteq> EJetError (JNotImplemented s)))"
proof -
  obtain p where p: "deserialize_program (out_script out) = Ok p" "admissible p"
    using assms unfolding validate_output_script_Ok by blast
  have "e \<noteq> RecursionDepthExceeded \<and> e \<noteq> HiddenNode \<and> (\<forall>i. e \<noteq> ENodeOutOfBounds i)
      \<and> (\<forall>s. e \<noteq> EJetError (JNotImplemented s))"
    if "evaluate_with_context C M p x wd b cx = Err e" for C M x wd b cx e
    using admissible_smooth[OF p, of C M x wd b cx] that by auto
  then show ?thesis using p unfolding admissible_def by blast
qed

definition anyone_can_spend :: Program where
  "anyone_can_spend = \<lparr>nodes = [CConst (VBool True)], root = 0\<rparr>"

definition open_output :: TxOutput where
  "open_output = \<lparr>out_value = 1000, out_script = serialize_program anyone_can_spend, datum = None, datum_hash = None\<rparr>"

lemma anyone_can_spend_wf: "wf_program anyone_can_spend"
  by (simp add: anyone_can_spend_def wf_program_def wf_const_def constants validate_structure_def
      scan_reachable_def scan_step_def upt_conv_Cons)

lemma open_output_admitted: "validate_output_script 0 open_output = Ok ()"
proof -
  let ?t = "[\<lparr>combinator = CConst (VBool True), input_type = TUnit, output_type = bool_type\<rparr>]"
  have "typecheck anyone_can_spend = Ok ?t" by code_simp
  moreover have "compute_cost anyone_can_spend \<lparr>input_count = 1, output_count = 1\<rparr> = Ok \<lparr>cells = 2, steps = 2\<rparr>"
    using anyone_can_spend_wf
    by (simp add: wf_program_def compute_cost_def fill_up_def fill_step_def node_cost_def add_cost_def checked_def
      checked_add_def anyone_can_spend_def)
  moreover have "max_depth anyone_can_spend = 1"
    by (simp add: max_depth_def bottom_up_def node_depth_def anyone_can_spend_def)
  moreover have "strict_type_edges anyone_can_spend ?t" by (simp add: strict_type_edges_def anyone_can_spend_def)
  moreover have "script_input_accepts TUnit script_input_type" by (simp add: script_input_accepts.simps)
  ultimately have "admissible anyone_can_spend"
    by (simp add: admissible_def) (simp add: anyone_can_spend_def constants)
  then show ?thesis
    unfolding validate_output_script_Ok open_output_def using program_dec_enc[OF anyone_can_spend_wf] by simp
qed

theorem admitted_script_runs_witness:
  "\<exists>p typed. deserialize_program (out_script open_output) = Ok p \<and> typecheck p = Ok typed
    \<and> evaluate_with_context toy_crypto sample_machine p VUnit [1] (Budget_new 5 5) empty_context \<noteq> Err RecursionDepthExceeded"
  using admitted_script_runs[OF open_output_admitted] by blast

end
