(* ===== verification/Block_Rules.thy ===== *)
theory Block_Rules
  imports Script_Admission
begin

text \<open>
  What the block checks mean: the structural check never rejects what full validation accepts, the
  header check is a set of rules about the header, its parent and the transactions, and the time
  rule makes the median time of a chain non-decreasing.
\<close>


section \<open>The structural check\<close>

lemma script_ok_nonempty: "script_ok s \<Longrightarrow> s \<noteq> []"
  by (auto simp: script_ok_def is_phase1_script_def deserialize_program_def)

lemma check_script_admissible_Ok: "check_script_admissible i out = Ok () \<longleftrightarrow> script_ok (out_script out)"
  using script_ok_nonempty[of "out_script out"] by (auto simp: check_script_admissible_def check_output_script_Ok)

lemma structure_tx_accepts:
  assumes "validate_transaction S tx u h = Ok (fee, sc, vc)"
  shows "structure_tx (lib S) tx = Ok ()"
proof -
  have "check_tx_size tx = Ok () \<and> check_duplicate_inputs tx = Ok ()"
    using assms unfolding validate_transaction_Ok check_tx_size_def check_duplicate_inputs_def
    by (simp only: result_simps) blast
  moreover have "\<forall>k<length (outputs tx). check_dust k (outputs tx ! k) = Ok ()
      \<and> rbind (check_datum_size k (outputs tx ! k)) (\<lambda>_. rbind (check_datum_hash (lib S) k (outputs tx ! k))
          (\<lambda>_. check_script_admissible k (outputs tx ! k))) = Ok ()"
    using assms unfolding validate_transaction_Ok by (auto simp: result_simps check_output_script_Ok check_script_admissible_Ok)
  moreover have "inputs tx \<noteq> []" "outputs tx \<noteq> []" "length (witnesses tx) = length (inputs tx)"
      "\<forall>k<length (witnesses tx). check_witness_size k (witnesses tx ! k) = Ok ()"
    using assms unfolding validate_transaction_Ok by blast+
  ultimately show ?thesis unfolding structure_tx_def by (simp only: result_simps add_0) blast
qed

lemma structure_coinbase_accepts:
  assumes "validate_coinbase S tx h reward = Ok ()"
  shows "structure_coinbase (lib S) h tx = Ok ()"
  using assms unfolding validate_coinbase_def structure_coinbase_def check_coinbase_output_def
    structure_coinbase_output_def Let_def
  by (simp only: result_simps add_0 check_output_script_Ok check_script_admissible_Ok unless_Ok simp_thms) auto

lemma apply_validated_each:
  "apply_validated S h txs f u = (Ok f', u') \<Longrightarrow> tx \<in> set txs \<Longrightarrow> \<exists>u r. validate_transaction S tx u h = Ok r"
proof (induction txs arbitrary: f u)
  case (Cons t txs)
  obtain r where r: "validate_transaction S t u h = Ok r"
    using Cons.prems(1) by (cases "validate_transaction S t u h") auto
  obtain f1 u1 where "apply_validated S h txs f1 u1 = (Ok f', u')"
    using Cons.prems(1) r by (auto split: prod.splits sum.splits)
  then show ?case using Cons.IH Cons.prems(2) r by (cases "tx = t") (blast, force)
qed simp

text \<open>C24. The structural check that fork blocks must pass before they are stored never rejects a block
  that full validation accepts.\<close>

theorem structure_check_complete:
  assumes "validate_and_apply_block_transactions S block u = (Ok fees, u')"
  shows "validate_block_structure S block = Ok ()"
proof (cases "transactions block")
  case Nil
  then show ?thesis using assms by (simp add: validate_and_apply_block_transactions_def Let_def)
next
  case (Cons coinbase txs)
  obtain f u1 u2 reward where
      a: "apply_validated S (height (header block)) txs 0 u1 = (Ok f, u2)"
    and c: "validate_coinbase S coinbase (height (header block)) reward = Ok ()"
    using assms Cons unfolding validate_and_apply_block_transactions_def
    by (auto simp: Let_def result_simps split: prod.splits sum.splits if_splits)
  have "structure_tx (lib S) tx = Ok ()" if "tx \<in> set txs" for tx
    using apply_validated_each[OF a that] structure_tx_accepts by (metis prod_cases3)
  then show ?thesis
    using structure_coinbase_accepts[OF c] by (simp add: validate_block_structure_def Cons enum_loop_all)
qed


section \<open>The header check\<close>

definition parent_rules :: "crypto \<Rightarrow> BlockHeader \<Rightarrow> BlockHeader option \<Rightarrow> bool" where
  "parent_rules C h parent = (case parent of
     None \<Rightarrow> height h = 0 \<and> prev_block_id h = ZERO
   | Some p \<Rightarrow> unat (height h) = unat (height p) + 1 \<and> prev_block_id h = block_id C p)"

definition time_rules :: "BlockHeader \<Rightarrow> BlockHeader option \<Rightarrow> u64 list \<Rightarrow> u64 option \<Rightarrow> bool" where
  "time_rules h parent ts clock \<longleftrightarrow> (ts = [] \<or> median_time_past ts < timestamp h)
     \<and> pred_option (\<lambda>wc. unat wc + 120 < 2 ^ 64 \<and> unat (timestamp h) \<le> unat wc + 120) clock
     \<and> pred_option (\<lambda>p. unat (timestamp p) + 604800 < 2 ^ 64 \<and> unat (timestamp h) \<le> unat (timestamp p) + 604800) parent"

definition body_rules :: "crypto \<Rightarrow> Block \<Rightarrow> bool" where
  "body_rules C block \<longleftrightarrow> (\<exists>coinbase txs b ids wids.
     transactions block = coinbase # txs \<and> Block_serialize block = Ok b \<and> length b \<le> MAX_BLOCK_SIZE
     \<and> is_coinbase coinbase \<and> (\<forall>tx\<in>set txs. \<not> is_coinbase tx)
     \<and> map (compute_tx_id C) (coinbase # txs) = map Ok ids \<and> distinct ids
     \<and> distinct (concat (map (\<lambda>tx. map input_outpoint (inputs tx)) txs))
     \<and> map (wtx_id C) (coinbase # txs) = map Ok wids
     \<and> tx_root (header block) = merkle_root C DS_TXROOT wids)"

lemma check_parent_Ok: "check_parent C h parent = Ok () \<longleftrightarrow> parent_rules C h parent"
proof (cases parent)
  case (Some p)
  show ?thesis by (auto simp: check_parent_def parent_rules_def Some result_simps checked_add_Some)
qed (auto simp: check_parent_def parent_rules_def result_simps)

lemma limit_check:
  fixes a t :: u64
  assumes "n < 2 ^ 64"
  shows "(\<exists>m. checked_add a (of_nat n) = Some m \<and> \<not> m < t) \<longleftrightarrow> unat a + n < 2 ^ 64 \<and> unat t \<le> unat a + n"
proof -
  have n: "unat (of_nat n :: u64) = n" using assms by (simp add: unat_of_nat)
  show ?thesis
  proof
    assume "\<exists>m. checked_add a (of_nat n) = Some m \<and> \<not> m < t"
    then obtain m where "unat m = unat a + n" "\<not> m < t" by (auto simp: checked_add_Some n)
    then show "unat a + n < 2 ^ 64 \<and> unat t \<le> unat a + n"
      using unat_bound[of m] by (simp add: word_less_nat_alt not_less)
  next
    assume a: "unat a + n < 2 ^ 64 \<and> unat t \<le> unat a + n"
    then have "unat (a + of_nat n) = unat a + n" using n by (simp add: unat_add_nowrap)
    then show "\<exists>m. checked_add a (of_nat n) = Some m \<and> \<not> m < t"
      using a by (intro exI[of _ "a + of_nat n"]) (simp add: checked_add_Some n word_less_nat_alt not_less)
  qed
qed

lemma check_timestamp_Ok: "check_timestamp h parent ts clock = Ok () \<longleftrightarrow> time_rules h parent ts clock"
proof -
  have "(\<exists>m. checked_add a (of_nat MAX_TIMESTAMP_DRIFT) = Some m \<and> \<not> m < timestamp h)
      \<longleftrightarrow> unat a + 120 < 2 ^ 64 \<and> unat (timestamp h) \<le> unat a + 120" for a
    using limit_check[of MAX_TIMESTAMP_DRIFT a "timestamp h"] by (simp add: constants)
  moreover have "(\<exists>m. checked_add a (of_nat MAX_TIMESTAMP_GAP) = Some m \<and> \<not> m < timestamp h)
      \<longleftrightarrow> unat a + 604800 < 2 ^ 64 \<and> unat (timestamp h) \<le> unat a + 604800" for a
    using limit_check[of MAX_TIMESTAMP_GAP a "timestamp h"] by (simp add: constants)
  ultimately show ?thesis
    unfolding check_timestamp_def time_rules_def
    by (cases parent; cases clock) (auto simp: result_simps Let_def)
qed

lemma wtx_ids_Ok: "wtx_ids C txs = Ok ids \<longleftrightarrow> map (wtx_id C) txs = map Ok ids"
  by (induction txs arbitrary: ids) (auto simp: result_simps Cons_eq_map_conv)

lemma check_tx_ids_Ok:
  "check_tx_ids C seen txs = Ok () \<longleftrightarrow> (\<exists>ids. map (compute_tx_id C) txs = map Ok ids \<and> distinct ids \<and> set ids \<inter> seen = {})"
proof (induction txs arbitrary: seen)
  case (Cons tx txs)
  have "check_tx_ids C seen (tx # txs) = Ok () \<longleftrightarrow> (\<exists>i. compute_tx_id C tx = Ok i \<and> i \<notin> seen
      \<and> check_tx_ids C (insert i seen) txs = Ok ())"
    by (simp only: check_tx_ids.simps result_simps unless_Ok)
  also have "\<dots> \<longleftrightarrow> (\<exists>i ids. compute_tx_id C tx = Ok i \<and> map (compute_tx_id C) txs = map Ok ids
      \<and> distinct (i # ids) \<and> set (i # ids) \<inter> seen = {})"
    unfolding Cons.IH by auto
  finally show ?case unfolding list.map ex_map_Cons .
qed auto

lemma ex_unit: "(\<exists>x::unit. P x) \<longleftrightarrow> P ()"
  by (metis (full_types) old.unit.exhaust)

lemma check_block_body_Ok: "check_block_body C block = Ok () \<longleftrightarrow> body_rules C block"
proof (cases "transactions block")
  case (Cons coinbase txs)
  have "check_block_body C block = Ok () \<longleftrightarrow> (\<exists>b. Block_serialize block = Ok b \<and> length b \<le> MAX_BLOCK_SIZE)
      \<and> is_coinbase coinbase \<and> (\<forall>tx\<in>set txs. \<not> is_coinbase tx)
      \<and> check_tx_ids C {} (coinbase # txs) = Ok ()
      \<and> distinct (concat (map (\<lambda>tx. map input_outpoint (inputs tx)) txs))
      \<and> (\<exists>ids. wtx_ids C (coinbase # txs) = Ok ids \<and> tx_root (header block) = merkle_root C DS_TXROOT ids)"
    unfolding check_block_body_def compute_tx_root_def Cons list.case all_set_conv_all_nth
    by (simp only: result_simps sum.inject ex_unit) blast
  also have "\<dots> \<longleftrightarrow> body_rules C block"
    unfolding check_tx_ids_Ok wtx_ids_Ok body_rules_def Cons list.inject Int_empty_right by blast
  finally show ?thesis .
qed (auto simp: check_block_body_def body_rules_def rbind_def ensure_def split: sum.splits if_splits)

text \<open>C9. A block passes the header check exactly when its header follows its parent (next height,
  parent's id, at most a week later, or height 0 and the zero id for the first block), has the
  expected target and meets it, is later than the median of the ancestors and not too far ahead of
  the clock, and its body fits: one coinbase, which comes first, distinct transactions, no outpoint
  spent twice, and the Merkle root of the witness-committing identifiers in the header. The variant
  for headers whose work was checked before differs only in not checking the work.\<close>

theorem validate_block_header_iff:
  "(validate_block_header_skip_pow S block parent ts target clock = Ok ()
    \<longleftrightarrow> version (header block) = 1 \<and> parent_rules (lib S) (header block) parent
      \<and> difficulty_target (header block) = target \<and> time_rules (header block) parent ts clock
      \<and> body_rules (lib S) block)
   \<and> (validate_block_header S block parent ts target clock = Ok ()
    \<longleftrightarrow> validate_block_header_skip_pow S block parent ts target clock = Ok ()
      \<and> verify_pow (lib S) (header block) = Ok True)"
proof -
  have pow: "(case verify_pow (lib S) (header block) of Inr True \<Rightarrow> Ok () | _ \<Rightarrow> Err PowFailed) = Ok ()
      \<longleftrightarrow> verify_pow (lib S) (header block) = Ok True"
    by (auto split: sum.splits bool.splits)
  have inner: "validate_block_header_inner S block parent ts target clock skip = Ok ()
    \<longleftrightarrow> version (header block) = 1 \<and> parent_rules (lib S) (header block) parent
      \<and> difficulty_target (header block) = target \<and> (skip \<or> verify_pow (lib S) (header block) = Ok True)
      \<and> time_rules (header block) parent ts clock \<and> body_rules (lib S) block" for skip
    unfolding validate_block_header_inner_def Let_def
    by (cases skip) (simp_all add: result_simps check_parent_Ok check_timestamp_Ok check_block_body_Ok pow VERSION_def)
  show ?thesis
    unfolding validate_block_header_skip_pow_def validate_block_header_def inner by blast
qed


section \<open>Median time\<close>

lemma sorted_nth_ge:
  fixes ys :: "'a::linorder list"
  assumes "sorted ys" "k < length ys"
  shows "m \<le> ys ! k \<longleftrightarrow> length ys - k \<le> length (filter (\<lambda>x. m \<le> x) ys)"
proof
  assume m: "m \<le> ys ! k"
  have "m \<le> x" if x: "x \<in> set (drop k ys)" for x
  proof -
    obtain j where "j < length ys - k" "x = ys ! (k + j)" using x assms(2) by (auto simp: in_set_conv_nth)
    then have "ys ! k \<le> x" using sorted_nth_mono[OF assms(1), of k "k + j"] by auto
    then show ?thesis using m by (rule order_trans[rotated])
  qed
  then have "filter (\<lambda>x. m \<le> x) (drop k ys) = drop k ys" by simp
  moreover have "filter (\<lambda>x. m \<le> x) ys = filter (\<lambda>x. m \<le> x) (take k ys) @ filter (\<lambda>x. m \<le> x) (drop k ys)"
    by (metis append_take_drop_id filter_append)
  ultimately show "length ys - k \<le> length (filter (\<lambda>x. m \<le> x) ys)" by simp
next
  assume c: "length ys - k \<le> length (filter (\<lambda>x. m \<le> x) ys)"
  show "m \<le> ys ! k"
  proof (rule ccontr)
    assume "\<not> m \<le> ys ! k"
    then have "\<not> m \<le> x" if x: "x \<in> set (take (Suc k) ys)" for x
    proof -
      obtain j where "j \<le> k" "x = ys ! j" using x assms(2) by (auto simp: in_set_conv_nth less_Suc_eq_le)
      then show ?thesis using \<open>\<not> m \<le> ys ! k\<close> sorted_nth_mono[OF assms(1), of j k] assms(2) by auto
    qed
    then have "filter (\<lambda>x. m \<le> x) (take (Suc k) ys) = []" by (simp add: filter_empty_conv)
    moreover have "filter (\<lambda>x. m \<le> x) ys
        = filter (\<lambda>x. m \<le> x) (take (Suc k) ys) @ filter (\<lambda>x. m \<le> x) (drop (Suc k) ys)"
      by (metis append_take_drop_id filter_append)
    ultimately have "length (filter (\<lambda>x. m \<le> x) ys) \<le> length ys - Suc k"
      using length_filter_le[of "\<lambda>x. m \<le> x" "drop (Suc k) ys"] by simp
    then show False using c assms(2) by simp
  qed
qed

lemma median_ge:
  assumes "ts \<noteq> []"
  shows "m \<le> median_time_past ts \<longleftrightarrow> length ts - length ts div 2 \<le> length (filter (\<lambda>x. m \<le> x) ts)"
proof -
  have "length (filter (\<lambda>x. m \<le> x) (sort ts)) = length (filter (\<lambda>x. m \<le> x) ts)"
    by (metis filter_sort length_sort)
  moreover have "length ts div 2 < length (sort ts)" using assms by (cases ts) auto
  ultimately show ?thesis
    using sorted_nth_ge[of "sort ts" "length ts div 2" m] by (simp add: median_time_past_def Let_def)
qed

lemma filter_take_ge: "length (filter P xs) \<le> length (filter P (take n xs)) + (length xs - n)"
proof -
  have "filter P xs = filter P (take n xs) @ filter P (drop n xs)" by (metis append_take_drop_id filter_append)
  then show ?thesis using length_filter_le[of P "drop n xs"] by simp
qed

lemma median_arith:
  fixes a k f f' :: nat
  assumes "a \<le> k" "a - a div 2 \<le> f" "Suc f \<le> f' + (Suc a - k)"
  shows "min (Suc a) k - min (Suc a) k div 2 \<le> f'"
  using assms by (cases "a = k") (auto simp: min_def)

lemma median_push:
  assumes "ts \<noteq> []" "median_time_past (take k ts) < t" "0 < k"
  shows "median_time_past (take k ts) \<le> median_time_past (take k (t # ts))"
proof -
  let ?w = "take k ts" and ?m = "median_time_past (take k ts)"
  let ?P = "\<lambda>x. ?m \<le> x"
  have w: "?w \<noteq> []" "take k (t # ts) \<noteq> []" using assms by auto
  have count: "length ?w - length ?w div 2 \<le> length (filter ?P ?w)" using median_ge[OF w(1), of ?m] by simp
  have "length (filter ?P (t # ?w)) = Suc (length (filter ?P ?w))" using assms(2) by simp
  moreover have "take k (t # ts) = take k (t # ?w)" by (cases k) simp_all
  moreover have "length (filter ?P (t # ?w)) \<le> length (filter ?P (take k (t # ?w))) + (length (t # ?w) - k)"
    by (rule filter_take_ge)
  ultimately have "Suc (length (filter ?P ?w)) \<le> length (filter ?P (take k (t # ts))) + (Suc (length ?w) - k)" by simp
  from median_arith[OF _ count this]
  have "min (Suc (length ?w)) k - min (Suc (length ?w)) k div 2 \<le> length (filter ?P (take k (t # ts)))" by simp
  moreover have "length (take k (t # ts)) = min (Suc (length ?w)) k" by simp
  ultimately have "length (take k (t # ts)) - length (take k (t # ts)) div 2 \<le> length (filter ?P (take k (t # ts)))"
    by (simp only:)
  then show ?thesis using median_ge[OF w(2), of ?m] by simp
qed

text \<open>Chain time does not run backwards: on top of a chain of blocks with the timestamps
  \<open>chain\<close>, most recent first, every block that passes the header check leaves a median time (of the
  last eleven blocks) that is not below the previous one.\<close>

theorem median_time_monotone:
  assumes "chain \<noteq> []"
    and "validate_block_header_skip_pow S block parent (take MTP_WINDOW chain) target clock = Ok ()"
  shows "median_time_past (take MTP_WINDOW chain)
    \<le> median_time_past (take MTP_WINDOW (timestamp (header block) # chain))"
proof -
  have "check_timestamp (header block) parent (take MTP_WINDOW chain) clock = Ok ()"
    using assms(2)
    by (auto simp: validate_block_header_skip_pow_def validate_block_header_inner_def Let_def result_simps)
  then have "median_time_past (take MTP_WINDOW chain) < timestamp (header block)"
    using assms(1) by (auto simp: check_timestamp_Ok time_rules_def MTP_WINDOW_def)
  then show ?thesis using assms(1) by (intro median_push) (simp_all add: MTP_WINDOW_def)
qed


section \<open>A sample block\<close>

text \<open>A block at height \<open>h\<close> on top of \<open>p\<close> that holds only the coinbase for height \<open>n\<close>.\<close>

definition sample_settings :: settings where
  "sample_settings = \<lparr>lib = toy_crypto, layout = sample_machine, signature_domain = ZERO, coinbase_maturity = 360\<rparr>"

definition reward_tx :: "u64 \<Rightarrow> Transaction" where
  "reward_tx n = \<lparr>inputs = [\<lparr>prev_tx_id = ZERO, output_index = ucast n\<rparr>],
     outputs = [\<lparr>out_value = the (block_reward n), out_script = replicate 32 1, datum = None, datum_hash = None\<rparr>],
     witnesses = [\<lparr>witness = [], redeemer = None\<rparr>]\<rparr>"

definition reward_block_at :: "u64 \<Rightarrow> u64 \<Rightarrow> BlockHeader option \<Rightarrow> Block" where
  "reward_block_at h n p = \<lparr>header = \<lparr>version = 1, height = h,
       prev_block_id = (case p of None \<Rightarrow> ZERO | Some q \<Rightarrow> block_id toy_crypto q), timestamp = 105,
       difficulty_target = replicate 32 9, nonce = 0,
       tx_root = (case wtx_id toy_crypto (reward_tx n) of Inr x \<Rightarrow> x | Inl _ \<Rightarrow> []), state_root = ZERO\<rparr>,
     transactions = [reward_tx n]\<rparr>"

abbreviation reward_block :: "u64 \<Rightarrow> BlockHeader option \<Rightarrow> Block" where
  "reward_block n \<equiv> reward_block_at n n"

definition sample_parent :: BlockHeader where
  "sample_parent = \<lparr>version = 1, height = 2, prev_block_id = ZERO, timestamp = 100,
     difficulty_target = replicate 32 9, nonce = 0, tx_root = ZERO, state_root = ZERO\<rparr>"

lemma reward_Some: "block_reward n = Some (the (block_reward n))" "200 \<le> unat (the (block_reward n))"
proof -
  obtain r where r: "block_reward n = Some r" "unat r = reward_at (unat n)" using block_reward_value by blast
  then show "block_reward n = Some (the (block_reward n))" by simp
  show "200 \<le> unat (the (block_reward n))" using r by (simp add: reward_at_def constants)
qed

lemma reward_tx_bytes:
  "\<exists>b. Transaction_serialize (reward_tx n) = Ok b \<and> length b = 87"
  "\<exists>i. compute_tx_id toy_crypto (reward_tx n) = Ok i" "\<exists>i. wtx_id toy_crypto (reward_tx n) = Ok i"
  by (simp_all add: reward_tx_def compute_tx_id_def wtx_id_def signing_bytes_def Transaction_serialize_def serialize_header_def
      serialize_body_def TxOutput_serialize_def TxWitness_serialize_def serialize_varbytes_def
      serialize_opt_varbytes_def serialize_opt_hash_def TxInput_serialize_def ZERO_def)

lemma reward_tx_coinbase: "is_coinbase (reward_tx n)" "spent_inputs (reward_tx n) = []"
  by (simp_all add: is_coinbase_def reward_tx_def spent_inputs_def)

lemma reward_script: "script_ok (replicate 32 1)"
proof -
  have "bslice (replicate 32 1) 0 4 = [1, 1, 1, 1 :: byte]" by code_simp
  then have "MAX_SCRIPT_NODES < unat (u32_le (bslice (replicate 32 (1 :: byte)) 0 4))"
    by (simp add: u32_le_def MAX_SCRIPT_NODES_def unat_of_nat)
  then show ?thesis by (simp add: script_ok_def is_phase1_script_def deserialize_program_def Let_def)
qed

lemma reward_tx_valid:
  assumes "unat n < 2 ^ 32"
  shows "validate_coinbase sample_settings (reward_tx n) n (the (block_reward n)) = Ok ()"
proof -
  have "check_tx_size (reward_tx n) = Ok ()"
    using reward_tx_bytes(1)[of n] by (auto simp: check_tx_size_def constants)
  moreover have "check_output_script 0 \<lparr>out_value = the (block_reward n), out_script = replicate 32 1, datum = None, datum_hash = None\<rparr> = Ok ()"
    using reward_script by (simp add: check_output_script_Ok)
  ultimately show ?thesis
    using reward_Some(2)[of n] unat_bound[of "the (block_reward n)"] assms
    by (simp add: validate_coinbase_def reward_tx_def height_index_def check_coinbase_witness_def
        check_coinbase_output_def check_dust_def check_datum_size_def check_datum_hash_def DUST_THRESHOLD_def
        U64_MAX_def ZERO_def)
qed

definition reward_id :: "u64 \<Rightarrow> bytes" where
  "reward_id n = (case compute_tx_id toy_crypto (reward_tx n) of Inr x \<Rightarrow> x | Inl _ \<Rightarrow> [])"

lemma reward_id: "compute_tx_id toy_crypto (reward_tx n) = Ok (reward_id n)"
  using reward_tx_bytes(2)[of n] by (auto simp: reward_id_def)

lemma reward_outpoints: "tx_outpoints (reward_id n) (reward_tx n) = {outpoint (reward_id n) 0}"
  by (simp add: tx_outpoints_def reward_tx_def)

lemma reward_ready: "ready toy_crypto {outpoint (reward_id n) 0} (reward_tx n) (reward_id n) (UtxoSet_new toy_crypto)"
proof -
  have "room (length (inputs (reward_tx n)) + length (outputs (reward_tx n))) (UtxoSet_new toy_crypto)"
    by (simp add: room_def UtxoSet_new_def SparseMerkleTree_new_def reward_tx_def)
  then show ?thesis
    by (simp add: ready_def reward_id utxo_inv_new no_collision_def toy_digest32 reward_outpoints)
qed

lemma reward_applies:
  "\<exists>muts u. apply_transaction toy_crypto (reward_tx n) h (UtxoSet_new toy_crypto) = (Ok muts, u)
    \<and> collect_spent_utxos muts = []"
proof -
  obtain r u where run: "apply_transaction toy_crypto (reward_tx n) h (UtxoSet_new toy_crypto) = (r, u)" by fastforce
  with apply_transaction_spec[OF reward_ready, of n h] reward_tx_coinbase(2) obtain ms where
    "r = Ok ms" "ms = creations (tx_entries (reward_id n) h (reward_tx n))" by auto
  then show ?thesis using run by simp
qed

lemma reward_block_fields [simp]:
  "transactions (reward_block_at h n p) = [reward_tx n]" "height (header (reward_block_at h n p)) = h"
  "lib sample_settings = toy_crypto"
  by (simp_all add: reward_block_at_def sample_settings_def)

lemma reward_expected: "expected_coinbase n 0 = Ok (the (block_reward n))"
proof -
  obtain r where "block_reward n = Some r" using reward_Some(1) by blast
  then show ?thesis using unat_bound[of r] by (simp add: expected_coinbase_def checked_add_def)
qed

lemma reward_block_applies:
  assumes "unat n < 2 ^ 32"
  shows "\<exists>muts u. validate_and_apply_block_transactions_atomic sample_settings (reward_block n p) (UtxoSet_new toy_crypto)
      = (Ok (0, muts), u) \<and> collect_spent_utxos muts = []"
    "\<exists>u. validate_and_apply_block_transactions sample_settings (reward_block n p) (UtxoSet_new toy_crypto) = (Ok 0, u)"
  using reward_applies[of n n]
  by (auto simp: validate_and_apply_block_transactions_atomic_def validate_and_apply_block_transactions_def
      apply_coinbase_def reward_expected reward_tx_valid[OF assms] Let_def U64_MAX_def)

lemma reward_block_body: "check_block_body toy_crypto (reward_block_at h n p) = Ok ()"
proof -
  obtain w b where w: "wtx_id toy_crypto (reward_tx n) = Ok w" "Transaction_serialize (reward_tx n) = Ok b" "length b = 87"
    using reward_tx_bytes[of n] by blast
  have "length (block_id toy_crypto q) = 32" for q using toy_digest32 by (simp add: digest32_def block_id_def)
  then have "length (case p of None \<Rightarrow> ZERO | Some q \<Rightarrow> block_id toy_crypto q) = 32"
    by (simp add: ZERO_def split: option.split)
  moreover have "length w = 32"
    using w(1) toy_digest32 by (auto simp: wtx_id_def result_simps domain_hash_def digest32_def)
  ultimately show ?thesis
    using w reward_id[of n] reward_tx_coinbase(1)[of n]
    by (simp add: check_block_body_def Block_serialize_def reward_block_at_def compute_tx_root_def merkle_root_def
        no_dup_def constants BlockHeader_serialize_def ZERO_def)
qed

lemma reward_block_header:
  assumes "p = None \<and> n = 0 \<or> p = Some sample_parent \<and> n = 3"
  shows "validate_block_header_skip_pow sample_settings (reward_block n p) p [100, 90, 95] (replicate 32 9) (Some 110) = Ok ()"
proof -
  have "median_time_past [100, 90, 95] = 95" by (simp add: median_time_past_def)
  moreover have "check_parent toy_crypto (header (reward_block n p)) p = Ok ()"
    using assms by (auto simp: check_parent_def reward_block_at_def sample_parent_def checked_add_def)
  ultimately show ?thesis
    using assms reward_block_body[of n n p]
    by (auto simp: validate_block_header_skip_pow_def validate_block_header_inner_def check_timestamp_def Let_def
        reward_block_at_def sample_settings_def sample_parent_def checked_add_def constants)
qed

theorem structure_check_complete_witness:
  "(\<exists>u. validate_and_apply_block_transactions sample_settings (reward_block 3 None) (UtxoSet_new toy_crypto) = (Ok 0, u))
    \<and> validate_block_structure sample_settings (reward_block 3 None) = Ok ()"
proof -
  obtain u where u: "validate_and_apply_block_transactions sample_settings (reward_block 3 None) (UtxoSet_new toy_crypto) = (Ok 0, u)"
    using reward_block_applies(2)[of 3 None] by auto
  then show ?thesis using structure_check_complete[OF u] by blast
qed

end
