(* ===== verification/Block_Apply.thy ===== *)
theory Block_Apply
  imports Block_Rules
begin

text \<open>
  What the application of a block does to the set of unspent outputs: the validated, the atomic and
  the trusting path agree, a block adds exactly its reward to the total value, and with it the
  value of a whole chain is the sum of its rewards.
\<close>


section \<open>The paths agree\<close>

lemma valid_spend_value:
  "valid_spend S tx u h fee sc vc \<Longrightarrow> \<exists>es. map (\<lambda>i. utxos u (input_outpoint i)) (inputs tx) = map Some es
    \<and> (\<Sum>e\<leftarrow>es. entry_value e) = (\<Sum>out\<leftarrow>outputs tx. unat (out_value out)) + fee"
  unfolding valid_spend_def by (elim exE conjE, intro exI conjI)

lemma snapshot_trusted_eq:
  "map (\<lambda>i. utxos u (input_outpoint i)) is = map Some es \<Longrightarrow> snapshot_inputs u is sp n = Ok (sp', n') \<Longrightarrow>
    snapshot_trusted u is sp n v = Ok (sp', n', v + (\<Sum>e\<leftarrow>es. entry_value e))"
proof (induction "is" arbitrary: es sp n v)
  case (Cons i "is")
  then obtain e es' where es: "es = e # es'" "utxos u (input_outpoint i) = Some e"
    "map (\<lambda>i. utxos u (input_outpoint i)) is = map Some es'" by (cases es) auto
  then have "snapshot_inputs u is (sp @ [(input_outpoint i, e)]) (n + entry_bytes e) = Ok (sp', n')"
    "\<not> n + entry_bytes e > MAX_SPENT_UTXOS_SIZE"
    using Cons.prems(2) by (auto simp: UtxoSet_get_def Let_def split: if_splits)
  then show ?case
    using Cons.IH[OF es(3)] es by (simp add: UtxoSet_get_def entry_value_def add.assoc)
qed simp

lemma fail_rolled_back_Err: "fail_rolled_back C block n sp msg e u \<noteq> (Ok x, u')"
  by (simp add: fail_rolled_back_def split: prod.splits sum.splits)

lemma undo_failed_apply_Err: "undo_failed_apply C block g tx sp u \<noteq> (Ok x, u')"
  by (simp add: undo_failed_apply_def fail_rolled_back_Err split: prod.splits sum.splits)

text \<open>One step of the atomic loop that succeeds.\<close>

lemma apply_atomic_Cons:
  assumes "apply_atomic S block (tx # txs) g u = (Ok g', u')"
  obtains fee sc vc sp n m u1 where
    "validate_transaction S tx u (height (header block)) = Ok (fee, sc, vc)"
    "snapshot_inputs u (inputs tx) (spent_utxos g) (spent_utxos_bytes g) = Ok (sp, n)"
    "apply_transaction (lib S) tx (height (header block)) u = (Ok m, u1)"
    "apply_atomic S block txs (g\<lparr>spent_utxos := sp, spent_utxos_bytes := n, total_fees := total_fees g + fee,
       mutations := mutations g @ m, applied_count := applied_count g + 1\<rparr>) u1 = (Ok g', u')"
  using assms
  by (auto simp: Let_def fail_rolled_back_Err undo_failed_apply_Err split: sum.splits prod.splits)

lemma apply_atomic_paths:
  "apply_atomic S block txs g u = (Ok g', u') \<Longrightarrow>
    apply_trusted (lib S) block txs g u = (Ok g', u')
    \<and> apply_validated S (height (header block)) txs (total_fees g) u = (Ok (total_fees g'), u')"
proof (induction txs arbitrary: g u)
  case (Cons tx txs)
  from apply_atomic_Cons[OF Cons.prems] obtain fee sc vc sp n m u1 where a:
    "validate_transaction S tx u (height (header block)) = Ok (fee, sc, vc)"
    "snapshot_inputs u (inputs tx) (spent_utxos g) (spent_utxos_bytes g) = Ok (sp, n)"
    "apply_transaction (lib S) tx (height (header block)) u = (Ok m, u1)"
    "apply_atomic S block txs (g\<lparr>spent_utxos := sp, spent_utxos_bytes := n, total_fees := total_fees g + fee,
       mutations := mutations g @ m, applied_count := applied_count g + 1\<rparr>) u1 = (Ok g', u')" by metis
  obtain es where es: "map (\<lambda>i. utxos u (input_outpoint i)) (inputs tx) = map Some es"
    "(\<Sum>e\<leftarrow>es. entry_value e) = (\<Sum>out\<leftarrow>outputs tx. unat (out_value out)) + fee"
    using valid_spend_value[OF validate_transaction_sound[OF a(1)]] by (elim exE conjE)
  from snapshot_trusted_eq[OF es(1) a(2), of 0] Cons.IH[OF a(4)] show ?case
    using a(1,3) es(2) by (simp add: Let_def sum_outputs_eq)
qed simp

lemma atomic_Ok:
  assumes "validate_and_apply_block_transactions_atomic S block u = (Ok (fees, muts), u')"
  obtains coinbase txs m u1 g where "transactions block = coinbase # txs"
    "apply_transaction (lib S) coinbase (height (header block)) u = (Ok m, u1)"
    "apply_atomic S block txs \<lparr>mutations = m, spent_utxos = [], spent_utxos_bytes = 0, applied_count = 1, total_fees = 0\<rparr> u1
       = (Ok g, u')"
    "fees = total_fees g" "muts = mutations g" "fees \<le> U64_MAX"
    "\<exists>reward. expected_coinbase (height (header block)) fees = Ok reward
       \<and> validate_coinbase S coinbase (height (header block)) reward = Ok ()"
proof (cases "transactions block")
  case Nil
  then show ?thesis using assms by (simp add: validate_and_apply_block_transactions_atomic_def Let_def)
next
  case (Cons coinbase txs)
  let ?h = "height (header block)"
  obtain g0 u1 g u2 where g: "apply_coinbase (lib S) coinbase ?h u = (Ok g0, u1)"
      "apply_atomic S block txs g0 u1 = (Ok g, u2)"
      "(if total_fees g > U64_MAX then
         fail_rolled_back (lib S) block (applied_count g) (spent_utxos g) ''ValueOverflow: rollback failed'' ValueOverflow u2
       else case expected_coinbase ?h (total_fees g) of
         Inl Panicked \<Rightarrow> (Err Panicked, u2)
       | Inl e \<Rightarrow> fail_rolled_back (lib S) block (applied_count g) (spent_utxos g) ''RewardOverflow: rollback failed'' e u2
       | Inr expected_reward \<Rightarrow>
         (case validate_coinbase S coinbase ?h expected_reward of
            Inl e \<Rightarrow> fail_rolled_back (lib S) block (applied_count g) (spent_utxos g) ''rollback failed'' e u2
          | Inr _ \<Rightarrow> (Ok (total_fees g, mutations g), u2))) = (Ok (fees, muts), u')"
    using assms unfolding validate_and_apply_block_transactions_atomic_def Let_def Cons list.case result_simps by blast
  obtain m where m: "apply_transaction (lib S) coinbase ?h u = (Ok m, u1)"
      "g0 = \<lparr>mutations = m, spent_utxos = [], spent_utxos_bytes = 0, applied_count = 1, total_fees = 0\<rparr>"
    using g(1) by (auto simp: apply_coinbase_def split: prod.splits sum.splits)
  have f: "\<not> total_fees g > U64_MAX" using g(3) by (auto simp: fail_rolled_back_Err split: if_splits)
  obtain reward where r: "expected_coinbase ?h (total_fees g) = Ok reward"
  proof (cases "expected_coinbase ?h (total_fees g)")
    case (Inl e)
    then show ?thesis using g(3) f by (cases e) (auto simp: fail_rolled_back_Err)
  qed blast
  have v: "validate_coinbase S coinbase ?h reward = Ok ()"
    using g(3) f r by (auto simp: fail_rolled_back_Err split: sum.splits)
  then show ?thesis using that[OF Cons m(1) _ _ _ _] g(2,3) f r unfolding m(2) by auto
qed

text \<open>C15. The three ways of applying a block agree: when the atomic application accepts a block, the
  non-atomic validation accepts it with the same fees and leaves the same set, and the application
  that trusts the block and validates nothing returns the same fees and mutation log and leaves the
  same set.\<close>

theorem block_paths_agree:
  assumes "validate_and_apply_block_transactions_atomic S block u = (Ok (fees, muts), u')"
  shows "validate_and_apply_block_transactions S block u = (Ok fees, u')
    \<and> apply_block_transactions_assume_valid (lib S) block u = (Ok (fees, muts), u')"
proof -
  from atomic_Ok[OF assms] obtain coinbase txs m u1 g reward where a: "transactions block = coinbase # txs"
    "apply_transaction (lib S) coinbase (height (header block)) u = (Ok m, u1)"
    "apply_atomic S block txs \<lparr>mutations = m, spent_utxos = [], spent_utxos_bytes = 0, applied_count = 1, total_fees = 0\<rparr> u1
       = (Ok g, u')"
    "fees = total_fees g" "muts = mutations g" "fees \<le> U64_MAX"
    "expected_coinbase (height (header block)) fees = Ok reward"
    "validate_coinbase S coinbase (height (header block)) reward = Ok ()" by metis
  from apply_atomic_paths[OF a(3)] show ?thesis
    using a by (simp add: validate_and_apply_block_transactions_def apply_block_transactions_assume_valid_def
        apply_coinbase_def Let_def)
qed

theorem block_paths_agree_witness:
  "\<exists>muts u. validate_and_apply_block_transactions_atomic sample_settings (reward_block 3 None) (UtxoSet_new toy_crypto)
      = (Ok (0, muts), u)
    \<and> apply_block_transactions_assume_valid toy_crypto (reward_block 3 None) (UtxoSet_new toy_crypto) = (Ok (0, muts), u)"
proof -
  obtain muts u where a: "validate_and_apply_block_transactions_atomic sample_settings (reward_block 3 None) (UtxoSet_new toy_crypto)
      = (Ok (0, muts), u)" using reward_block_applies(1)[of 3 None] by auto
  from block_paths_agree[OF this] show ?thesis using a by auto
qed


section \<open>Total value\<close>

definition map_value :: "(OutPoint \<rightharpoonup> UtxoEntry) \<Rightarrow> nat" where
  "map_value m = (\<Sum>op\<in>dom m. entry_value (the (m op)))"

definition total_value :: "UtxoSet \<Rightarrow> nat" where
  "total_value u = map_value (utxos u)"

lemma map_value_insert:
  assumes "finite (dom m)" "m op = None"
  shows "map_value (m(op \<mapsto> e)) = map_value m + entry_value e"
proof -
  have "map_value (m(op \<mapsto> e)) = entry_value e + (\<Sum>x\<in>dom m. entry_value (the ((m(op \<mapsto> e)) x)))"
    using assms by (simp add: map_value_def domIff)
  also have "(\<Sum>x\<in>dom m. entry_value (the ((m(op \<mapsto> e)) x))) = map_value m"
    unfolding map_value_def using assms(2) by (intro sum.cong) auto
  finally show ?thesis unfolding add.commute[of "entry_value e"] .
qed

lemma map_value_remove:
  assumes "finite (dom m)" "m op = Some e"
  shows "map_value (m(op := None)) + entry_value e = map_value m"
proof -
  have "(m(op := None))(op \<mapsto> e) = m" using assms(2) by (auto simp: fun_eq_iff)
  then show ?thesis using map_value_insert[of "m(op := None)" op e] assms(1) by simp
qed

lemma insert_Ok_utxos:
  "UtxoSet_insert C op e u = (Ok x, u') \<Longrightarrow> utxos u op = None \<and> utxos u' = (utxos u)(op \<mapsto> e)"
  by (auto simp: UtxoSet_insert_def Let_def split: if_splits sum.splits option.splits)

lemma remove_Ok_utxos:
  "UtxoSet_remove C op u = (Ok (Some e), u') \<Longrightarrow> utxos u op = Some e \<and> utxos u' = (utxos u)(op := None)"
  by (auto simp: UtxoSet_remove_def Let_def split: option.splits)

lemma spend_inputs_value:
  "spend_inputs C is muts u = (Ok ms, u') \<Longrightarrow> finite (dom (utxos u)) \<Longrightarrow>
    finite (dom (utxos u')) \<and> (\<exists>es. map (\<lambda>i. utxos u (input_outpoint i)) is = map Some es
      \<and> total_value u' + (\<Sum>e\<leftarrow>es. entry_value e) = total_value u)"
proof (induction "is" arbitrary: muts u)
  case (Cons i "is")
  let ?op = "input_outpoint i"
  obtain e u1 where r: "UtxoSet_remove C ?op u = (Ok (Some e), u1)"
      "spend_inputs C is (muts @ [Remove ?op e]) u1 = (Ok ms, u')"
    using Cons.prems(1) by (auto simp: result_simps split: option.splits)
  note u1 = remove_Ok_utxos[OF r(1)]
  have fin: "finite (dom (utxos u1))" using u1 Cons.prems(2) by simp
  obtain es where es: "finite (dom (utxos u'))" "map (\<lambda>i. utxos u1 (input_outpoint i)) is = map Some es"
      "total_value u' + (\<Sum>e\<leftarrow>es. entry_value e) = total_value u1"
    using Cons.IH[OF r(2) fin] by blast
  have "utxos u (input_outpoint j) = utxos u1 (input_outpoint j)" if "j \<in> set is" for j
  proof -
    have "\<exists>y. utxos u1 (input_outpoint j) = Some y" using es(2) that by (metis (no_types, lifting) image_eqI in_set_conv_nth length_map nth_map)
    then show ?thesis using u1 by (auto split: if_splits)
  qed
  then have "map (\<lambda>i. utxos u (input_outpoint i)) is = map Some es" using es(2) by (metis (no_types, lifting) map_eq_conv)
  moreover have "total_value u1 + entry_value e = total_value u"
    using map_value_remove[OF Cons.prems(2)] u1 by (simp add: total_value_def)
  ultimately show ?case using u1 es(1,3) by (intro conjI exI[of _ "e # es"]) simp_all
qed simp

lemma create_outputs_value:
  "create_outputs C tx_id h cb idx outs muts u = (Ok ms, u') \<Longrightarrow> finite (dom (utxos u)) \<Longrightarrow>
    finite (dom (utxos u')) \<and> total_value u' = total_value u + (\<Sum>out\<leftarrow>outs. unat (out_value out))"
proof (induction outs arbitrary: idx muts u)
  case (Cons out outs)
  let ?op = "outpoint tx_id (of_nat idx)" and ?e = "\<lparr>ue_output = out, ue_height = h, ue_is_coinbase = cb\<rparr>"
  obtain u1 where r: "UtxoSet_insert C ?op ?e u = (Ok (), u1)"
      "create_outputs C tx_id h cb (Suc idx) outs (muts @ [Insert ?op ?e]) u1 = (Ok ms, u')"
    using Cons.prems(1) by (auto simp: result_simps Let_def)
  note u1 = insert_Ok_utxos[OF r(1)]
  then have "finite (dom (utxos u1))" using Cons.prems(2) by simp
  moreover have "total_value u1 = total_value u + unat (out_value out)"
    using map_value_insert[OF Cons.prems(2), of ?op ?e] u1 by (simp add: total_value_def entry_value_def)
  ultimately show ?case using Cons.IH[OF r(2)] by simp
qed simp

lemma apply_transaction_value:
  assumes "apply_transaction C tx h u = (Ok m, u')" "finite (dom (utxos u))"
  shows "finite (dom (utxos u'))"
    "is_coinbase tx \<Longrightarrow> total_value u' = total_value u + (\<Sum>out\<leftarrow>outputs tx. unat (out_value out))"
    "\<not> is_coinbase tx \<Longrightarrow> \<exists>es. map (\<lambda>i. utxos u (input_outpoint i)) (inputs tx) = map Some es
      \<and> total_value u' + (\<Sum>e\<leftarrow>es. entry_value e) = total_value u + (\<Sum>out\<leftarrow>outputs tx. unat (out_value out))"
proof -
  obtain tx_id muts u1 where a: "(if is_coinbase tx then (Ok [], u) else spend_inputs C (inputs tx) [] u) = (Ok muts, u1)"
      "create_outputs C tx_id h (is_coinbase tx) 0 (outputs tx) muts u1 = (Ok m, u')"
    using assms(1) by (auto simp: apply_transaction_def result_simps)
  have u1: "finite (dom (utxos u1))"
    using a(1) assms(2) spend_inputs_value[of C "inputs tx" "[]" u muts u1] by (auto split: if_splits)
  note c = create_outputs_value[OF a(2) u1]
  show "finite (dom (utxos u'))" using c by blast
  show "is_coinbase tx \<Longrightarrow> total_value u' = total_value u + (\<Sum>out\<leftarrow>outputs tx. unat (out_value out))"
    using a(1) c by simp
  show "\<not> is_coinbase tx \<Longrightarrow> \<exists>es. map (\<lambda>i. utxos u (input_outpoint i)) (inputs tx) = map Some es
      \<and> total_value u' + (\<Sum>e\<leftarrow>es. entry_value e) = total_value u + (\<Sum>out\<leftarrow>outputs tx. unat (out_value out))"
    using a(1) c spend_inputs_value[of C "inputs tx" "[]" u muts u1] assms(2) by auto
qed

lemma apply_atomic_value:
  "apply_atomic S block txs g u = (Ok g', u') \<Longrightarrow> finite (dom (utxos u)) \<Longrightarrow> \<forall>tx\<in>set txs. \<not> is_coinbase tx \<Longrightarrow>
    finite (dom (utxos u')) \<and> total_value u' + total_fees g' = total_value u + total_fees g"
proof (induction txs arbitrary: g u)
  case (Cons tx txs)
  from apply_atomic_Cons[OF Cons.prems(1)] obtain fee sc vc sp n m u1 where a:
    "validate_transaction S tx u (height (header block)) = Ok (fee, sc, vc)"
    "apply_transaction (lib S) tx (height (header block)) u = (Ok m, u1)"
    "apply_atomic S block txs (g\<lparr>spent_utxos := sp, spent_utxos_bytes := n, total_fees := total_fees g + fee,
       mutations := mutations g @ m, applied_count := applied_count g + 1\<rparr>) u1 = (Ok g', u')" by metis
  obtain es where es: "map (\<lambda>i. utxos u (input_outpoint i)) (inputs tx) = map Some es"
    "(\<Sum>e\<leftarrow>es. entry_value e) = (\<Sum>out\<leftarrow>outputs tx. unat (out_value out)) + fee"
    using valid_spend_value[OF validate_transaction_sound[OF a(1)]] by (elim exE conjE)
  obtain es' where es': "map (\<lambda>i. utxos u (input_outpoint i)) (inputs tx) = map Some es'"
    "total_value u1 + (\<Sum>e\<leftarrow>es'. entry_value e) = total_value u + (\<Sum>out\<leftarrow>outputs tx. unat (out_value out))"
    using apply_transaction_value(3)[OF a(2) Cons.prems(2)] Cons.prems(3) by auto
  have "es' = es" using es(1) es'(1) by (metis list.inj_map_strong option.inject)
  then have "total_value u1 + fee = total_value u" using es(2) es'(2) by simp
  moreover have "finite (dom (utxos u1))" by (rule apply_transaction_value(1)[OF a(2) Cons.prems(2)])
  ultimately show ?case using Cons.IH[OF a(3)] Cons.prems(3) by simp
qed simp

lemma validate_coinbase_total:
  "validate_coinbase S tx h reward = Ok () \<Longrightarrow> (\<Sum>out\<leftarrow>outputs tx. unat (out_value out)) = unat reward"
  by (auto simp: validate_coinbase_def result_simps Let_def sum_outputs_eq split: if_splits)

lemma expected_coinbase_Ok:
  assumes "expected_coinbase h fees = Ok reward" "fees \<le> U64_MAX"
  shows "unat reward = reward_at (unat h) + fees"
proof -
  obtain r where r: "block_reward h = Some r" "unat r = reward_at (unat h)" using block_reward_value by blast
  have "unat (of_nat fees :: u64) = fees" using assms(2) by (simp add: unat_of_nat U64_MAX_def)
  then show ?thesis using assms(1) r by (auto simp: expected_coinbase_def result_simps checked_add_Some)
qed

lemma block_adds_reward:
  assumes fin: "finite (dom (utxos u))" and body: "body_rules (lib S) block"
    and a: "validate_and_apply_block_transactions_atomic S block u = (Ok (fees, muts), u')"
  shows "finite (dom (utxos u')) \<and> total_value u' = total_value u + reward_at (unat (height (header block)))"
proof -
  from atomic_Ok[OF a] obtain coinbase txs m u1 g reward where r: "transactions block = coinbase # txs"
    "apply_transaction (lib S) coinbase (height (header block)) u = (Ok m, u1)"
    "apply_atomic S block txs \<lparr>mutations = m, spent_utxos = [], spent_utxos_bytes = 0, applied_count = 1, total_fees = 0\<rparr> u1
       = (Ok g, u')"
    "fees = total_fees g" "fees \<le> U64_MAX"
    "expected_coinbase (height (header block)) fees = Ok reward"
    "validate_coinbase S coinbase (height (header block)) reward = Ok ()" by metis
  have cb: "is_coinbase coinbase" "\<forall>tx\<in>set txs. \<not> is_coinbase tx" using body r(1) by (auto simp: body_rules_def)
  have "total_value u1 = total_value u + unat reward"
    using apply_transaction_value(2)[OF r(2) fin cb(1)] validate_coinbase_total[OF r(7)] by simp
  moreover have "finite (dom (utxos u')) \<and> total_value u' + fees = total_value u1"
    using apply_atomic_value[OF r(3) apply_transaction_value(1)[OF r(2) fin] cb(2)] r(4) by simp
  ultimately show ?thesis using expected_coinbase_Ok[OF r(6,5)] by simp
qed

text \<open>The states a chain of accepted blocks leads to: every block passes the header check against its
  parent, with whatever timestamps, target and clock, and is then applied.\<close>

inductive connected :: "settings \<Rightarrow> BlockHeader option \<Rightarrow> UtxoSet \<Rightarrow> bool" for S :: settings where
  genesis: "connected S None (UtxoSet_new (lib S))"
| block: "connected S parent u \<Longrightarrow> validate_block_header_skip_pow S b parent ts target clock = Ok () \<Longrightarrow>
    validate_and_apply_block_transactions_atomic S b u = (Ok x, u') \<Longrightarrow> connected S (Some (header b)) u'"

lemma header_check_rules:
  assumes "validate_block_header_skip_pow S block parent ts target clock = Ok ()"
  shows "parent_rules (lib S) (header block) parent" "body_rules (lib S) block"
  using assms
  by (auto simp: validate_block_header_skip_pow_def validate_block_header_inner_def Let_def result_simps
      check_parent_Ok check_block_body_Ok)

definition chain_height :: "BlockHeader option \<Rightarrow> nat" where
  "chain_height tip = (case tip of None \<Rightarrow> 0 | Some h \<Rightarrow> unat (height h) + 1)"

lemma connected_value:
  "connected S tip u \<Longrightarrow> finite (dom (utxos u)) \<and> total_value u = (\<Sum>k<chain_height tip. reward_at k)"
proof (induction rule: connected.induct)
  case genesis
  then show ?case by (simp add: total_value_def map_value_def chain_height_def)
next
  case (block parent u b ts target clock x u')
  obtain fees muts where x: "x = (fees, muts)" by (cases x)
  note rules = header_check_rules[OF block.hyps(2)]
  have "unat (height (header b)) = chain_height parent"
    using rules(1) by (auto simp: parent_rules_def chain_height_def split: option.splits)
  moreover have "finite (dom (utxos u')) \<and> total_value u' = total_value u + reward_at (unat (height (header b)))"
    using block.IH block.hyps(3) rules(2) x by (intro block_adds_reward) auto
  ultimately show ?case using block.IH by (simp add: chain_height_def)
qed

text \<open>C1. No value is created or lost: after any chain of accepted blocks the unspent outputs are
  worth exactly the rewards of the blocks from height 0 to the tip, whatever fees and transfers the
  blocks contain. In particular the value stays below the initial reward times the number of
  blocks.\<close>

theorem chain_value_is_sum_of_rewards:
  assumes "connected S (Some tip) u"
  shows "total_value u = (\<Sum>k\<le>unat (height tip). unat (the (block_reward (of_nat k))))
    \<and> total_value u \<le> (unat (height tip) + 1) * (BASE_REWARD + DECAY_COMPONENT)"
proof -
  have v: "total_value u = (\<Sum>k\<le>unat (height tip). reward_at k)"
    using connected_value[OF assms] by (simp add: chain_height_def lessThan_Suc_atMost)
  have "unat (the (block_reward (of_nat k))) = reward_at k" if "k \<le> unat (height tip)" for k
  proof -
    have "unat (of_nat k :: u64) = k" using that unat_bound[of "height tip"] by (simp add: unat_of_nat)
    then show ?thesis using block_reward_value[of "of_nat k"] by auto
  qed
  moreover have "(\<Sum>k\<le>unat (height tip). reward_at k) \<le> card {..unat (height tip)} * (BASE_REWARD + DECAY_COMPONENT)"
    using sum_bounded_above[of "{..unat (height tip)}" reward_at "BASE_REWARD + DECAY_COMPONENT"]
      reward_antimono[of 0] reward_0 by simp
  ultimately show ?thesis using v by simp
qed

theorem chain_value_is_sum_of_rewards_witness:
  "\<exists>u. connected sample_settings (Some (header (reward_block 0 None))) u
    \<and> total_value u = (\<Sum>k\<le>unat (height (header (reward_block 0 None))). unat (the (block_reward (of_nat k))))"
proof -
  obtain muts u where "validate_and_apply_block_transactions_atomic sample_settings (reward_block 0 None)
      (UtxoSet_new toy_crypto) = (Ok (0, muts), u)" using reward_block_applies(1)[of 0 None] by auto
  then have "connected sample_settings (Some (header (reward_block 0 None))) u"
    using connected.block[OF connected.genesis reward_block_header[of None 0]] by simp
  then show ?thesis using chain_value_is_sum_of_rewards by blast
qed

end
