(* ===== verification/Block_Undo.thy ===== *)
theory Block_Undo
  imports Block_Apply
begin

text \<open>
  Undoing blocks: the roll-back inside the atomic application and the undo of a whole applied block
  restore the set of unspent outputs. Both rest on one fact about a sequence of applied
  transactions, that undoing it in reverse order with the entries it spent leads back to its start.
\<close>


section \<open>Sequences of applied transactions\<close>

text \<open>Each transaction is paired with the entries it spent.\<close>

inductive applied :: "crypto \<Rightarrow> OutPoint set \<Rightarrow> u64 \<Rightarrow> UtxoSet \<Rightarrow> (Transaction \<times> (OutPoint \<times> UtxoEntry) list) list
    \<Rightarrow> UtxoSet \<Rightarrow> bool" for C :: crypto and D :: "OutPoint set" and h :: u64 and u0 :: UtxoSet where
  none: "applied C D h u0 [] u0"
| more: "applied C D h u0 prs u \<Longrightarrow> ready C D tx tx_id u \<Longrightarrow> apply_transaction C tx h u = (Ok m, u') \<Longrightarrow>
    applied C D h u0 (prs @ [(tx, collect_spent_utxos m)]) u'"

definition ins :: "Transaction list \<Rightarrow> nat" where
  "ins txs = (\<Sum>tx\<leftarrow>txs. length (inputs tx))"

definition io :: "Transaction list \<Rightarrow> nat" where
  "io txs = (\<Sum>tx\<leftarrow>txs. length (inputs tx) + length (outputs tx))"

lemma applied_undo:
  "applied C D h u0 prs u \<Longrightarrow> \<forall>(tx, s)\<in>set prs. spent_by tx sp = s \<Longrightarrow> utxo_inv C D v \<Longrightarrow> utxos v = utxos u
    \<Longrightarrow> room (ins (map fst prs)) v \<Longrightarrow>
    \<exists>v'. undo_txs C sp (rev (map fst prs)) v = (Ok (), v') \<and> utxo_inv C D v' \<and> utxos v' = utxos u0"
proof (induction arbitrary: v rule: applied.induct)
  case (more prs u tx tx_id m u')
  have sp: "spent_by tx sp = collect_spent_utxos m" "\<forall>(tx, s)\<in>set prs. spent_by tx sp = s"
    using more.prems(1) by auto
  have "room (length (inputs tx)) v" using more.prems(4) by (auto simp: ins_def room_def)
  from undo_applied_ok[OF more.hyps(2,3) more.prems(2,3) this] obtain v1 where v1:
    "undo_transaction C tx (collect_spent_utxos m) v = (Ok (), v1)" "utxo_inv C D v1" "utxos v1 = utxos u"
    "length (arena (smt v1)) \<le> length (arena (smt v)) + 4 * length (inputs tx)" by blast
  have "room (ins (map fst prs)) v1" using more.prems(4) v1(4) by (simp add: ins_def room_def)
  from more.IH[OF sp(2) v1(2,3) this] show ?case using v1(1) sp(1) by simp
qed auto

lemma collect_spent_of:
  assumes "ready C D tx tx_id u" "apply_transaction C tx h u = (Ok m, u')"
  shows "map fst (collect_spent_utxos m) = map input_outpoint (spent_inputs tx)"
    "\<forall>(op, e)\<in>set (collect_spent_utxos m). utxos u op = Some e"
    "utxo_inv C D u'" "length (arena (smt u')) \<le> length (arena (smt u)) + 4 * length (outputs tx)"
    "dom (utxos u') \<subseteq> dom (utxos u) \<union> tx_outpoints tx_id tx"
proof -
  obtain sp where s: "m = removals sp @ creations (tx_entries tx_id h tx)"
      "map fst sp = map input_outpoint (spent_inputs tx)" "replay redo m (utxos u) = Some (utxos u')"
      and u': "utxo_inv C D u'" "length (arena (smt u')) \<le> length (arena (smt u)) + 4 * length (outputs tx)"
      and frame: "\<forall>op. utxos u' op = utxos u op \<or> op \<in> input_outpoint ` set (spent_inputs tx) \<and> utxos u' op = None
        \<or> op \<in> tx_outpoints tx_id tx"
    using apply_transaction_spec[OF assms(1), of h] assms(2) by auto
  have c: "collect_spent_utxos m = sp" by (simp add: s(1) collect_append)
  then show "map fst (collect_spent_utxos m) = map input_outpoint (spent_inputs tx)" using s(2) by simp
  obtain m1 where "replay redo (removals sp) (utxos u) = Some m1"
    using s(3) by (auto simp: s(1) replay_append Option.bind_eq_Some_conv)
  from replay_removals[OF this] show "\<forall>(op, e)\<in>set (collect_spent_utxos m). utxos u op = Some e" using c by blast
  show "utxo_inv C D u'" "length (arena (smt u')) \<le> length (arena (smt u)) + 4 * length (outputs tx)" by (rule u')+
  show "dom (utxos u') \<subseteq> dom (utxos u) \<union> tx_outpoints tx_id tx"
  proof
    fix op assume "op \<in> dom (utxos u')"
    then show "op \<in> dom (utxos u) \<union> tx_outpoints tx_id tx" using spec[OF frame, of op] by (auto simp: domIff)
  qed
qed

definition tx_outs :: "crypto \<Rightarrow> Transaction \<Rightarrow> OutPoint set" where
  "tx_outs C tx = (case compute_tx_id C tx of Inr i \<Rightarrow> tx_outpoints i tx | Inl _ \<Rightarrow> {})"

lemma applied_facts:
  assumes "utxo_inv C D u0" "applied C D h u0 prs u"
  shows "utxo_inv C D u" "(tx, s) \<in> set prs \<Longrightarrow> map fst s = map input_outpoint (spent_inputs tx) \<and> fst ` set s \<subseteq> D"
    "dom (utxos u) \<subseteq> dom (utxos u0) \<union> (\<Union>tx\<in>set (map fst prs). tx_outs C tx)"
proof -
  have "utxo_inv C D u \<and> ((tx, s) \<in> set prs \<longrightarrow> map fst s = map input_outpoint (spent_inputs tx) \<and> fst ` set s \<subseteq> D)
      \<and> dom (utxos u) \<subseteq> dom (utxos u0) \<union> (\<Union>tx\<in>set (map fst prs). tx_outs C tx)"
    using assms(2)
  proof (induction rule: applied.induct)
    case none
    then show ?case using assms(1) by simp
  next
    case (more prs u tx' tx_id m u')
    note c = collect_spent_of[OF more.hyps(2,3)]
    have "fst ` set (collect_spent_utxos m) \<subseteq> dom (utxos u)" using c(2) by auto
    then have "fst ` set (collect_spent_utxos m) \<subseteq> D" using more.IH by (auto simp: utxo_inv_def)
    moreover have "dom (utxos u') \<subseteq> dom (utxos u0) \<union> (\<Union>tx\<in>set (map fst (prs @ [(tx', collect_spent_utxos m)])). tx_outs C tx)"
    proof -
      have "tx_outs C tx' = tx_outpoints tx_id tx'" using more.hyps(2) by (simp add: ready_def tx_outs_def)
      then have "dom (utxos u') \<subseteq> dom (utxos u) \<union> tx_outs C tx'" using c(5) by simp
      also have "\<dots> \<subseteq> dom (utxos u0) \<union> (\<Union>tx\<in>set (map fst prs). tx_outs C tx) \<union> tx_outs C tx'"
        using more.IH by (intro Un_mono subset_refl) blast
      finally show ?thesis by simp blast
    qed
    ultimately show ?case using more.IH c(1,3) by simp
  qed
  then show "utxo_inv C D u" "(tx, s) \<in> set prs \<Longrightarrow> map fst s = map input_outpoint (spent_inputs tx) \<and> fst ` set s \<subseteq> D"
    "dom (utxos u) \<subseteq> dom (utxos u0) \<union> (\<Union>tx\<in>set (map fst prs). tx_outs C tx)" by blast+
qed


section \<open>Half-way through a block\<close>

text \<open>The situation in which a block is applied: \<open>D\<close> are the outpoints in play, among them the
  outputs of the block; their leaf keys do not collide and none belongs to the all-zero transaction
  id, which marks coinbase inputs; no output of the block is in the set before the block; the tree
  has room; and the body has passed the header check.\<close>

definition block_ready :: "crypto \<Rightarrow> OutPoint set \<Rightarrow> Block \<Rightarrow> UtxoSet \<Rightarrow> bool" where
  "block_ready C D block u \<longleftrightarrow> no_collision C D \<and> utxo_inv C D u \<and> (\<forall>op\<in>D. op_tx_id op \<noteq> ZERO)
     \<and> (\<forall>tx\<in>set (transactions block). tx_outs C tx \<subseteq> D \<and> tx_outs C tx \<inter> dom (utxos u) = {})
     \<and> room (io (transactions block)) u \<and> body_rules C block"

text \<open>Between two transactions: those in \<open>rest\<close> are applied after the coinbase, \<open>txs\<close> are still to come.\<close>

definition midway :: "crypto \<Rightarrow> OutPoint set \<Rightarrow> Block \<Rightarrow> UtxoSet \<Rightarrow> (Transaction \<times> (OutPoint \<times> UtxoEntry) list) list
    \<Rightarrow> Transaction list \<Rightarrow> UtxoSet \<Rightarrow> bool" where
  "midway C D block u0 rest txs u \<longleftrightarrow> (\<exists>cb. transactions block = cb # map fst rest @ txs
     \<and> applied C D (height (header block)) u0 ((cb, []) # rest) u
     \<and> length (arena (smt u)) + 4 * (io txs + ins (cb # map fst rest)) \<le> 2 ^ 32)"

lemma spent_by_disjoint: "fst ` set sp \<inter> input_outpoint ` set (inputs tx) = {} \<Longrightarrow> spent_by tx sp = []"
  by (auto simp: spent_by_def filter_empty_conv list_ex_iff)

lemma spent_by_all: "fst ` set sp \<subseteq> input_outpoint ` set (inputs tx) \<Longrightarrow> spent_by tx sp = sp"
  by (auto simp: spent_by_def filter_id_conv list_ex_iff) (metis fst_conv image_iff subset_eq)

lemma spent_by_append: "spent_by tx (a @ b) = spent_by tx a @ spent_by tx b"
  by (simp add: spent_by_def)

lemma spent_by_own:
  assumes "fst ` set s \<subseteq> input_outpoint ` set (inputs tx)"
    and "\<forall>(t, s')\<in>set (ps @ qs). fst ` set s' \<inter> input_outpoint ` set (inputs tx) = {}"
    and "fst ` set extra \<inter> input_outpoint ` set (inputs tx) = {}"
  shows "spent_by tx (concat (map snd (ps @ (tx, s) # qs)) @ extra) = s"
proof -
  have "spent_by tx (concat (map snd xs)) = []" if "set xs \<subseteq> set (ps @ qs)" for xs
    using that assms(2) by (intro spent_by_disjoint) fastforce
  from this[of ps] this[of qs] show ?thesis
    using spent_by_all[OF assms(1)] spent_by_disjoint[OF assms(3)] by (simp add: spent_by_append)
qed

abbreviation block_inputs :: "Transaction list \<Rightarrow> OutPoint list" where
  "block_inputs txs \<equiv> concat (map (\<lambda>tx. map input_outpoint (inputs tx)) txs)"

lemma midway_spent:
  assumes ready: "block_ready C D block u0"
    and mid: "transactions block = cb # map fst rest @ txs" "applied C D h u0 ((cb, []) # rest) u"
    and extra: "fst ` set extra \<subseteq> set (block_inputs txs)" "fst ` set extra \<subseteq> D"
    and tx: "(tx, s) \<in> set ((cb, []) # rest)"
  shows "spent_by tx (concat (map snd rest) @ extra) = s"
proof -
  have body: "is_coinbase cb" "\<forall>tx\<in>set (map fst rest @ txs). \<not> is_coinbase tx" "distinct (block_inputs (map fst rest @ txs))"
    using ready mid(1) by (auto simp: block_ready_def body_rules_def)
  have inv: "utxo_inv C D u0" and zero: "\<forall>op\<in>D. op_tx_id op \<noteq> ZERO" using ready by (simp_all add: block_ready_def)
  have facts: "map fst s' = map input_outpoint (spent_inputs t) \<and> fst ` set s' \<subseteq> D" if "(t, s') \<in> set rest" for t s'
    by (rule applied_facts(2)[OF inv mid(2)]) (simp add: that)
  have own: "fst ` set s' = input_outpoint ` set (inputs t)" if "(t, s') \<in> set rest" for t s'
  proof -
    have "\<not> is_coinbase t" using body(2) that by force
    then show ?thesis using facts[OF that] by (metis list.set_map spent_inputs_def)
  qed
  show ?thesis
  proof (cases "(tx, s) \<in> set rest")
    case True
    then obtain ps qs where split: "rest = ps @ (tx, s) # qs" by (auto simp: in_set_conv_decomp)
    have d: "distinct (block_inputs (map fst ps) @ map input_outpoint (inputs tx) @ block_inputs (map fst qs) @ block_inputs txs)"
      using body(3) split by simp
    have others: "fst ` set s' \<inter> input_outpoint ` set (inputs tx) = {}" if "(t, s') \<in> set (ps @ qs)" for t s'
    proof -
      have "(t, s') \<in> set rest" using that split by auto
      then have "fst ` set s' = input_outpoint ` set (inputs t)" by (rule own)
      moreover have "t \<in> set (map fst ps) \<or> t \<in> set (map fst qs)" using that by force
      then have "input_outpoint ` set (inputs t) \<subseteq> set (block_inputs (map fst ps)) \<union> set (block_inputs (map fst qs))"
        by auto
      moreover have "(set (block_inputs (map fst ps)) \<union> set (block_inputs (map fst qs))) \<inter> input_outpoint ` set (inputs tx) = {}"
        using d unfolding distinct_append set_append set_map by blast
      ultimately show ?thesis by blast
    qed
    have ex: "fst ` set extra \<inter> input_outpoint ` set (inputs tx) = {}" using extra(1) d unfolding distinct_append set_append set_map by blast
    have "\<forall>(t, s')\<in>set (ps @ qs). fst ` set s' \<inter> input_outpoint ` set (inputs tx) = {}" using others by blast
    from spent_by_own[OF equalityD1[OF own[OF True]] this ex] show ?thesis unfolding split .
  next
    case False
    then have cb: "tx = cb" "s = []" using tx by auto
    have "fst ` set (concat (map snd rest) @ extra) \<subseteq> D" using facts extra(2) by fastforce
    moreover have "input_outpoint ` set (inputs cb) \<inter> D = {}"
    proof -
      obtain i where "inputs cb = [i]" "prev_tx_id i = ZERO"
        using body(1) by (auto simp: is_coinbase_def length_Suc_conv)
      then show ?thesis using zero by (auto simp: input_outpoint_def outpoint_def)
    qed
    ultimately show ?thesis using cb spent_by_disjoint[of "concat (map snd rest) @ extra" cb] by blast
  qed
qed

lemma midway_rollback:
  assumes ready: "block_ready C D block u0" and mid: "midway C D block u0 rest txs u"
    and extra: "fst ` set extra \<subseteq> set (block_inputs txs)" "fst ` set extra \<subseteq> D"
  shows "\<exists>v. undo_applied_transactions C block (Suc (length rest)) (concat (map snd rest) @ extra) u = (Ok (), v)
    \<and> utxo_inv C D v \<and> utxos v = utxos u0"
proof -
  obtain cb where m: "transactions block = cb # map fst rest @ txs"
      "applied C D (height (header block)) u0 ((cb, []) # rest) u"
      "length (arena (smt u)) + 4 * (io txs + ins (cb # map fst rest)) \<le> 2 ^ 32"
    using mid by (auto simp: midway_def)
  have inv: "utxo_inv C D u0" using ready by (simp add: block_ready_def)
  have sp: "\<forall>(tx, s)\<in>set ((cb, []) # rest). spent_by tx (concat (map snd rest) @ extra) = s"
    using midway_spent[OF ready m(1,2) extra] by blast
  have "room (ins (map fst ((cb, []) # rest))) u" using m(3) by (simp add: room_def)
  from applied_undo[OF m(2) sp applied_facts(1)[OF inv m(2)] refl this]
  show ?thesis unfolding undo_applied_transactions_def m(1) by simp
qed

lemma tx_outpoints_ids: "i \<noteq> j \<Longrightarrow> tx_outpoints i tx \<inter> tx_outpoints j tx' = {}"
  by (auto simp: tx_outpoints_def outpoint_def)

lemma block_tx_ids:
  assumes "body_rules C block" "transactions block = ps @ tx # qs"
  obtains i where "compute_tx_id C tx = Ok i" "tx_outs C tx = tx_outpoints i tx"
    "\<forall>t\<in>set ps. tx_outs C t \<inter> tx_outs C tx = {}"
proof -
  obtain ids where ids: "map (compute_tx_id C) (ps @ tx # qs) = map Ok ids" "distinct ids"
    using assms unfolding body_rules_def by metis
  then obtain a i b where split: "ids = a @ i # b" "map (compute_tx_id C) ps = map Ok a" "compute_tx_id C tx = Ok i"
    by (auto simp: append_eq_map_conv Cons_eq_map_conv)
  have "tx_outs C t \<inter> tx_outs C tx = {}" if t: "t \<in> set ps" for t
  proof -
    have "compute_tx_id C t \<in> set (map Ok a)" unfolding split(2)[symmetric] using t by simp
    then obtain j where "compute_tx_id C t = Ok j" "j \<in> set a" by auto
    then show ?thesis using ids(2) split(1,3) tx_outpoints_ids[of j i t tx] by (auto simp: tx_outs_def)
  qed
  then show ?thesis using that[of i] split(3) by (simp add: tx_outs_def)
qed

lemma midway_ready:
  assumes ready: "block_ready C D block u0" and mid: "midway C D block u0 rest (tx # txs) u"
  obtains i where "ready C D tx i u" "tx_outpoints i tx \<inter> dom (utxos u) = {}" "\<not> is_coinbase tx"
proof -
  obtain cb where m: "transactions block = cb # map fst rest @ tx # txs"
      "applied C D (height (header block)) u0 ((cb, []) # rest) u"
      "length (arena (smt u)) + 4 * (io (tx # txs) + ins (cb # map fst rest)) \<le> 2 ^ 32"
    using mid by (auto simp: midway_def)
  have r: "no_collision C D" "utxo_inv C D u0" "body_rules C block"
      "tx_outs C tx \<subseteq> D" "tx_outs C tx \<inter> dom (utxos u0) = {}"
    using ready m(1) by (auto simp: block_ready_def)
  have split: "transactions block = (cb # map fst rest) @ tx # txs" using m(1) by simp
  from block_tx_ids[OF r(3) split] obtain i where i: "compute_tx_id C tx = Ok i" "tx_outs C tx = tx_outpoints i tx"
    "\<forall>t\<in>set (cb # map fst rest). tx_outs C t \<inter> tx_outs C tx = {}" .
  note f = applied_facts(1,3)[OF r(2) m(2)]
  have "room (length (inputs tx) + length (outputs tx)) u" using m(3) by (simp add: room_def io_def)
  then have "ready C D tx i u" using r(1,4) i f(1) by (simp add: ready_def)
  moreover have "tx_outpoints i tx \<inter> dom (utxos u) = {}"
  proof -
    have "(\<Union>t\<in>set (map fst ((cb, []) # rest)). tx_outs C t) \<inter> tx_outs C tx = {}" using i(3) by auto
    moreover have "dom (utxos u0) \<inter> tx_outs C tx = {}" using r(5) by blast
    ultimately have "(dom (utxos u0) \<union> (\<Union>t\<in>set (map fst ((cb, []) # rest)). tx_outs C t)) \<inter> tx_outs C tx = {}"
      by (simp only: Int_Un_distrib2 Un_empty simp_thms)
    then have "dom (utxos u) \<inter> tx_outs C tx = {}" using f(2) by (metis Int_mono subset_empty subset_refl)
    then show ?thesis using i(2) by (simp add: Int_commute)
  qed
  moreover have "\<not> is_coinbase tx" using r(3) m(1) by (auto simp: body_rules_def)
  ultimately show ?thesis by (rule that)
qed

lemma midway_next:
  assumes "midway C D block u0 rest (tx # txs) u" "ready C D tx i u"
    and "apply_transaction C tx (height (header block)) u = (Ok m, u')"
  shows "midway C D block u0 (rest @ [(tx, collect_spent_utxos m)]) txs u'"
proof -
  obtain cb where m: "transactions block = cb # map fst rest @ tx # txs"
      "applied C D (height (header block)) u0 ((cb, []) # rest) u"
      "length (arena (smt u)) + 4 * (io (tx # txs) + ins (cb # map fst rest)) \<le> 2 ^ 32"
    using assms(1) by (auto simp: midway_def)
  have "applied C D (height (header block)) u0 (((cb, []) # rest) @ [(tx, collect_spent_utxos m)]) u'"
    by (rule applied.more[OF m(2) assms(2,3)])
  then show ?thesis
    using m(1,3) collect_spent_of(4)[OF assms(2,3)] unfolding midway_def
    by (intro exI[of _ cb]) (simp add: io_def ins_def)
qed

lemma snapshot_inputs_spec:
  "map (\<lambda>i. utxos u (input_outpoint i)) is = map Some es \<Longrightarrow>
    (case snapshot_inputs u is sp n of
       Inr (sp', n') \<Rightarrow> sp' = sp @ zip (map input_outpoint is) es
     | Inl (n', sp') \<Rightarrow> \<exists>k. sp' = sp @ take k (zip (map input_outpoint is) es))"
proof (induction "is" arbitrary: es sp n)
  case (Cons i "is")
  then obtain e es' where es: "es = e # es'" "utxos u (input_outpoint i) = Some e"
    "map (\<lambda>i. utxos u (input_outpoint i)) is = map Some es'" by (cases es) auto
  show ?case
  proof (cases "n + entry_bytes e > MAX_SPENT_UTXOS_SIZE")
    case True
    then show ?thesis using es by (auto simp: UtxoSet_get_def intro: exI[of _ 0])
  next
    case False
    then have step: "snapshot_inputs u (i # is) sp n = snapshot_inputs u is (sp @ [(input_outpoint i, e)]) (n + entry_bytes e)"
      using es(2) by (simp add: UtxoSet_get_def)
    show ?thesis
      using Cons.IH[OF es(3), of "sp @ [(input_outpoint i, e)]" "n + entry_bytes e"] es(1) unfolding step
      by (auto split: sum.splits intro: exI[of _ "Suc _"])
  qed
qed simp

lemma zip_of_spent:
  assumes "map fst sp = map input_outpoint is" "\<forall>(op, e)\<in>set sp. utxos u op = Some e"
    "map (\<lambda>i. utxos u (input_outpoint i)) is = map Some es"
  shows "zip (map input_outpoint is) es = sp"
  using assms
proof (induction "is" arbitrary: sp es)
  case (Cons i "is")
  then obtain e es' a sp' where "es = e # es'" "sp = a # sp'" by (cases es; cases sp) auto
  then show ?case using Cons by (cases a) auto
qed simp


section \<open>The atomic application\<close>

definition restored :: "crypto \<Rightarrow> OutPoint set \<Rightarrow> UtxoSet \<Rightarrow> UtxoSet \<Rightarrow> bool" where
  "restored C D u0 u \<longleftrightarrow> utxo_inv C D u \<and> utxos u = utxos u0"

text \<open>The bookkeeping of the loop agrees with the transactions applied so far.\<close>

definition accounts :: "progress \<Rightarrow> (Transaction \<times> (OutPoint \<times> UtxoEntry) list) list \<Rightarrow> bool" where
  "accounts g rest \<longleftrightarrow> spent_utxos g = concat (map snd rest) \<and> applied_count g = Suc (length rest)
     \<and> collect_spent_utxos (mutations g) = spent_utxos g"

lemma fail_restores:
  assumes "block_ready C D block u0" "midway C D block u0 rest txs u"
    and "fst ` set extra \<subseteq> set (block_inputs txs)" "fst ` set extra \<subseteq> D"
  shows "\<exists>v. fail_rolled_back C block (Suc (length rest)) (concat (map snd rest) @ extra) msg e u = (Err e, v)
    \<and> restored C D u0 v"
  using midway_rollback[OF assms] by (auto simp: fail_rolled_back_def restored_def)

lemma fail_restores_plain:
  assumes "block_ready C D block u0" "midway C D block u0 rest txs u" "accounts g rest"
  shows "\<exists>v. fail_rolled_back C block (applied_count g) (spent_utxos g) msg e u = (Err e, v) \<and> restored C D u0 v"
  using fail_restores[OF assms(1,2), of "[]" msg e] assms(3) by (simp add: accounts_def)

lemma validated_step:
  assumes ready: "block_ready (lib S) D block u0" and mid: "midway (lib S) D block u0 rest (tx # txs) u"
    and v: "validate_transaction S tx u (height (header block)) = Ok (fee, sc, vc)"
  obtains es m u' where
    "map (\<lambda>i. utxos u (input_outpoint i)) (inputs tx) = map Some es"
    "apply_transaction (lib S) tx (height (header block)) u = (Ok m, u')"
    "collect_spent_utxos m = zip (map input_outpoint (inputs tx)) es"
    "midway (lib S) D block u0 (rest @ [(tx, collect_spent_utxos m)]) txs u'"
    "fst ` set (zip (map input_outpoint (inputs tx)) es) \<subseteq> D"
proof -
  obtain es where es: "map (\<lambda>i. utxos u (input_outpoint i)) (inputs tx) = map Some es"
    using valid_spend_value[OF validate_transaction_sound[OF v]] by (elim exE conjE)
  have dist: "distinct (map input_outpoint (inputs tx))" using v unfolding validate_transaction_Ok by blast
  have dom: "input_outpoint ` set (inputs tx) \<subseteq> dom (utxos u)"
  proof
    fix op assume "op \<in> input_outpoint ` set (inputs tx)"
    then have "utxos u op \<in> set (map (\<lambda>i. utxos u (input_outpoint i)) (inputs tx))" by auto
    then show "op \<in> dom (utxos u)" unfolding es by auto
  qed
  obtain i where i: "ready (lib S) D tx i u" "tx_outpoints i tx \<inter> dom (utxos u) = {}" "\<not> is_coinbase tx"
    using midway_ready[OF ready mid] by blast
  have spent: "spent_inputs tx = inputs tx" using i(3) by (simp add: spent_inputs_def)
  obtain r u' where run: "apply_transaction (lib S) tx (height (header block)) u = (r, u')" by fastforce
  have "\<exists>ms. r = Ok ms"
    using apply_transaction_spec[OF i(1), of "height (header block)"] run dist dom i(2) spent by auto
  then obtain m where m: "apply_transaction (lib S) tx (height (header block)) u = (Ok m, u')" using run by blast
  note c = collect_spent_of[OF i(1) m]
  have "collect_spent_utxos m = zip (map input_outpoint (inputs tx)) es"
    using zip_of_spent[OF c(1)[unfolded spent] c(2) es] by simp
  moreover have "fst ` set (zip (map input_outpoint (inputs tx)) es) \<subseteq> D"
  proof -
    have "fst ` set (zip (map input_outpoint (inputs tx)) es) \<subseteq> input_outpoint ` set (inputs tx)"
      by (auto dest: set_zip_leftD)
    moreover have "dom (utxos u) \<subseteq> D" using i(1) by (simp add: ready_def utxo_inv_def)
    ultimately show ?thesis using dom by blast
  qed
  ultimately show ?thesis using that[OF es m] midway_next[OF mid i(1) m] by blast
qed

lemma apply_atomic_midway:
  "block_ready (lib S) D block u0 \<Longrightarrow> midway (lib S) D block u0 rest txs u \<Longrightarrow> accounts g rest \<Longrightarrow>
    apply_atomic S block txs g u = (r, u') \<Longrightarrow>
    (case r of Inr g' \<Rightarrow> \<exists>rest'. midway (lib S) D block u0 rest' [] u' \<and> accounts g' rest'
     | Inl e \<Rightarrow> restored (lib S) D u0 u')"
proof (induction txs arbitrary: rest u g)
  case (Cons tx txs)
  let ?h = "height (header block)"
  show ?case
  proof (cases "validate_transaction S tx u ?h")
    case (Inl e)
    obtain v where "fail_rolled_back (lib S) block (applied_count g) (spent_utxos g) ''rollback failed'' e u
        = (Err e :: ValidationError + progress, v)" "restored (lib S) D u0 v"
      using fail_restores_plain[OF Cons.prems(1-3)] by blast
    then show ?thesis using Inl Cons.prems(4) by (auto simp: Let_def)
  next
    case (Inr x)
    then obtain fee sc vc where v: "validate_transaction S tx u ?h = Ok (fee, sc, vc)" by (cases x) auto
    from validated_step[OF Cons.prems(1,2) v] obtain es m u1 where s:
      "map (\<lambda>i. utxos u (input_outpoint i)) (inputs tx) = map Some es"
      "apply_transaction (lib S) tx ?h u = (Ok m, u1)"
      "collect_spent_utxos m = zip (map input_outpoint (inputs tx)) es"
      "midway (lib S) D block u0 (rest @ [(tx, collect_spent_utxos m)]) txs u1"
      "fst ` set (zip (map input_outpoint (inputs tx)) es) \<subseteq> D" .
    note snap = snapshot_inputs_spec[OF s(1), of "spent_utxos g" "spent_utxos_bytes g"]
    show ?thesis
    proof (cases "snapshot_inputs u (inputs tx) (spent_utxos g) (spent_utxos_bytes g)")
      case (Inl y)
      then obtain n k where y: "y = (n, spent_utxos g @ take k (zip (map input_outpoint (inputs tx)) es))"
        using snap by (cases y) auto
      let ?extra = "take k (zip (map input_outpoint (inputs tx)) es)"
      have "fst ` set ?extra \<subseteq> fst ` set (zip (map input_outpoint (inputs tx)) es)" by (intro image_mono set_take_subset)
      moreover have "fst ` set (zip (map input_outpoint (inputs tx)) es) \<subseteq> set (block_inputs (tx # txs))"
        by (auto dest: set_zip_leftD)
      ultimately have ex: "fst ` set ?extra \<subseteq> set (block_inputs (tx # txs))" "fst ` set ?extra \<subseteq> D"
        using s(5) by (meson subset_trans)+
      obtain v where "fail_rolled_back (lib S) block (Suc (length rest)) (concat (map snd rest) @ ?extra)
          ''undo metadata overflow: rollback failed'' (BlockTooLarge n) u
          = (Err (BlockTooLarge n) :: ValidationError + progress, v)" "restored (lib S) D u0 v"
        using fail_restores[OF Cons.prems(1,2) ex] by blast
      then show ?thesis using Cons.prems(3,4) v Inl y by (auto simp: Let_def accounts_def)
    next
      case (Inr y)
      then obtain n where y: "y = (spent_utxos g @ collect_spent_utxos m, n)" using snap s(3) by (cases y) auto
      let ?g = "g\<lparr>spent_utxos := spent_utxos g @ collect_spent_utxos m, spent_utxos_bytes := n, total_fees := total_fees g + fee,
        mutations := mutations g @ m, applied_count := applied_count g + 1\<rparr>"
      have "accounts ?g (rest @ [(tx, collect_spent_utxos m)])"
        using Cons.prems(3) by (simp add: accounts_def collect_append)
      moreover have "apply_atomic S block txs ?g u1 = (r, u')" using Cons.prems(4) v Inr y s(2) by (simp add: Let_def)
      ultimately show ?thesis using Cons.IH[OF Cons.prems(1) s(4)] by blast
    qed
  qed
qed auto

lemma block_start:
  assumes ready: "block_ready C D block u" and txs: "transactions block = cb # txs"
  obtains m u1 where "apply_transaction C cb (height (header block)) u = (Ok m, u1)"
    "midway C D block u [] txs u1" "collect_spent_utxos m = []"
proof -
  let ?h = "height (header block)"
  have r: "no_collision C D" "utxo_inv C D u" "body_rules C block" "room (io (transactions block)) u"
      "tx_outs C cb \<subseteq> D" "tx_outs C cb \<inter> dom (utxos u) = {}"
    using ready txs by (auto simp: block_ready_def)
  have split: "transactions block = [] @ cb # txs" using txs by simp
  obtain i where i: "compute_tx_id C cb = Ok i" "tx_outs C cb = tx_outpoints i cb"
    by (rule block_tx_ids[OF r(3) split])
  have cb: "spent_inputs cb = []" using r(3) txs by (auto simp: body_rules_def spent_inputs_def)
  have rd: "ready C D cb i u" using r i txs by (simp add: ready_def room_def io_def)
  obtain res u1 where run: "apply_transaction C cb ?h u = (res, u1)" by fastforce
  have "\<exists>ms. res = Ok ms" using apply_transaction_spec[OF rd, of ?h] run r(6) i(2) cb by auto
  then obtain m where m: "apply_transaction C cb ?h u = (Ok m, u1)" using run by blast
  note c = collect_spent_of[OF rd m]
  have nil: "collect_spent_utxos m = []" using c(1) cb by simp
  have "applied C D ?h u ([] @ [(cb, collect_spent_utxos m)]) u1"
    by (rule applied.more[OF applied.none rd m])
  then have "midway C D block u [] txs u1"
    using txs r(4) c(4) nil unfolding midway_def by (intro exI[of _ cb]) (simp add: room_def io_def ins_def)
  then show ?thesis using that m nil by blast
qed

lemma expected_coinbase_Err: "expected_coinbase h fees = Err e \<Longrightarrow> e = RewardOverflow"
  using block_reward_value[of h] by (auto simp: expected_coinbase_def ok_or_Err_iff)

lemma atomic_outcome:
  assumes ready: "block_ready (lib S) D block u"
    and run: "validate_and_apply_block_transactions_atomic S block u = (r, u')"
  shows "case r of
      Inl e \<Rightarrow> restored (lib S) D u u'
    | Inr (fees, muts) \<Rightarrow> \<exists>rest. midway (lib S) D block u rest [] u' \<and> collect_spent_utxos muts = concat (map snd rest)"
proof -
  obtain cb txs where txs: "transactions block = cb # txs" using ready by (auto simp: block_ready_def body_rules_def)
  let ?C = "lib S" and ?h = "height (header block)"
  obtain m u1 where m: "apply_transaction ?C cb ?h u = (Ok m, u1)" "midway ?C D block u [] txs u1" "collect_spent_utxos m = []"
    using block_start[OF ready txs] by blast
  let ?g = "\<lparr>mutations = m, spent_utxos = [], spent_utxos_bytes = 0, applied_count = 1, total_fees = 0\<rparr>"
  have acc: "accounts ?g []" using m(3) by (simp add: accounts_def)
  obtain r1 u2 where a: "apply_atomic S block txs ?g u1 = (r1, u2)" by fastforce
  note loop = apply_atomic_midway[OF ready m(2) acc a]
  show ?thesis
  proof (cases r1)
    case (Inl e)
    then have "r = Err e" "u' = u2"
      using run a m(1) by (simp_all add: validate_and_apply_block_transactions_atomic_def txs apply_coinbase_def Let_def)
    then show ?thesis using loop Inl by simp
  next
    case (Inr g)
    then obtain rest where rest: "midway ?C D block u rest [] u2" "accounts g rest" using loop by auto
    define final where "final = (if total_fees g > U64_MAX then Err ValueOverflow
      else rbind (expected_coinbase ?h (total_fees g)) (\<lambda>reward. rbind (validate_coinbase S cb ?h reward) (\<lambda>_.
        Ok (total_fees g, mutations g))))"
    have end_: "(case final of Inl e \<Rightarrow> \<exists>msg. fail_rolled_back ?C block (applied_count g) (spent_utxos g) msg e u2 = (r, u')
        | Inr x \<Rightarrow> (r, u') = (Ok x, u2))"
    proof (cases "expected_coinbase ?h (total_fees g)")
      case (Inl e)
      then have "e = RewardOverflow" by (rule expected_coinbase_Err)
      then show ?thesis using run a m(1) Inl \<open>r1 = Ok g\<close>
        by (auto simp: final_def validate_and_apply_block_transactions_atomic_def txs apply_coinbase_def Let_def)
    next
      case (Inr reward)
      then show ?thesis using run a m(1) \<open>r1 = Ok g\<close>
        by (auto simp: final_def validate_and_apply_block_transactions_atomic_def txs apply_coinbase_def Let_def
            split: sum.splits)
    qed
    show ?thesis
    proof (cases final)
      case (Inl e)
      then obtain msg where fr: "fail_rolled_back ?C block (applied_count g) (spent_utxos g) msg e u2 = (r, u')"
        using end_ by auto
      obtain v where "fail_rolled_back ?C block (applied_count g) (spent_utxos g) msg e u2
          = (Err e :: ValidationError + nat \<times> UtxoMutation list, v)" "restored ?C D u v"
        using fail_restores_plain[OF ready rest] by blast
      then show ?thesis using fr by auto
    next
      case (Inr x)
      then have "r = Ok x" "u' = u2" using end_ by auto
      moreover have "x = (total_fees g, mutations g)" using Inr by (auto simp: final_def result_simps split: if_splits)
      ultimately show ?thesis using rest by (auto simp: accounts_def)
    qed
  qed
qed


section \<open>Properties\<close>

lemma reward_id_nonzero: "reward_id n \<noteq> ZERO"
proof -
  have "reward_id n ! 2 = 1"
    by (simp add: reward_id_def compute_tx_id_def signing_bytes_def serialize_header_def serialize_body_def reward_tx_def
        TxOutput_serialize_def serialize_varbytes_def serialize_opt_varbytes_def serialize_opt_hash_def
        domain_hash_def domain_preimage_def toy_crypto_def numeral_2_eq_2)
  moreover have "ZERO ! 2 = 0" by (simp add: ZERO_def)
  ultimately show ?thesis by auto
qed

lemma reward_block_ready:
  "block_ready toy_crypto {outpoint (reward_id n) 0} (reward_block_at h n p) (UtxoSet_new toy_crypto)"
proof -
  have "tx_outs toy_crypto (reward_tx n) = {outpoint (reward_id n) 0}"
    by (simp add: tx_outs_def reward_id reward_outpoints)
  moreover have "body_rules toy_crypto (reward_block_at h n p)"
    using reward_block_body[of h n p] by (simp add: check_block_body_Ok)
  moreover have "room (io [reward_tx n]) (UtxoSet_new toy_crypto)"
    by (simp add: room_def io_def UtxoSet_new_def SparseMerkleTree_new_def reward_tx_def)
  ultimately show ?thesis
    using reward_id_nonzero[of n]
    by (simp add: block_ready_def utxo_inv_new no_collision_def toy_digest32 outpoint_def)
qed

text \<open>Freshness of the outputs cannot be dropped: a block whose coinbase repeats one that the set
  still holds fails at its first step, and the roll-back then removes the older entry.\<close>

lemma stale_coinbase_lost:
  assumes "no_collision (lib S) D" "utxo_inv (lib S) D u"
    and "transactions block = cb # txs" "is_coinbase cb" "compute_tx_id (lib S) cb = Ok i" "outputs cb = [out]"
    and "utxos u (outpoint i 0) = Some entry"
  shows "\<exists>u'. validate_and_apply_block_transactions_atomic S block u = (Err (StateCorrupted ''coinbase apply''), u')
    \<and> utxos u' = (utxos u)(outpoint i 0 := None)"
proof -
  obtain u' where u': "UtxoSet_remove (lib S) (outpoint i 0) u = (Ok (Some entry), u')" "utxos u' = (utxos u)(outpoint i 0 := None)"
    using UtxoSet_remove_ok[OF assms(1,2,7)] by blast
  have "apply_transaction (lib S) cb h u = (Err (DuplicateOutpoint (outpoint i 0)), u)" for h
    using assms(4-7) by (simp add: apply_transaction_def UtxoSet_insert_def)
  moreover have "undo_transaction (lib S) cb [] u = (Ok (), u')"
    using assms(4-6) u'(1) by (simp add: undo_transaction_def)
  ultimately show ?thesis
    using assms(3) u'(2) by (simp add: validate_and_apply_block_transactions_atomic_def apply_coinbase_def Let_def)
qed
text \<open>C3. The atomic application is atomic on a block that is ready for the set (\<open>block_ready\<close>): the
  body has passed the header check, none of the outputs of the block is in the set yet, the set is
  consistent with its index and its tree, the leaf keys of the outpoints in play do not collide, and
  the tree has room. Then, when the application returns an error, whatever transaction or limit
  caused it, the set holds the same entries as before, with the same script index and the same state
  root.\<close>

theorem atomic_failure_restores:
  assumes "block_ready (lib S) D block u" "validate_and_apply_block_transactions_atomic S block u = (Err e, u')"
  shows "utxos u' = utxos u \<and> by_script u' = by_script u \<and> UtxoSet_state_root u' = UtxoSet_state_root u"
proof -
  have "restored (lib S) D u u'" using atomic_outcome[OF assms] by simp
  then show ?thesis
    using assms(1) utxo_inv_determined[of "lib S" D u' u] by (simp add: restored_def block_ready_def)
qed

theorem atomic_failure_restores_witness:
  "\<exists>e u. validate_and_apply_block_transactions_atomic sample_settings (reward_block_at 4 3 None) (UtxoSet_new toy_crypto)
      = (Err e, u) \<and> utxos u = Map.empty \<and> UtxoSet_state_root u = empty_root toy_crypto"
proof -
  obtain r u where run: "validate_and_apply_block_transactions_atomic sample_settings (reward_block_at 4 3 None)
      (UtxoSet_new toy_crypto) = (r, u)" by fastforce
  obtain m u1 where m: "apply_transaction toy_crypto (reward_tx 3) 4 (UtxoSet_new toy_crypto) = (Ok m, u1)"
    using reward_applies[of 3 4] by blast
  have bad: "validate_coinbase sample_settings (reward_tx 3) 4 reward \<noteq> Ok x" for reward x
    by (auto simp: validate_coinbase_def result_simps reward_tx_def height_index_def)
  obtain e where e: "r = Err e"
  proof (cases r)
    case (Inr y)
    obtain fees muts where "y = (fees, muts)" by (cases y)
    then show ?thesis
      using atomic_Ok[OF run[unfolded Inr \<open>y = (fees, muts)\<close>]] bad by (metis reward_block_fields(1,2) list.inject)
  qed blast
  have "block_ready (lib sample_settings) {outpoint (reward_id 3) 0} (reward_block_at 4 3 None) (UtxoSet_new toy_crypto)"
    using reward_block_ready by simp
  from atomic_failure_restores[OF this run[unfolded e]] show ?thesis
    using run e by (auto simp: UtxoSet_new_def UtxoSet_state_root_def SparseMerkleTree_new_def)
qed

text \<open>C4. A block can be taken back: after a successful application, undoing the block with the spent
  entries of its mutation log succeeds and restores the entries, the script index and the state
  root.\<close>

theorem undo_block_inverse:
  assumes "block_ready (lib S) D block u"
    and "validate_and_apply_block_transactions_atomic S block u = (Ok (fees, muts), u')"
  shows "\<exists>u''. undo_block_transactions (lib S) block (collect_spent_utxos muts) u' = (Ok (), u'')
    \<and> utxos u'' = utxos u \<and> by_script u'' = by_script u \<and> UtxoSet_state_root u'' = UtxoSet_state_root u"
proof -
  obtain rest where rest: "midway (lib S) D block u rest [] u'" "collect_spent_utxos muts = concat (map snd rest)"
    using atomic_outcome[OF assms] by auto
  then have len: "length (transactions block) = Suc (length rest)" by (auto simp: midway_def)
  from midway_rollback[OF assms(1) rest(1), of "[]"] obtain v where
    "undo_block_transactions (lib S) block (collect_spent_utxos muts) u' = (Ok (), v)"
    "utxo_inv (lib S) D v" "utxos v = utxos u"
    by (auto simp: undo_block_transactions_def len rest(2))
  then show ?thesis
    using assms(1) utxo_inv_determined[of "lib S" D v u] by (intro exI[of _ v]) (simp add: block_ready_def)
qed

theorem undo_block_inverse_witness:
  "\<exists>muts u u'. validate_and_apply_block_transactions_atomic sample_settings (reward_block 3 None) (UtxoSet_new toy_crypto)
      = (Ok (0, muts), u)
    \<and> undo_block_transactions toy_crypto (reward_block 3 None) (collect_spent_utxos muts) u = (Ok (), u')
    \<and> utxos u' = Map.empty"
proof -
  obtain muts u where a: "validate_and_apply_block_transactions_atomic sample_settings (reward_block 3 None) (UtxoSet_new toy_crypto)
      = (Ok (0, muts), u)" using reward_block_applies(1)[of 3 None] by auto
  have "block_ready (lib sample_settings) {outpoint (reward_id 3) 0} (reward_block 3 None) (UtxoSet_new toy_crypto)"
    using reward_block_ready by simp
  from undo_block_inverse[OF this a] show ?thesis using a by auto
qed

end
