(* ===== verification/Mempool.thy ===== *)
theory Mempool
  imports Block_Undo "HOL-Library.Product_Lexorder"
begin

text \<open>
  The pool of unconfirmed transactions, \<open>mempool/mempool.rs\<close>: the entries by transaction id, the
  order by fee density that eviction and block templates follow, the outpoints its transactions
  spend and the index from scripts to the transactions that touch them. An ordered map is a map
  whose iteration is the sorted list of its keys; a hash map iterates in an unspecified order, which
  the operations that depend on one take as the argument \<open>keys\<close>. The event bus is the list of the
  scripts notified so far, or \<open>None\<close> when none is installed.
\<close>


section \<open>Data\<close>

definition MAX_MEMPOOL_BYTES :: nat where [constants]: "MAX_MEMPOOL_BYTES = 256 * 1024 * 1024"
definition MEMPOOL_CAPACITY :: nat where [constants]: "MEMPOOL_CAPACITY = 8192"

record SpentInput =
  si_outpoint :: OutPoint
  si_script :: bytes
  si_value :: u64

record MempoolEntry =
  me_tx :: Transaction
  me_tx_id :: bytes
  me_fee :: nat
  me_tx_cost :: nat
  me_fee_density :: nat
  me_spent_inputs :: "SpentInput list"

record MempoolAddressTx =
  mat_tx_id :: bytes
  mat_received :: "(u32 \<times> u64) list"
  mat_spent :: "(OutPoint \<times> u64) list"

record Mempool =
  mp_entries :: "bytes \<rightharpoonup> MempoolEntry"
  mp_by_fee_density :: "nat \<times> bytes \<rightharpoonup> bytes"
  mp_spent_outpoints :: "OutPoint set"
  mp_by_script :: "bytes \<rightharpoonup> bytes set"
  mp_total_bytes :: nat
  mp_event_bus :: "bytes list option"

datatype MempoolError =
  AlreadyInMempool
| CoinbaseNotAllowed
| DoubleSpend OutPoint
| ValidationFailed ValidationError
| FeeTooLow
| MempoolCostOverflow

definition Mempool_new :: Mempool where
  "Mempool_new = \<lparr>mp_entries = Map.empty, mp_by_fee_density = Map.empty, mp_spent_outpoints = {},
     mp_by_script = Map.empty, mp_total_bytes = 0, mp_event_bus = None\<rparr>"

definition set_event_bus :: "bytes list \<Rightarrow> Mempool \<Rightarrow> Mempool" where
  "set_event_bus bus mp = mp\<lparr>mp_event_bus := Some bus\<rparr>"

definition emit_script_changed :: "bytes \<Rightarrow> Mempool \<Rightarrow> Mempool" where
  "emit_script_changed script mp = (case mp_event_bus mp of
     Some sent \<Rightarrow> mp\<lparr>mp_event_bus := Some (sent @ [script])\<rparr> | None \<Rightarrow> mp)"

definition Mempool_len :: "Mempool \<Rightarrow> nat" where
  "Mempool_len mp = card (dom (mp_entries mp))"

definition Mempool_is_empty :: "Mempool \<Rightarrow> bool" where
  "Mempool_is_empty mp \<longleftrightarrow> mp_entries mp = Map.empty"

definition first_key_value :: "('k::linorder \<rightharpoonup> 'v) \<Rightarrow> ('k \<times> 'v) option" where
  "first_key_value m = (case sorted_list_of_set (dom m) of [] \<Rightarrow> None | k # _ \<Rightarrow> Some (k, the (m k)))"


section \<open>The script index\<close>

fun resolve_spent_inputs :: "TxInput list \<Rightarrow> UtxoSet \<Rightarrow> SpentInput list" where
  "resolve_spent_inputs [] resolved = []"
| "resolve_spent_inputs (i # is) resolved = (case UtxoSet_get resolved (input_outpoint i) of
     Some utxo \<Rightarrow> \<lparr>si_outpoint = input_outpoint i, si_script = out_script (ue_output utxo),
                   si_value = out_value (ue_output utxo)\<rparr> # resolve_spent_inputs is resolved
   | None \<Rightarrow> resolve_spent_inputs is resolved)"

fun index_scripts :: "bytes \<Rightarrow> bytes list \<Rightarrow> Mempool \<Rightarrow> Mempool" where
  "index_scripts tx_id [] mp = mp"
| "index_scripts tx_id (s # ss) mp =
     index_scripts tx_id ss (emit_script_changed s (mp\<lparr>mp_by_script := index_add tx_id s (mp_by_script mp)\<rparr>))"

definition output_scripts :: "MempoolEntry \<Rightarrow> bytes list" where
  "output_scripts entry = map out_script (outputs (me_tx entry))"

definition spent_scripts :: "MempoolEntry \<Rightarrow> bytes list" where
  "spent_scripts entry = map si_script (me_spent_inputs entry)"

definition index_entry :: "MempoolEntry \<Rightarrow> Mempool \<Rightarrow> Mempool" where
  "index_entry entry mp =
     index_scripts (me_tx_id entry) (spent_scripts entry)
       (index_scripts (me_tx_id entry) (output_scripts entry) mp)"

definition deindex_entry :: "MempoolEntry \<Rightarrow> Mempool \<Rightarrow> Mempool" where
  "deindex_entry entry mp =
     (let scripts = output_scripts entry @ spent_scripts entry;
          mp = mp\<lparr>mp_by_script := fold (index_del (me_tx_id entry)) scripts (mp_by_script mp)\<rparr> in
      fold emit_script_changed scripts mp)"


section \<open>Admission\<close>

fun check_spends :: "OutPoint set \<Rightarrow> TxInput list \<Rightarrow> MempoolError + unit" where
  "check_spends spent [] = Ok ()"
| "check_spends spent (i # is) =
     (if input_outpoint i \<in> spent then Err (DoubleSpend (input_outpoint i)) else check_spends spent is)"

definition local_checks :: "crypto \<Rightarrow> Transaction \<Rightarrow> Mempool \<Rightarrow> MempoolError + bytes" where
  "local_checks C tx mp =
     rbind (map_err (\<lambda>_. ValidationFailed (TxTooLarge 0)) (compute_tx_id C tx)) (\<lambda>tx_id.
     rbind (ensure (mp_entries mp tx_id = None) AlreadyInMempool) (\<lambda>_.
     rbind (ensure (\<not> is_coinbase tx) CoinbaseNotAllowed) (\<lambda>_.
     rbind (check_spends (mp_spent_outpoints mp) (inputs tx)) (\<lambda>_.
     Ok tx_id))))"

definition pre_check :: "crypto \<Rightarrow> Transaction \<Rightarrow> Mempool \<Rightarrow> MempoolError + unit" where
  "pre_check C tx mp = rbind (local_checks C tx mp) (\<lambda>_. Ok ())"

text \<open>\<open>fee.saturating_mul(1_000_000) / tx_cost\<close>\<close>

definition density :: "nat \<Rightarrow> nat \<Rightarrow> nat" where
  "density fee cost = (if cost > 0 then min (fee * 1000000) U64_MAX div cost else 0)"

definition tx_bytes :: "Transaction \<Rightarrow> nat" where
  "tx_bytes tx = (case serialized_size tx of Inl _ \<Rightarrow> 0 | Inr n \<Rightarrow> n)"

definition over_capacity :: "nat \<Rightarrow> Mempool \<Rightarrow> bool" where
  "over_capacity n mp \<longleftrightarrow> Mempool_len mp \<ge> MEMPOOL_CAPACITY \<or> mp_total_bytes mp + n > MAX_MEMPOOL_BYTES"

text \<open>What removal and eviction do with the entry they take out.\<close>

definition forget_entry :: "MempoolEntry \<Rightarrow> Mempool \<Rightarrow> Mempool" where
  "forget_entry entry mp =
     (let mp = deindex_entry entry mp in
      mp\<lparr>mp_spent_outpoints := mp_spent_outpoints mp - set (map input_outpoint (inputs (me_tx entry))),
         mp_total_bytes := mp_total_bytes mp - tx_bytes (me_tx entry)\<rparr>)"

definition evict_lowest :: "Mempool \<Rightarrow> Mempool" where
  "evict_lowest mp = (case first_key_value (mp_by_fee_density mp) of
     None \<Rightarrow> mp
   | Some (key, tx_id) \<Rightarrow>
     (let mp = mp\<lparr>mp_by_fee_density := (mp_by_fee_density mp)(key := None)\<rparr> in
      case mp_entries mp tx_id of
        None \<Rightarrow> mp
      | Some entry \<Rightarrow> forget_entry entry (mp\<lparr>mp_entries := (mp_entries mp)(tx_id := None)\<rparr>)))"

partial_function (option) evict_loop :: "nat \<Rightarrow> Mempool \<Rightarrow> Mempool option" where
  "evict_loop n mp =
     (if \<not> over_capacity n mp then Some mp
      else if Mempool_is_empty mp then Some mp
      else evict_loop n (evict_lowest mp))"

definition make_room :: "nat \<Rightarrow> nat \<Rightarrow> Mempool \<Rightarrow> (Mempool, MempoolError, unit) run option" where
  "make_room fee_density n mp =
     (if over_capacity n mp then
        (case first_key_value (mp_by_fee_density mp) of
           Some ((worst_density, _), _) \<Rightarrow>
             if fee_density \<le> worst_density then Some (Err FeeTooLow, mp)
             else map_option (\<lambda>mp. (Ok (), mp)) (evict_loop n mp)
         | None \<Rightarrow> Some (Ok (), mp))
      else Some (Ok (), mp))"

definition insert_entry :: "MempoolEntry \<Rightarrow> Mempool \<Rightarrow> Mempool" where
  "insert_entry entry mp =
     (let mp = mp\<lparr>mp_spent_outpoints := mp_spent_outpoints mp \<union> set (map input_outpoint (inputs (me_tx entry)))\<rparr>;
          mp = mp\<lparr>mp_by_fee_density := (mp_by_fee_density mp)((me_fee_density entry, me_tx_id entry) \<mapsto> me_tx_id entry),
                  mp_total_bytes := mp_total_bytes mp + tx_bytes (me_tx entry)\<rparr>;
          mp = index_entry entry mp in
      mp\<lparr>mp_entries := (mp_entries mp)(me_tx_id entry \<mapsto> entry)\<rparr>)"

definition new_entry :: "Transaction \<Rightarrow> bytes \<Rightarrow> nat \<Rightarrow> nat \<Rightarrow> UtxoSet \<Rightarrow> MempoolEntry" where
  "new_entry tx tx_id fee cost resolved =
     \<lparr>me_tx = tx, me_tx_id = tx_id, me_fee = fee, me_tx_cost = cost, me_fee_density = density fee cost,
      me_spent_inputs = resolve_spent_inputs (inputs tx) resolved\<rparr>"

definition admit :: "Transaction \<Rightarrow> bytes \<Rightarrow> nat \<Rightarrow> nat \<Rightarrow> UtxoSet \<Rightarrow> Mempool \<Rightarrow> (Mempool, MempoolError, bytes) run option" where
  "admit tx tx_id fee cost resolved mp =
     (let entry = new_entry tx tx_id fee cost resolved in
      map_option (\<lambda>(r, mp). case r of
          Inl e \<Rightarrow> (Err e, mp)
        | Inr _ \<Rightarrow> (Ok tx_id, insert_entry entry mp))
        (make_room (me_fee_density entry) (tx_bytes tx) mp))"

definition add_validated :: "crypto \<Rightarrow> Transaction \<Rightarrow> nat \<Rightarrow> nat \<Rightarrow> nat \<Rightarrow> u64 \<Rightarrow> UtxoSet \<Rightarrow> Mempool
    \<Rightarrow> (Mempool, MempoolError, bytes) run option" where
  "add_validated C tx fee script_cost script_validation_cost current_height resolved_inputs mp =
     (case rbind (local_checks C tx mp) (\<lambda>tx_id.
           rbind (ok_or MempoolCostOverflow (tx_cost_with_script_cost tx script_cost script_validation_cost)) (\<lambda>cost.
           Ok (tx_id, cost))) of
        Inl e \<Rightarrow> Some (Err e, mp)
      | Inr (tx_id, cost) \<Rightarrow> admit tx tx_id fee cost resolved_inputs mp)"

definition add :: "settings \<Rightarrow> Transaction \<Rightarrow> UtxoSet \<Rightarrow> u64 \<Rightarrow> Mempool \<Rightarrow> (Mempool, MempoolError, bytes) run option" where
  "add S tx utxo_set current_height mp =
     (case rbind (local_checks (lib S) tx mp) (\<lambda>tx_id.
           rbind (map_err ValidationFailed (validate_transaction S tx utxo_set current_height)) (\<lambda>(fee, script_cost, script_validation_cost).
           rbind (ok_or MempoolCostOverflow (tx_cost_with_script_cost tx script_cost script_validation_cost)) (\<lambda>cost.
           Ok (tx_id, fee, cost)))) of
        Inl e \<Rightarrow> Some (Err e, mp)
      | Inr (tx_id, fee, cost) \<Rightarrow> admit tx tx_id fee cost utxo_set mp)"


section \<open>Removal, selection and revalidation\<close>

definition Mempool_remove :: "bytes \<Rightarrow> Mempool \<Rightarrow> Transaction option \<times> Mempool" where
  "Mempool_remove tx_id mp = (case mp_entries mp tx_id of
     None \<Rightarrow> (None, mp)
   | Some entry \<Rightarrow>
     (let mp = mp\<lparr>mp_entries := (mp_entries mp)(tx_id := None)\<rparr>;
          mp = mp\<lparr>mp_by_fee_density := (mp_by_fee_density mp)((me_fee_density entry, me_tx_id entry) := None)\<rparr> in
      (Some (me_tx entry), forget_entry entry mp)))"

definition Mempool_get :: "bytes \<Rightarrow> Mempool \<Rightarrow> Transaction option" where
  "Mempool_get tx_id mp = map_option me_tx (mp_entries mp tx_id)"

text \<open>Sizes are machine words: an entry that does not serialize counts as the largest word, and
  the sum wraps around.\<close>

fun select_loop :: "Mempool \<Rightarrow> nat \<Rightarrow> bytes list \<Rightarrow> Transaction list \<Rightarrow> nat \<Rightarrow> nat \<Rightarrow> Transaction list \<times> nat" where
  "select_loop mp max_block_size [] selected fees used = (selected, fees)"
| "select_loop mp max_block_size (tx_id # ids) selected fees used = (case mp_entries mp tx_id of
     None \<Rightarrow> select_loop mp max_block_size ids selected fees used
   | Some entry \<Rightarrow>
     (let size = (case serialized_size (me_tx entry) of Inl _ \<Rightarrow> 2 ^ 64 - 1 | Inr n \<Rightarrow> n) in
      if (used + size) mod 2 ^ 64 \<le> max_block_size \<and> fees + me_fee entry \<le> U64_MAX
      then select_loop mp max_block_size ids (selected @ [me_tx entry]) (fees + me_fee entry) ((used + size) mod 2 ^ 64)
      else select_loop mp max_block_size ids selected fees used))"

definition select_transactions :: "nat \<Rightarrow> Mempool \<Rightarrow> Transaction list \<times> nat" where
  "select_transactions max_block_size mp =
     select_loop mp max_block_size
       (map (\<lambda>k. the (mp_by_fee_density mp k)) (rev (sorted_list_of_set (dom (mp_by_fee_density mp))))) [] 0 0"

fun remove_ids :: "bytes list \<Rightarrow> Mempool \<Rightarrow> Mempool" where
  "remove_ids [] mp = mp"
| "remove_ids (tx_id # ids) mp = remove_ids ids (snd (Mempool_remove tx_id mp))"

fun remove_exact :: "crypto \<Rightarrow> Transaction list \<Rightarrow> Mempool \<Rightarrow> Mempool" where
  "remove_exact C [] mp = mp"
| "remove_exact C (tx # txs) mp = remove_exact C txs (case compute_tx_id C tx of
     Inl _ \<Rightarrow> mp | Inr tx_id \<Rightarrow> snd (Mempool_remove tx_id mp))"

definition confirmed_outpoints :: "Transaction list \<Rightarrow> OutPoint set" where
  "confirmed_outpoints txs = (\<Union>tx\<in>set txs. if is_coinbase tx then {} else set (map input_outpoint (inputs tx)))"

definition remove_confirmed :: "((bytes \<rightharpoonup> MempoolEntry) \<Rightarrow> bytes list) \<Rightarrow> crypto \<Rightarrow> Transaction list \<Rightarrow> Mempool \<Rightarrow> Mempool" where
  "remove_confirmed keys C txs mp =
     (let mp = remove_exact C txs mp;
          spent = confirmed_outpoints txs;
          to_remove = filter (\<lambda>tx_id. list_ex (\<lambda>inp. input_outpoint inp \<in> spent) (inputs (me_tx (the (mp_entries mp tx_id)))))
            (keys (mp_entries mp)) in
      remove_ids to_remove mp)"

definition referenced_outpoints :: "((bytes \<rightharpoonup> MempoolEntry) \<Rightarrow> bytes list) \<Rightarrow> Mempool \<Rightarrow> OutPoint list" where
  "referenced_outpoints keys mp =
     concat (map (\<lambda>tx_id. map input_outpoint (inputs (me_tx (the (mp_entries mp tx_id))))) (keys (mp_entries mp)))"

text \<open>An entry leaves the pool when an input is gone or immature, or full validation fails.\<close>

definition input_invalid :: "settings \<Rightarrow> UtxoSet \<Rightarrow> u64 \<Rightarrow> TxInput \<Rightarrow> bool" where
  "input_invalid S u current_height i = (case UtxoSet_get u (input_outpoint i) of
     None \<Rightarrow> True
   | Some utxo \<Rightarrow> ue_is_coinbase utxo \<and> saturating_sub current_height (ue_height utxo) < coinbase_maturity S)"

definition should_remove :: "settings \<Rightarrow> UtxoSet \<Rightarrow> u64 \<Rightarrow> Mempool \<Rightarrow> bytes \<Rightarrow> bool" where
  "should_remove S u current_height mp tx_id = (case mp_entries mp tx_id of
     Some entry \<Rightarrow>
       if list_ex (input_invalid S u current_height) (inputs (me_tx entry)) then True
       else (case validate_transaction S (me_tx entry) u current_height of Inl _ \<Rightarrow> True | Inr _ \<Rightarrow> False)
   | None \<Rightarrow> False)"

fun revalidate_loop :: "settings \<Rightarrow> UtxoSet \<Rightarrow> u64 \<Rightarrow> bytes list \<Rightarrow> Mempool \<Rightarrow> Mempool" where
  "revalidate_loop S u current_height [] mp = mp"
| "revalidate_loop S u current_height (tx_id # ids) mp = revalidate_loop S u current_height ids
     (if should_remove S u current_height mp tx_id then snd (Mempool_remove tx_id mp) else mp)"

definition revalidate :: "((bytes \<rightharpoonup> MempoolEntry) \<Rightarrow> bytes list) \<Rightarrow> settings \<Rightarrow> UtxoSet \<Rightarrow> u64 \<Rightarrow> Mempool \<Rightarrow> Mempool" where
  "revalidate keys S utxo_set current_height mp =
     revalidate_loop S utxo_set current_height (keys (mp_entries mp)) mp"

definition is_spent :: "OutPoint \<Rightarrow> Mempool \<Rightarrow> bool" where
  "is_spent op mp \<longleftrightarrow> op \<in> mp_spent_outpoints mp"

definition address_row :: "bytes \<Rightarrow> bytes \<Rightarrow> MempoolEntry \<Rightarrow> MempoolAddressTx" where
  "address_row script tx_id entry = \<lparr>mat_tx_id = tx_id,
     mat_received = map (\<lambda>(idx, out). (of_nat idx, out_value out))
       (filter (\<lambda>(_, out). out_script out = script) (enumerate 0 (outputs (me_tx entry)))),
     mat_spent = map (\<lambda>s. (si_outpoint s, si_value s)) (filter (\<lambda>s. si_script s = script) (me_spent_inputs entry))\<rparr>"

fun address_loop :: "Mempool \<Rightarrow> bytes \<Rightarrow> nat \<Rightarrow> bytes list \<Rightarrow> MempoolAddressTx list \<Rightarrow> MempoolAddressTx list" where
  "address_loop mp script limit [] out = out"
| "address_loop mp script limit (tx_id # ids) out =
     (if length out \<ge> limit then out
      else case mp_entries mp tx_id of
        None \<Rightarrow> address_loop mp script limit ids out
      | Some entry \<Rightarrow> address_loop mp script limit ids (out @ [address_row script tx_id entry]))"

definition address_mempool_capped :: "bytes \<Rightarrow> nat \<Rightarrow> Mempool \<Rightarrow> MempoolAddressTx list" where
  "address_mempool_capped script limit mp = (case mp_by_script mp script of
     None \<Rightarrow> []
   | Some ids \<Rightarrow> address_loop mp script limit (sorted_list_of_set ids) [])"

definition address_mempool :: "bytes \<Rightarrow> Mempool \<Rightarrow> MempoolAddressTx list" where
  "address_mempool script mp = address_mempool_capped script (2 ^ 64 - 1) mp"


section \<open>The invariant\<close>

text \<open>The parts of the pool that its entries determine.\<close>

definition spends :: "MempoolEntry \<Rightarrow> OutPoint set" where
  "spends e = set (map input_outpoint (inputs (me_tx e)))"

definition touches :: "MempoolEntry \<Rightarrow> bytes set" where
  "touches e = set (output_scripts e @ spent_scripts e)"

definition ranking :: "(bytes \<rightharpoonup> MempoolEntry) \<Rightarrow> (nat \<times> bytes \<rightharpoonup> bytes)" where
  "ranking E = (\<lambda>(d, tid). case E tid of None \<Rightarrow> None | Some e \<Rightarrow> if me_fee_density e = d then Some tid else None)"

definition touching :: "(bytes \<rightharpoonup> MempoolEntry) \<Rightarrow> bytes \<Rightarrow> bytes set" where
  "touching E s = {tid. \<exists>e. E tid = Some e \<and> s \<in> touches e}"

definition script_index :: "(bytes \<rightharpoonup> MempoolEntry) \<Rightarrow> (bytes \<rightharpoonup> bytes set)" where
  "script_index E = (\<lambda>s. if touching E s = {} then None else Some (touching E s))"

definition all_spends :: "(bytes \<rightharpoonup> MempoolEntry) \<Rightarrow> OutPoint set" where
  "all_spends E = (\<Union>e\<in>ran E. spends e)"

definition all_bytes :: "(bytes \<rightharpoonup> MempoolEntry) \<Rightarrow> nat" where
  "all_bytes E = (\<Sum>tid\<in>dom E. tx_bytes (me_tx (the (E tid))))"

text \<open>The entries are filed under their own ids, encode, are no coinbases and spend no outpoint
  twice; the indexes are those of the entries; both capacities hold.\<close>

definition entry_ok :: "crypto \<Rightarrow> bytes \<Rightarrow> MempoolEntry \<Rightarrow> bool" where
  "entry_ok C tid e \<longleftrightarrow> me_tx_id e = tid \<and> compute_tx_id C (me_tx e) = Ok tid \<and> \<not> is_coinbase (me_tx e)
     \<and> (\<exists>b. Transaction_serialize (me_tx e) = Ok b)"

definition entries_ok :: "crypto \<Rightarrow> (bytes \<rightharpoonup> MempoolEntry) \<Rightarrow> bool" where
  "entries_ok C E \<longleftrightarrow> finite (dom E) \<and> (\<forall>tid e. E tid = Some e \<longrightarrow> entry_ok C tid e)
     \<and> (\<forall>i j e f. E i = Some e \<longrightarrow> E j = Some f \<longrightarrow> i \<noteq> j \<longrightarrow> spends e \<inter> spends f = {})"

definition indexed :: "Mempool \<Rightarrow> bool" where
  "indexed mp \<longleftrightarrow> mp_by_fee_density mp = ranking (mp_entries mp)
     \<and> mp_spent_outpoints mp = all_spends (mp_entries mp)
     \<and> mp_by_script mp = script_index (mp_entries mp)
     \<and> mp_total_bytes mp = all_bytes (mp_entries mp)"

definition within_limits :: "Mempool \<Rightarrow> bool" where
  "within_limits mp \<longleftrightarrow> Mempool_len mp \<le> MEMPOOL_CAPACITY \<and> mp_total_bytes mp \<le> MAX_MEMPOOL_BYTES"

definition pool_inv :: "crypto \<Rightarrow> Mempool \<Rightarrow> bool" where
  "pool_inv C mp \<longleftrightarrow> entries_ok C (mp_entries mp) \<and> indexed mp"


section \<open>The indexes follow the entries\<close>

lemma emit_fields [simp]:
  "mp_entries (emit_script_changed s mp) = mp_entries mp"
  "mp_by_fee_density (emit_script_changed s mp) = mp_by_fee_density mp"
  "mp_spent_outpoints (emit_script_changed s mp) = mp_spent_outpoints mp"
  "mp_by_script (emit_script_changed s mp) = mp_by_script mp"
  "mp_total_bytes (emit_script_changed s mp) = mp_total_bytes mp"
  by (simp_all add: emit_script_changed_def split: option.splits)

lemma fold_emit_fields [simp]:
  "mp_entries (fold emit_script_changed ss mp) = mp_entries mp"
  "mp_by_fee_density (fold emit_script_changed ss mp) = mp_by_fee_density mp"
  "mp_spent_outpoints (fold emit_script_changed ss mp) = mp_spent_outpoints mp"
  "mp_by_script (fold emit_script_changed ss mp) = mp_by_script mp"
  "mp_total_bytes (fold emit_script_changed ss mp) = mp_total_bytes mp"
  by (induction ss arbitrary: mp) simp_all

lemma index_scripts_fields [simp]:
  "mp_entries (index_scripts tid ss mp) = mp_entries mp"
  "mp_by_fee_density (index_scripts tid ss mp) = mp_by_fee_density mp"
  "mp_spent_outpoints (index_scripts tid ss mp) = mp_spent_outpoints mp"
  "mp_total_bytes (index_scripts tid ss mp) = mp_total_bytes mp"
  "mp_by_script (index_scripts tid ss mp) = fold (index_add tid) ss (mp_by_script mp)"
  by (induction tid ss mp rule: index_scripts.induct) simp_all

lemma fold_index_add:
  "fold (index_add tid) ss ix = (\<lambda>s. if s \<in> set ss then Some (insert tid (case ix s of None \<Rightarrow> {} | Some I \<Rightarrow> I)) else ix s)"
  by (induction ss arbitrary: ix) (auto simp: index_add_def fun_eq_iff split: option.splits)

lemma index_del_at:
  "index_del tid a ix s = (if s = a then (case ix s of None \<Rightarrow> None
     | Some I \<Rightarrow> if I - {tid} = {} then None else Some (I - {tid})) else ix s)"
  by (simp add: index_del_def Let_def split: option.splits)

lemma fold_index_del:
  "fold (index_del tid) ss ix = (\<lambda>s. if s \<in> set ss then (case ix s of None \<Rightarrow> None
     | Some I \<Rightarrow> if I - {tid} = {} then None else Some (I - {tid})) else ix s)"
proof (induction ss arbitrary: ix)
  case (Cons a ss)
  show ?case unfolding fold_simps Cons.IH
    by (rule ext) (auto simp: index_del_at split: option.splits)
qed simp

lemma touching_upd: "touching (E(tid \<mapsto> e)) s = (touching E s - {tid}) \<union> (if s \<in> touches e then {tid} else {})"
  by (auto simp: touching_def)

lemma touching_del: "touching (E(tid := None)) s = touching E s - {tid}"
  by (auto simp: touching_def)

lemma script_index_insert:
  assumes "E tid = None"
  shows "fold (index_add tid) (output_scripts e @ spent_scripts e) (script_index E) = script_index (E(tid \<mapsto> e))"
proof -
  have "tid \<notin> touching E s" for s using assms by (simp add: touching_def)
  then show ?thesis
    by (auto simp del: fold_append set_append simp: fold_index_add fun_eq_iff script_index_def touching_upd simp flip: touches_def)
qed

lemma script_index_remove:
  assumes "E tid = Some e"
  shows "fold (index_del tid) (output_scripts e @ spent_scripts e) (script_index E) = script_index (E(tid := None))"
proof -
  have "s \<notin> touches e \<Longrightarrow> tid \<notin> touching E s" for s using assms by (simp add: touching_def)
  then show ?thesis
    by (auto simp del: fold_append set_append simp: fold_index_del fun_eq_iff script_index_def touching_del simp flip: touches_def)
qed

lemma ranking_insert:
  "E tid = None \<Longrightarrow> ranking (E(tid \<mapsto> e)) = (ranking E)((me_fee_density e, tid) \<mapsto> tid)"
  by (auto simp: ranking_def fun_eq_iff split: option.splits)

lemma ranking_remove:
  "E tid = Some e \<Longrightarrow> ranking (E(tid := None)) = (ranking E)((me_fee_density e, tid) := None)"
  by (auto simp: ranking_def fun_eq_iff split: option.splits)

lemma dom_ranking: "dom (ranking E) = {(me_fee_density e, tid) |tid e. E tid = Some e}"
  by (auto simp: ranking_def dom_def split: option.splits if_splits)

lemma finite_ranking: "finite (dom E) \<Longrightarrow> finite (dom (ranking E))"
proof -
  have "dom (ranking E) = (\<lambda>tid. (me_fee_density (the (E tid)), tid)) ` dom E"
    by (auto simp: dom_ranking image_iff)
  then show "finite (dom E) \<Longrightarrow> ?thesis" by simp
qed

lemma all_spends_insert: "E tid = None \<Longrightarrow> all_spends (E(tid \<mapsto> e)) = all_spends E \<union> spends e"
  by (auto simp: all_spends_def)

lemma all_spends_remove:
  assumes "entries_ok C E" "E tid = Some e"
  shows "all_spends (E(tid := None)) = all_spends E - spends e"
proof -
  have "ran E = insert e (ran (E(tid := None)))"
    using assms(2) by (simp add: set_eq_iff ran_def) (metis option.inject)
  moreover have "spends f \<inter> spends e = {}" if "f \<in> ran (E(tid := None))" for f
    using that assms unfolding entries_ok_def ran_def by (fastforce split: if_splits)
  ultimately show ?thesis by (auto simp: all_spends_def)
qed

lemma all_bytes_insert:
  "finite (dom E) \<Longrightarrow> E tid = None \<Longrightarrow> all_bytes (E(tid \<mapsto> e)) = all_bytes E + tx_bytes (me_tx e)"
proof -
  assume "finite (dom E)" "E tid = None"
  moreover have "(\<Sum>i\<in>dom E. tx_bytes (me_tx (the ((E(tid \<mapsto> e)) i)))) = all_bytes E"
    unfolding all_bytes_def using \<open>E tid = None\<close> by (intro sum.cong) auto
  ultimately show ?thesis by (simp add: all_bytes_def domIff)
qed

lemma all_bytes_remove:
  assumes "finite (dom E)" "E tid = Some e"
  shows "all_bytes E = all_bytes (E(tid := None)) + tx_bytes (me_tx e)"
  using all_bytes_insert[of "E(tid := None)" tid e] assms by (simp add: fun_upd_idem)

lemma entries_ok_remove: "entries_ok C E \<Longrightarrow> entries_ok C (E(tid := None))"
  by (auto simp: entries_ok_def)

lemma entries_ok_insert:
  assumes "entries_ok C E" "E tid = None" "entry_ok C tid e" "spends e \<inter> all_spends E = {}"
  shows "entries_ok C (E(tid \<mapsto> e))"
  using assms by (auto simp: entries_ok_def all_spends_def ran_def)

lemmas pool_defs = pool_inv_def indexed_def

lemma insert_entry_inv:
  assumes "pool_inv C mp" "mp_entries mp tid = None" "entry_ok C tid e" "spends e \<inter> mp_spent_outpoints mp = {}"
  shows "pool_inv C (insert_entry e mp)" "mp_entries (insert_entry e mp) = (mp_entries mp)(tid \<mapsto> e)"
    "mp_total_bytes (insert_entry e mp) = mp_total_bytes mp + tx_bytes (me_tx e)"
proof -
  have tid: "me_tx_id e = tid" using assms(3) by (simp add: entry_ok_def)
  show E: "mp_entries (insert_entry e mp) = (mp_entries mp)(tid \<mapsto> e)"
    by (simp add: insert_entry_def index_entry_def Let_def tid)
  show "mp_total_bytes (insert_entry e mp) = mp_total_bytes mp + tx_bytes (me_tx e)"
    by (simp add: insert_entry_def index_entry_def Let_def tid)
  have "finite (dom (mp_entries mp))" using assms(1) by (simp add: pool_defs entries_ok_def)
  moreover have "entries_ok C ((mp_entries mp)(tid \<mapsto> e))"
    using assms by (intro entries_ok_insert) (simp_all add: pool_defs)
  ultimately show "pool_inv C (insert_entry e mp)"
    using assms(1,2) script_index_insert[where E = "mp_entries mp", OF assms(2), of e]
    by (simp add: pool_defs E ranking_insert all_spends_insert all_bytes_insert)
       (simp add: insert_entry_def index_entry_def Let_def tid spends_def)
qed

lemma forget_inv:
  assumes "pool_inv C mp" "mp_entries mp tid = Some e"
    and "mp' = mp\<lparr>mp_entries := (mp_entries mp)(tid := None),
                   mp_by_fee_density := (mp_by_fee_density mp)((me_fee_density e, tid) := None)\<rparr>"
  shows "pool_inv C (forget_entry e mp')" "mp_entries (forget_entry e mp') = (mp_entries mp)(tid := None)"
    "mp_total_bytes (forget_entry e mp') = mp_total_bytes mp - tx_bytes (me_tx e)"
proof -
  have ok: "entries_ok C (mp_entries mp)" and ix: "indexed mp" using assms(1) by (auto simp: pool_defs)
  have tid: "me_tx_id e = tid" using ok assms(2) by (auto simp: entries_ok_def entry_ok_def)
  show E: "mp_entries (forget_entry e mp') = (mp_entries mp)(tid := None)"
    by (simp add: forget_entry_def deindex_entry_def Let_def assms(3))
  show "mp_total_bytes (forget_entry e mp') = mp_total_bytes mp - tx_bytes (me_tx e)"
    by (simp add: forget_entry_def deindex_entry_def Let_def assms(3))
  have "finite (dom (mp_entries mp))" using ok by (simp add: entries_ok_def)
  then have "all_bytes (mp_entries mp) = all_bytes ((mp_entries mp)(tid := None)) + tx_bytes (me_tx e)"
    using all_bytes_remove[where E = "mp_entries mp" and tid = tid] assms(2) by blast
  then show "pool_inv C (forget_entry e mp')"
    using entries_ok_remove[OF ok, of tid] ix script_index_remove[where E = "mp_entries mp", OF assms(2)]
      all_spends_remove[where E = "mp_entries mp", OF ok assms(2)] ranking_remove[where E = "mp_entries mp", OF assms(2)]
    unfolding pool_inv_def indexed_def E
    by (simp add: forget_entry_def deindex_entry_def Let_def assms(3) tid spends_def)
qed


section \<open>Removal and eviction\<close>

lemma remove_spec:
  assumes "pool_inv C mp"
  shows "pool_inv C (snd (Mempool_remove tid mp))"
    "mp_entries (snd (Mempool_remove tid mp)) = (mp_entries mp)(tid := None)"
    "mp_total_bytes (snd (Mempool_remove tid mp)) \<le> mp_total_bytes mp"
proof -
  have "pool_inv C (snd (Mempool_remove tid mp)) \<and>
    mp_entries (snd (Mempool_remove tid mp)) = (mp_entries mp)(tid := None) \<and>
    mp_total_bytes (snd (Mempool_remove tid mp)) \<le> mp_total_bytes mp"
  proof (cases "mp_entries mp tid")
    case None
    then show ?thesis using assms by (simp add: Mempool_remove_def fun_upd_idem)
  next
    case (Some e)
    then have "me_tx_id e = tid" using assms by (auto simp: pool_defs entries_ok_def entry_ok_def)
    then show ?thesis
      using Some forget_inv[OF assms Some refl] by (simp add: Mempool_remove_def)
  qed
  then show "pool_inv C (snd (Mempool_remove tid mp))"
    "mp_entries (snd (Mempool_remove tid mp)) = (mp_entries mp)(tid := None)"
    "mp_total_bytes (snd (Mempool_remove tid mp)) \<le> mp_total_bytes mp" by auto
qed

text \<open>The rank of an entry, by which eviction and selection order the pool.\<close>

definition rank :: "Mempool \<Rightarrow> bytes \<Rightarrow> nat \<times> bytes" where
  "rank mp tid = (me_fee_density (the (mp_entries mp tid)), tid)"

lemma first_key_None: "finite (dom m) \<Longrightarrow> first_key_value m = None \<longleftrightarrow> m = Map.empty"
  by (auto simp: first_key_value_def split: list.splits)

lemma first_key_Some:
  assumes "finite (dom m)" "first_key_value m = Some (k, v)"
  shows "m k = Some v" "\<forall>j\<in>dom m. k \<le> j"
proof -
  obtain ks where ks: "sorted_list_of_set (dom m) = k # ks" "v = the (m k)"
    using assms(2) by (auto simp: first_key_value_def split: list.splits)
  have d: "dom m = set (k # ks)"
    using assms(1) by (metis ks(1) set_sorted_list_of_set)
  have "sorted (k # ks)"
    by (metis ks(1) sorted_sorted_list_of_set)
  then show "\<forall>j\<in>dom m. k \<le> j" unfolding d by simp
  have "k \<in> dom m" unfolding d by simp
  then show "m k = Some v" using ks(2) by fastforce
qed

lemma ranking_empty: "ranking E = Map.empty \<longleftrightarrow> E = Map.empty"
proof
  assume "ranking E = Map.empty"
  then have "dom (ranking E) = {}" by simp
  then have "E tid \<noteq> Some e" for tid e unfolding dom_ranking by blast
  then show "E = Map.empty" by (metis ext not_None_eq)
qed (simp add: ranking_def fun_eq_iff)

lemma worst_entry:
  assumes "pool_inv C mp" "first_key_value (mp_by_fee_density mp) = Some (k, tid)"
  shows "tid \<in> dom (mp_entries mp)" "k = rank mp tid" "\<forall>j\<in>dom (mp_entries mp). rank mp tid \<le> rank mp j"
proof -
  have r: "mp_by_fee_density mp = ranking (mp_entries mp)" "finite (dom (mp_by_fee_density mp))"
    using assms(1) finite_ranking by (auto simp: pool_defs entries_ok_def)
  note f = first_key_Some[OF r(2) assms(2)]
  show t: "tid \<in> dom (mp_entries mp)" and k: "k = rank mp tid"
    using f(1) by (auto simp: r(1) ranking_def rank_def split: prod.splits option.splits if_splits)
  have "rank mp j \<in> dom (mp_by_fee_density mp)" if "j \<in> dom (mp_entries mp)" for j
    using that unfolding r(1) dom_ranking rank_def by auto
  then show "\<forall>j\<in>dom (mp_entries mp). rank mp tid \<le> rank mp j" using f(2) k by blast
qed

lemma update_swap: "mp\<lparr>mp_by_fee_density := a, mp_entries := b\<rparr> = mp\<lparr>mp_entries := b, mp_by_fee_density := a\<rparr>"
  by (cases mp) simp

lemma evict_lowest_spec:
  assumes "pool_inv C mp" "\<not> Mempool_is_empty mp"
  obtains tid where "tid \<in> dom (mp_entries mp)" "\<forall>j\<in>dom (mp_entries mp). rank mp tid \<le> rank mp j"
    "pool_inv C (evict_lowest mp)" "mp_entries (evict_lowest mp) = (mp_entries mp)(tid := None)"
    "mp_total_bytes (evict_lowest mp) \<le> mp_total_bytes mp"
proof -
  have r: "mp_by_fee_density mp = ranking (mp_entries mp)" "finite (dom (mp_by_fee_density mp))"
    using assms(1) finite_ranking by (auto simp: pool_defs entries_ok_def)
  obtain k tid where f: "first_key_value (mp_by_fee_density mp) = Some (k, tid)"
    using assms(2) first_key_None[OF r(2)] by (auto simp: r(1) ranking_empty Mempool_is_empty_def)
  note w = worst_entry[OF assms(1) f]
  then obtain e where e: "mp_entries mp tid = Some e" by auto
  let ?mp = "mp\<lparr>mp_entries := (mp_entries mp)(tid := None),
    mp_by_fee_density := (mp_by_fee_density mp)((me_fee_density e, tid) := None)\<rparr>"
  have "evict_lowest mp = forget_entry e ?mp"
    using w(2) e by (simp add: evict_lowest_def f rank_def update_swap)
  then show thesis using that[OF w(1,3)] forget_inv[OF assms(1) e refl] by simp
qed

text \<open>The eviction loop returns: what it evicts ranks below everything it keeps, and it stops as
  soon as the transaction fits or nothing is left.\<close>

definition evicts :: "nat \<Rightarrow> Mempool \<Rightarrow> Mempool \<Rightarrow> bytes set \<Rightarrow> bool" where
  "evicts n mp mp' V \<longleftrightarrow> V \<subseteq> dom (mp_entries mp) \<and> mp_entries mp' = mp_entries mp |` (- V)
     \<and> (\<forall>a\<in>V. \<forall>b\<in>dom (mp_entries mp) - V. rank mp a < rank mp b)
     \<and> (\<not> over_capacity n mp' \<or> mp_entries mp' = Map.empty)"

lemma rank_inj: "rank mp a = rank mp b \<longleftrightarrow> a = b"
  by (auto simp: rank_def)

lemma evicts_none: "\<not> over_capacity n mp \<or> mp_entries mp = Map.empty \<Longrightarrow> evicts n mp mp {}"
  by (simp add: evicts_def restrict_map_def)

lemma evict_loop_returns:
  assumes "pool_inv C mp"
  shows "\<exists>mp' V. evict_loop n mp = Some mp' \<and> pool_inv C mp' \<and> evicts n mp mp' V"
  using assms
proof (induction "card (dom (mp_entries mp))" arbitrary: mp rule: less_induct)
  case less
  consider "\<not> over_capacity n mp" | "Mempool_is_empty mp" | "over_capacity n mp" "\<not> Mempool_is_empty mp" by blast
  then show ?case
  proof cases
    case 3
    obtain tid where t: "tid \<in> dom (mp_entries mp)" "\<forall>j\<in>dom (mp_entries mp). rank mp tid \<le> rank mp j"
      and ev: "pool_inv C (evict_lowest mp)" "mp_entries (evict_lowest mp) = (mp_entries mp)(tid := None)"
      by (rule evict_lowest_spec[OF less.prems 3(2)])
    have fin: "finite (dom (mp_entries mp))" using less.prems by (simp add: pool_defs entries_ok_def)
    have "card (dom (mp_entries (evict_lowest mp))) < card (dom (mp_entries mp))"
      unfolding ev(2) using card_Diff1_less[OF fin t(1)] by (simp only: dom_fun_upd simp_thms if_True)
    from less.hyps[OF this ev(1)] obtain mp' V where
      m: "evict_loop n (evict_lowest mp) = Some mp'" "pool_inv C mp'" "evicts n (evict_lowest mp) mp' V" by blast
    have rk: "j \<noteq> tid \<Longrightarrow> rank (evict_lowest mp) j = rank mp j" for j by (simp add: rank_def ev(2))
    have V: "V \<subseteq> dom (mp_entries mp) - {tid}" using m(3) by (auto simp: evicts_def ev(2) split: if_splits)
    have "evicts n mp mp' (insert tid V)"
      unfolding evicts_def
    proof (intro conjI ballI)
      show "insert tid V \<subseteq> dom (mp_entries mp)" using V t(1) by blast
      show "mp_entries mp' = mp_entries mp |` (- insert tid V)"
        using m(3) by (auto simp: evicts_def ev(2) restrict_map_def fun_eq_iff)
      show "\<not> over_capacity n mp' \<or> mp_entries mp' = Map.empty" using m(3) unfolding evicts_def by blast
      fix a b assume ab: "a \<in> insert tid V" "b \<in> dom (mp_entries mp) - insert tid V"
      show "rank mp a < rank mp b"
      proof (cases "a = tid")
        case True
        then show ?thesis using ab t(2) rank_inj[of mp tid b] by (metis Diff_iff insertCI order_le_imp_less_or_eq)
      next
        case False
        then have "a \<in> V" "b \<in> dom (mp_entries (evict_lowest mp)) - V" using ab by (auto simp: ev(2))
        then have "rank (evict_lowest mp) a < rank (evict_lowest mp) b" using m(3) by (simp add: evicts_def)
        then show ?thesis using rk False ab(2) by auto
      qed
    qed
    then show ?thesis using m(1,2) 3 by (subst evict_loop.simps) auto
  next
    case 1
    then have "evicts n mp mp {}" "evict_loop n mp = Some mp"
      by (simp_all add: evicts_none evict_loop.simps)
    then show ?thesis using less.prems by blast
  next
    case 2
    then have "evicts n mp mp {}" "evict_loop n mp = Some mp"
      by (simp_all add: evicts_none evict_loop.simps Mempool_is_empty_def)
    then show ?thesis using less.prems by blast
  qed
qed


section \<open>Admission\<close>

definition pool_ok :: "crypto \<Rightarrow> Mempool \<Rightarrow> bool" where
  "pool_ok C mp \<longleftrightarrow> pool_inv C mp \<and> within_limits mp"

lemma make_room_returns:
  assumes "pool_inv C mp"
  obtains (low) "make_room d n mp = Some (Err FeeTooLow, mp)" "over_capacity n mp"
      "\<forall>i\<in>dom (mp_entries mp). d \<le> fst (rank mp i)"
  | (room) mp' V where "make_room d n mp = Some (Ok (), mp')" "pool_inv C mp'" "evicts n mp mp' V"
      "V \<noteq> {} \<longrightarrow> over_capacity n mp \<and> (\<exists>w\<in>V. fst (rank mp w) < d)"
proof (cases "over_capacity n mp \<and> mp_entries mp \<noteq> Map.empty")
  case False
  have "make_room d n mp = Some (Ok (), mp)"
    using False assms finite_ranking[of "mp_entries mp"] first_key_None[of "mp_by_fee_density mp"]
    by (auto simp: make_room_def pool_defs entries_ok_def ranking_empty)
  moreover have "evicts n mp mp {}" using False by (intro evicts_none) blast
  ultimately show thesis using room assms by blast
next
  case True
  have r: "mp_by_fee_density mp = ranking (mp_entries mp)" "finite (dom (mp_by_fee_density mp))"
    using assms(1) finite_ranking by (auto simp: pool_defs entries_ok_def)
  obtain k w where f: "first_key_value (mp_by_fee_density mp) = Some (k, w)"
    using True first_key_None[OF r(2)] by (auto simp: r(1) ranking_empty)
  note w = worst_entry[OF assms f]
  show thesis
  proof (cases "d \<le> fst (rank mp w)")
    case d: True
    have "\<forall>i\<in>dom (mp_entries mp). d \<le> fst (rank mp i)"
      using w(3) d by (auto simp: rank_def less_eq_prod_def dest!: bspec split: if_splits)
    then show thesis using low True d f w(2) by (simp add: make_room_def rank_def)
  next
    case False
    obtain mp' V where m: "evict_loop n mp = Some mp'" "pool_inv C mp'" "evicts n mp mp' V"
      using evict_loop_returns[OF assms] by blast
    have "w \<in> V" if "V \<noteq> {}"
    proof (rule ccontr)
      obtain a where a: "a \<in> V" "a \<in> dom (mp_entries mp)" using \<open>V \<noteq> {}\<close> m(3) unfolding evicts_def by blast
      assume "w \<notin> V"
      then have "rank mp a < rank mp w" using m(3) a(1) w(1) unfolding evicts_def by blast
      then show False using w(3) a(2) by (meson leD)
    qed
    then have "V \<noteq> {} \<longrightarrow> over_capacity n mp \<and> (\<exists>w\<in>V. fst (rank mp w) < d)"
      using True False by (meson not_le)
    moreover have "make_room d n mp = Some (Ok (), mp')"
      using True False f w(2) m(1) by (simp add: make_room_def rank_def)
    ultimately show thesis using room m(2,3) by blast
  qed
qed

lemma check_spends_Ok: "check_spends X is = Ok () \<longleftrightarrow> set (map input_outpoint is) \<inter> X = {}"
  by (induction X "is" rule: check_spends.induct) auto

lemma local_checks_Ok:
  "local_checks C tx mp = Ok tid \<longleftrightarrow> compute_tx_id C tx = Ok tid \<and> mp_entries mp tid = None \<and> \<not> is_coinbase tx
     \<and> set (map input_outpoint (inputs tx)) \<inter> mp_spent_outpoints mp = {}"
  by (simp add: local_checks_def result_simps check_spends_Ok)

lemma tx_bytes_eq: "Transaction_serialize tx = Ok b \<Longrightarrow> tx_bytes tx = length b"
  by (simp add: tx_bytes_def serialized_size_def)

lemma all_bytes_empty [simp]: "all_bytes Map.empty = 0"
  by (simp add: all_bytes_def)

lemma all_spends_restrict: "all_spends (E |` A) \<subseteq> all_spends E"
  by (auto simp: all_spends_def ran_def restrict_map_def split: if_splits)

text \<open>What admission does once its checks have passed.\<close>

definition admitted :: "Transaction \<Rightarrow> MempoolEntry \<Rightarrow> Mempool \<Rightarrow> Mempool \<Rightarrow> bytes set \<Rightarrow> bool" where
  "admitted tx e mp mp' V \<longleftrightarrow> V \<subseteq> dom (mp_entries mp)
     \<and> mp_entries mp' = (mp_entries mp |` (- V))(me_tx_id e \<mapsto> e)
     \<and> (\<forall>a\<in>V. \<forall>b\<in>dom (mp_entries mp) - V. rank mp a < rank mp b)
     \<and> (V \<noteq> {} \<longrightarrow> over_capacity (tx_bytes tx) mp \<and> (\<exists>w\<in>V. fst (rank mp w) < me_fee_density e))"

lemma admit_returns:
  assumes "pool_ok C mp" "local_checks C tx mp = Ok tid" "Transaction_serialize tx = Ok b" "tx_bytes tx \<le> MAX_TX_SIZE"
  obtains (low) "admit tx tid fee cost u mp = Some (Err FeeTooLow, mp)"
  | (added) mp' V where "admit tx tid fee cost u mp = Some (Ok tid, mp')" "pool_ok C mp'"
      "admitted tx (new_entry tx tid fee cost u) mp mp' V"
proof -
  let ?e = "new_entry tx tid fee cost u"
  have inv: "pool_inv C mp" and lim: "within_limits mp" using assms(1) by (auto simp: pool_ok_def)
  note lc = assms(2)[unfolded local_checks_Ok]
  have tid: "me_tx_id ?e = tid" "me_tx ?e = tx" by (simp_all add: new_entry_def)
  have eok: "entry_ok C tid ?e" using lc assms(3) by (simp add: entry_ok_def tid)
  from inv show thesis
  proof (cases rule: make_room_returns[of C mp "me_fee_density ?e" "tx_bytes tx"])
    case low
    then show thesis using \<open>admit tx tid fee cost u mp = Some (Err FeeTooLow, mp) \<Longrightarrow> thesis\<close>
      by (simp add: admit_def)
  next
    case (room mp1 V)
    have E: "mp_entries mp1 = mp_entries mp |` (- V)" using room(3) by (simp add: evicts_def)
    have "mp_spent_outpoints mp1 \<subseteq> mp_spent_outpoints mp"
      using inv room(2) all_spends_restrict[of "mp_entries mp" "- V"] by (simp add: pool_defs E)
    then have dis: "spends ?e \<inter> mp_spent_outpoints mp1 = {}" using lc by (auto simp: spends_def tid)
    have none: "mp_entries mp1 tid = None" using lc by (simp add: E restrict_map_def)
    note ins = insert_entry_inv[OF room(2) none eok dis]
    have "within_limits (insert_entry ?e mp1)"
    proof -
      have fin: "finite (dom (mp_entries mp1))" using room(2) by (simp add: pool_defs entries_ok_def)
      have "\<not> over_capacity (tx_bytes tx) mp1 \<or> mp_entries mp1 = Map.empty \<and> mp_total_bytes mp1 = 0"
        using room(2,3) unfolding evicts_def pool_defs by (metis all_bytes_empty)
      moreover have "tx_bytes tx \<le> MAX_MEMPOOL_BYTES" "Suc 0 \<le> MEMPOOL_CAPACITY" using assms(4) by (auto simp: constants)
      moreover have "card (dom (mp_entries (insert_entry ?e mp1))) = Suc (card (dom (mp_entries mp1)))"
        unfolding ins(2) using none fin by (simp add: domIff)
      ultimately show ?thesis
        unfolding within_limits_def over_capacity_def Mempool_len_def ins(3) tid(2) by auto
    qed
    then have "pool_ok C (insert_entry ?e mp1)" using ins(1) by (simp add: pool_ok_def)
    moreover have "admit tx tid fee cost u mp = Some (Ok tid, insert_entry ?e mp1)"
      using room(1) by (simp add: admit_def Let_def)
    moreover have "admitted tx ?e mp (insert_entry ?e mp1) V"
      using room(3,4) by (simp add: admitted_def evicts_def ins(2) E tid)
    ultimately show thesis using added by blast
  qed
qed

lemma tx_cost_encodes: "tx_cost_with_script_cost tx sc vc = Some c \<Longrightarrow> \<exists>b. Transaction_serialize tx = Ok b"
  by (auto simp: tx_cost_with_script_cost_def Let_def ok_Some_iff bind_eq_Some_conv)

lemma add_validated_returns:
  assumes "pool_ok C mp" "tx_bytes tx \<le> MAX_TX_SIZE"
  obtains (refused) e where "add_validated C tx fee sc vc h u mp = Some (Err e, mp)"
  | (added) tid cost mp' V where "add_validated C tx fee sc vc h u mp = Some (Ok tid, mp')" "pool_ok C mp'"
      "compute_tx_id C tx = Ok tid" "tx_cost_with_script_cost tx sc vc = Some cost"
      "local_checks C tx mp = Ok tid" "admitted tx (new_entry tx tid fee cost u) mp mp' V"
proof (cases "local_checks C tx mp")
  case (Inl e)
  then show thesis using refused by (simp add: add_validated_def)
next
  case lc: (Inr tid)
  show thesis
  proof (cases "tx_cost_with_script_cost tx sc vc")
    case None
    then show thesis using lc refused by (simp add: add_validated_def)
  next
    case (Some cost)
    then obtain b where b: "Transaction_serialize tx = Ok b" using tx_cost_encodes by blast
    have eq: "add_validated C tx fee sc vc h u mp = admit tx tid fee cost u mp"
      by (simp add: add_validated_def lc Some)
    from assms(1) lc b assms(2) show thesis
    proof (cases rule: admit_returns[of C mp tx tid b fee cost u])
      case (added mp' V)
      then show thesis using that(2)[of tid mp' cost V] eq lc Some by (auto simp: local_checks_Ok)
    qed (use refused eq in auto)
  qed
qed


section \<open>The pool through its life\<close>

lemma removed_ok:
  assumes "pool_ok C mp" shows "pool_ok C (snd (Mempool_remove tid mp))"
proof -
  have inv: "pool_inv C mp" using assms by (simp add: pool_ok_def)
  have fin: "finite (dom (mp_entries mp))" using inv by (simp add: pool_defs entries_ok_def)
  have "card (dom ((mp_entries mp)(tid := None))) \<le> card (dom (mp_entries mp))"
    by (rule card_mono[OF fin]) auto
  then show ?thesis
    using assms remove_spec[OF inv, of tid] by (simp add: pool_ok_def within_limits_def Mempool_len_def)
qed

lemma remove_ids_spec:
  "pool_ok C mp \<Longrightarrow> pool_ok C (remove_ids ids mp) \<and> mp_entries (remove_ids ids mp) = mp_entries mp |` (- set ids)"
proof (induction ids mp rule: remove_ids.induct)
  case (2 tid ids mp)
  then have "pool_inv C mp" by (simp add: pool_ok_def)
  from remove_spec(2)[OF this, of tid] 2 removed_ok[OF 2(2), of tid]
  show ?case by (auto simp: restrict_map_def fun_eq_iff)
qed (simp add: restrict_map_def)

lemma remove_exact_spec:
  "pool_ok C mp \<Longrightarrow> pool_ok C (remove_exact C txs mp)
     \<and> mp_entries (remove_exact C txs mp) = mp_entries mp |` (- {tid. Ok tid \<in> compute_tx_id C ` set txs})"
proof (induction C txs mp rule: remove_exact.induct)
  case (2 C tx txs mp)
  then have inv: "pool_inv C mp" by (simp add: pool_ok_def)
  show ?case
  proof (cases "compute_tx_id C tx")
    case (Inl e)
    then show ?thesis using 2 by (auto simp: restrict_map_def fun_eq_iff)
  next
    case (Inr tid)
    then show ?thesis
      using 2(1)[of] removed_ok[OF 2(2), of tid] remove_spec(2)[OF inv, of tid]
      by (auto simp: restrict_map_def fun_eq_iff)
  qed
qed (simp add: restrict_map_def)

text \<open>What an iteration over a hash map visits: every key.\<close>

definition iterates :: "((bytes \<rightharpoonup> MempoolEntry) \<Rightarrow> bytes list) \<Rightarrow> bool" where
  "iterates keys \<longleftrightarrow> (\<forall>m. finite (dom m) \<longrightarrow> set (keys m) = dom m)"

lemma remove_confirmed_ok: "pool_ok C mp \<Longrightarrow> pool_ok C (remove_confirmed keys C txs mp)"
  using remove_exact_spec[of C mp txs] remove_ids_spec by (simp add: remove_confirmed_def Let_def)

definition unconfirmed :: "crypto \<Rightarrow> Transaction list \<Rightarrow> bytes \<Rightarrow> MempoolEntry \<Rightarrow> bool" where
  "unconfirmed C txs tid e \<longleftrightarrow> Ok tid \<notin> compute_tx_id C ` set txs \<and> spends e \<inter> confirmed_outpoints txs = {}"

definition keep :: "(bytes \<Rightarrow> MempoolEntry \<Rightarrow> bool) \<Rightarrow> (bytes \<rightharpoonup> MempoolEntry) \<Rightarrow> (bytes \<rightharpoonup> MempoolEntry)" where
  "keep P E = (\<lambda>tid. case E tid of None \<Rightarrow> None | Some e \<Rightarrow> if P tid e then Some e else None)"

lemma remove_confirmed_entries:
  assumes "pool_ok C mp" "iterates keys"
  shows "mp_entries (remove_confirmed keys C txs mp) = keep (unconfirmed C txs) (mp_entries mp)"
proof -
  let ?m = "remove_exact C txs mp"
  note x = remove_exact_spec[OF assms(1), of txs]
  have "finite (dom (mp_entries ?m))" using x by (auto simp: pool_ok_def pool_defs entries_ok_def)
  then have k: "set (keys (mp_entries ?m)) = dom (mp_entries ?m)" using assms(2) by (simp add: iterates_def)
  show ?thesis
    using x remove_ids_spec[of C ?m] k
    by (auto simp: remove_confirmed_def Let_def keep_def unconfirmed_def fun_eq_iff restrict_map_def spends_def list_ex_iff
        split: option.splits if_splits)
qed

text \<open>Revalidation: the cheap pre-check rejects nothing that validation would accept.\<close>

lemma valid_inputs:
  assumes "validate_transaction S tx u h = Ok r"
  shows "\<not> list_ex (input_invalid S u h) (inputs tx)"
proof -
  obtain fee sc vc where "r = (fee, sc, vc)" by (cases r)
  then obtain es where "map (\<lambda>i. utxos u (input_outpoint i)) (inputs tx) = map Some es" "\<forall>e\<in>set es. mature (coinbase_maturity S) h e"
    using validate_transaction_sound assms unfolding valid_spend_def by blast
  then have "\<exists>e. utxos u (input_outpoint i) = Some e \<and> mature (coinbase_maturity S) h e" if "i \<in> set (inputs tx)" for i
    using that by (metis (mono_tags, lifting) imageE image_eqI list.set_map)
  then show ?thesis
    by (fastforce simp: list_ex_iff input_invalid_def UtxoSet_get_def mature_def)
qed

lemma should_remove_iff:
  "should_remove S u h mp tid \<longleftrightarrow> (\<exists>e. mp_entries mp tid = Some e \<and> (\<forall>r. validate_transaction S (me_tx e) u h \<noteq> Ok r))"
  using valid_inputs[of S _ u h]
  by (auto simp: should_remove_def split: option.splits sum.splits)

definition revalidates :: "settings \<Rightarrow> UtxoSet \<Rightarrow> u64 \<Rightarrow> MempoolEntry \<Rightarrow> bool" where
  "revalidates S u h e \<longleftrightarrow> (\<exists>r. validate_transaction S (me_tx e) u h = Ok r)"

lemma revalidate_loop_spec:
  "pool_ok C mp \<Longrightarrow> pool_ok C (revalidate_loop S u h ids mp) \<and> mp_entries (revalidate_loop S u h ids mp)
     = keep (\<lambda>tid e. tid \<in> set ids \<longrightarrow> revalidates S u h e) (mp_entries mp)"
proof (induction S u h ids mp rule: revalidate_loop.induct)
  case (2 S u h tid ids mp)
  have inv: "pool_inv C mp" using 2(2) by (simp add: pool_ok_def)
  define mp' where "mp' = (if should_remove S u h mp tid then snd (Mempool_remove tid mp) else mp)"
  have "pool_ok C mp'" "mp_entries mp' = keep (\<lambda>i e. i = tid \<longrightarrow> revalidates S u h e) (mp_entries mp)"
    using 2(2) removed_ok[OF 2(2), of tid] remove_spec(2)[OF inv, of tid]
    by (auto simp: mp'_def should_remove_iff keep_def revalidates_def fun_eq_iff split: option.splits)
  moreover have "pool_ok C (revalidate_loop S u h ids mp') \<and> mp_entries (revalidate_loop S u h ids mp')
     = keep (\<lambda>tid e. tid \<in> set ids \<longrightarrow> revalidates S u h e) (mp_entries mp')"
    using 2(1) calculation(1) unfolding mp'_def by blast
  ultimately show ?case
    by (auto simp flip: mp'_def simp: keep_def fun_eq_iff split: option.splits)
qed (auto simp: keep_def fun_eq_iff split: option.splits)

lemma revalidate_ok: "pool_ok C mp \<Longrightarrow> pool_ok C (revalidate keys S u h mp)"
  by (simp add: revalidate_def revalidate_loop_spec)

lemma revalidate_entries:
  assumes "pool_ok C mp" "iterates keys"
  shows "mp_entries (revalidate keys S u h mp) = keep (\<lambda>_. revalidates S u h) (mp_entries mp)"
proof -
  have "set (keys (mp_entries mp)) = dom (mp_entries mp)"
    using assms by (auto simp: iterates_def pool_ok_def pool_defs entries_ok_def)
  then show ?thesis
    using revalidate_loop_spec[OF assms(1), of S u h "keys (mp_entries mp)"]
    by (auto simp: revalidate_def keep_def fun_eq_iff split: option.splits)
qed

end
