(* ===== verification/Mempool_Rules.thy ===== *)
theory Mempool_Rules
  imports Mempool
begin

text \<open>
  What the pool promises: every history of admissions, removals, confirmations and revalidations
  keeps its indexes those of its entries and its size within the limits; admission returns and
  evicts only what ranks lowest; selection is greedy by fee density; and a confirmed block leaves
  exactly the entries that neither it nor validation at the new tip rules out.
\<close>


section \<open>Selection\<close>

text \<open>Selection without words: take what still fits, in the order given.\<close>

fun greedy :: "('a \<Rightarrow> nat) \<Rightarrow> ('a \<Rightarrow> nat) \<Rightarrow> nat \<Rightarrow> 'a list \<Rightarrow> nat \<Rightarrow> nat \<Rightarrow> 'a list" where
  "greedy sz fee n [] f used = []"
| "greedy sz fee n (i # is) f used =
     (if used + sz i \<le> n \<and> f + fee i \<le> U64_MAX then i # greedy sz fee n is (f + fee i) (used + sz i)
      else greedy sz fee n is f used)"

lemma greedy_subset: "set (greedy sz fee n is f u) \<subseteq> set is"
  by (induction sz fee n "is" f u rule: greedy.induct) auto

lemma greedy_sorted: "sorted_wrt R is \<Longrightarrow> sorted_wrt R (greedy sz fee n is f u)"
proof (induction sz fee n "is" f u rule: greedy.induct)
  case (2 sz fee n i "is" f u)
  then show ?case using greedy_subset[of sz fee n "is"] by (auto dest: subsetD)
qed simp

lemma greedy_bounds:
  "u \<le> n \<Longrightarrow> f \<le> U64_MAX \<Longrightarrow> u + (\<Sum>i\<leftarrow>greedy sz fee n is f u. sz i) \<le> n
    \<and> f + (\<Sum>i\<leftarrow>greedy sz fee n is f u. fee i) \<le> U64_MAX"
  by (induction sz fee n "is" f u rule: greedy.induct) (auto simp: add.assoc[symmetric])

lemma greedy_maximal:
  assumes "sorted_wrt R is" "\<And>a b. R a b \<Longrightarrow> \<not> R b a" "i \<in> set is" "i \<notin> set (greedy sz fee n is f u)"
  shows "n < u + (\<Sum>j\<leftarrow>filter (\<lambda>j. R j i) (greedy sz fee n is f u). sz j) + sz i
    \<or> U64_MAX < f + (\<Sum>j\<leftarrow>filter (\<lambda>j. R j i) (greedy sz fee n is f u). fee j) + fee i"
  using assms
proof (induction sz fee n "is" f u rule: greedy.induct)
  case (2 sz fee n a "is" f u)
  let ?take = "u + sz a \<le> n \<and> f + fee a \<le> U64_MAX"
  show ?case
  proof (cases "i = a")
    case True
    then have no: "\<not> ?take" using 2(6) by auto
    have "\<forall>j\<in>set is. \<not> R j a" using 2(3,4) by auto
    then have "filter (\<lambda>j. R j a) (greedy sz fee n is f u) = []"
      using greedy_subset[of sz fee n "is" f u] by (auto simp: filter_empty_conv)
    then show ?thesis using no True by auto
  next
    case False
    then have "i \<in> set is" "R a i" "sorted_wrt R is" using 2(3,5) by auto
    then show ?thesis using 2 by (cases ?take) (auto simp: add.assoc)
  qed
qed simp

definition pool_tx :: "Mempool \<Rightarrow> bytes \<Rightarrow> Transaction" where
  "pool_tx mp tid = me_tx (the (mp_entries mp tid))"

lemma select_loop_greedy:
  assumes "entries_ok C (mp_entries mp)" "set ids \<subseteq> dom (mp_entries mp)" "used + (\<Sum>i\<leftarrow>ids. tx_bytes (pool_tx mp i)) < 2 ^ 64"
  shows "select_loop mp n ids sel f used =
    (let g = greedy (\<lambda>i. tx_bytes (pool_tx mp i)) (\<lambda>i. me_fee (the (mp_entries mp i))) n ids f used in
     (sel @ map (pool_tx mp) g, f + (\<Sum>i\<leftarrow>g. me_fee (the (mp_entries mp i)))))"
  using assms(2,3)
proof (induction ids arbitrary: sel f used)
  case (Cons i ids)
  then obtain e where e: "mp_entries mp i = Some e" by auto
  then obtain b where "Transaction_serialize (me_tx e) = Ok b"
    using assms(1) unfolding entries_ok_def entry_ok_def by blast
  then have enc: "serialized_size (me_tx e) = Ok (tx_bytes (me_tx e))"
    by (simp add: serialized_size_def tx_bytes_def)
  have pt: "pool_tx mp i = me_tx e" by (simp add: pool_tx_def e)
  have "used + tx_bytes (me_tx e) < 2 ^ 64" using Cons.prems(2) by (simp add: pt)
  then have md: "(used + tx_bytes (me_tx e)) mod 2 ^ 64 = used + tx_bytes (me_tx e)" by (rule mod_less)
  have ih: "select_loop mp n ids sel f v = (let g = greedy (\<lambda>i. tx_bytes (pool_tx mp i)) (\<lambda>i. me_fee (the (mp_entries mp i))) n ids f v in
     (sel @ map (pool_tx mp) g, f + (\<Sum>i\<leftarrow>g. me_fee (the (mp_entries mp i)))))"
    if "v \<le> used + tx_bytes (me_tx e)" for sel f v
    using Cons.prems that by (intro Cons.IH) (auto simp: pt)
  show ?case
    by (simp only: select_loop.simps e option.case enc sum.case Let_def md ih[of used, OF le_add1] ih[OF order_refl])
       (simp add: Let_def e pt add.assoc)
qed simp

definition by_rank :: "Mempool \<Rightarrow> bytes list" where
  "by_rank mp = map snd (rev (sorted_list_of_set (dom (mp_by_fee_density mp))))"

lemma by_rank_spec:
  assumes "pool_inv C mp"
  shows "set (by_rank mp) = dom (mp_entries mp)" "sorted_wrt (\<lambda>a b. rank mp b < rank mp a) (by_rank mp)"
    "map (\<lambda>k. the (mp_by_fee_density mp k)) (rev (sorted_list_of_set (dom (mp_by_fee_density mp)))) = by_rank mp"
proof -
  let ?ks = "sorted_list_of_set (dom (mp_by_fee_density mp))"
  have r: "mp_by_fee_density mp = ranking (mp_entries mp)" "finite (dom (mp_by_fee_density mp))"
    using assms finite_ranking by (auto simp: pool_defs entries_ok_def)
  have ks: "set ?ks = dom (ranking (mp_entries mp))" using r by simp
  have rk: "k = rank mp (snd k)" if "k \<in> set ?ks" for k
    using that unfolding ks dom_ranking by (auto simp: rank_def)
  show "set (by_rank mp) = dom (mp_entries mp)"
    unfolding by_rank_def set_map set_rev ks dom_ranking by force
  have "sorted_wrt (\<lambda>a b. b < a) (rev ?ks)"
    by (simp add: sorted_wrt_rev)
  then have "sorted_wrt (\<lambda>a b. rank mp (snd b) < rank mp (snd a)) (rev ?ks)"
    by (rule sorted_wrt_mono_rel[rotated]) (use rk in \<open>metis set_rev\<close>)
  then show "sorted_wrt (\<lambda>a b. rank mp b < rank mp a) (by_rank mp)"
    by (simp add: by_rank_def sorted_wrt_map)
  show "map (\<lambda>k. the (mp_by_fee_density mp k)) (rev ?ks) = by_rank mp"
    unfolding by_rank_def using ks by (auto simp: r(1) ranking_def dom_ranking split: option.splits if_splits)
qed


lemma sorted_wrt_distinct: "sorted_wrt R xs \<Longrightarrow> (\<And>x. \<not> R x x) \<Longrightarrow> distinct xs"
  by (induction xs) auto

lemma pool_bytes_list:
  assumes "pool_inv C mp"
  shows "(\<Sum>i\<leftarrow>by_rank mp. tx_bytes (pool_tx mp i)) = mp_total_bytes mp"
proof -
  have "distinct (by_rank mp)"
    using by_rank_spec(2)[OF assms] by (rule sorted_wrt_distinct) simp
  then show ?thesis
    using assms by_rank_spec(1)[OF assms] by (simp add: sum_list_distinct_conv_sum_set pool_defs all_bytes_def pool_tx_def)
qed

lemma select_transactions_eq:
  assumes "pool_ok C mp"
  shows "select_transactions n mp =
    (let g = greedy (\<lambda>i. tx_bytes (pool_tx mp i)) (\<lambda>i. me_fee (the (mp_entries mp i))) n (by_rank mp) 0 0 in
     (map (pool_tx mp) g, \<Sum>i\<leftarrow>g. me_fee (the (mp_entries mp i))))"
proof -
  have inv: "pool_inv C mp" and lim: "within_limits mp" using assms by (auto simp: pool_ok_def)
  have "mp_total_bytes mp < 2 ^ 64" using lim by (simp add: within_limits_def constants)
  then have sum: "0 + (\<Sum>i\<leftarrow>by_rank mp. tx_bytes (pool_tx mp i)) < 2 ^ 64" using pool_bytes_list[OF inv] by simp
  have ok: "entries_ok C (mp_entries mp)" using inv by (simp add: pool_defs)
  have sub: "set (by_rank mp) \<subseteq> dom (mp_entries mp)" using by_rank_spec(1)[OF inv] by blast
  show ?thesis
    unfolding select_transactions_def by_rank_spec(3)[OF inv] select_loop_greedy[OF ok sub sum] by (simp add: Let_def)
qed



section \<open>A sample payment\<close>

definition pay_key :: bytes where "pay_key = replicate 32 3"

definition pay_tx :: Transaction where
  "pay_tx = \<lparr>inputs = [\<lparr>prev_tx_id = replicate 32 7, output_index = 0\<rparr>],
     outputs = [\<lparr>out_value = 800, out_script = replicate 32 2, datum = None, datum_hash = None\<rparr>],
     witnesses = [\<lparr>witness = pay_key @ replicate 64 5, redeemer = None\<rparr>]\<rparr>"

definition pay_entry :: UtxoEntry where
  "pay_entry = \<lparr>ue_output = \<lparr>out_value = 1000, out_script = pay_key, datum = None, datum_hash = None\<rparr>,
     ue_height = 0, ue_is_coinbase = False\<rparr>"

abbreviation pay_op :: OutPoint where "pay_op \<equiv> outpoint (replicate 32 7) 0"

definition pay_set :: UtxoSet where
  "pay_set = snd (UtxoSet_insert toy_crypto pay_op pay_entry (UtxoSet_new toy_crypto))"

lemma pay_serializable: "serializable pay_entry"
  by (simp add: serializable_def pay_entry_def pay_key_def TxOutput_serialize_def serialize_varbytes_def
      serialize_opt_varbytes_def serialize_opt_hash_def)

lemma pay_script: "script_ok (replicate 32 2)"
proof -
  have "bslice (replicate 32 2) 0 4 = [2, 2, 2, 2 :: byte]" by code_simp
  then have "MAX_SCRIPT_NODES < unat (u32_le (bslice (replicate 32 (2 :: byte)) 0 4))"
    by (simp add: u32_le_def MAX_SCRIPT_NODES_def unat_of_nat)
  then show ?thesis by (simp add: script_ok_def is_phase1_script_def deserialize_program_def Let_def)
qed

lemma pay_set_ok:
  assumes "pay_op \<in> D" "no_collision toy_crypto D"
  shows "utxo_inv toy_crypto D pay_set" "utxos pay_set = [pay_op \<mapsto> pay_entry]" "length (arena (smt pay_set)) \<le> 5"
proof -
  have "room 1 (UtxoSet_new toy_crypto)" "length (arena (smt (UtxoSet_new toy_crypto))) \<le> 1"
    by (simp_all add: room_def UtxoSet_new_def SparseMerkleTree_new_def)
  then show "utxo_inv toy_crypto D pay_set" "utxos pay_set = [pay_op \<mapsto> pay_entry]" "length (arena (smt pay_set)) \<le> 5"
    using UtxoSet_insert_ok[OF assms(2) utxo_inv_new assms(1) _ pay_serializable] by (auto simp: pay_set_def)
qed

lemma pay_utxos: "utxos pay_set = [pay_op \<mapsto> pay_entry]"
  by (rule pay_set_ok(2)[of "{pay_op}"]) (simp_all add: no_collision_def toy_digest32)

lemmas pay_defs = pay_tx_def pay_entry_def pay_key_def

lemma pay_bytes: "\<exists>b. Transaction_serialize pay_tx = Ok b \<and> length b = 183"
  "\<exists>b. signing_bytes pay_tx = Ok b \<and> length b = 84"
  by (simp_all add: pay_defs Transaction_serialize_def signing_bytes_def serialize_header_def
      serialize_body_def TxOutput_serialize_def TxWitness_serialize_def serialize_varbytes_def
      serialize_opt_varbytes_def serialize_opt_hash_def TxInput_serialize_def)

lemma pay_valid: "validate_transaction sample_settings pay_tx pay_set h = Ok (200, 5016, 0)"
proof -
  obtain b where b: "Transaction_serialize pay_tx = Ok b" "length b = 183" using pay_bytes(1) by blast
  obtain msg where msg: "sig_message ZERO pay_tx = Ok msg" "length msg = 125"
    using pay_bytes(2) by (auto simp: sig_message_def ZERO_def DS_SIG_def)
  have k: "domain_hash toy_crypto DS_ADDR pay_key = pay_key"
    by (simp add: domain_hash_def domain_preimage_def toy_crypto_def pay_key_def)
  have "signed sample_settings msg (ue_output pay_entry) \<lparr>witness = pay_key @ replicate 64 5, redeemer = None\<rparr>"
    unfolding signed_def by (rule exI[of _ pay_key], rule exI[of _ "replicate 64 5"])
      (simp add: pay_entry_def pubkey_hash_from_key_def k, simp add: pay_key_def is_weak_ed25519_key_def toy_crypto_def)
  then have auth: "authorised sample_settings msg cx 0 (pay_entry, witnesses pay_tx ! 0) (5016, 0)" for cx
    by (simp add: authorised_def Let_def msg(2) pay_tx_def chunks_def is_phase1_script_def) (simp add: pay_defs)
  have "valid_spend sample_settings pay_tx pay_set h 200 5016 0"
    unfolding valid_spend_def
  proof (rule exI[of _ "[pay_entry]"], rule exI[of _ "[(5016, 0)]"], rule exI[of _ b], rule exI[of _ msg], intro conjI)
    show "map (\<lambda>i. utxos pay_set (input_outpoint i)) (inputs pay_tx) = map Some [pay_entry]"
      by (simp add: pay_utxos pay_tx_def input_outpoint_def)
    show "\<forall>out\<in>set (outputs pay_tx). output_ok sample_settings out"
      using pay_script by (simp add: pay_tx_def output_ok_def DUST_THRESHOLD_def)
    show "\<forall>k<length [pay_entry]. authorised sample_settings msg (spend_context sample_settings pay_tx [pay_entry] h msg) k
      ([pay_entry] ! k, witnesses pay_tx ! k) ([(5016, 0)] ! k)" using auth by simp
    show "sig_message (signature_domain sample_settings) pay_tx = Ok msg" using msg by (simp add: sample_settings_def)
    show "\<forall>w\<in>set (witnesses pay_tx). witness_ok w" by (simp add: pay_defs witness_ok_def constants)
    have bc: "base_cost pay_tx (length b) = 1205"
      by (simp add: base_cost_def b(2) pay_defs is_phase1_script_def chunks_def opt_chunks_def)
    show "5016 + 0 + base_cost pay_tx (length b) \<le> 100 * 200" "5016 + 0 + base_cost pay_tx (length b) < 2 ^ 64"
      by (simp_all add: bc)
    show "\<forall>e\<in>set [pay_entry]. mature (coinbase_maturity sample_settings) h e" by (simp add: mature_def pay_entry_def)
  qed (use b in \<open>simp_all add: pay_tx_def pay_entry_def entry_value_def constants\<close>)
  then show ?thesis by (rule validate_transaction_complete)
qed

lemma pay_id: "\<exists>i. compute_tx_id toy_crypto pay_tx = Ok i \<and> length i = 32"
  using pay_bytes(2) toy_digest32 by (auto simp: compute_tx_id_def domain_hash_def digest32_def)

text \<open>The sample digest keeps the end of its input, which here is the script of the only output.\<close>

lemma toy_id_eq:
  assumes "compute_tx_id toy_crypto \<lparr>inputs = [i], outputs = [\<lparr>out_value = v, out_script = s, datum = None, datum_hash = None\<rparr>], witnesses = ws\<rparr> = Ok tid"
    "length s = 32" "length (prev_tx_id i) = 32"
  shows "tid = [0, 0] @ take 30 (rev s)"
  using assms
  by (auto simp: compute_tx_id_def signing_bytes_def serialize_header_def serialize_body_def
      TxOutput_serialize_def serialize_varbytes_def serialize_opt_varbytes_def serialize_opt_hash_def TxInput_serialize_def
      domain_hash_def domain_preimage_def toy_crypto_def result_simps)

lemma pay_not_coinbase: "\<not> is_coinbase pay_tx"
  by (simp add: is_coinbase_def pay_tx_def ZERO_def replicate_eq_replicate)

lemma pay_outpoints: "set (map input_outpoint (inputs pay_tx)) = {pay_op}"
  by (simp add: pay_tx_def input_outpoint_def)


section \<open>The contract of the pool\<close>

lemma pool_ok_new: "pool_ok C Mempool_new"
  by (auto simp: pool_ok_def pool_defs entries_ok_def within_limits_def Mempool_new_def Mempool_len_def ranking_def
      script_index_def touching_def all_spends_def fun_eq_iff constants)

lemma pool_ok_bus: "pool_ok C (set_event_bus b mp) \<longleftrightarrow> pool_ok C mp"
  by (simp add: pool_ok_def pool_defs within_limits_def set_event_bus_def Mempool_len_def)

lemma valid_size: "validate_transaction S tx u h = Ok r \<Longrightarrow> tx_bytes tx \<le> MAX_TX_SIZE"
  using validate_transaction_sound[of S tx u h] by (cases r) (auto simp: valid_spend_def tx_bytes_eq)

lemma add_via_validated:
  "add S tx u h mp = (case local_checks (lib S) tx mp of Inl e \<Rightarrow> Some (Err e, mp)
     | Inr _ \<Rightarrow> (case validate_transaction S tx u h of Inl e \<Rightarrow> Some (Err (ValidationFailed e), mp)
       | Inr (fee, sc, vc) \<Rightarrow> add_validated (lib S) tx fee sc vc h u mp))"
  by (auto simp: add_def add_validated_def rbind_def split: sum.splits)

lemma add_validated_ok:
  assumes "pool_ok C mp" "tx_bytes tx \<le> MAX_TX_SIZE" "add_validated C tx fee sc vc h u mp = Some (r, mp')"
  shows "pool_ok C mp'"
  using assms(1,2)
proof (cases rule: add_validated_returns[of C mp tx fee sc vc h u])
  case (refused e)
  then show ?thesis using assms(1,3) by simp
next
  case (added tid cost mp1 V)
  then show ?thesis using assms(3) by simp
qed

lemma add_ok:
  assumes "pool_ok (lib S) mp" "add S tx u h mp = Some (r, mp')"
  shows "pool_ok (lib S) mp'"
  using assms add_validated_ok[OF assms(1)] valid_size[of S tx u h]
  by (auto simp: add_via_validated split: sum.splits)

text \<open>The histories of a pool: \<open>keys\<close> is the order in which the hash map of entries iterates, and
  a transaction given to \<open>add_validated\<close> has passed validation against some set at some height.\<close>

inductive pool_history :: "settings \<Rightarrow> ((bytes \<rightharpoonup> MempoolEntry) \<Rightarrow> bytes list) \<Rightarrow> Mempool \<Rightarrow> bool"
  for S :: settings and keys :: "(bytes \<rightharpoonup> MempoolEntry) \<Rightarrow> bytes list" where
  created: "pool_history S keys Mempool_new"
| observed: "pool_history S keys mp \<Longrightarrow> pool_history S keys (set_event_bus b mp)"
| offered: "pool_history S keys mp \<Longrightarrow> add S tx u h mp = Some (r, mp') \<Longrightarrow> pool_history S keys mp'"
| relayed: "pool_history S keys mp \<Longrightarrow> validate_transaction S tx u h = Ok (fee, sc, vc) \<Longrightarrow>
    add_validated (lib S) tx fee sc vc h' u' mp = Some (r, mp') \<Longrightarrow> pool_history S keys mp'"
| removed: "pool_history S keys mp \<Longrightarrow> pool_history S keys (snd (Mempool_remove tid mp))"
| confirmed: "pool_history S keys mp \<Longrightarrow> pool_history S keys (remove_confirmed keys (lib S) txs mp)"
| revalidated: "pool_history S keys mp \<Longrightarrow> pool_history S keys (revalidate keys S u h mp)"

lemma pool_history_ok: "pool_history S keys mp \<Longrightarrow> pool_ok (lib S) mp"
proof (induction rule: pool_history.induct)
  case (relayed mp tx u h fee sc vc h' u' r mp')
  then show ?case using add_validated_ok valid_size by blast
qed (simp_all add: pool_ok_new pool_ok_bus add_ok removed_ok remove_confirmed_ok revalidate_ok)

text \<open>C7. Whatever sequence of admissions, removals, evictions, confirmations and revalidations a pool
  has been through, its entries are filed under their own transaction ids and no two of them spend
  the same outpoint; the fee-density order, the set of spent outpoints, the script index and the byte
  count are exactly those of its entries; and it holds at most 8192 transactions and 256 MiB.\<close>

theorem mempool_indexes_consistent:
  assumes "pool_history S keys mp"
  shows "(\<forall>i e. mp_entries mp i = Some e \<longrightarrow> compute_tx_id (lib S) (me_tx e) = Ok i)
    \<and> (\<forall>i j e f. mp_entries mp i = Some e \<longrightarrow> mp_entries mp j = Some f \<longrightarrow> i \<noteq> j \<longrightarrow>
         input_outpoint ` set (inputs (me_tx e)) \<inter> input_outpoint ` set (inputs (me_tx f)) = {})
    \<and> (\<forall>d i. mp_by_fee_density mp (d, i) = Some i \<longleftrightarrow> (\<exists>e. mp_entries mp i = Some e \<and> me_fee_density e = d))
    \<and> (\<forall>op. is_spent op mp \<longleftrightarrow> (\<exists>i e. mp_entries mp i = Some e \<and> op \<in> input_outpoint ` set (inputs (me_tx e))))
    \<and> mp_by_script mp = script_index (mp_entries mp)
    \<and> mp_total_bytes mp = (\<Sum>i\<in>dom (mp_entries mp). tx_bytes (me_tx (the (mp_entries mp i))))
    \<and> Mempool_len mp \<le> MEMPOOL_CAPACITY \<and> mp_total_bytes mp \<le> MAX_MEMPOOL_BYTES"
proof -
  have ok: "entries_ok (lib S) (mp_entries mp)" and ix: "indexed mp" and lim: "within_limits mp"
    using pool_history_ok[OF assms] by (auto simp: pool_ok_def pool_inv_def)
  have ids: "\<forall>i e. mp_entries mp i = Some e \<longrightarrow> compute_tx_id (lib S) (me_tx e) = Ok i"
    using ok unfolding entries_ok_def entry_ok_def by blast
  have dis: "\<forall>i j e f. mp_entries mp i = Some e \<longrightarrow> mp_entries mp j = Some f \<longrightarrow> i \<noteq> j \<longrightarrow>
         input_outpoint ` set (inputs (me_tx e)) \<inter> input_outpoint ` set (inputs (me_tx f)) = {}"
    using ok unfolding entries_ok_def spends_def set_map by blast
  have fee: "\<forall>d i. mp_by_fee_density mp (d, i) = Some i \<longleftrightarrow> (\<exists>e. mp_entries mp i = Some e \<and> me_fee_density e = d)"
    using ix by (simp add: indexed_def ranking_def split: option.splits)
  have sp: "\<forall>op. is_spent op mp \<longleftrightarrow> (\<exists>i e. mp_entries mp i = Some e \<and> op \<in> input_outpoint ` set (inputs (me_tx e)))"
    using ix by (auto simp: is_spent_def indexed_def all_spends_def spends_def ran_def)
  show ?thesis
    using ids dis fee sp ix lim unfolding indexed_def within_limits_def all_bytes_def by blast
qed

abbreviation hash_order :: "(bytes \<rightharpoonup> MempoolEntry) \<Rightarrow> bytes list" where
  "hash_order m \<equiv> sorted_list_of_set (dom m)"

lemma hash_order_iterates: "iterates hash_order"
  by (simp add: iterates_def)

text \<open>A pool with an event bus that has admitted the sample payment.\<close>

lemma pay_admitted:
  obtains mp tid where "add sample_settings pay_tx pay_set 5 (set_event_bus [] Mempool_new) = Some (Ok tid, mp)"
    "pool_history sample_settings hash_order mp" "pool_ok toy_crypto mp" "compute_tx_id toy_crypto pay_tx = Ok tid"
    "mp_entries mp = [tid \<mapsto> new_entry pay_tx tid 200 6221 pay_set]"
proof -
  let ?mp = "set_event_bus [] Mempool_new"
  obtain tid b where t: "compute_tx_id toy_crypto pay_tx = Ok tid" "Transaction_serialize pay_tx = Ok b" "length b = 183"
    using pay_id pay_bytes by blast
  have lc: "local_checks toy_crypto pay_tx ?mp = Ok tid"
    using t(1) pay_not_coinbase by (simp add: local_checks_Ok set_event_bus_def Mempool_new_def)
  have cost: "tx_cost_with_script_cost pay_tx 5016 0 = Some 6221"
    using tx_cost_with_script_cost_eq[OF t(2), of 5016 0]
    by (simp add: t(3) constants base_cost_def pay_defs is_phase1_script_def chunks_def opt_chunks_def)
  have "\<not> over_capacity (tx_bytes pay_tx) ?mp"
    using t(2,3) by (simp add: over_capacity_def Mempool_len_def set_event_bus_def Mempool_new_def tx_bytes_eq constants)
  then have "add sample_settings pay_tx pay_set 5 ?mp = Some (Ok tid, insert_entry (new_entry pay_tx tid 200 6221 pay_set) ?mp)"
    by (simp add: add_def lc pay_valid cost admit_def make_room_def Let_def)
  moreover have "mp_entries (insert_entry (new_entry pay_tx tid 200 6221 pay_set) ?mp) = [tid \<mapsto> new_entry pay_tx tid 200 6221 pay_set]"
    by (simp add: insert_entry_def index_entry_def Let_def set_event_bus_def Mempool_new_def new_entry_def)
  ultimately show thesis
    using that t(1) pool_history_ok pool_history.offered[OF pool_history.observed[OF pool_history.created]] by fastforce
qed

theorem mempool_indexes_consistent_witness:
  "\<exists>mp tid. pool_history sample_settings hash_order mp \<and> compute_tx_id toy_crypto pay_tx = Ok tid
     \<and> mp_entries mp tid \<noteq> None \<and> is_spent pay_op mp"
proof -
  obtain mp tid where mp: "pool_history sample_settings hash_order mp" "compute_tx_id toy_crypto pay_tx = Ok tid"
    "mp_entries mp = [tid \<mapsto> new_entry pay_tx tid 200 6221 pay_set]" by (rule pay_admitted)
  have "is_spent pay_op mp"
    using mempool_indexes_consistent[OF mp(1)] mp(3) pay_outpoints by (auto simp: new_entry_def)
  then show ?thesis using mp by auto
qed


text \<open>C17. Offering a validated transaction to a pool always returns. A refusal leaves the pool as it was.
  An admission files the transaction under its id next to the old entries without a set of victims;
  victims exist only if the pool was full, every victim ranks below every entry that stays, and the
  new transaction pays a higher fee density than some victim.\<close>

theorem admission_returns_evicts_lowest:
  assumes "pool_history S keys mp" "validate_transaction S tx u h = Ok (fee, sc, vc)"
  shows "\<exists>r mp'. add_validated (lib S) tx fee sc vc h' u' mp = Some (r, mp') \<and> (case r of
      Inl e \<Rightarrow> mp' = mp
    | Inr tid \<Rightarrow> compute_tx_id (lib S) tx = Ok tid \<and> (\<exists>victims e. me_tx e = tx \<and> me_fee e = fee
        \<and> mp_entries mp' = (mp_entries mp |` (- victims))(tid \<mapsto> e)
        \<and> victims \<subseteq> dom (mp_entries mp)
        \<and> (\<forall>a\<in>victims. \<forall>b\<in>dom (mp_entries mp) - victims. rank mp a < rank mp b)
        \<and> (victims \<noteq> {} \<longrightarrow> over_capacity (tx_bytes tx) mp
            \<and> (\<exists>a\<in>victims. me_fee_density (the (mp_entries mp a)) < me_fee_density e))))"
  using pool_history_ok[OF assms(1)] valid_size[OF assms(2)]
proof (cases rule: add_validated_returns[of "lib S" mp tx fee sc vc h' u'])
  case (refused e)
  then show ?thesis by simp
next
  case (added tid cost mp' V)
  let ?e = "new_entry tx tid fee cost u'"
  have "me_tx ?e = tx \<and> me_fee ?e = fee \<and> me_tx_id ?e = tid" by (simp add: new_entry_def)
  then have "\<exists>victims e. me_tx e = tx \<and> me_fee e = fee
        \<and> mp_entries mp' = (mp_entries mp |` (- victims))(tid \<mapsto> e)
        \<and> victims \<subseteq> dom (mp_entries mp)
        \<and> (\<forall>a\<in>victims. \<forall>b\<in>dom (mp_entries mp) - victims. rank mp a < rank mp b)
        \<and> (victims \<noteq> {} \<longrightarrow> over_capacity (tx_bytes tx) mp
            \<and> (\<exists>a\<in>victims. me_fee_density (the (mp_entries mp a)) < me_fee_density e))"
    using added(6)[unfolded admitted_def rank_def[of _ "_ :: bytes"] fst_conv]
    by (intro exI[of _ V] exI[of _ ?e]) (simp add: rank_def)
  then show ?thesis using added(1,3) by auto
qed

theorem admission_returns_evicts_lowest_witness:
  "\<exists>r mp'. add_validated toy_crypto pay_tx 200 5016 0 5 pay_set Mempool_new = Some (r, mp') \<and> Mempool_len Mempool_new = 0"
proof -
  have "\<exists>r mp'. add_validated toy_crypto pay_tx 200 5016 0 5 pay_set Mempool_new = Some (r, mp')"
    using admission_returns_evicts_lowest[where keys = hash_order and h' = 5 and u' = pay_set, OF pool_history.created pay_valid]
    unfolding reward_block_fields(3) by (elim exE conjE) (intro exI)
  moreover have "Mempool_len Mempool_new = 0" by (simp add: Mempool_len_def Mempool_new_def)
  ultimately show ?thesis by blast
qed

text \<open>C18. The transactions selected for a block are transactions of the pool in strictly decreasing
  rank, spend pairwise disjoint outpoints, fit the given size and come with the sum of their fees; and
  a transaction is left out only if, after the selected ones that rank above it, it no longer fits or
  its fee would overflow the total.\<close>

theorem select_transactions_greedy:
  assumes "pool_history S keys mp" "select_transactions n mp = (txs, fees)"
  shows "\<exists>ids. txs = map (\<lambda>i. me_tx (the (mp_entries mp i))) ids \<and> set ids \<subseteq> dom (mp_entries mp)
    \<and> sorted_wrt (\<lambda>a b. rank mp b < rank mp a) ids
    \<and> sorted_wrt (\<lambda>t t'. input_outpoint ` set (inputs t) \<inter> input_outpoint ` set (inputs t') = {}) txs
    \<and> (\<Sum>t\<leftarrow>txs. tx_bytes t) \<le> n
    \<and> fees = (\<Sum>i\<leftarrow>ids. me_fee (the (mp_entries mp i))) \<and> fees \<le> U64_MAX
    \<and> (\<forall>i\<in>dom (mp_entries mp) - set ids.
         n < (\<Sum>j\<leftarrow>filter (\<lambda>j. rank mp i < rank mp j) ids. tx_bytes (me_tx (the (mp_entries mp j)))) + tx_bytes (me_tx (the (mp_entries mp i)))
         \<or> U64_MAX < (\<Sum>j\<leftarrow>filter (\<lambda>j. rank mp i < rank mp j) ids. me_fee (the (mp_entries mp j))) + me_fee (the (mp_entries mp i)))"
proof -
  have ok: "pool_ok (lib S) mp" by (rule pool_history_ok[OF assms(1)])
  then have inv: "pool_inv (lib S) mp" by (simp add: pool_ok_def)
  let ?sz = "\<lambda>i. tx_bytes (pool_tx mp i)" and ?fee = "\<lambda>i. me_fee (the (mp_entries mp i))"
  define ids where "ids = greedy ?sz ?fee n (by_rank mp) 0 0"
  note br = by_rank_spec[OF inv]
  have sel: "txs = map (pool_tx mp) ids" "fees = (\<Sum>i\<leftarrow>ids. ?fee i)"
    using select_transactions_eq[OF ok, of n] assms(2) by (simp_all add: ids_def Let_def)
  have sub: "set ids \<subseteq> dom (mp_entries mp)"
    using greedy_subset[of ?sz ?fee n "by_rank mp" 0 0] br(1) by (simp add: ids_def)
  have srt: "sorted_wrt (\<lambda>a b. rank mp b < rank mp a) ids"
    unfolding ids_def by (rule greedy_sorted[OF br(2)])
  have dis: "input_outpoint ` set (inputs (pool_tx mp i)) \<inter> input_outpoint ` set (inputs (pool_tx mp j)) = {}"
    if ij: "i \<in> set ids" "j \<in> set ids" "rank mp j < rank mp i" for i j
  proof -
    have "i \<noteq> j" using ij(3) by auto
    moreover obtain e f where "mp_entries mp i = Some e" "mp_entries mp j = Some f" using ij(1,2) sub by blast
    ultimately show ?thesis
      using inv by (simp add: pool_defs entries_ok_def spends_def pool_tx_def)
  qed
  have "sorted_wrt (\<lambda>t t'. input_outpoint ` set (inputs t) \<inter> input_outpoint ` set (inputs t') = {}) txs"
    unfolding sel(1) sorted_wrt_map by (rule sorted_wrt_mono_rel[OF dis srt])
  moreover have "(\<Sum>t\<leftarrow>txs. tx_bytes t) \<le> n" "fees \<le> U64_MAX"
    using greedy_bounds[of 0 n 0 ?sz ?fee "by_rank mp"] by (simp_all add: sel comp_def flip: ids_def)
  moreover have "n < (\<Sum>j\<leftarrow>filter (\<lambda>j. rank mp i < rank mp j) ids. ?sz j) + ?sz i
      \<or> U64_MAX < (\<Sum>j\<leftarrow>filter (\<lambda>j. rank mp i < rank mp j) ids. ?fee j) + ?fee i"
    if "i \<in> dom (mp_entries mp) - set ids" for i
    using greedy_maximal[OF br(2), of i ?sz ?fee n 0 0] that br(1) by (simp flip: ids_def)
  ultimately show ?thesis
    using sel sub srt unfolding pool_tx_def by blast
qed

theorem select_transactions_greedy_witness:
  "\<exists>mp txs fees. pool_history sample_settings hash_order mp \<and> select_transactions 1000 mp = (txs, fees)
     \<and> (\<Sum>t\<leftarrow>txs. tx_bytes t) \<le> 1000 \<and> txs = [pay_tx]"
proof -
  obtain mp tid where mp: "pool_history sample_settings hash_order mp"
    "mp_entries mp = [tid \<mapsto> new_entry pay_tx tid 200 6221 pay_set]" by (rule pay_admitted)
  obtain txs fees where s: "select_transactions 1000 mp = (txs, fees)" by fastforce
  obtain b where "Transaction_serialize pay_tx = Ok b" "length b = 183" using pay_bytes by blast
  then have sz: "tx_bytes pay_tx = 183" by (simp add: tx_bytes_eq)
  have e: "me_tx (new_entry pay_tx tid 200 6221 pay_set) = pay_tx" "me_fee (new_entry pay_tx tid 200 6221 pay_set) = 200"
    by (simp_all add: new_entry_def)
  from select_transactions_greedy[OF mp(1) s] mp(2) obtain ids where
    ids: "txs = map (\<lambda>i. me_tx (the (mp_entries mp i))) ids" "set ids \<subseteq> {tid}"
      "sorted_wrt (\<lambda>a b. rank mp b < rank mp a) ids" "(\<Sum>t\<leftarrow>txs. tx_bytes t) \<le> 1000"
      "\<forall>i\<in>{tid} - set ids. 1000 < (\<Sum>j\<leftarrow>filter (\<lambda>j. rank mp i < rank mp j) ids. tx_bytes (me_tx (the (mp_entries mp j)))) + tx_bytes (me_tx (the (mp_entries mp i)))
         \<or> U64_MAX < (\<Sum>j\<leftarrow>filter (\<lambda>j. rank mp i < rank mp j) ids. me_fee (the (mp_entries mp j))) + me_fee (the (mp_entries mp i))"
    by (simp only: dom_fun_upd dom_empty option.simps if_False) metis
  have "distinct ids" using ids(3) by (rule sorted_wrt_distinct) simp
  moreover have "ids \<noteq> []" using ids(5) mp(2) sz by (auto simp: e U64_MAX_def)
  ultimately have "ids = [tid]"
    using ids(2) by (cases ids) (auto simp: subset_singleton_iff)
  then show ?thesis using mp s ids(1,4) e by auto
qed

text \<open>C16. After a block has been confirmed and the pool revalidated against the new tip, the pool holds
  exactly the entries it held whose transaction is not in the block, spends nothing the block spends
  and passes validation at the new tip, whatever order the hash map iterates in.\<close>

theorem pool_after_block:
  assumes "pool_history S keys mp" "iterates keys"
  shows "mp_entries (revalidate keys S u h (remove_confirmed keys (lib S) txs mp)) i = Some e \<longleftrightarrow>
    mp_entries mp i = Some e \<and> (\<forall>tx\<in>set txs. compute_tx_id (lib S) tx \<noteq> Ok i)
    \<and> (\<forall>tx\<in>set txs. \<not> is_coinbase tx \<longrightarrow> input_outpoint ` set (inputs tx) \<inter> input_outpoint ` set (inputs (me_tx e)) = {})
    \<and> (\<exists>r. validate_transaction S (me_tx e) u h = Ok r)"
proof -
  have ok: "pool_ok (lib S) mp" by (rule pool_history_ok[OF assms(1)])
  have "unconfirmed (lib S) txs i e \<longleftrightarrow> (\<forall>tx\<in>set txs. compute_tx_id (lib S) tx \<noteq> Ok i)
    \<and> (\<forall>tx\<in>set txs. \<not> is_coinbase tx \<longrightarrow> input_outpoint ` set (inputs tx) \<inter> input_outpoint ` set (inputs (me_tx e)) = {})"
  proof -
    have op: "confirmed_outpoints txs = (\<Union>tx\<in>{tx \<in> set txs. \<not> is_coinbase tx}. input_outpoint ` set (inputs tx))"
      by (auto simp: confirmed_outpoints_def split: if_splits)
    have "Ok i \<notin> compute_tx_id (lib S) ` set txs \<longleftrightarrow> (\<forall>tx\<in>set txs. compute_tx_id (lib S) tx \<noteq> Ok i)"
      by (metis imageE image_eqI)
    then show ?thesis unfolding unconfirmed_def op spends_def set_map by blast
  qed
  then show ?thesis
    unfolding revalidate_entries[OF remove_confirmed_ok[OF ok] assms(2)] remove_confirmed_entries[OF ok assms(2)]
    by (auto simp: keep_def revalidates_def split: option.splits if_splits)
qed

theorem pool_after_block_witness:
  "\<exists>mp tid e. pool_history sample_settings hash_order mp \<and> mp_entries mp tid = Some e
     \<and> mp_entries (revalidate hash_order sample_settings pay_set 9 (remove_confirmed hash_order toy_crypto [reward_tx 3] mp)) tid = Some e
     \<and> mp_entries (revalidate hash_order sample_settings pay_set 9 (remove_confirmed hash_order toy_crypto [pay_tx] mp)) tid = None"
proof -
  obtain mp tid where mp: "pool_history sample_settings hash_order mp" "compute_tx_id toy_crypto pay_tx = Ok tid"
    "mp_entries mp = [tid \<mapsto> new_entry pay_tx tid 200 6221 pay_set]" by (rule pay_admitted)
  have "reward_id 3 = [0, 0] @ take 30 (rev (replicate 32 1))"
    using reward_id[of 3] unfolding reward_tx_def by (rule toy_id_eq) (simp_all add: ZERO_def)
  moreover have "tid = [0, 0] @ take 30 (rev (replicate 32 2))"
    using mp(2) unfolding pay_tx_def by (rule toy_id_eq) simp_all
  ultimately have cb: "compute_tx_id toy_crypto (reward_tx 3) \<noteq> Ok tid"
    by (simp add: reward_id replicate_eq_replicate)
  note after = pool_after_block[OF mp(1) hash_order_iterates, unfolded reward_block_fields(3)]
  have "mp_entries (revalidate hash_order sample_settings pay_set 9 (remove_confirmed hash_order toy_crypto [reward_tx 3] mp)) tid
      = Some (new_entry pay_tx tid 200 6221 pay_set)"
    unfolding after using mp cb pay_valid[of 9] reward_tx_coinbase(1)[of 3] by (auto simp: new_entry_def)
  moreover have "mp_entries (revalidate hash_order sample_settings pay_set 9 (remove_confirmed hash_order toy_crypto [pay_tx] mp)) tid = None"
    (is "?X = None")
  proof (cases ?X)
    case (Some e)
    then show ?thesis unfolding after using mp(2) by simp
  qed
  ultimately show ?thesis
    using mp(1,3) by (intro exI[of _ mp] exI[of _ tid] exI[of _ "new_entry pay_tx tid 200 6221 pay_set"]) simp
qed

end
