(* ===== verification/Miner.thy ===== *)
theory Miner
  imports Mempool_Rules
begin

text \<open>
  The block miner, \<open>miner/miner.rs\<close>: the coinbase, the block template assembled from selected
  transactions by trial application, and the search for a nonce. The panic of an \<open>expect\<close> in the
  template is a \<open>None\<close> like its other failures. The search reads two flags and the clock, which the
  environment gives as functions of the number of reads so far; it may run for ever.
\<close>


section \<open>The template\<close>

definition build_coinbase :: "crypto \<Rightarrow> bytes \<Rightarrow> u64 \<Rightarrow> u64 \<Rightarrow> Transaction option" where
  "build_coinbase C pubkey h fees =
     (if unat h < 2 ^ 32 then
        Option.bind (block_reward h) (\<lambda>subsidy.
        Option.bind (checked_add subsidy fees) (\<lambda>reward.
        Some \<lparr>inputs = [\<lparr>prev_tx_id = ZERO, output_index = ucast h\<rparr>],
              outputs = [new_p2pkh C reward pubkey],
              witnesses = [\<lparr>witness = [], redeemer = None\<rparr>]\<rparr>))
      else None)"

definition skipped_id :: "crypto \<Rightarrow> Transaction \<Rightarrow> bytes list" where
  "skipped_id C tx = (case compute_tx_id C tx of Inl _ \<Rightarrow> [] | Inr tx_id \<Rightarrow> [tx_id])"

definition present_value :: "UtxoSet \<Rightarrow> TxInput list \<Rightarrow> nat" where
  "present_value u is = (\<Sum>i\<leftarrow>is. case UtxoSet_get u (input_outpoint i) of
     Some entry \<Rightarrow> unat (out_value (ue_output entry)) | None \<Rightarrow> 0)"

fun trial_loop :: "settings \<Rightarrow> u64 \<Rightarrow> Transaction list \<Rightarrow> UtxoSet \<Rightarrow> Transaction list \<Rightarrow> bytes list \<Rightarrow> nat
    \<Rightarrow> Transaction list \<times> bytes list \<times> nat" where
  "trial_loop S h [] trial kept skipped fees = (kept, skipped, fees)"
| "trial_loop S h (tx # txs) trial kept skipped fees =
     (case validate_transaction S tx trial h of
        Inl _ \<Rightarrow> trial_loop S h txs trial kept (skipped @ skipped_id (lib S) tx) fees
      | Inr _ \<Rightarrow>
        (let tx_in = present_value trial (inputs tx); tx_out = sum_outputs (outputs tx) 0 in
         case apply_transaction (lib S) tx h trial of
           (Inr _, trial') \<Rightarrow> trial_loop S h txs trial' (kept @ [tx]) skipped (fees + (tx_in - tx_out))
         | (Inl _, _) \<Rightarrow> trial_loop S h txs trial kept (skipped @ skipped_id (lib S) tx) fees))"

fun rebuild_loop :: "crypto \<Rightarrow> u64 \<Rightarrow> Transaction list \<Rightarrow> UtxoSet \<Rightarrow> UtxoSet option" where
  "rebuild_loop C h [] u = Some u"
| "rebuild_loop C h (tx # txs) u = (case apply_transaction C tx h u of
     (Inl _, _) \<Rightarrow> None | (Inr _, u) \<Rightarrow> rebuild_loop C h txs u)"

definition build_template_from_txs :: "settings \<Rightarrow> bytes \<Rightarrow> u64 \<Rightarrow> bytes \<Rightarrow> bytes \<Rightarrow> u64 \<Rightarrow> Transaction list \<Rightarrow> UtxoSet
    \<Rightarrow> (Block \<times> bytes list) option" where
  "build_template_from_txs S pubkey h prev target time txs u =
     (let (applied_txs, skipped_ids, applied_fees) = trial_loop S h txs u [] [] 0;
          actual_fees = of_nat (min applied_fees U64_MAX) in
      Option.bind (build_coinbase (lib S) pubkey h actual_fees) (\<lambda>coinbase.
      Option.bind (rebuild_loop (lib S) h (coinbase # applied_txs) u) (\<lambda>utxo_copy.
      Option.bind (ok (compute_tx_root (lib S) (coinbase # applied_txs))) (\<lambda>root.
      Some (\<lparr>header = \<lparr>version = VERSION, height = h, prev_block_id = prev, timestamp = time,
                difficulty_target = target, nonce = 0, tx_root = root, state_root = UtxoSet_state_root utxo_copy\<rparr>,
              transactions = coinbase # applied_txs\<rparr>, skipped_ids)))))"

definition build_template :: "settings \<Rightarrow> bytes \<Rightarrow> u64 \<Rightarrow> bytes \<Rightarrow> bytes \<Rightarrow> u64 \<Rightarrow> Mempool \<Rightarrow> UtxoSet
    \<Rightarrow> (Block \<times> bytes list) option" where
  "build_template S pubkey h prev target time mp u =
     build_template_from_txs S pubkey h prev target time (fst (select_transactions (MAX_BLOCK_SIZE - 400) mp)) u"


section \<open>The search\<close>

record surroundings =
  cancel_at :: "nat \<Rightarrow> bool"
  pause_at :: "nat \<Rightarrow> bool"
  clock_at :: "nat \<Rightarrow> u64 option"

partial_function (option) wait_pause :: "surroundings \<Rightarrow> nat \<Rightarrow> (bool \<times> nat) option" where
  "wait_pause env t =
     (if \<not> pause_at env t then Some (False, t + 1)
      else if cancel_at env (t + 1) then Some (True, t + 2)
      else wait_pause env (t + 2))"

partial_function (option) mine :: "crypto \<Rightarrow> surroundings \<Rightarrow> u64 \<Rightarrow> u64 \<Rightarrow> nat \<Rightarrow> Block \<Rightarrow> Block option option" where
  "mine C env min_timestamp max_timestamp t block =
     (if cancel_at env t then Some None
      else Option.bind (wait_pause env (t + 1)) (\<lambda>(cancelled, t).
        if cancelled then Some None
        else case compute_pow C (header block) of
          Inl _ \<Rightarrow> Some None
        | Inr pow_hash \<Rightarrow>
          if lex_less pow_hash (difficulty_target (header block)) then Some (Some block)
          else case checked_add (nonce (header block)) 1 of
            Some n \<Rightarrow> mine C env min_timestamp max_timestamp t (block\<lparr>header := (header block)\<lparr>nonce := n\<rparr>\<rparr>)
          | None \<Rightarrow>
            (let now = (case clock_at env t of Some n \<Rightarrow> n | None \<Rightarrow> timestamp (header block)) in
             if now > max_timestamp then Some None
             else mine C env min_timestamp max_timestamp (t + 1)
               (block\<lparr>header := (header block)\<lparr>timestamp := max now min_timestamp, nonce := 0\<rparr>\<rparr>))))"

section \<open>The search finds work\<close>

lemma wait_pause_returns:
  assumes "\<forall>k\<ge>T. cancel_at env k"
  shows "\<exists>c t'. wait_pause env t = Some (c, t') \<and> t < t'"
proof (induction "T - t" arbitrary: t rule: less_induct)
  case less
  show ?case
  proof (cases "\<not> pause_at env t \<or> cancel_at env (t + 1)")
    case True
    then show ?thesis by (auto simp: wait_pause.simps[of env t])
  next
    case False
    then have "t + 1 < T" using assms by (meson not_le)
    then obtain c t' where "wait_pause env (t + 2) = Some (c, t')" "t + 2 < t'" using less[of "t + 2"] by (auto simp: diff_less_mono2)
    then show ?thesis using False by (auto simp: wait_pause.simps[of env t])
  qed
qed

definition ground_from :: "u64 \<Rightarrow> u64 \<Rightarrow> Block \<Rightarrow> Block \<Rightarrow> bool" where
  "ground_from lo hi block b \<longleftrightarrow> transactions b = transactions block \<and> (\<exists>n ts.
     header b = (header block)\<lparr>nonce := n, timestamp := ts\<rparr>
     \<and> (ts = timestamp (header block) \<or> lo \<le> ts \<and> ts \<le> max lo hi))"

lemma ground_from_trans:
  assumes "ground_from lo hi a b" "ground_from lo hi b c"
  shows "ground_from lo hi a c"
proof -
  obtain n ts n' ts' where h: "header b = (header a)\<lparr>nonce := n, timestamp := ts\<rparr>" "ts = timestamp (header a) \<or> lo \<le> ts \<and> ts \<le> max lo hi"
    "header c = (header b)\<lparr>nonce := n', timestamp := ts'\<rparr>" "ts' = timestamp (header b) \<or> lo \<le> ts' \<and> ts' \<le> max lo hi"
    using assms unfolding ground_from_def by blast
  have "timestamp (header b) = ts" by (simp add: h(1))
  then have "ts' = timestamp (header a) \<or> lo \<le> ts' \<and> ts' \<le> max lo hi" using h(2,4) by blast
  moreover have "header c = (header a)\<lparr>nonce := n', timestamp := ts'\<rparr>" unfolding h(3) h(1) by simp
  moreover have "transactions c = transactions a" using assms by (simp add: ground_from_def)
  ultimately show ?thesis unfolding ground_from_def by blast
qed

lemma ground_nonce: "ground_from lo hi block (block\<lparr>header := (header block)\<lparr>nonce := n\<rparr>\<rparr>)"
  by (cases "header block") (auto simp: ground_from_def)

lemma ground_time:
  "now \<le> hi \<Longrightarrow> ground_from lo hi block (block\<lparr>header := (header block)\<lparr>timestamp := max now lo, nonce := 0\<rparr>\<rparr>)"
  by (cases "header block") (auto simp: ground_from_def max_def)

lemma ground_same: "ground_from lo hi block block"
  by (cases "header block") (auto simp: ground_from_def)

lemma mine_finds:
  assumes "mine C env lo hi t block = Some r"
  shows "\<forall>b. r = Some b \<longrightarrow> verify_pow C (header b) = Ok True \<and> ground_from lo hi block b"
proof (rule mine.raw_induct[OF _ assms, where P = "\<lambda>C env lo hi t block r. \<forall>b. r = Some b \<longrightarrow> verify_pow C (header b) = Ok True \<and> ground_from lo hi block b"],
    goal_cases)
  case (1 rec C env lo hi t block r)
  note run = 1(2)
  show ?case
  proof (intro allI impI)
    fix b assume b: "r = Some b"
    have ih: "rec C env lo hi k blk = Some (Some b) \<Longrightarrow> ground_from lo hi block blk \<Longrightarrow>
      verify_pow C (header b) = Ok True \<and> ground_from lo hi block b" for k blk
      using 1(1) ground_from_trans by blast
    obtain t' pow where w: "compute_pow C (header block) = Ok pow"
      "(if lex_less pow (difficulty_target (header block)) then Some (Some block)
        else case checked_add (nonce (header block)) 1 of
            Some n \<Rightarrow> rec C env lo hi t' (block\<lparr>header := (header block)\<lparr>nonce := n\<rparr>\<rparr>)
          | None \<Rightarrow>
            (let now = (case clock_at env t' of Some n \<Rightarrow> n | None \<Rightarrow> timestamp (header block)) in
             if now > hi then Some None
             else rec C env lo hi (t' + 1) (block\<lparr>header := (header block)\<lparr>timestamp := max now lo, nonce := 0\<rparr>\<rparr>)))
       = Some (Some b)"
      using run b by (auto simp: bind_eq_Some_conv split: if_splits sum.splits)
    show "verify_pow C (header b) = Ok True \<and> ground_from lo hi block b"
    proof (cases "lex_less pow (difficulty_target (header block))")
      case True
      then show ?thesis using w by (simp add: verify_pow_def ground_same)
    next
      case False
      show ?thesis
      proof (cases "checked_add (nonce (header block)) 1")
        case (Some n)
        then show ?thesis using w(2) False ih ground_nonce by simp
      next
        case None
        define now where "now = (case clock_at env t' of Some n \<Rightarrow> n | None \<Rightarrow> timestamp (header block))"
        have "now \<le> hi" "rec C env lo hi (t' + 1) (block\<lparr>header := (header block)\<lparr>timestamp := max now lo, nonce := 0\<rparr>\<rparr>) = Some (Some b)"
          using w(2) False None unfolding now_def[symmetric] by (auto simp: Let_def split: if_splits)
        then show ?thesis using ih ground_time by blast
      qed
    qed
  qed
qed

lemma mine_returns:
  assumes "\<forall>k\<ge>T. cancel_at env k"
  shows "\<exists>r. mine C env lo hi t block = Some r"
proof (induction "T - t" arbitrary: t block rule: less_induct)
  case less
  show ?case
  proof (cases "cancel_at env t")
    case True
    then show ?thesis by (simp add: mine.simps)
  next
    case False
    then have "t < T" using assms by (meson not_le)
    obtain c t' where w: "wait_pause env (t + 1) = Some (c, t')" "t + 1 < t'" using wait_pause_returns[OF assms] by blast
    have ih: "t < k \<Longrightarrow> \<exists>r. mine C env lo hi k b = Some r" for k b
      using \<open>t < T\<close> by (intro less) (simp add: diff_less_mono2)
    show ?thesis
      using False w ih
      by (subst mine.simps) (auto simp: Let_def split: sum.splits option.splits)
  qed
qed

text \<open>C23. What the search returns is the template with another nonce and possibly a later time: its
  transactions are untouched, its proof of work meets its target, and a changed time lies within the
  window given, so the block still obeys the time rules. If it is cancelled for good, the search
  returns, whatever the pause flag and the clock do.\<close>

theorem mine_sound_and_cancellable:
  "(mine C env lo hi t block = Some (Some b) \<longrightarrow> verify_pow C (header b) = Ok True
     \<and> transactions b = transactions block
     \<and> (\<exists>n ts. header b = (header block)\<lparr>nonce := n, timestamp := ts\<rparr>
         \<and> (ts = timestamp (header block) \<or> lo \<le> ts \<and> ts \<le> max lo hi)))
   \<and> ((\<exists>T. \<forall>k\<ge>T. cancel_at env k) \<longrightarrow> (\<exists>r. mine C env lo hi t block = Some r))"
  using mine_finds[of C env lo hi t block "Some b"] mine_returns[of _ env C lo hi t block]
  unfolding ground_from_def by blast

theorem mine_sound_and_cancellable_witness:
  "\<exists>b r. mine toy_crypto \<lparr>cancel_at = \<lambda>_. False, pause_at = \<lambda>_. False, clock_at = \<lambda>_. None\<rparr> 0 9 0 (reward_block 3 None) = Some (Some b)
     \<and> verify_pow toy_crypto (header b) = Ok True
     \<and> mine toy_crypto \<lparr>cancel_at = \<lambda>_. True, pause_at = \<lambda>_. True, clock_at = \<lambda>_. None\<rparr> 0 9 0 (reward_block 3 None) = Some r"
proof -
  let ?env = "\<lparr>cancel_at = \<lambda>_. False, pause_at = \<lambda>_. False, clock_at = \<lambda>_. None\<rparr> :: surroundings"
  have "lex_less (replicate 32 0) (replicate 32 9)" by code_simp
  then have m: "mine toy_crypto ?env 0 9 0 (reward_block 3 None) = Some (Some (reward_block 3 None))"
    by (simp add: mine.simps wait_pause.simps compute_pow_def Let_def toy_crypto_def reward_block_at_def)
  then have "verify_pow toy_crypto (header (reward_block 3 None)) = Ok True"
    using mine_sound_and_cancellable[of toy_crypto ?env 0 9 0 "reward_block 3 None" "reward_block 3 None"] by blast
  then show ?thesis
    using m mine_sound_and_cancellable[of toy_crypto "\<lparr>cancel_at = \<lambda>_. True, pause_at = \<lambda>_. True, clock_at = \<lambda>_. None\<rparr>" 0 9 0 "reward_block 3 None"]
    by (metis surroundings.select_convs(1))
qed

end
