(* ===== verification/Miner_Template.thy ===== *)
theory Miner_Template
  imports Miner "HOL-Library.Sublist"
begin

text \<open>
  A block template assembled from the pool is a block the node accepts. The trial application of the
  miner works on the set without the coinbase, the validator on the set with it; the two agree on
  every transaction the template keeps.
\<close>


section \<open>What applying a transaction does to the entries\<close>

lemma spend_inputs_entries:
  "spend_inputs C is muts u = (Ok ms, u') \<Longrightarrow>
    input_outpoint ` set is \<subseteq> dom (utxos u) \<and> utxos u' = utxos u |` (- input_outpoint ` set is)"
proof (induction "is" arbitrary: muts u)
  case (Cons i "is")
  let ?op = "input_outpoint i"
  obtain e u1 where r: "UtxoSet_remove C ?op u = (Ok (Some e), u1)"
      "spend_inputs C is (muts @ [Remove ?op e]) u1 = (Ok ms, u')"
    using Cons.prems(1) by (auto simp: result_simps split: option.splits)
  note u1 = remove_Ok_utxos[OF r(1)]
  have ih: "input_outpoint ` set is \<subseteq> dom (utxos u1)" "utxos u' = utxos u1 |` (- input_outpoint ` set is)"
    using Cons.IH[OF r(2)] by blast+
  have "input_outpoint ` set (i # is) \<subseteq> dom (utxos u)" using ih(1) u1 by (auto split: if_splits)
  moreover have "utxos u' = utxos u |` (- input_outpoint ` set (i # is))"
    unfolding ih(2) using u1 by (auto simp: restrict_map_def fun_eq_iff)
  ultimately show ?case by blast
qed (simp add: restrict_map_def)

lemma create_outputs_entries:
  "create_outputs C tx_id h cb idx outs muts u = (Ok ms, u') \<Longrightarrow>
    fst ` set (output_entries tx_id h cb idx outs) \<inter> dom (utxos u) = {}
    \<and> utxos u' = utxos u ++ map_of (rev (output_entries tx_id h cb idx outs))"
proof (induction outs arbitrary: idx muts u)
  case (Cons out outs)
  let ?op = "outpoint tx_id (of_nat idx)" and ?e = "\<lparr>ue_output = out, ue_height = h, ue_is_coinbase = cb\<rparr>"
  obtain u1 where r: "UtxoSet_insert C ?op ?e u = (Ok (), u1)"
      "create_outputs C tx_id h cb (Suc idx) outs (muts @ [Insert ?op ?e]) u1 = (Ok ms, u')"
    using Cons.prems(1) by (auto simp: result_simps Let_def)
  note u1 = insert_Ok_utxos[OF r(1)]
  from Cons.IH[OF r(2)] u1 show ?case by (auto simp: map_add_def fun_eq_iff domIff split: option.splits)
qed simp

lemma apply_Ok_entries:
  assumes "apply_transaction C tx h u = (Ok m, u')"
  obtains i where "compute_tx_id C tx = Ok i"
    "input_outpoint ` set (spent_inputs tx) \<subseteq> dom (utxos u)"
    "tx_outpoints i tx \<inter> (dom (utxos u) - input_outpoint ` set (spent_inputs tx)) = {}"
    "utxos u' = utxos u |` (- input_outpoint ` set (spent_inputs tx)) ++ map_of (rev (tx_entries i h tx))"
proof -
  obtain i where i: "compute_tx_id C tx = Ok i"
    using assms by (auto simp: apply_transaction_def result_simps)
  have "(if is_coinbase tx then (Ok [], u) else spend_inputs C (inputs tx) [] u) = spend_inputs C (spent_inputs tx) [] u"
    by (simp add: spent_inputs_def)
  then obtain ms u1 where r: "spend_inputs C (spent_inputs tx) [] u = (Ok ms, u1)"
      "create_outputs C i h (is_coinbase tx) 0 (outputs tx) ms u1 = (Ok m, u')"
    using assms i by (auto simp: apply_transaction_def result_simps)
  note a = spend_inputs_entries[OF r(1)] and b = create_outputs_entries[OF r(2)]
  have "dom (utxos u1) = dom (utxos u) - input_outpoint ` set (spent_inputs tx)" using a by auto
  then show thesis using that[OF i] a b unfolding tx_entries_outpoints by simp
qed

lemma dom_tx_entries: "dom (map_of (rev (tx_entries i h tx))) = tx_outpoints i tx"
  by (simp add: dom_map_of_conv_image_fst tx_entries_outpoints)


section \<open>The trial and the block agree\<close>

lemma validate_frame:
  assumes "validate_transaction S tx u h = Ok r" "\<forall>i\<in>set (inputs tx). utxos v (input_outpoint i) = utxos u (input_outpoint i)"
  shows "validate_transaction S tx v h = Ok r"
proof -
  obtain fee sc vc where r: "r = (fee, sc, vc)" by (cases r)
  have same: "map (\<lambda>i. utxos v (input_outpoint i)) (inputs tx) = map (\<lambda>i. utxos u (input_outpoint i)) (inputs tx)"
    using assms(2) by simp
  have "valid_spend S tx v h fee sc vc \<longleftrightarrow> valid_spend S tx u h fee sc vc"
    unfolding valid_spend_def same by (rule refl)
  then show ?thesis using assms(1) validate_transaction_sound validate_transaction_complete unfolding r by blast
qed

lemma present_value_eq:
  "map (\<lambda>i. utxos u (input_outpoint i)) is = map Some es \<Longrightarrow> present_value u is = (\<Sum>e\<leftarrow>es. entry_value e)"
proof (induction "is" arbitrary: es)
  case (Cons i "is")
  then obtain e es' where "es = e # es'" "utxos u (input_outpoint i) = Some e"
    "map (\<lambda>i. utxos u (input_outpoint i)) is = map Some es'" by (cases es) auto
  then show ?case using Cons.IH[of es'] by (simp add: present_value_def UtxoSet_get_def entry_value_def)
qed (simp add: present_value_def)

text \<open>The transactions a trial keeps validate and apply one after the other.\<close>

lemma trial_loop_validated:
  assumes "trial_loop S h txs u done skipped f = (done', skipped', f')"
  obtains new u' where "done' = done @ new" "subseq new txs" "apply_validated S h new f u = (Ok f', u')"
  using assms
proof (induction txs arbitrary: u "done" skipped f thesis)
  case Nil
  show ?case by (rule Nil(1)[of "[]" u]) (use Nil(2) in simp_all)
next
  case (Cons tx txs)
  have skip: "thesis" if "trial_loop S h txs u done (skipped @ skipped_id (lib S) tx) f = (done', skipped', f')"
  proof (rule Cons.IH[OF _ that])
    fix new u' assume "done' = done @ new" "subseq new txs" "apply_validated S h new f u = (Ok f', u')"
    then show thesis by (intro Cons.prems(1)) auto
  qed
  show ?case
  proof (cases "validate_transaction S tx u h")
    case (Inl e)
    then show thesis using Cons.prems(2) skip by simp
  next
    case (Inr r)
    then obtain fee sc vc where v: "validate_transaction S tx u h = Ok (fee, sc, vc)" by (cases r) auto
    obtain res u1 where run: "apply_transaction (lib S) tx h u = (res, u1)" by fastforce
    show thesis
    proof (cases res)
      case (Inl e)
      then show thesis using Cons.prems(2) v run skip by (simp add: Let_def)
    next
      case (Inr m)
      obtain es where es: "map (\<lambda>i. utxos u (input_outpoint i)) (inputs tx) = map Some es"
        "(\<Sum>e\<leftarrow>es. entry_value e) = (\<Sum>out\<leftarrow>outputs tx. unat (out_value out)) + fee"
        using valid_spend_value[OF validate_transaction_sound[OF v]] by (elim exE conjE)
      have "present_value u (inputs tx) - sum_outputs (outputs tx) 0 = fee"
        unfolding present_value_eq[OF es(1)] es(2) sum_outputs_eq by simp
      then have "trial_loop S h txs u1 (done @ [tx]) skipped (f + fee) = (done', skipped', f')"
        using Cons.prems(2) v run Inr by (simp add: Let_def)
      from Cons.IH[OF _ this] obtain new u' where
        n: "done' = (done @ [tx]) @ new" "subseq new txs" "apply_validated S h new (f + fee) u1 = (Ok f', u')" by blast
      then show thesis
        using v run Inr by (intro Cons.prems(1)[of "tx # new" u']) simp_all
    qed
  qed
qed

text \<open>The block's set and the trial's set differ only in the outputs of the coinbase.\<close>

definition beside :: "OutPoint set \<Rightarrow> UtxoSet \<Rightarrow> UtxoSet \<Rightarrow> bool" where
  "beside B t c \<longleftrightarrow> (\<forall>op\<in>B. utxos t op = None \<and> utxos c op \<noteq> None) \<and> (\<forall>op. op \<notin> B \<longrightarrow> utxos c op = utxos t op)"

lemma beside_step:
  assumes b: "beside B t c" and t: "apply_transaction C tx h t = (Ok m, t')" and c: "apply_transaction C tx h c = (Ok n, c')"
  shows "beside B t' c'" "tx_outs C tx \<inter> B = {}" "input_outpoint ` set (spent_inputs tx) \<inter> B = {}"
proof -
  let ?ins = "input_outpoint ` set (spent_inputs tx)"
  obtain i where i: "compute_tx_id C tx = Ok i" "?ins \<subseteq> dom (utxos t)"
    "utxos t' = utxos t |` (- ?ins) ++ map_of (rev (tx_entries i h tx))" using apply_Ok_entries[OF t] by metis
  have c': "tx_outpoints i tx \<inter> (dom (utxos c) - ?ins) = {}"
    "utxos c' = utxos c |` (- ?ins) ++ map_of (rev (tx_entries i h tx))"
    using apply_Ok_entries[OF c] i(1) by (metis Inr_inject)+
  show ib: "?ins \<inter> B = {}" using b i(2) unfolding beside_def by fastforce
  have ob: "tx_outpoints i tx \<inter> B = {}" using b c'(1) ib unfolding beside_def by fastforce
  then show "tx_outs C tx \<inter> B = {}" by (simp add: tx_outs_def i(1))
  have no: "map_of (rev (tx_entries i h tx)) op = None" if "op \<in> B" for op
    using that ob dom_tx_entries[of i h tx] by blast
  show "beside B t' c'"
    unfolding beside_def
  proof (intro conjI ballI allI impI)
    fix op assume "op \<in> B"
    then show "utxos t' op = None" "utxos c' op \<noteq> None"
      using b no[of op] ib unfolding i(3) c'(2) beside_def by (auto simp: map_add_def restrict_map_def split: option.splits)
  next
    fix op assume "op \<notin> B"
    then have "utxos c op = utxos t op" using b unfolding beside_def by blast
    then show "utxos c' op = utxos t' op"
      unfolding i(3) c'(2) by (simp add: map_add_def restrict_map_def split: option.splits)
  qed
qed

lemma rebuild_validates:
  assumes "beside B t c" "apply_validated S h txs f t = (Ok f', t')" "rebuild_loop (lib S) h txs c = Some c'"
    "\<forall>tx\<in>set txs. \<not> is_coinbase tx"
  shows "apply_validated S h txs f c = (Ok f', c') \<and> (\<forall>tx\<in>set txs. tx_outs (lib S) tx \<inter> B = {})"
  using assms
proof (induction txs arbitrary: t c f)
  case (Cons tx txs)
  obtain fee sc vc m t1 where t: "validate_transaction S tx t h = Ok (fee, sc, vc)"
    "apply_transaction (lib S) tx h t = (Ok m, t1)" "apply_validated S h txs (f + fee) t1 = (Ok f', t')"
    using Cons.prems(2) by (auto simp: sbind_def split: sum.splits prod.splits)
  obtain n c1 where c: "apply_transaction (lib S) tx h c = (Ok n, c1)" "rebuild_loop (lib S) h txs c1 = Some c'"
    using Cons.prems(3) by (auto split: sum.splits prod.splits)
  note st = beside_step[OF Cons.prems(1) t(2) c(1)]
  have "spent_inputs tx = inputs tx" using Cons.prems(4) by (simp add: spent_inputs_def)
  then have "\<forall>i\<in>set (inputs tx). utxos c (input_outpoint i) = utxos t (input_outpoint i)"
    using st(3) Cons.prems(1) unfolding beside_def by (metis IntI emptyE imageI)
  from validate_frame[OF t(1) this] have v: "validate_transaction S tx c h = Ok (fee, sc, vc)" .
  show ?case using Cons.IH[OF st(1) t(3) c(2)] Cons.prems(4) v c(1) st(2) by simp
qed simp


text \<open>The bytes of undo metadata a list of transactions needs when applied in turn: what the
  validator caps at 16 MiB.\<close>

fun undo_size :: "crypto \<Rightarrow> u64 \<Rightarrow> Transaction list \<Rightarrow> UtxoSet \<Rightarrow> nat" where
  "undo_size C h [] u = 0"
| "undo_size C h (tx # txs) u =
     (\<Sum>i\<leftarrow>inputs tx. case utxos u (input_outpoint i) of Some e \<Rightarrow> entry_bytes e | None \<Rightarrow> 0)
     + undo_size C h txs (snd (apply_transaction C tx h u))"

lemma snapshot_fits:
  assumes "n + (\<Sum>i\<leftarrow>is. case utxos u (input_outpoint i) of Some e \<Rightarrow> entry_bytes e | None \<Rightarrow> 0) \<le> MAX_SPENT_UTXOS_SIZE"
  shows "\<exists>sp'. snapshot_inputs u is sp n = Ok (sp', n + (\<Sum>i\<leftarrow>is. case utxos u (input_outpoint i) of Some e \<Rightarrow> entry_bytes e | None \<Rightarrow> 0))"
  using assms
proof (induction "is" arbitrary: sp n)
  case (Cons i "is")
  show ?case
  proof (cases "utxos u (input_outpoint i)")
    case None
    then show ?thesis using Cons.IH[of n sp] Cons.prems by (simp add: UtxoSet_get_def)
  next
    case (Some e)
    then show ?thesis
      using Cons.IH[of "n + entry_bytes e" "sp @ [(input_outpoint i, e)]"] Cons.prems
      by (simp add: UtxoSet_get_def Let_def add.assoc)
  qed
qed simp

lemma validated_atomic:
  assumes "apply_validated S h txs f u = (Ok f', u')" "h = height (header block)" "total_fees g = f"
    "spent_utxos_bytes g + undo_size (lib S) h txs u \<le> MAX_SPENT_UTXOS_SIZE"
  shows "\<exists>g'. apply_atomic S block txs g u = (Ok g', u') \<and> total_fees g' = f'"
  using assms(1,3,4)
proof (induction txs arbitrary: f u g)
  case (Cons tx txs)
  obtain fee sc vc m u1 where t: "validate_transaction S tx u h = Ok (fee, sc, vc)"
    "apply_transaction (lib S) tx h u = (Ok m, u1)" "apply_validated S h txs (f + fee) u1 = (Ok f', u')"
    using Cons.prems(1) by (auto simp: sbind_def split: sum.splits prod.splits)
  let ?n = "spent_utxos_bytes g + (\<Sum>i\<leftarrow>inputs tx. case utxos u (input_outpoint i) of Some e \<Rightarrow> entry_bytes e | None \<Rightarrow> 0)"
  have "?n + undo_size (lib S) h txs u1 \<le> MAX_SPENT_UTXOS_SIZE" using Cons.prems(3) t(2) by (simp add: add.assoc)
  then obtain sp where sp: "snapshot_inputs u (inputs tx) (spent_utxos g) (spent_utxos_bytes g) = Ok (sp, ?n)"
    using snapshot_fits[of "spent_utxos_bytes g" u "inputs tx" "spent_utxos g"] by auto
  let ?g = "g\<lparr>spent_utxos := sp, spent_utxos_bytes := ?n, total_fees := total_fees g + fee,
      mutations := mutations g @ m, applied_count := applied_count g + 1\<rparr>"
  have "apply_atomic S block (tx # txs) g u = apply_atomic S block txs ?g u1"
    using t(1,2) sp assms(2) by (simp add: Let_def)
  moreover have "\<exists>g'. apply_atomic S block txs ?g u1 = (Ok g', u') \<and> total_fees g' = f'"
    using Cons.prems(2) \<open>?n + undo_size (lib S) h txs u1 \<le> MAX_SPENT_UTXOS_SIZE\<close> by (intro Cons.IH[OF t(3)]) simp_all
  ultimately show ?case by simp
qed simp


section \<open>The coinbase\<close>

lemma build_coinbase_valid:
  assumes cb: "build_coinbase (lib S) pubkey h fees = Some coinbase" and d: "digest32 (lib S)"
    and script: "script_ok (pubkey_hash_from_key (lib S) pubkey)"
  obtains reward where "block_reward h = Some reward" "unat reward + unat fees < 2 ^ 64"
    "validate_coinbase S coinbase h (reward + fees) = Ok ()" "is_coinbase coinbase" "outputs coinbase \<noteq> []"
    "\<exists>b. Transaction_serialize coinbase = Ok b \<and> length b = 87"
proof -
  obtain reward where r: "block_reward h = Some reward" "unat h < 2 ^ 32" "checked_add reward fees = Some (reward + fees)"
    and c: "coinbase = \<lparr>inputs = [\<lparr>prev_tx_id = ZERO, output_index = ucast h\<rparr>],
              outputs = [new_p2pkh (lib S) (reward + fees) pubkey], witnesses = [\<lparr>witness = [], redeemer = None\<rparr>]\<rparr>"
    using cb by (auto simp: build_coinbase_def bind_eq_Some_conv checked_add_def split: if_splits)
  have sum: "unat (reward + fees) = unat reward + unat fees" "unat reward + unat fees < 2 ^ 64"
    using r(3) unat_bound[of "reward + fees"] by (auto simp: checked_add_Some)
  have "200 \<le> unat (reward + fees)" using reward_Some(2)[of h] r(1) sum(1) by simp
  then have dust: "DUST_THRESHOLD \<le> unat (reward + fees)" by (simp add: DUST_THRESHOLD_def)
  have len: "length (pubkey_hash_from_key (lib S) pubkey) = 32"
    using d by (simp add: pubkey_hash_from_key_def domain_hash_def digest32_def)
  have ser: "\<exists>b. Transaction_serialize coinbase = Ok b \<and> length b = 87"
    using len by (simp add: c new_p2pkh_def Transaction_serialize_def serialize_header_def serialize_body_def TxOutput_serialize_def
        TxWitness_serialize_def serialize_varbytes_def serialize_opt_varbytes_def serialize_opt_hash_def TxInput_serialize_def ZERO_def)
  then have "check_tx_size coinbase = Ok ()" by (auto simp: check_tx_size_def constants)
  moreover have "check_output_script 0 (new_p2pkh (lib S) (reward + fees) pubkey) = Ok ()"
    using script by (simp add: check_output_script_Ok new_p2pkh_def)
  ultimately have "validate_coinbase S coinbase h (reward + fees) = Ok ()"
    using r(2) dust unat_bound[of "reward + fees"] unfolding validate_coinbase_def c
    by (simp add: height_index_def check_coinbase_witness_def new_p2pkh_def
        check_coinbase_output_def check_dust_def check_datum_size_def check_datum_hash_def U64_MAX_def not_less)
  then show thesis using that[OF r(1) sum(2)] ser by (simp add: c is_coinbase_def)
qed



section \<open>The template is a valid block\<close>

lemma template_parts:
  assumes "build_template_from_txs S pubkey h prev target time txs u = Some (block, skipped)"
  obtains new f t coinbase uc root where
    "apply_validated S h new 0 u = (Ok f, t)" "subseq new txs"
    "build_coinbase (lib S) pubkey h (of_nat (min f U64_MAX)) = Some coinbase"
    "rebuild_loop (lib S) h (coinbase # new) u = Some uc" "compute_tx_root (lib S) (coinbase # new) = Ok root"
    "transactions block = coinbase # new"
    "header block = \<lparr>version = VERSION, height = h, prev_block_id = prev, timestamp = time,
       difficulty_target = target, nonce = 0, tx_root = root, state_root = UtxoSet_state_root uc\<rparr>"
proof -
  obtain new sk f where tr: "trial_loop S h txs u [] [] 0 = (new, sk, f)" by (metis prod_cases3)
  obtain t where t: "subseq new txs" "apply_validated S h new 0 u = (Ok f, t)"
    by (rule trial_loop_validated[OF tr]) auto
  show thesis
    using assms that[OF t(2,1)] unfolding build_template_from_txs_def tr
    by (auto simp: Let_def bind_eq_Some_conv ok_Some_iff)
qed

lemma template_applies:
  assumes tmpl: "build_template_from_txs S pubkey h prev target time txs u = Some (block, skipped)"
    and d: "digest32 (lib S)" and script: "script_ok (pubkey_hash_from_key (lib S) pubkey)"
    and ncb: "\<forall>tx\<in>set txs. \<not> is_coinbase tx"
    and undo: "undo_size (lib S) h (tl (transactions block)) (snd (apply_transaction (lib S) (hd (transactions block)) h u))
      \<le> MAX_SPENT_UTXOS_SIZE"
  obtains fees muts u' coinbase new where "validate_and_apply_block_transactions_atomic S block u = (Ok (fees, muts), u')"
    "UtxoSet_state_root u' = state_root (header block)"
    "transactions block = coinbase # new" "subseq new txs" "is_coinbase coinbase"
    "\<exists>b. Transaction_serialize coinbase = Ok b \<and> length b = 87"
    "\<forall>tx\<in>set new. compute_tx_id (lib S) tx \<noteq> compute_tx_id (lib S) coinbase"
    "\<forall>tx\<in>set new. \<exists>v r. validate_transaction S tx v h = Ok r"
proof -
  obtain new f t coinbase uc root where p: "apply_validated S h new 0 u = (Ok f, t)" "subseq new txs"
    "build_coinbase (lib S) pubkey h (of_nat (min f U64_MAX)) = Some coinbase"
    "rebuild_loop (lib S) h (coinbase # new) u = Some uc" "compute_tx_root (lib S) (coinbase # new) = Ok root"
    "transactions block = coinbase # new"
    "header block = \<lparr>version = VERSION, height = h, prev_block_id = prev, timestamp = time,
       difficulty_target = target, nonce = 0, tx_root = root, state_root = UtxoSet_state_root uc\<rparr>"
    by (rule template_parts[OF tmpl])
  obtain reward where r: "block_reward h = Some reward" "unat reward + unat (of_nat (min f U64_MAX) :: u64) < 2 ^ 64"
    "validate_coinbase S coinbase h (reward + of_nat (min f U64_MAX)) = Ok ()" "is_coinbase coinbase" "outputs coinbase \<noteq> []"
    "\<exists>b. Transaction_serialize coinbase = Ok b \<and> length b = 87"
    by (rule build_coinbase_valid[OF p(3) d script])
  have "unat (of_nat (min f U64_MAX) :: u64) = min f U64_MAX" by (simp add: unat_of_nat U64_MAX_def)
  then have f: "f \<le> U64_MAX" "min f U64_MAX = f" "unat (of_nat f :: u64) = f"
    using r(1,2) reward_Some(2)[of h] by (auto simp: U64_MAX_def)
  obtain m c where c: "apply_transaction (lib S) coinbase h u = (Ok m, c)" "rebuild_loop (lib S) h new c = Some uc"
    using p(4) by (auto split: prod.splits sum.splits)
  have ns: "\<forall>tx\<in>set new. \<not> is_coinbase tx" using ncb p(2) by (auto dest: list_emb_set)
  let ?B = "tx_outs (lib S) coinbase"
  obtain i where i: "compute_tx_id (lib S) coinbase = Ok i" "tx_outpoints i coinbase \<inter> dom (utxos u) = {}"
    "utxos c = utxos u ++ map_of (rev (tx_entries i h coinbase))"
    using apply_Ok_entries[OF c(1)] r(4) by (metis (no_types, lifting) Diff_empty empty_set image_empty spent_inputs_def
        restrict_map_def ComplI empty_iff ext)
  have "beside ?B u c"
    unfolding beside_def tx_outs_def i(1) i(3) sum.case
    using i(2) dom_tx_entries[of i h coinbase] by (auto simp: map_add_def split: option.splits)
  from rebuild_validates[OF this p(1) c(2) ns]
  have v: "apply_validated S h new 0 c = (Ok f, uc)" "\<forall>tx\<in>set new. tx_outs (lib S) tx \<inter> ?B = {}" by blast+
  let ?g = "\<lparr>mutations = m, spent_utxos = [], spent_utxos_bytes = 0, applied_count = 1, total_fees = 0\<rparr>"
  obtain g where g: "apply_atomic S block new ?g c = (Ok g, uc)" "total_fees g = f"
    using validated_atomic[OF v(1), of block ?g] undo p(6,7) c(1) by auto
  have "expected_coinbase h f = Ok (reward + of_nat f)"
    using r(1,2) f(2,3) by (simp add: expected_coinbase_def checked_add_def)
  then have atomic: "validate_and_apply_block_transactions_atomic S block u = (Ok (f, mutations g), uc)"
    using p(6,7) c(1) g f(1) r(3)[unfolded f(2)]
    by (simp add: validate_and_apply_block_transactions_atomic_def apply_coinbase_def Let_def)
  have each: "\<forall>tx\<in>set new. \<exists>v r. validate_transaction S tx v h = Ok r"
    using apply_validated_each[OF p(1)] by blast
  have "compute_tx_id (lib S) tx \<noteq> compute_tx_id (lib S) coinbase" if tx: "tx \<in> set new" for tx
  proof
    assume "compute_tx_id (lib S) tx = compute_tx_id (lib S) coinbase"
    then have "tx_outpoints i tx \<inter> tx_outpoints i coinbase = {}" using bspec[OF v(2) tx] i(1) by (simp add: tx_outs_def)
    moreover have "outputs tx \<noteq> []" using each tx by (auto simp: validate_transaction_def result_simps)
    ultimately show False using r(5) unfolding tx_outpoints_def by (fastforce simp: set_eq_iff image_iff)
  qed
  then show thesis using that[OF atomic _ p(6,2) r(4,6) _ each] p(7) by simp
qed


lemma distinct_concat_map:
  "distinct ids \<Longrightarrow> (\<And>i. i \<in> set ids \<Longrightarrow> distinct (f i)) \<Longrightarrow>
    (\<And>i j. i \<in> set ids \<Longrightarrow> j \<in> set ids \<Longrightarrow> i \<noteq> j \<Longrightarrow> set (f i) \<inter> set (f j) = {}) \<Longrightarrow> distinct (concat (map f ids))"
  by (induction ids) auto

lemma subseq_sum: "subseq xs ys \<Longrightarrow> (\<Sum>x\<leftarrow>xs. f x :: nat) \<le> (\<Sum>y\<leftarrow>ys. f y)"
  by (induction rule: list_emb.induct) auto

lemma enc_loop_length:
  "\<forall>tx\<in>set txs. \<exists>b. Transaction_serialize tx = Ok b \<Longrightarrow>
    \<exists>bs. enc_loop Transaction_serialize txs = Ok bs \<and> length bs = (\<Sum>tx\<leftarrow>txs. tx_bytes tx)"
  by (induction txs) (auto simp: tx_bytes_eq)

text \<open>The transactions of a template drawn from a pool, with their ids.\<close>

lemma drawn_from_pool:
  assumes "pool_ok C mp" "subseq new (fst (select_transactions n mp))"
  obtains ids where "new = map (pool_tx mp) ids" "distinct ids" "set ids \<subseteq> dom (mp_entries mp)" "(\<Sum>tx\<leftarrow>new. tx_bytes tx) \<le> n"
proof -
  have inv: "pool_inv C mp" using assms(1) by (simp add: pool_ok_def)
  let ?sz = "\<lambda>i. tx_bytes (pool_tx mp i)" and ?fee = "\<lambda>i. me_fee (the (mp_entries mp i))"
  define g where "g = greedy ?sz ?fee n (by_rank mp) 0 0"
  note br = by_rank_spec[OF inv]
  have sel: "fst (select_transactions n mp) = map (pool_tx mp) g"
    using select_transactions_eq[OF assms(1), of n] by (simp add: g_def Let_def)
  obtain N where N: "new = nths (map (pool_tx mp) g) N" using assms(2) unfolding sel subseq_conv_nths by blast
  have "distinct g" unfolding g_def by (rule sorted_wrt_distinct[OF greedy_sorted[OF br(2)]]) simp
  moreover have "set g \<subseteq> dom (mp_entries mp)" using greedy_subset[of ?sz ?fee n "by_rank mp" 0 0] br(1) by (simp add: g_def)
  moreover have "(\<Sum>tx\<leftarrow>new. tx_bytes tx) \<le> n"
    using subseq_sum[OF assms(2), of tx_bytes] greedy_bounds[of 0 n 0 ?sz ?fee "by_rank mp"]
    by (simp add: sel comp_def flip: g_def)
  ultimately show thesis
    using set_nths_subset[of g N] distinct_nthsI[of g N] by (intro that[of "nths g N"]) (auto simp: N nths_map)
qed

lemma template_body:
  assumes ok: "pool_ok C mp" and sub: "subseq new (fst (select_transactions (MAX_BLOCK_SIZE - 400) mp))"
    and b: "transactions block = coinbase # new" "wf_header (header block)" "compute_tx_root C (coinbase # new) = Ok (tx_root (header block))"
    and cb: "is_coinbase coinbase" "Transaction_serialize coinbase = Ok cbytes" "length cbytes = 87"
    and other: "\<forall>tx\<in>set new. compute_tx_id C tx \<noteq> compute_tx_id C coinbase" "compute_tx_id C coinbase = Ok i"
    and valid: "\<forall>tx\<in>set new. \<exists>v r. validate_transaction S tx v h = Ok r"
  shows "body_rules C block"
proof -
  obtain ids where ids: "new = map (pool_tx mp) ids" "distinct ids" "set ids \<subseteq> dom (mp_entries mp)"
    "(\<Sum>tx\<leftarrow>new. tx_bytes tx) \<le> MAX_BLOCK_SIZE - 400" by (rule drawn_from_pool[OF ok sub])
  have eok: "entries_ok C (mp_entries mp)" using ok by (simp add: pool_ok_def pool_defs)
  have e: "entry_ok C j (the (mp_entries mp j))" if "j \<in> set ids" for j
    using that ids(3) eok unfolding entries_ok_def by (metis domD option.sel subsetD)
  have tid: "compute_tx_id C (pool_tx mp j) = Ok j" if "j \<in> set ids" for j
    using e[OF that] by (simp add: pool_tx_def entry_ok_def)
  then have "i \<notin> set ids" using other by (auto simp: ids(1))
  then have tids: "map (compute_tx_id C) (coinbase # new) = map Ok (i # ids)" "distinct (i # ids)"
    using other(2) ids(2) tid by (simp_all add: ids(1))
  have ins: "distinct (concat (map (\<lambda>tx. map input_outpoint (inputs tx)) new))"
    unfolding ids(1) map_map comp_def
  proof (rule distinct_concat_map[OF ids(2)])
    fix j assume "j \<in> set ids"
    then obtain v r where "validate_transaction S (pool_tx mp j) v h = Ok r" using valid ids(1) by auto
    then show "distinct (map input_outpoint (inputs (pool_tx mp j)))"
      by (cases r) (auto dest!: validate_transaction_sound simp: valid_spend_def)
  next
    fix j k assume "j \<in> set ids" "k \<in> set ids" "j \<noteq> k"
    then show "set (map input_outpoint (inputs (pool_tx mp j))) \<inter> set (map input_outpoint (inputs (pool_tx mp k))) = {}"
      using ids(3) eok unfolding entries_ok_def pool_tx_def spends_def by (metis domD option.sel subsetD)
  qed
  obtain bs where bs: "enc_loop Transaction_serialize new = Ok bs" "length bs = (\<Sum>tx\<leftarrow>new. tx_bytes tx)"
    using enc_loop_length[of new] e by (auto simp: ids(1) pool_tx_def entry_ok_def)
  have "Block_serialize block = Ok (BlockHeader_serialize (header block) @ le32 (of_nat (length (transactions block))) @ cbytes @ bs)"
    using b(1) cb(2) bs(1) by (simp add: Block_serialize_def)
  moreover have "length (BlockHeader_serialize (header block) @ le32 (of_nat (length (transactions block))) @ cbytes @ bs) \<le> MAX_BLOCK_SIZE"
    using length_header[OF b(2)] cb(3) bs(2) ids(4) by (simp add: HEADER_SIZE_def MAX_BLOCK_SIZE_def)
  moreover have "\<exists>wids. map (wtx_id C) (coinbase # new) = map Ok wids \<and> merkle_root C DS_TXROOT wids = tx_root (header block)"
    using b(3) unfolding compute_tx_root_def result_simps wtx_ids_Ok sum.inject .
  then obtain wids where "map (wtx_id C) (coinbase # new) = map Ok wids" "tx_root (header block) = merkle_root C DS_TXROOT wids"
    by (elim exE conjE) (rule that[OF _ sym])
  moreover have "\<forall>tx\<in>set new. \<not> is_coinbase tx" using e by (simp add: ids(1) pool_tx_def entry_ok_def)
  ultimately show ?thesis using b(1) cb(1) tids ins \<open>map (wtx_id C) (coinbase # new) = map Ok wids\<close>
      \<open>tx_root (header block) = merkle_root C DS_TXROOT wids\<close>
    unfolding body_rules_def by (intro exI conjI)
qed

lemma mined_template:
  assumes hist: "pool_ok (lib S) mp" and d: "digest32 (lib S)"
    and script: "script_ok (pubkey_hash_from_key (lib S) pubkey)"
    and tmpl: "build_template S pubkey h prev target time mp u = Some (block, skipped)" and wf: "wf_header (header block)"
    and undo: "undo_size (lib S) h (tl (transactions block)) (snd (apply_transaction (lib S) (hd (transactions block)) h u))
      \<le> MAX_SPENT_UTXOS_SIZE"
  shows "body_rules (lib S) block"
    "\<exists>fees muts u'. validate_and_apply_block_transactions_atomic S block u = (Ok (fees, muts), u')
      \<and> UtxoSet_state_root u' = state_root (header block)"
proof -
  let ?sel = "fst (select_transactions (MAX_BLOCK_SIZE - 400) mp)"
  note tm = tmpl[unfolded build_template_def]
  obtain ids where ids: "?sel = map (pool_tx mp) ids" "set ids \<subseteq> dom (mp_entries mp)"
    by (rule drawn_from_pool[OF hist subseq_order.order_refl])
  have "\<not> is_coinbase (pool_tx mp j)" if "j \<in> set ids" for j
    using that ids(2) hist unfolding pool_ok_def pool_defs entries_ok_def entry_ok_def pool_tx_def
    by (metis domD option.sel subsetD)
  then have ncb: "\<forall>tx\<in>set ?sel. \<not> is_coinbase tx" by (auto simp: ids(1))
  obtain fees muts u' coinbase new where a: "validate_and_apply_block_transactions_atomic S block u = (Ok (fees, muts), u')"
    "UtxoSet_state_root u' = state_root (header block)"
    "transactions block = coinbase # new" "subseq new ?sel" "is_coinbase coinbase"
    "\<exists>b. Transaction_serialize coinbase = Ok b \<and> length b = 87"
    "\<forall>tx\<in>set new. compute_tx_id (lib S) tx \<noteq> compute_tx_id (lib S) coinbase"
    "\<forall>tx\<in>set new. \<exists>v r. validate_transaction S tx v h = Ok r"
    by (rule template_applies[OF tm d script ncb undo])
  have root: "compute_tx_root (lib S) (coinbase # new) = Ok (tx_root (header block))"
    by (rule template_parts[OF tm]) (use a(3) in simp)
  obtain i where "compute_tx_id (lib S) coinbase = Ok i"
    using a(6) by (auto simp: compute_tx_id_def signing_bytes_def Transaction_serialize_def result_simps)
  then show "body_rules (lib S) block"
    using a(6) by (elim exE conjE) (rule template_body[OF hist a(4,3) wf root a(5) _ _ a(7) _ a(8)])
  show "\<exists>fees muts u'. validate_and_apply_block_transactions_atomic S block u = (Ok (fees, muts), u')
      \<and> UtxoSet_state_root u' = state_root (header block)" using a(1,2) by blast
qed

text \<open>C8. A block template assembled from the pool is a block its node accepts: for the right parent, target
  and time it passes the header check (all but the work), its transactions apply atomically, and the
  state root in its header is the root of the resulting set. The undo metadata must fit the cap of
  the validator, which assembly does not check.\<close>

theorem mined_template_accepted:
  assumes "pool_history S keys mp" "digest32 (lib S)" "script_ok (pubkey_hash_from_key (lib S) pubkey)"
    and "build_template S pubkey h prev target time mp u = Some (block, skipped)" "wf_header (header block)"
    and "undo_size (lib S) h (tl (transactions block)) (snd (apply_transaction (lib S) (hd (transactions block)) h u))
      \<le> MAX_SPENT_UTXOS_SIZE"
    and "parent_rules (lib S) (header block) parent" "time_rules (header block) parent ts clock"
  shows "validate_block_header_skip_pow S block parent ts target clock = Ok ()
    \<and> (\<exists>fees muts u'. validate_and_apply_block_transactions_atomic S block u = (Ok (fees, muts), u')
        \<and> UtxoSet_state_root u' = state_root (header block))"
proof
  note m = mined_template[OF pool_history_ok[OF assms(1)] assms(2-6)]
  show "\<exists>fees muts u'. validate_and_apply_block_transactions_atomic S block u = (Ok (fees, muts), u')
        \<and> UtxoSet_state_root u' = state_root (header block)" by (rule m(2))
  have "version (header block) = VERSION" "difficulty_target (header block) = target"
    by (rule template_parts[OF assms(4)[unfolded build_template_def]]; simp)+
  then show "validate_block_header_skip_pow S block parent ts target clock = Ok ()"
    using m(1) assms(7,8)
    by (simp add: validate_block_header_skip_pow_def validate_block_header_inner_def Let_def result_simps check_parent_Ok
        check_timestamp_Ok check_block_body_Ok)
qed



text \<open>A template over the sample payment.\<close>

abbreviation miner_key :: bytes where "miner_key \<equiv> replicate 32 1"

lemma miner_script: "pubkey_hash_from_key toy_crypto miner_key = replicate 32 1"
  by (simp add: pubkey_hash_from_key_def domain_hash_def domain_preimage_def toy_crypto_def)

lemma pay_tid: "compute_tx_id toy_crypto pay_tx = Ok ([0, 0] @ replicate 30 2)"
proof -
  obtain tid where t: "compute_tx_id toy_crypto pay_tx = Ok tid" using pay_id by blast
  have "tid = [0, 0] @ take 30 (rev (replicate 32 2))" using t unfolding pay_tx_def by (rule toy_id_eq) simp_all
  then show ?thesis using t by simp
qed

definition mined_coinbase :: Transaction where
  "mined_coinbase = \<lparr>inputs = [\<lparr>prev_tx_id = ZERO, output_index = 3\<rparr>],
     outputs = [\<lparr>out_value = the (block_reward 3) + 200, out_script = replicate 32 1, datum = None, datum_hash = None\<rparr>],
     witnesses = [\<lparr>witness = [], redeemer = None\<rparr>]\<rparr>"

lemma mined_cid: "compute_tx_id toy_crypto mined_coinbase = Ok ([0, 0] @ replicate 30 1)"
proof -
  obtain tid where t: "compute_tx_id toy_crypto mined_coinbase = Ok tid"
    by (simp add: mined_coinbase_def compute_tx_id_def signing_bytes_def serialize_header_def
      serialize_body_def TxOutput_serialize_def serialize_varbytes_def
      serialize_opt_varbytes_def serialize_opt_hash_def TxInput_serialize_def ZERO_def)
  have "tid = [0, 0] @ take 30 (rev (replicate 32 1))" using t unfolding mined_coinbase_def by (rule toy_id_eq) (simp_all add: ZERO_def)
  then show ?thesis using t by simp
qed

abbreviation mined_ops :: "OutPoint set" where
  "mined_ops \<equiv> {pay_op, outpoint ([0, 0] @ replicate 30 2) 0, outpoint ([0, 0] @ replicate 30 1) 0}"

lemma mined_no_collision: "no_collision toy_crypto mined_ops"
proof -
  have "to_le 4 0 = [0, 0, 0, 0]" by code_simp
  then have "okey toy_crypto (outpoint i 0) = [0, 0, 0, 0] @ take 28 (rev i)" if "length i = 32" for i
    using that by (simp add: okey_def leaf_key_def outpoint_def domain_hash_def domain_preimage_def toy_crypto_def le32_def)
  then show ?thesis by (auto simp: no_collision_def toy_digest32 inj_on_def outpoint_def)
qed

lemma apply_ready:
  assumes "ready C D tx i u" "distinct (map input_outpoint (spent_inputs tx))" "input_outpoint ` set (spent_inputs tx) \<subseteq> dom (utxos u)"
    "tx_outpoints i tx \<inter> dom (utxos u) = {}"
  obtains m u' where "apply_transaction C tx h u = (Ok m, u')" "utxo_inv C D u'"
    "length (arena (smt u')) \<le> length (arena (smt u)) + 4 * length (outputs tx)"
    "utxos u' = utxos u |` (- input_outpoint ` set (spent_inputs tx)) ++ map_of (rev (tx_entries i h tx))"
proof -
  obtain r u' where run: "apply_transaction C tx h u = (r, u')" by fastforce
  then obtain m where m: "r = Ok m" "utxo_inv C D u'" "length (arena (smt u')) \<le> length (arena (smt u)) + 4 * length (outputs tx)"
    using apply_transaction_spec[OF assms(1), of h] assms(2-4) by auto
  have "compute_tx_id C tx = Ok i" using assms(1) by (simp add: ready_def)
  then show thesis using that[of m u'] run m apply_Ok_entries[of C tx h u m u'] by (metis Inr_inject)
qed


lemma pay_selected:
  assumes "pool_ok toy_crypto mp" "mp_entries mp = [tid \<mapsto> new_entry pay_tx tid 200 6221 pay_set]"
  shows "fst (select_transactions (MAX_BLOCK_SIZE - 400) mp) = [pay_tx]"
proof -
  have inv: "pool_inv toy_crypto mp" using assms(1) by (simp add: pool_ok_def)
  have "distinct (by_rank mp)" using by_rank_spec(2)[OF inv] by (rule sorted_wrt_distinct) simp
  moreover have "set (by_rank mp) = {tid}" using by_rank_spec(1)[OF inv] assms(2) by simp
  ultimately have r: "by_rank mp = [tid]"
    by (cases "by_rank mp") (auto simp: subset_singleton_iff insert_eq_iff)
  obtain b where "Transaction_serialize pay_tx = Ok b" "length b = 183" using pay_bytes by blast
  then have "tx_bytes pay_tx = 183" by (simp add: tx_bytes_eq)
  then show ?thesis
    unfolding select_transactions_eq[OF assms(1)] r
    by (simp add: assms(2) pool_tx_def new_entry_def MAX_BLOCK_SIZE_def U64_MAX_def)
qed

lemma pay_spent: "spent_inputs pay_tx = inputs pay_tx" "input_outpoint ` set (inputs pay_tx) = {pay_op}" "distinct (map input_outpoint (inputs pay_tx))"
  "tx_outpoints i pay_tx = {outpoint i 0}" "length (inputs pay_tx) = 1" "length (outputs pay_tx) = 1"
  using pay_not_coinbase by (simp_all add: spent_inputs_def pay_tx_def input_outpoint_def tx_outpoints_def)

lemma mined_spent: "spent_inputs mined_coinbase = []" "tx_outpoints i mined_coinbase = {outpoint i 0}"
  "length (inputs mined_coinbase) = 1" "length (outputs mined_coinbase) = 1" "is_coinbase mined_coinbase"
  by (simp_all add: spent_inputs_def is_coinbase_def mined_coinbase_def tx_outpoints_def)

lemma sample_ids_differ: "replicate 32 (7 :: byte) \<noteq> 0 # 0 # replicate 30 2" "replicate 32 (7 :: byte) \<noteq> 0 # 0 # replicate 30 1"
  "(0 :: byte) # 0 # replicate 30 2 \<noteq> 0 # 0 # replicate 30 1"
  by code_simp+

lemma outpoint_eq: "outpoint i k = outpoint j l \<longleftrightarrow> i = j \<and> k = l"
  by (simp add: outpoint_def)

lemma utxo_root_32:
  assumes "utxo_inv C D u" "digest32 C" shows "length (UtxoSet_state_root u) = 32"
proof -
  obtain L where "root_hash (smt u) = node_hash C 0 L" using assms(1) by (auto simp: utxo_inv_def smt_rep_def)
  then show ?thesis
    using node_hash_step[of 0 C L] assms(2) by (simp add: UtxoSet_state_root_def digest32_def)
qed

lemma mined_rebuild:
  "\<exists>m u. apply_transaction toy_crypto pay_tx 3 pay_set = (Ok m, u)"
  "\<exists>u. rebuild_loop toy_crypto 3 [mined_coinbase, pay_tx] pay_set = Some u \<and> length (UtxoSet_state_root u) = 32"
  "utxos (snd (apply_transaction toy_crypto mined_coinbase 3 pay_set)) pay_op = Some pay_entry"
proof -
  note ps = pay_set_ok[of mined_ops, OF _ mined_no_collision]
  have rp: "ready toy_crypto mined_ops pay_tx ([0, 0] @ replicate 30 2) u" if "utxo_inv toy_crypto mined_ops u" "length (arena (smt u)) \<le> 9" for u
    using that mined_no_collision pay_tid by (simp add: ready_def pay_spent room_def)
  have rc: "ready toy_crypto mined_ops mined_coinbase ([0, 0] @ replicate 30 1) pay_set"
    using ps mined_no_collision mined_cid by (simp add: ready_def mined_spent room_def)
  show "\<exists>m u. apply_transaction toy_crypto pay_tx 3 pay_set = (Ok m, u)"
    using ps by (rule_tac apply_ready[OF rp, of pay_set 3]) (auto simp: pay_spent outpoint_eq sample_ids_differ)
  obtain m c where c: "apply_transaction toy_crypto mined_coinbase 3 pay_set = (Ok m, c)" "utxo_inv toy_crypto mined_ops c"
    "length (arena (smt c)) \<le> length (arena (smt pay_set)) + 4 * length (outputs mined_coinbase)"
    "utxos c = utxos pay_set |` (- input_outpoint ` set (spent_inputs mined_coinbase))
      ++ map_of (rev (tx_entries ([0, 0] @ replicate 30 1) 3 mined_coinbase))"
    by (rule apply_ready[OF rc, of 3]) (use ps in \<open>auto simp: mined_spent outpoint_eq sample_ids_differ\<close>)
  have dc: "dom (utxos c) = {pay_op, outpoint ([0, 0] @ replicate 30 1) 0}"
    unfolding c(4) using ps(2) dom_tx_entries[of "[0, 0] @ replicate 30 1" 3 mined_coinbase] by (auto simp: mined_spent)
  have "pay_op \<notin> dom (map_of (rev (tx_entries ([0, 0] @ replicate 30 1) 3 mined_coinbase)))"
    unfolding dom_tx_entries by (simp add: mined_spent outpoint_eq sample_ids_differ)
  then have "map_of (rev (tx_entries ([0, 0] @ replicate 30 1) 3 mined_coinbase)) pay_op = None" by blast
  then show "utxos (snd (apply_transaction toy_crypto mined_coinbase 3 pay_set)) pay_op = Some pay_entry"
    using c(1,4) ps(2) by (simp add: map_add_def mined_spent)
  have ac: "length (arena (smt c)) \<le> 9" using c(3) ps(3) by (simp add: mined_spent)
  obtain m' u where u: "apply_transaction toy_crypto pay_tx 3 c = (Ok m', u)" "utxo_inv toy_crypto mined_ops u"
    by (rule apply_ready[OF rp[OF c(2) ac], of 3]) (auto simp: pay_spent dc outpoint_eq sample_ids_differ)
  have "length (UtxoSet_state_root u) = 32" using utxo_root_32[OF u(2) toy_digest32] .
  then show "\<exists>u. rebuild_loop toy_crypto 3 [mined_coinbase, pay_tx] pay_set = Some u \<and> length (UtxoSet_state_root u) = 32"
    using c(1) u(1) by simp
qed


lemma mined_fits:
  "undo_size toy_crypto 3 [pay_tx] (snd (apply_transaction toy_crypto mined_coinbase 3 pay_set)) \<le> MAX_SPENT_UTXOS_SIZE"
proof -
  have "entry_bytes pay_entry \<le> 200"
    by (simp add: entry_bytes_def pay_defs TxOutput_serialize_def serialize_varbytes_def serialize_opt_varbytes_def serialize_opt_hash_def)
  then show ?thesis
    using mined_rebuild(3) by (simp add: pay_tx_def input_outpoint_def MAX_SPENT_UTXOS_SIZE_def)
qed

lemma mined_coinbase_built: "build_coinbase toy_crypto miner_key 3 200 = Some mined_coinbase"
proof -
  obtain r where r: "block_reward 3 = Some r" "unat r = reward_at 3" using block_reward_value[of 3] by auto
  have "unat r + 200 < 2 ^ 64" using r(2) reward_antimono[of 0 3] by (simp add: reward_0 constants)
  then show ?thesis
    using r(1) miner_script by (simp add: build_coinbase_def checked_add_def mined_coinbase_def new_p2pkh_def)
qed

lemma mined_root: "\<exists>root. compute_tx_root toy_crypto [mined_coinbase, pay_tx] = Ok root \<and> length root = 32"
proof -
  have "\<exists>b. wtx_id toy_crypto pay_tx = Ok b" using pay_bytes(1) by (auto simp: wtx_id_def)
  moreover have "\<exists>a. wtx_id toy_crypto mined_coinbase = Ok a"
    by (simp add: mined_coinbase_def wtx_id_def Transaction_serialize_def serialize_header_def
      serialize_body_def TxOutput_serialize_def TxWitness_serialize_def serialize_varbytes_def
      serialize_opt_varbytes_def serialize_opt_hash_def TxInput_serialize_def ZERO_def)
  moreover have "length (merkle_root toy_crypto DS_TXROOT [a, b]) = 32" for a b
    using toy_digest32
    by (simp add: merkle_root_def merkle_loop.simps[of _ _ "[a, b]"] merkle_loop.simps[of _ _ "[_]"] pad_level_def domain_hash_def digest32_def)
  ultimately show ?thesis by (auto simp: compute_tx_root_def)
qed

lemma mined_template_built:
  assumes "pool_ok toy_crypto mp" "mp_entries mp = [tid \<mapsto> new_entry pay_tx tid 200 6221 pay_set]" "length prev = 32"
  obtains block where "build_template sample_settings miner_key 3 prev (replicate 32 9) 105 mp pay_set = Some (block, [])"
    "wf_header (header block)" "transactions block = [mined_coinbase, pay_tx]"
    "height (header block) = 3" "prev_block_id (header block) = prev" "timestamp (header block) = 105"
proof -
  have "present_value pay_set (inputs pay_tx) - sum_outputs (outputs pay_tx) 0 = 200"
    by (simp add: present_value_def pay_tx_def UtxoSet_get_def pay_utxos input_outpoint_def pay_entry_def)
  then have tr: "trial_loop sample_settings 3 [pay_tx] pay_set [] [] 0 = ([pay_tx], [], 200)"
    using mined_rebuild(1) pay_valid[of 3] by (auto simp: Let_def)
  obtain u where u: "rebuild_loop toy_crypto 3 [mined_coinbase, pay_tx] pay_set = Some u" "length (UtxoSet_state_root u) = 32"
    using mined_rebuild(2) by blast
  obtain root where root: "compute_tx_root toy_crypto [mined_coinbase, pay_tx] = Ok root" "length root = 32" using mined_root by blast
  let ?b = "\<lparr>header = \<lparr>version = VERSION, height = 3, prev_block_id = prev, timestamp = 105, difficulty_target = replicate 32 9, nonce = 0,
    tx_root = root, state_root = UtxoSet_state_root u\<rparr>, transactions = [mined_coinbase, pay_tx]\<rparr>"
  have "min 200 U64_MAX = 200" by (simp add: U64_MAX_def)
  then have "build_template sample_settings miner_key 3 prev (replicate 32 9) 105 mp pay_set = Some (?b, [])"
    unfolding build_template_def pay_selected[OF assms(1,2)] build_template_from_txs_def tr Let_def split_conv reward_block_fields(3)
    using mined_coinbase_built u(1) root(1) by (simp del: rebuild_loop.simps)
  then show thesis using that[of ?b] u(2) root(2) assms(3) by (simp add: wf_header_def is_hash256_def)
qed

theorem mined_template_accepted_witness:
  "\<exists>mp block fees muts u'. pool_history sample_settings hash_order mp
    \<and> build_template sample_settings miner_key 3 (block_id toy_crypto sample_parent) (replicate 32 9) 105 mp pay_set = Some (block, [])
    \<and> transactions block = [mined_coinbase, pay_tx]
    \<and> validate_block_header_skip_pow sample_settings block (Some sample_parent) [100, 90, 95] (replicate 32 9) (Some 110) = Ok ()
    \<and> validate_and_apply_block_transactions_atomic sample_settings block pay_set = (Ok (fees, muts), u')"
proof -
  obtain mp tid where mp: "pool_history sample_settings hash_order mp" "pool_ok toy_crypto mp"
    "mp_entries mp = [tid \<mapsto> new_entry pay_tx tid 200 6221 pay_set]" by (rule pay_admitted)
  have "length (block_id toy_crypto sample_parent) = 32" using toy_digest32 by (simp add: block_id_def digest32_def)
  then obtain block where b: "build_template sample_settings miner_key 3 (block_id toy_crypto sample_parent) (replicate 32 9) 105 mp pay_set = Some (block, [])"
    "wf_header (header block)" "transactions block = [mined_coinbase, pay_tx]" "height (header block) = 3"
    "prev_block_id (header block) = block_id toy_crypto sample_parent" "timestamp (header block) = 105"
    by (rule mined_template_built[OF mp(2,3)])
  have d: "digest32 (lib sample_settings)" "script_ok (pubkey_hash_from_key (lib sample_settings) miner_key)"
    using toy_digest32 reward_script by (simp_all add: miner_script)
  have undo: "undo_size (lib sample_settings) 3 (tl (transactions block)) (snd (apply_transaction (lib sample_settings) (hd (transactions block)) 3 pay_set))
      \<le> MAX_SPENT_UTXOS_SIZE" using mined_fits by (simp add: b(3))
  have par: "parent_rules (lib sample_settings) (header block) (Some sample_parent)"
    by (simp add: parent_rules_def b(4,5) sample_parent_def)
  have "median_time_past [100, 90, 95] = 95" by (simp add: median_time_past_def)
  then have tm: "time_rules (header block) (Some sample_parent) [100, 90, 95] (Some 110)"
    by (simp add: time_rules_def b(6) sample_parent_def)
  show ?thesis
    using mined_template_accepted[OF mp(1) d b(1,2) undo par tm] mp(1) b(1,3) by blast
qed

end
