(* ===== verification/Protocol.thy ===== *)
theory Protocol
  imports Blocks
begin

text \<open>
  The wire protocol, \<open>network/protocol.rs\<close>: the messages peers exchange, their framing and
  payload formats, the two digests of the handshake, and the rule that decides which peer
  addresses are worth relaying. Fixed-size arrays are byte strings whose length the
  well-formedness predicates state; the flow label and scope of an IPv6 socket address, which
  the format drops, are not kept.
\<close>


section \<open>Data\<close>

definition PROTOCOL_VERSION :: u32 where [constants]: "PROTOCOL_VERSION = 5"
definition MAX_MESSAGE_SIZE :: nat where [constants]: "MAX_MESSAGE_SIZE = 8388608"
definition MAX_GETBLOCKS_ITEMS :: nat where [constants]: "MAX_GETBLOCKS_ITEMS = 64"
definition MAX_ADDR_ITEMS :: nat where [constants]: "MAX_ADDR_ITEMS = 64"
definition ADDR_ENTRY_WIRE_SIZE :: nat where [constants]: "ADDR_ENTRY_WIRE_SIZE = 26"
definition HELLO_V4_PAYLOAD_SIZE :: nat where [constants]: "HELLO_V4_PAYLOAD_SIZE = 268"
definition HMAC_TAG_SIZE :: nat where [constants]: "HMAC_TAG_SIZE = 16"

definition DS_AUTH :: bytes where "DS_AUTH = ascii ''EXFER-AUTH''"
definition DS_SESSION :: bytes where "DS_SESSION = ascii ''EXFER-SESSION''"

datatype IpAddr = V4 bytes | V6 bytes

record SocketAddr =
  ip :: IpAddr
  port :: u16

record AddrEntry =
  ae_addr :: SocketAddr
  last_seen :: u64

record HelloMsg =
  hello_version :: u32
  genesis_block_id :: bytes
  best_height :: u64
  best_block_id :: bytes
  cumulative_work :: bytes
  hello_nonce :: bytes
  hello_echo :: bytes
  hello_pubkey :: bytes
  hello_sig :: bytes

record TipResponseMsg =
  tip_height :: u64
  tip_block_id :: bytes
  tip_cumulative_work :: bytes

record GetHeadersMsg =
  start_height :: u64
  max_count :: u32

record AuthAckMsg =
  ack_sig :: bytes

datatype Message =
    Hello HelloMsg
  | AuthAck AuthAckMsg
  | Ping
  | Pong
  | NewBlock Block
  | GetBlocks "bytes list"
  | BlockResponse Block
  | GetTip
  | TipResponse TipResponseMsg
  | Inv "bytes list"
  | NewTx Transaction
  | GetHeaders GetHeadersMsg
  | Headers "BlockHeader list"
  | GetAddr
  | Addr "AddrEntry list"


section \<open>Payloads\<close>

definition serialize_hello :: "HelloMsg \<Rightarrow> bytes" where
  "serialize_hello h =
     le32 (hello_version h) @ genesis_block_id h @ le64 (best_height h) @ best_block_id h
     @ cumulative_work h @ hello_nonce h @ hello_echo h @ hello_pubkey h @ hello_sig h"

definition deserialize_hello :: "bytes \<Rightarrow> SerError + HelloMsg" where
  "deserialize_hello data =
     (if length data < 108 then Err UnexpectedEof
      else if length data \<noteq> 108 \<and> length data \<noteq> 172 \<and> length data \<noteq> HELLO_V4_PAYLOAD_SIZE
      then Err (InvalidData ''Hello payload must be 108, 172, or 268 bytes'')
      else let
          (n, e) = (if length data \<ge> 172 then (bslice data 108 140, bslice data 140 172)
                    else (replicate 32 0, replicate 32 0));
          (pk, s) = (if length data \<ge> HELLO_V4_PAYLOAD_SIZE then (bslice data 172 204, bslice data 204 268)
                     else (replicate 32 0, replicate 64 0)) in
        Ok \<lparr>hello_version = u32_le (bslice data 0 4), genesis_block_id = bslice data 4 36,
            best_height = u64_le (bslice data 36 44), best_block_id = bslice data 44 76,
            cumulative_work = bslice data 76 108, hello_nonce = n, hello_echo = e, hello_pubkey = pk, hello_sig = s\<rparr>)"

definition serialize_hash_list :: "bytes list \<Rightarrow> bytes" where
  "serialize_hash_list hashes = le32 (of_nat (length hashes)) @ concat hashes"

definition deserialize_hash_list :: "bytes \<Rightarrow> SerError + bytes list" where
  "deserialize_hash_list data =
     (if length data < 4 then Err UnexpectedEof
      else let count = unat (u32_le (bslice data 0 4)) in
        if count > MAX_GETBLOCKS_ITEMS then Err InvalidLength
        else let expected_len = 4 + count * 32 in
        if length data < expected_len then Err UnexpectedEof
        else if length data \<noteq> expected_len then Err (InvalidData ''trailing bytes in hash list'')
        else Ok (map (\<lambda>i. bslice data (4 + i * 32) (4 + i * 32 + 32)) [0..<count]))"

definition serialize_tip_response :: "TipResponseMsg \<Rightarrow> bytes" where
  "serialize_tip_response t = le64 (tip_height t) @ tip_block_id t @ tip_cumulative_work t"

definition deserialize_tip_response :: "bytes \<Rightarrow> SerError + TipResponseMsg" where
  "deserialize_tip_response data =
     (if length data < 72 then Err UnexpectedEof
      else if length data \<noteq> 72 then Err (InvalidData ''trailing bytes in tip response'')
      else Ok \<lparr>tip_height = u64_le (bslice data 0 8), tip_block_id = bslice data 8 40,
               tip_cumulative_work = bslice data 40 72\<rparr>)"

definition serialize_get_headers :: "GetHeadersMsg \<Rightarrow> bytes" where
  "serialize_get_headers g = le64 (start_height g) @ le32 (max_count g)"

definition deserialize_get_headers :: "bytes \<Rightarrow> SerError + GetHeadersMsg" where
  "deserialize_get_headers data =
     (if length data < 12 then Err UnexpectedEof
      else if length data \<noteq> 12 then Err (InvalidData ''trailing bytes in get_headers'')
      else Ok \<lparr>start_height = u64_le (bslice data 0 8), max_count = u32_le (bslice data 8 12)\<rparr>)"

definition serialize_headers :: "BlockHeader list \<Rightarrow> bytes" where
  "serialize_headers hs = le32 (of_nat (length hs)) @ concat (map BlockHeader_serialize hs)"

definition deserialize_headers :: "bytes \<Rightarrow> SerError + BlockHeader list" where
  "deserialize_headers data =
     (if length data < 4 then Err UnexpectedEof
      else let count = unat (u32_le (bslice data 0 4)) in
        if count > MAX_GETBLOCKS_ITEMS then Err InvalidLength
        else let expected_len = 4 + count * HEADER_SIZE in
        if length data < expected_len then Err UnexpectedEof
        else if length data \<noteq> expected_len then Err (InvalidData ''trailing bytes in headers list'')
        else Ok (map (\<lambda>i. BlockHeader_deserialize
                 (bslice data (4 + i * HEADER_SIZE) (4 + i * HEADER_SIZE + HEADER_SIZE))) [0..<count]))"

definition to_ipv6_mapped :: "bytes \<Rightarrow> bytes" where
  "to_ipv6_mapped v4 = replicate 10 0 @ [0xff, 0xff] @ v4"

definition to_ipv4_mapped :: "bytes \<Rightarrow> bytes option" where
  "to_ipv4_mapped v6 = (if take 12 v6 = replicate 10 0 @ [0xff, 0xff] then Some (drop 12 v6) else None)"

definition serialize_socket_addr :: "SocketAddr \<Rightarrow> bytes" where
  "serialize_socket_addr a =
     (case ip a of V4 v4 \<Rightarrow> to_ipv6_mapped v4 | V6 v6 \<Rightarrow> v6) @ le16 (port a)"

definition deserialize_socket_addr :: "bytes \<Rightarrow> SocketAddr" where
  "deserialize_socket_addr data = (let v6 = bslice data 0 16 in
     \<lparr>ip = (case to_ipv4_mapped v6 of Some v4 \<Rightarrow> V4 v4 | None \<Rightarrow> V6 v6), port = u16_le (bslice data 16 18)\<rparr>)"

definition serialize_addr_entry :: "AddrEntry \<Rightarrow> bytes" where
  "serialize_addr_entry e = serialize_socket_addr (ae_addr e) @ le64 (last_seen e)"

definition deserialize_addr_entry :: "bytes \<Rightarrow> AddrEntry" where
  "deserialize_addr_entry data =
     \<lparr>ae_addr = deserialize_socket_addr (bslice data 0 18), last_seen = u64_le (bslice data 18 26)\<rparr>"

definition serialize_addr_list :: "AddrEntry list \<Rightarrow> bytes" where
  "serialize_addr_list entries = (let count = min (length entries) MAX_ADDR_ITEMS in
     le32 (of_nat count) @ concat (map serialize_addr_entry (take count entries)))"

definition deserialize_addr_list :: "bytes \<Rightarrow> SerError + AddrEntry list" where
  "deserialize_addr_list data =
     (if length data < 4 then Err UnexpectedEof
      else let count = unat (u32_le (bslice data 0 4)) in
        if count > MAX_ADDR_ITEMS then Err InvalidLength
        else let expected_len = 4 + count * ADDR_ENTRY_WIRE_SIZE in
        if length data < expected_len then Err UnexpectedEof
        else if length data \<noteq> expected_len then Err (InvalidData ''trailing bytes in addr list'')
        else Ok (map (\<lambda>i. deserialize_addr_entry
                 (bslice data (4 + i * ADDR_ENTRY_WIRE_SIZE) (4 + i * ADDR_ENTRY_WIRE_SIZE + ADDR_ENTRY_WIRE_SIZE)))
               [0..<count]))"


section \<open>Frames\<close>

definition message_parts :: "Message \<Rightarrow> SerError + byte \<times> bytes" where
  "message_parts m = (case m of
     Hello h \<Rightarrow> Ok (0x01, serialize_hello h)
   | AuthAck a \<Rightarrow> Ok (0x18, ack_sig a)
   | Ping \<Rightarrow> Ok (0x02, [])
   | Pong \<Rightarrow> Ok (0x03, [])
   | NewBlock b \<Rightarrow> rbind (Block_serialize b) (\<lambda>p. Ok (0x10, p))
   | GetBlocks hashes \<Rightarrow> Ok (0x11, serialize_hash_list hashes)
   | BlockResponse b \<Rightarrow> rbind (Block_serialize b) (\<lambda>p. Ok (0x12, p))
   | GetTip \<Rightarrow> Ok (0x13, [])
   | TipResponse t \<Rightarrow> Ok (0x14, serialize_tip_response t)
   | Inv hashes \<Rightarrow> Ok (0x15, serialize_hash_list hashes)
   | NewTx tx \<Rightarrow> rbind (Transaction_serialize tx) (\<lambda>p. Ok (0x20, p))
   | GetHeaders g \<Rightarrow> Ok (0x21, serialize_get_headers g)
   | Headers hs \<Rightarrow> Ok (0x22, serialize_headers hs)
   | GetAddr \<Rightarrow> Ok (0x16, [])
   | Addr entries \<Rightarrow> Ok (0x17, serialize_addr_list entries))"

definition Message_serialize :: "Message \<Rightarrow> SerError + bytes" where
  "Message_serialize m =
     rbind (message_parts m) (\<lambda>(msg_type, payload).
     Ok (msg_type # le32 (of_nat (length payload)) @ payload))"

definition empty_payload :: "string \<Rightarrow> Message \<Rightarrow> bytes \<Rightarrow> SerError + Message" where
  "empty_payload err m payload = (if payload \<noteq> [] then Err (InvalidData err) else Ok m)"

definition whole_payload :: "(bytes \<Rightarrow> SerError + 'a \<times> nat) \<Rightarrow> ('a \<Rightarrow> Message) \<Rightarrow> string \<Rightarrow> bytes \<Rightarrow> SerError + Message" where
  "whole_payload dec con err payload =
     rbind (dec payload) (\<lambda>(x, consumed).
     if consumed \<noteq> length payload then Err (InvalidData err) else Ok (con x))"

definition parse_payload :: "byte \<Rightarrow> bytes \<Rightarrow> SerError + Message" where
  "parse_payload msg_type payload =
     (if msg_type = 0x01 then rbind (deserialize_hello payload) (\<lambda>h. Ok (Hello h))
      else if msg_type = 0x02 then empty_payload ''Ping must have empty payload'' Ping payload
      else if msg_type = 0x03 then empty_payload ''Pong must have empty payload'' Pong payload
      else if msg_type = 0x10 then whole_payload Block_deserialize NewBlock ''trailing bytes in NewBlock payload'' payload
      else if msg_type = 0x11 then rbind (deserialize_hash_list payload) (\<lambda>hs. Ok (GetBlocks hs))
      else if msg_type = 0x12
      then whole_payload Block_deserialize BlockResponse ''trailing bytes in BlockResponse payload'' payload
      else if msg_type = 0x13 then empty_payload ''GetTip must have empty payload'' GetTip payload
      else if msg_type = 0x14 then rbind (deserialize_tip_response payload) (\<lambda>t. Ok (TipResponse t))
      else if msg_type = 0x15 then rbind (deserialize_hash_list payload) (\<lambda>hs. Ok (Inv hs))
      else if msg_type = 0x20 then whole_payload Transaction_deserialize NewTx ''trailing bytes in NewTx payload'' payload
      else if msg_type = 0x21 then rbind (deserialize_get_headers payload) (\<lambda>g. Ok (GetHeaders g))
      else if msg_type = 0x22 then rbind (deserialize_headers payload) (\<lambda>hs. Ok (Headers hs))
      else if msg_type = 0x16 then empty_payload ''GetAddr must have empty payload'' GetAddr payload
      else if msg_type = 0x17 then rbind (deserialize_addr_list payload) (\<lambda>es. Ok (Addr es))
      else if msg_type = 0x18
      then if length payload \<noteq> 64 then Err (InvalidData ''AuthAck payload must be 64 bytes'')
           else Ok (AuthAck \<lparr>ack_sig = payload\<rparr>)
      else Err (InvalidData ''unknown message type''))"

definition Message_deserialize :: "bytes \<Rightarrow> SerError + Message \<times> nat" where
  "Message_deserialize data =
     (if length data < 5 then Err UnexpectedEof
      else let msg_type = data ! 0; payload_len = unat (u32_le (bslice data 1 5)) in
        if payload_len > MAX_MESSAGE_SIZE then Err (InvalidData ''message too large'')
        else if length data < 5 + payload_len then Err UnexpectedEof
        else rbind (parse_payload msg_type (bslice data 5 (5 + payload_len))) (\<lambda>msg.
             Ok (msg, 5 + payload_len)))"


section \<open>Handshake digests\<close>

definition tip_commitment :: "u64 \<Rightarrow> bytes \<Rightarrow> bytes \<Rightarrow> bytes" where
  "tip_commitment h bid work = le64 h @ bid @ work"

definition compute_auth_transcript ::
    "crypto \<Rightarrow> bytes \<Rightarrow> u32 \<Rightarrow> bytes \<Rightarrow> bytes \<Rightarrow> byte \<Rightarrow> bytes \<Rightarrow> bytes \<Rightarrow> bytes" where
  "compute_auth_transcript C genesis_id ver nonce_a nonce_b role tip_a tip_b =
     sha256 C (DS_AUTH @ genesis_id @ le32 ver @ nonce_a @ nonce_b @ [role] @ tip_a @ tip_b)"

definition compute_session_key :: "crypto \<Rightarrow> bytes \<Rightarrow> u32 \<Rightarrow> bytes \<Rightarrow> bytes \<Rightarrow> bytes \<Rightarrow> bytes" where
  "compute_session_key C genesis_id ver nonce_a nonce_b dh_shared_secret =
     (let transcript = sha256 C (DS_AUTH @ genesis_id @ le32 ver @ nonce_a @ nonce_b) in
      sha256 C (DS_SESSION @ transcript @ dh_shared_secret))"


section \<open>Routable addresses\<close>

unbundle bit_operations_syntax

definition v4_routable :: "bytes \<Rightarrow> bool" where
  "v4_routable o4 \<longleftrightarrow>
     \<not> (o4 ! 0 = 127
        \<or> (o4 ! 0 = 10 \<or> o4 ! 0 = 172 \<and> 16 \<le> o4 ! 1 \<and> o4 ! 1 \<le> 31 \<or> o4 ! 0 = 192 \<and> o4 ! 1 = 168)
        \<or> (o4 ! 0 = 169 \<and> o4 ! 1 = 254)
        \<or> o4 = [255, 255, 255, 255]
        \<or> o4 ! 0 = 0
        \<or> (o4 ! 0 = 100 \<and> (o4 ! 1 AND 0xC0) = 64)
        \<or> (o4 ! 0 = 192 \<and> o4 ! 1 = 0 \<and> o4 ! 2 = 0)
        \<or> (o4 ! 0 = 192 \<and> o4 ! 1 = 0 \<and> o4 ! 2 = 2)
        \<or> (o4 ! 0 = 198 \<and> o4 ! 1 = 51 \<and> o4 ! 2 = 100)
        \<or> (o4 ! 0 = 203 \<and> o4 ! 1 = 0 \<and> o4 ! 2 = 113)
        \<or> (o4 ! 0 = 198 \<and> (o4 ! 1 AND 0xFE) = 18)
        \<or> o4 ! 0 \<ge> 224)"

definition segment :: "bytes \<Rightarrow> nat \<Rightarrow> u16" where
  "segment v6 i = of_nat (of_be (bslice v6 (2 * i) (2 * i + 2)))"

definition v6_routable :: "bytes \<Rightarrow> bool" where
  "v6_routable v6 \<longleftrightarrow>
     v6 \<noteq> replicate 15 0 @ [1]
     \<and> v6 \<noteq> replicate 16 0
     \<and> v6 ! 0 \<noteq> 0xff
     \<and> (segment v6 0 AND 0xffc0) \<noteq> 0xfe80
     \<and> (segment v6 0 AND 0xfe00) \<noteq> 0xfc00
     \<and> \<not> (segment v6 0 = 0x0100 \<and> segment v6 1 = 0 \<and> segment v6 2 = 0 \<and> segment v6 3 = 0)
     \<and> \<not> (segment v6 0 = 0x2001 \<and> segment v6 1 = 0x0db8)
     \<and> \<not> (segment v6 0 = 0x2001 \<and> segment v6 1 = 0x0000)
     \<and> \<not> (segment v6 0 = 0x0064 \<and> segment v6 1 = 0xff9b)"

definition is_routable :: "SocketAddr \<Rightarrow> bool" where
  "is_routable a =
     (if port a = 0 then False
      else case ip a of
        V4 v4 \<Rightarrow> v4_routable v4
      | V6 v6 \<Rightarrow> (case to_ipv4_mapped v6 of Some v4 \<Rightarrow> v4_routable v4 | None \<Rightarrow> v6_routable v6))"


section \<open>Lists of records of one width\<close>

text \<open>The three list payloads share a format: a 32-bit count, then records of one width that are
  read at computed offsets.\<close>

locale fixed_width =
  fixes put :: "'a \<Rightarrow> bytes"
    and get :: "bytes \<Rightarrow> 'a"
    and ok :: "'a \<Rightarrow> bool"
    and w :: nat
  assumes put_length: "ok x \<Longrightarrow> length (put x) = w"
    and get_put: "ok x \<Longrightarrow> get (put x) = x"
    and put_get: "length b = w \<Longrightarrow> ok (get b) \<and> put (get b) = b"
begin

lemma length_puts: "list_all ok xs \<Longrightarrow> length (concat (map put xs)) = length xs * w"
  by (induction xs) (auto simp: put_length)

lemma puts_read:
  assumes "list_all ok xs" "length p = n"
  shows "map (\<lambda>i. get (bslice (p @ concat (map put xs)) (n + i * w) (n + i * w + w))) [0..<length xs] = xs"
  using assms
proof (induction xs arbitrary: p n)
  case (Cons x xs)
  have l: "length (put x) = w" using Cons.prems(1) by (simp add: put_length)
  have "map (\<lambda>i. get (bslice ((p @ put x) @ concat (map put xs)) (n + w + i * w) (n + w + i * w + w))) [0..<length xs] = xs"
    using Cons.prems l by (intro Cons.IH) simp_all
  then have "map (\<lambda>i. get (bslice (p @ concat (map put (x # xs))) (n + i * w) (n + i * w + w))) [Suc 0..<Suc (length xs)] = xs"
    unfolding map_Suc_upt[symmetric] by (simp add: algebra_simps comp_def)
  moreover have "get (bslice (p @ concat (map put (x # xs))) n (n + w)) = x"
    using Cons.prems l by (simp add: slice_append_right get_put)
  ultimately show ?case by (simp add: upt_conv_Cons del: upt_Suc)
qed simp

lemma read_puts:
  assumes "length d = n + k * w"
  shows "list_all ok (map (\<lambda>i. get (bslice d (n + i * w) (n + i * w + w))) [0..<k])
    \<and> concat (map put (map (\<lambda>i. get (bslice d (n + i * w) (n + i * w + w))) [0..<k])) = drop n d"
  using assms
proof (induction k arbitrary: d)
  case (Suc k)
  let ?f = "\<lambda>d i. get (bslice d (n + i * w) (n + i * w + w))"
  let ?e = "take (n + k * w) d"
  have same: "map (?f d) [0..<k] = map (?f ?e) [0..<k]"
  proof (rule map_cong[OF refl])
    fix i assume "i \<in> set [0..<k]"
    then have "Suc i * w \<le> k * w" by (intro mult_le_mono1) simp
    then have "bslice ?e (n + i * w) (n + i * w + w) = bslice d (n + i * w) (n + i * w + w)"
      by (simp add: bslice_def drop_take)
    then show "?f d i = ?f ?e i" by simp
  qed
  have last: "length (bslice d (n + k * w) (n + k * w + w)) = w" using Suc.prems by simp
  have "drop n d = drop n ?e @ bslice d (n + k * w) (n + k * w + w)"
    using Suc.prems by (simp add: bslice_def drop_take flip: take_drop) (metis add.commute append_take_drop_id drop_drop)
  moreover have all: "map (?f d) [0..<Suc k] = map (?f ?e) [0..<k] @ [?f d k]"
    unfolding same[symmetric] by simp
  have "list_all ok (map (?f ?e) [0..<k]) \<and> concat (map put (map (?f ?e) [0..<k])) = drop n ?e"
    using Suc.prems by (intro Suc.IH) simp
  ultimately show ?case unfolding all using put_get[OF last] by (simp del: map_map)
qed simp

end

definition wf_addr :: "AddrEntry \<Rightarrow> bool" where
  "wf_addr e \<longleftrightarrow> (case ip (ae_addr e) of
     V4 v4 \<Rightarrow> length v4 = 4
   | V6 v6 \<Rightarrow> length v6 = 16 \<and> to_ipv4_mapped v6 = None)"

interpretation hl: fixed_width "\<lambda>h. h" "\<lambda>h. h" is_hash256 32
  by unfold_locales (simp_all add: is_hash256_def)

interpretation hd: fixed_width BlockHeader_serialize BlockHeader_deserialize wf_header HEADER_SIZE
  by unfold_locales (simp_all add: length_header header_dec_enc header_wf header_canon)

lemma mapped_roundtrip: "to_ipv4_mapped (to_ipv6_mapped v4) = Some v4"
  by (simp add: to_ipv4_mapped_def to_ipv6_mapped_def)

lemma mapped_canon: "to_ipv4_mapped v6 = Some v4 \<Longrightarrow> to_ipv6_mapped v4 = v6"
  by (auto simp: to_ipv4_mapped_def to_ipv6_mapped_def split: if_splits) (metis append.assoc append_take_drop_id append_Cons append_Nil)

interpretation ad: fixed_width serialize_addr_entry deserialize_addr_entry wf_addr ADDR_ENTRY_WIRE_SIZE
proof
  fix x assume wf: "wf_addr x"
  let ?v6 = "case ip (ae_addr x) of V4 v4 \<Rightarrow> to_ipv6_mapped v4 | V6 v6 \<Rightarrow> v6"
  have l: "length ?v6 = 16" using wf by (auto simp: wf_addr_def to_ipv6_mapped_def split: IpAddr.splits)
  then have l18: "length (serialize_socket_addr (ae_addr x)) = 18" by (simp add: serialize_socket_addr_def)
  then show "length (serialize_addr_entry x) = ADDR_ENTRY_WIRE_SIZE"
    by (simp add: serialize_addr_entry_def constants)
  have "(case to_ipv4_mapped ?v6 of Some v4 \<Rightarrow> V4 v4 | None \<Rightarrow> V6 ?v6) = ip (ae_addr x)"
    using wf by (auto simp: wf_addr_def mapped_roundtrip split: IpAddr.splits)
  then have "deserialize_socket_addr (serialize_socket_addr (ae_addr x)) = ae_addr x"
    using l by (simp add: serialize_socket_addr_def deserialize_socket_addr_def slice_append_right Let_def)
  then show "deserialize_addr_entry (serialize_addr_entry x) = x"
    using l18 by (simp add: serialize_addr_entry_def deserialize_addr_entry_def slice_append_right)
next
  fix b :: bytes assume b: "length b = ADDR_ENTRY_WIRE_SIZE"
  have "b = bslice b 0 16 @ bslice b 16 18 @ bslice b 18 26"
    using b by (simp add: constants flip: slice_split)
  moreover have "bslice (bslice b 0 18) 0 16 = bslice b 0 16" "bslice (bslice b 0 18) 16 18 = bslice b 16 18"
    by (simp_all add: bslice_def drop_take)
  moreover have "(case to_ipv4_mapped v6 of Some v4 \<Rightarrow> to_ipv6_mapped v4 | None \<Rightarrow> v6) = v6" for v6
    by (simp add: mapped_canon split: option.splits)
  then have "(case (case to_ipv4_mapped v6 of Some v4 \<Rightarrow> V4 v4 | None \<Rightarrow> V6 v6) of
      V4 v4 \<Rightarrow> to_ipv6_mapped v4 | V6 v6 \<Rightarrow> v6) = v6" for v6
    by (simp add: mapped_canon split: option.splits)
  moreover have "wf_addr (deserialize_addr_entry b)"
    using b by (auto simp: wf_addr_def deserialize_addr_entry_def deserialize_socket_addr_def Let_def constants
        to_ipv4_mapped_def bslice_def split: option.splits)
  ultimately show "wf_addr (deserialize_addr_entry b) \<and> serialize_addr_entry (deserialize_addr_entry b) = b"
    using b by (simp add: serialize_addr_entry_def deserialize_addr_entry_def serialize_socket_addr_def
        deserialize_socket_addr_def Let_def le_word_roundtrip constants)
qed


section \<open>The message codec\<close>

definition wf_hello :: "HelloMsg \<Rightarrow> bool" where
  "wf_hello h \<longleftrightarrow> is_hash256 (genesis_block_id h) \<and> is_hash256 (best_block_id h)
     \<and> length (cumulative_work h) = 32 \<and> length (hello_nonce h) = 32 \<and> length (hello_echo h) = 32
     \<and> length (hello_pubkey h) = 32 \<and> length (hello_sig h) = 64"

definition wf_message :: "Message \<Rightarrow> bool" where
  "wf_message m = (case m of
     Hello h \<Rightarrow> wf_hello h
   | AuthAck a \<Rightarrow> length (ack_sig a) = 64
   | NewBlock b \<Rightarrow> wf_block b
   | BlockResponse b \<Rightarrow> wf_block b
   | GetBlocks hs \<Rightarrow> list_all is_hash256 hs \<and> length hs \<le> MAX_GETBLOCKS_ITEMS
   | Inv hs \<Rightarrow> list_all is_hash256 hs \<and> length hs \<le> MAX_GETBLOCKS_ITEMS
   | TipResponse t \<Rightarrow> is_hash256 (tip_block_id t) \<and> length (tip_cumulative_work t) = 32
   | NewTx tx \<Rightarrow> wf_transaction tx
   | Headers hs \<Rightarrow> list_all wf_header hs \<and> length hs \<le> MAX_GETBLOCKS_ITEMS
   | Addr es \<Rightarrow> list_all wf_addr es \<and> length es \<le> MAX_ADDR_ITEMS
   | _ \<Rightarrow> True)"

lemma hello_dec_enc: "wf_hello h \<Longrightarrow> deserialize_hello (serialize_hello h) = Ok h"
  by (simp add: wf_hello_def is_hash256_def deserialize_hello_def serialize_hello_def constants slice_append_right)

lemma hello_canon:
  assumes "deserialize_hello d = Ok h"
  shows "wf_hello h \<and> length d \<in> {108, 172, 268} \<and> serialize_hello h = d @ replicate (268 - length d) 0"
proof -
  have l: "length d \<in> {108, 172, 268}"
    using assms by (auto simp: deserialize_hello_def constants split: if_splits)
  have d108: "bslice d 0 4 @ bslice d 4 36 @ bslice d 36 44 @ bslice d 44 76 @ bslice d 76 108 @ ys = bslice d 0 108 @ ys" for ys
    by (simp flip: slice_split append_assoc)
  have d268: "bslice d 108 140 @ bslice d 140 172 @ ys = bslice d 108 172 @ ys"
      "bslice d 172 204 @ bslice d 204 268 = bslice d 172 268" for ys
    by (simp_all flip: slice_split append_assoc)
  have h: "h = \<lparr>hello_version = u32_le (bslice d 0 4), genesis_block_id = bslice d 4 36,
      best_height = u64_le (bslice d 36 44), best_block_id = bslice d 44 76, cumulative_work = bslice d 76 108,
      hello_nonce = (if length d \<ge> 172 then bslice d 108 140 else replicate 32 0),
      hello_echo = (if length d \<ge> 172 then bslice d 140 172 else replicate 32 0),
      hello_pubkey = (if length d \<ge> 268 then bslice d 172 204 else replicate 32 0),
      hello_sig = (if length d \<ge> 268 then bslice d 204 268 else replicate 64 0)\<rparr>"
    using assms l by (auto simp: deserialize_hello_def constants Let_def split: if_splits)
  consider "length d = 108" | "length d = 172" | "length d = 268" using l by blast
  then show ?thesis
  proof cases
    case 1
    then show ?thesis
      using h by (simp add: wf_hello_def is_hash256_def serialize_hello_def le_word_roundtrip d108 flip: replicate_add)
  next
    case 2
    moreover have "bslice d 0 108 @ bslice d 108 172 = d" using 2 by (simp flip: slice_split)
    then have "bslice d 0 108 @ bslice d 108 172 @ ys = d @ ys" for ys by (simp flip: append_assoc)
    ultimately show ?thesis
      using h by (simp add: wf_hello_def is_hash256_def serialize_hello_def le_word_roundtrip d108 d268(1) flip: replicate_add)
  next
    case 3
    moreover have "bslice d 0 108 @ bslice d 108 172 @ bslice d 172 268 = d" using 3 by (simp flip: slice_split)
    ultimately show ?thesis
      using h by (simp add: wf_hello_def is_hash256_def serialize_hello_def le_word_roundtrip d108 d268)
  qed
qed

lemma hash_list_dec_enc:
  "list_all is_hash256 hs \<Longrightarrow> length hs \<le> MAX_GETBLOCKS_ITEMS \<Longrightarrow> deserialize_hash_list (serialize_hash_list hs) = Ok hs"
  using hl.puts_read[of hs "le32 (of_nat (length hs))" 4] hl.length_puts[of hs]
  by (simp add: deserialize_hash_list_def serialize_hash_list_def constants unat_of_nat_u32 Let_def)

lemma hash_list_canon:
  assumes "deserialize_hash_list d = Ok hs"
  shows "list_all is_hash256 hs \<and> length hs \<le> MAX_GETBLOCKS_ITEMS \<and> serialize_hash_list hs = d"
proof -
  let ?n = "unat (u32_le (bslice d 0 4))"
  have d: "length d = 4 + ?n * 32" "?n \<le> 64" "hs = map (\<lambda>i. bslice d (4 + i * 32) (4 + i * 32 + 32)) [0..<?n]"
    using assms by (auto simp: deserialize_hash_list_def Let_def constants split: if_splits)
  have "list_all is_hash256 hs \<and> concat hs = drop 4 d" using hl.read_puts[OF d(1)] d(3) by simp
  moreover have "le32 (of_nat (length hs)) = take 4 d"
    using d le_word_roundtrip(2)[of "bslice d 0 4"] by (simp add: bslice_def)
  ultimately show ?thesis using d(2,3) by (simp add: serialize_hash_list_def constants)
qed

lemma headers_dec_enc:
  "list_all wf_header hs \<Longrightarrow> length hs \<le> MAX_GETBLOCKS_ITEMS \<Longrightarrow> deserialize_headers (serialize_headers hs) = Ok hs"
  using hd.puts_read[of hs "le32 (of_nat (length hs))" 4] hd.length_puts[of hs]
  by (simp add: deserialize_headers_def serialize_headers_def constants unat_of_nat_u32 Let_def)

lemma headers_canon:
  assumes "deserialize_headers d = Ok hs"
  shows "list_all wf_header hs \<and> length hs \<le> MAX_GETBLOCKS_ITEMS \<and> serialize_headers hs = d"
proof -
  let ?n = "unat (u32_le (bslice d 0 4))"
  let ?hs = "map (\<lambda>i. BlockHeader_deserialize (bslice d (4 + i * HEADER_SIZE) (4 + i * HEADER_SIZE + HEADER_SIZE))) [0..<?n]"
  have d: "length d = 4 + ?n * HEADER_SIZE" "?n \<le> 64" "hs = ?hs"
    using assms by (auto simp: deserialize_headers_def Let_def MAX_GETBLOCKS_ITEMS_def split: if_splits)
  have "list_all wf_header hs \<and> concat (map BlockHeader_serialize hs) = drop 4 d" using hd.read_puts[OF d(1)] d(3) by simp
  moreover have "le32 (of_nat (length hs)) = take 4 d"
    using d le_word_roundtrip(2)[of "bslice d 0 4"] by (simp add: bslice_def)
  ultimately show ?thesis using d(2,3) by (simp add: serialize_headers_def constants)
qed

lemma addr_list_dec_enc:
  "list_all wf_addr es \<Longrightarrow> length es \<le> MAX_ADDR_ITEMS \<Longrightarrow> deserialize_addr_list (serialize_addr_list es) = Ok es"
  using ad.puts_read[of es "le32 (of_nat (length es))" 4] ad.length_puts[of es]
  by (simp add: deserialize_addr_list_def serialize_addr_list_def constants unat_of_nat_u32 Let_def)

lemma addr_list_canon:
  assumes "deserialize_addr_list d = Ok es"
  shows "list_all wf_addr es \<and> length es \<le> MAX_ADDR_ITEMS \<and> serialize_addr_list es = d"
proof -
  let ?n = "unat (u32_le (bslice d 0 4))"
  let ?es = "map (\<lambda>i. deserialize_addr_entry
      (bslice d (4 + i * ADDR_ENTRY_WIRE_SIZE) (4 + i * ADDR_ENTRY_WIRE_SIZE + ADDR_ENTRY_WIRE_SIZE))) [0..<?n]"
  have d: "length d = 4 + ?n * ADDR_ENTRY_WIRE_SIZE" "?n \<le> 64" "es = ?es"
    using assms by (auto simp: deserialize_addr_list_def Let_def MAX_ADDR_ITEMS_def split: if_splits)
  have "list_all wf_addr es \<and> concat (map serialize_addr_entry es) = drop 4 d" using ad.read_puts[OF d(1)] d(3) by simp
  moreover have "le32 (of_nat (length es)) = take 4 d"
    using d le_word_roundtrip(2)[of "bslice d 0 4"] by (simp add: bslice_def)
  ultimately show ?thesis using d(2,3) by (simp add: serialize_addr_list_def constants)
qed

lemma parse_parts:
  assumes wf: "wf_message m" and p: "message_parts m = Ok (t, payload)"
  shows "parse_payload t payload = Ok m"
proof -
  have whole: "whole_payload dec con err b = Ok (con x)" if "dec b = Ok (x, length b)" for dec con err b and x :: 'x
    using that by (simp add: whole_payload_def)
  show ?thesis
    using assms blk.dec_enc[where r = "[]"] tx.dec_enc[where r = "[]"]
    by (cases m)
       (auto simp: message_parts_def wf_message_def parse_payload_def empty_payload_def result_simps hello_dec_enc
          hash_list_dec_enc headers_dec_enc addr_list_dec_enc serialize_tip_response_def deserialize_tip_response_def
          serialize_get_headers_def deserialize_get_headers_def slice_append_right is_hash256_def intro!: whole)
qed

lemma whole_payload_Ok:
  "whole_payload dec con err b = Ok m \<longleftrightarrow> (\<exists>x. dec b = Ok (x, length b) \<and> m = con x)"
  by (auto simp: whole_payload_def result_simps split: if_splits prod.splits)

lemma empty_payload_Ok: "empty_payload err m' b = Ok m \<longleftrightarrow> b = [] \<and> m = m'"
  by (auto simp: empty_payload_def)

lemma tip_response_canon:
  "deserialize_tip_response d = Ok t \<Longrightarrow> is_hash256 (tip_block_id t) \<and> length (tip_cumulative_work t) = 32
    \<and> serialize_tip_response t = d"
  by (auto simp: deserialize_tip_response_def serialize_tip_response_def is_hash256_def le_word_roundtrip
      split: if_splits simp flip: slice_split)

lemma get_headers_canon: "deserialize_get_headers d = Ok g \<Longrightarrow> serialize_get_headers g = d"
  by (auto simp: deserialize_get_headers_def serialize_get_headers_def le_word_roundtrip split: if_splits
      simp flip: slice_split)

lemmas payload_canon = hello_canon hash_list_canon headers_canon addr_list_canon tip_response_canon get_headers_canon
  blk.dec_canon tx.dec_canon

lemma parts_parse:
  assumes "parse_payload t payload = Ok m"
  shows "wf_message m \<and> (message_parts m = Ok (t, payload)
    \<or> t = 0x01 \<and> length payload \<in> {108, 172} \<and> message_parts m = Ok (t, payload @ replicate (268 - length payload) 0))"
  using assms unfolding parse_payload_def
  by (auto simp: whole_payload_Ok empty_payload_Ok result_simps message_parts_def wf_message_def split: if_splits
      dest: payload_canon)

lemma frame_read:
  assumes "length p \<le> MAX_MESSAGE_SIZE"
  shows "Message_deserialize ((t # le32 (of_nat (length p)) @ p) @ r) = rbind (parse_payload t p) (\<lambda>m. Ok (m, 5 + length p))"
proof -
  have "bslice ((t # le32 (of_nat (length p)) @ p) @ r) 1 5 = le32 (of_nat (length p))"
    by (simp add: bslice_def)
  moreover have "bslice ((t # le32 (of_nat (length p)) @ p) @ r) 5 (5 + length p) = p"
    using slice_append_right[of "t # le32 (of_nat (length p))" 5 "p @ r" "5 + length p"] by (simp add: bslice_def)
  ultimately show ?thesis using assms
    by (simp add: Message_deserialize_def Let_def constants unat_of_nat_u32)
qed

lemma message_dec_enc:
  assumes "wf_message m" "Message_serialize m = Ok b" "length b \<le> 5 + MAX_MESSAGE_SIZE"
  shows "Message_deserialize (b @ r) = Ok (m, length b)"
proof -
  obtain t p where p: "message_parts m = Ok (t, p)" "b = t # le32 (of_nat (length p)) @ p"
    using assms(2) by (auto simp: Message_serialize_def result_simps)
  then have "length p \<le> MAX_MESSAGE_SIZE" using assms(3) by simp
  from frame_read[OF this, of t r] show ?thesis
    unfolding p(2)[symmetric] using parse_parts[OF assms(1) p(1)] p(2) by simp
qed

definition upgraded_hello :: "bytes \<Rightarrow> bytes" where
  "upgraded_hello payload = 0x01 # le32 268 @ payload @ replicate (268 - length payload) 0"

lemma message_dec_canon:
  assumes "Message_deserialize d = Ok (m, n)"
  shows "wf_message m \<and> 5 \<le> n \<and> n \<le> length d \<and> (Message_serialize m = Ok (take n d)
    \<or> d ! 0 = 0x01 \<and> n \<in> {113, 177} \<and> Message_serialize m = Ok (upgraded_hello (bslice d 5 n)))"
proof -
  let ?l = "unat (u32_le (bslice d 1 5))"
  have d: "5 + ?l \<le> length d" "n = 5 + ?l" "parse_payload (d ! 0) (bslice d 5 (5 + ?l)) = Ok m"
    using assms by (auto simp: Message_deserialize_def Let_def result_simps split: if_splits)
  let ?p = "bslice d 5 (5 + ?l)"
  have "take n d = bslice d 0 1 @ bslice d 1 5 @ ?p"
    using d(2) slice_split[of 0 1 n d] slice_split[of 1 5 n d] by (simp add: bslice_def)
  moreover have "bslice d 0 1 = [d ! 0]" using slice_one[of 0 d] d(1) by (cases d) simp_all
  moreover have "le32 (of_nat (length ?p)) = bslice d 1 5" using d(1) by (simp add: le_word_roundtrip)
  ultimately have "d ! 0 # le32 (of_nat (length ?p)) @ ?p = take n d" by simp
  then show ?thesis
    using parts_parse[OF d(3)] d(1,2) by (auto simp: Message_serialize_def upgraded_hello_def)
qed


section \<open>Properties\<close>

text \<open>C22. The message codec. A well-formed message no longer than the limit is read back from its own
  frame, whatever bytes follow. Conversely every accepted frame carries a well-formed message and is
  the encoding of that message, with one exception: the Hello payloads of 108 and 172 bytes of older
  protocol versions, which stand for the current payload with zero bytes in the missing fields.\<close>

theorem message_codec:
  "(wf_message m \<and> Message_serialize m = Ok b \<and> length b \<le> 5 + MAX_MESSAGE_SIZE
      \<longrightarrow> Message_deserialize (b @ r) = Ok (m, length b))
   \<and> (Message_deserialize d = Ok (m', n) \<longrightarrow> wf_message m' \<and> n \<le> length d
      \<and> (Message_serialize m' = Ok (take n d)
         \<or> d ! 0 = 0x01 \<and> n \<in> {113, 177} \<and> Message_serialize m' = Ok (upgraded_hello (bslice d 5 n))))"
  using message_dec_enc[of m b r] message_dec_canon[of d m' n] by blast

theorem message_codec_witness:
  "\<exists>b. Message_serialize (GetBlocks [replicate 32 7]) = Ok b
     \<and> Message_deserialize (b @ [9]) = Ok (GetBlocks [replicate 32 7], length b)
     \<and> (\<exists>m. Message_deserialize (0x01 # 108 # 0 # 0 # 0 # replicate 108 1) = Ok (m, 113)
         \<and> Message_serialize m = Ok (upgraded_hello (replicate 108 1)))"
proof -
  let ?m = "GetBlocks [replicate 32 7]"
  let ?d = "0x01 # 108 # 0 # 0 # 0 # replicate 108 1 :: bytes"
  obtain b where b: "Message_serialize ?m = Ok b" "length b = 41" "wf_message ?m"
    by (simp add: Message_serialize_def message_parts_def serialize_hash_list_def wf_message_def is_hash256_def constants)
  have "u32_le (bslice ?d 1 5) = 108" by (simp add: bslice_def u32_le_def)
  moreover have "bslice ?d 5 113 = replicate 108 1" by (simp add: bslice_def)
  ultimately obtain m where m: "Message_deserialize ?d = Ok (m, 113)" "bslice ?d 5 113 = replicate 108 1"
    by (simp add: Message_deserialize_def Let_def parse_payload_def deserialize_hello_def constants)
  have "Message_serialize m \<noteq> Ok (take 113 ?d)"
  proof -
    obtain h where "m = Hello h" "wf_hello h"
      using m message_dec_canon[OF m(1)]
      by (auto simp: Message_deserialize_def Let_def parse_payload_def deserialize_hello_def constants wf_message_def
          split: if_splits)
    then show ?thesis
      by (auto simp: Message_serialize_def message_parts_def serialize_hello_def wf_hello_def is_hash256_def dest: arg_cong[of _ _ length])
  qed
  then show ?thesis
    using message_codec[of ?m b "[9]" ?d m 113] b m by (auto simp: constants)
qed

end
