(* ===== verification/Frame_Budget.thy ===== *)
theory Frame_Budget
  imports Primitives
begin

text \<open>
  The budget for frames that are in memory before they are authenticated,
  \<open>network/frame_budget.rs\<close>. Many reader tasks reserve and release bytes on two shared
  counters, one per peer and one for the node, with compare-and-exchange loops and no lock.
  The model keeps every atomic operation apart: a task is at one program point of
  \<open>PeerBudget::try_reserve\<close> or of \<open>FrameReservation::drop\<close>, and a schedule says which task
  takes the next step, so that a theorem over all schedules covers every interleaving.
  Counters are 64-bit words; \<open>fetch_sub\<close> wraps.
\<close>


section \<open>Counters and errors\<close>

definition GLOBAL_FRAME_BUDGET_BYTES :: u64 where [constants]: "GLOBAL_FRAME_BUDGET_BYTES = 128 * 1024 * 1024"
definition PER_PEER_FRAME_BUDGET_BYTES :: u64 where [constants]: "PER_PEER_FRAME_BUDGET_BYTES = 16 * 1024 * 1024"

record FrameBudget =
  global_used :: u64
  global_cap :: u64

record PeerBudget =
  peer_used :: u64
  peer_cap :: u64

datatype BudgetError =
    Global (requested: u64) (used: u64) (cap: u64)
  | PerPeer (requested: u64) (held: u64) (cap: u64)

definition FrameBudget_with_cap :: "u64 \<Rightarrow> FrameBudget" where
  "FrameBudget_with_cap c = \<lparr>global_used = 0, global_cap = c\<rparr>"

definition with_peer_cap :: "u64 \<Rightarrow> PeerBudget" where
  "with_peer_cap c = \<lparr>peer_used = 0, peer_cap = c\<rparr>"


section \<open>The atomic steps of a reader task\<close>

text \<open>\<open>Peer_Loop\<close> and \<open>Global_Loop\<close> are the heads of the two loops, with the bytes to reserve and
  the counter value the task has seen; \<open>Peer_Taken\<close> is the point between them; \<open>Reserved\<close> holds
  the guard that \<open>try_reserve\<close> returned; \<open>Dropping\<close> is the point inside \<open>drop\<close> where only the
  peer counter has been released.\<close>

datatype task =
    Idle
  | Peer_Loop u64 u64
  | Peer_Taken u64
  | Global_Loop u64 u64
  | Reserved u64
  | Dropping u64
  | Refused BudgetError

text \<open>A weak exchange may fail although the counter holds the expected value; the flag of
  \<open>Next\<close> says whether it does.\<close>

datatype action = Call u64 | Next bool | Drop

definition start_reserve :: "u64 \<Rightarrow> PeerBudget \<Rightarrow> task" where
  "start_reserve bytes p = Peer_Loop bytes (peer_used p)"

definition peer_loop_step :: "bool \<Rightarrow> u64 \<Rightarrow> u64 \<Rightarrow> PeerBudget \<Rightarrow> PeerBudget \<times> task" where
  "peer_loop_step spurious bytes peer_prev p = (let new = saturating_add peer_prev bytes in
     if new > peer_cap p then (p, Refused (PerPeer bytes peer_prev (peer_cap p)))
     else if peer_used p = peer_prev \<and> \<not> spurious then (p\<lparr>peer_used := new\<rparr>, Peer_Taken bytes)
     else (p, Peer_Loop bytes (peer_used p)))"

definition global_loop_step ::
    "bool \<Rightarrow> u64 \<Rightarrow> u64 \<Rightarrow> FrameBudget \<Rightarrow> PeerBudget \<Rightarrow> FrameBudget \<times> PeerBudget \<times> task" where
  "global_loop_step spurious bytes global_prev g p = (let new = saturating_add global_prev bytes in
     if new > global_cap g
     then (g, p\<lparr>peer_used := peer_used p - bytes\<rparr>, Refused (Global bytes global_prev (global_cap g)))
     else if global_used g = global_prev \<and> \<not> spurious then (g\<lparr>global_used := new\<rparr>, p, Reserved bytes)
     else (g, p, Global_Loop bytes (global_used g)))"

definition drop_peer :: "u64 \<Rightarrow> PeerBudget \<Rightarrow> PeerBudget" where
  "drop_peer bytes p = p\<lparr>peer_used := peer_used p - bytes\<rparr>"

definition drop_global :: "u64 \<Rightarrow> FrameBudget \<Rightarrow> FrameBudget" where
  "drop_global bytes g = g\<lparr>global_used := global_used g - bytes\<rparr>"

fun task_step :: "action \<Rightarrow> FrameBudget \<times> PeerBudget \<times> task \<Rightarrow> (FrameBudget \<times> PeerBudget \<times> task) option" where
  "task_step (Call bytes) (g, p, Idle) = Some (g, p, start_reserve bytes p)"
| "task_step (Call bytes) (g, p, Refused e) = Some (g, p, start_reserve bytes p)"
| "task_step (Next spurious) (g, p, Peer_Loop bytes prev) = Some (g, peer_loop_step spurious bytes prev p)"
| "task_step (Next spurious) (g, p, Peer_Taken bytes) = Some (g, p, Global_Loop bytes (global_used g))"
| "task_step (Next spurious) (g, p, Global_Loop bytes prev) = Some (global_loop_step spurious bytes prev g p)"
| "task_step Drop (g, p, Reserved bytes) = Some (g, drop_peer bytes p, Dropping bytes)"
| "task_step (Next spurious) (g, p, Dropping bytes) = Some (drop_global bytes g, p, Idle)"
| "task_step _ _ = None"

fun_cases task_step_cases: "task_step a (g, p, t) = Some s"


section \<open>Schedules\<close>

text \<open>The node: the global counter, the counter of every peer, and the reader tasks, each with the
  peer it reads from.\<close>

record node =
  budget :: FrameBudget
  peers :: "nat \<Rightarrow> PeerBudget"
  tasks :: "(nat \<times> task) list"

definition node_step :: "nat \<times> action \<Rightarrow> node \<Rightarrow> node option" where
  "node_step = (\<lambda>(i, a) n.
     if i < length (tasks n) then
       (let (q, t) = tasks n ! i in
        case task_step a (budget n, peers n q, t) of
          Some (g, p, t) \<Rightarrow> Some \<lparr>budget = g, peers = (peers n)(q := p), tasks = (tasks n)[i := (q, t)]\<rparr>
        | None \<Rightarrow> None)
     else None)"

fun run_node :: "(nat \<times> action) list \<Rightarrow> node \<Rightarrow> node option" where
  "run_node [] n = Some n"
| "run_node (e # es) n = Option.bind (node_step e n) (run_node es)"

definition start_node :: "u64 \<Rightarrow> (nat \<Rightarrow> u64) \<Rightarrow> nat list \<Rightarrow> node" where
  "start_node gcap pcap owners =
     \<lparr>budget = FrameBudget_with_cap gcap, peers = (\<lambda>q. with_peer_cap (pcap q)),
      tasks = map (\<lambda>q. (q, Idle)) owners\<rparr>"


section \<open>Accounting\<close>

text \<open>The bytes a task has on its peer's counter and on the global counter, and the bytes of memory
  it may hold.\<close>

fun on_peer :: "task \<Rightarrow> nat" where
  "on_peer (Peer_Taken b) = unat b"
| "on_peer (Global_Loop b _) = unat b"
| "on_peer (Reserved b) = unat b"
| "on_peer _ = 0"

fun on_global :: "task \<Rightarrow> nat" where
  "on_global (Reserved b) = unat b"
| "on_global (Dropping b) = unat b"
| "on_global _ = 0"

fun in_memory :: "task \<Rightarrow> nat" where
  "in_memory (Reserved b) = unat b"
| "in_memory _ = 0"

definition of_peer :: "(task \<Rightarrow> nat) \<Rightarrow> nat \<Rightarrow> nat \<times> task \<Rightarrow> nat" where
  "of_peer f q x = (if fst x = q then f (snd x) else 0)"

definition charged :: "(nat \<times> task \<Rightarrow> nat) \<Rightarrow> node \<Rightarrow> nat" where
  "charged f n = sum_list (map f (tasks n))"

definition balanced :: "node \<Rightarrow> bool" where
  "balanced n \<longleftrightarrow>
     unat (global_used (budget n)) = charged (on_global \<circ> snd) n
     \<and> global_used (budget n) \<le> global_cap (budget n)
     \<and> (\<forall>q. unat (peer_used (peers n q)) = charged (of_peer on_peer q) n
          \<and> peer_used (peers n q) \<le> peer_cap (peers n q))"

lemma sum_list_replace:
  "i < length xs \<Longrightarrow> sum_list (map f (xs[i := x])) + f (xs ! i) = sum_list (map f xs) + (f x :: nat)"
proof (induction xs arbitrary: i)
  case (Cons y ys)
  then show ?case by (cases i) (simp_all add: add.assoc)
qed simp

lemma nth_le_sum_list: "i < length xs \<Longrightarrow> f (xs ! i) \<le> sum_list (map f xs :: nat list)"
  using sum_list_replace[of i xs f "xs ! i"] by (induction xs arbitrary: i) (auto simp: nth_Cons split: nat.splits intro: trans_le_add2)

lemma saturating_below:
  assumes "saturating_add a b \<le> (c :: u64)" "c \<noteq> - 1"
  shows "unat (saturating_add a b) = unat a + unat b"
proof (cases "checked_add a b")
  case None
  then show ?thesis using assms by (simp add: saturating_add_def word_order.extremum_unique)
next
  case (Some d)
  then show ?thesis by (simp add: saturating_add_def flip: checked_add_Some)
qed


lemma unat_sub_le: "unat b \<le> unat a \<Longrightarrow> unat (a - b :: u64) = unat a - unat b"
  by (simp add: unat_sub word_le_nat_alt)

lemma task_step_accounts:
  assumes "task_step a (g, p, t) = Some (g', p', t')"
    and "on_global t \<le> unat (global_used g)" "on_peer t \<le> unat (peer_used p)"
    and "global_used g \<le> global_cap g" "peer_used p \<le> peer_cap p" "global_cap g \<noteq> - 1" "peer_cap p \<noteq> - 1"
  shows "unat (global_used g') + on_global t = unat (global_used g) + on_global t'
    \<and> unat (peer_used p') + on_peer t = unat (peer_used p) + on_peer t'
    \<and> global_cap g' = global_cap g \<and> peer_cap p' = peer_cap p
    \<and> global_used g' \<le> global_cap g' \<and> peer_used p' \<le> peer_cap p'"
  using assms
proof (cases rule: task_step_cases[OF assms(1)])
  case (3 spurious bytes prev)
  then show ?thesis using assms saturating_below[of prev bytes "peer_cap p"]
    by (auto simp: peer_loop_step_def Let_def split: if_splits)
next
  case (5 spurious bytes prev)
  then show ?thesis using assms saturating_below[of prev bytes "global_cap g"]
    by (auto simp: global_loop_step_def Let_def unat_sub_le word_le_nat_alt word_less_nat_alt split: if_splits)
next
  case (6 bytes)
  then show ?thesis using assms by (auto simp: drop_peer_def unat_sub_le word_le_nat_alt)
next
  case (7 spurious bytes)
  then show ?thesis using assms by (auto simp: drop_global_def unat_sub_le word_le_nat_alt)
qed (use assms in \<open>auto simp: start_reserve_def\<close>)


definition caps_finite :: "node \<Rightarrow> bool" where
  "caps_finite n \<longleftrightarrow> global_cap (budget n) \<noteq> - 1 \<and> (\<forall>q. peer_cap (peers n q) \<noteq> - 1)"

lemma node_step_Some:
  assumes "node_step e n = Some n'"
  obtains i a q t g p t' where "e = (i, a)" "i < length (tasks n)" "tasks n ! i = (q, t)"
    "task_step a (budget n, peers n q, t) = Some (g, p, t')"
    "n' = \<lparr>budget = g, peers = (peers n)(q := p), tasks = (tasks n)[i := (q, t')]\<rparr>"
  using assms by (auto simp: node_step_def Let_def split: if_splits option.splits prod.splits)

lemma node_step_balanced:
  assumes "node_step e n = Some n'" "balanced n" "caps_finite n"
  shows "balanced n' \<and> caps_finite n' \<and> global_cap (budget n') = global_cap (budget n)
    \<and> (\<forall>q. peer_cap (peers n' q) = peer_cap (peers n q))"
proof -
  obtain i a q t g p t' where s: "i < length (tasks n)" "tasks n ! i = (q, t)"
      "task_step a (budget n, peers n q, t) = Some (g, p, t')"
      "n' = \<lparr>budget = g, peers = (peers n)(q := p), tasks = (tasks n)[i := (q, t')]\<rparr>"
    by (rule node_step_Some[OF assms(1)])
  have le: "on_global t \<le> unat (global_used (budget n))" "on_peer t \<le> unat (peer_used (peers n q))"
    using assms(2) nth_le_sum_list[OF s(1), of "on_global \<circ> snd"] nth_le_sum_list[OF s(1), of "of_peer on_peer q"] s(2)
    by (simp_all add: balanced_def charged_def of_peer_def)
  have acc: "unat (global_used g) + on_global t = unat (global_used (budget n)) + on_global t'"
      "unat (peer_used p) + on_peer t = unat (peer_used (peers n q)) + on_peer t'"
      "global_cap g = global_cap (budget n)" "peer_cap p = peer_cap (peers n q)"
      "global_used g \<le> global_cap g" "peer_used p \<le> peer_cap p"
    using task_step_accounts[OF s(3) le] assms(2,3) by (auto simp: balanced_def caps_finite_def)
  have ch: "charged f n' + f (q, t) = charged f n + f (q, t')" for f
    using sum_list_replace[OF s(1), of f "(q, t')"] s(2,4) by (simp add: charged_def)
  have "unat (global_used g) = charged (on_global \<circ> snd) n'"
    using acc(1) ch[of "on_global \<circ> snd"] assms(2) by (simp add: balanced_def)
  moreover have "unat (peer_used (peers n' r)) = charged (of_peer on_peer r) n'" for r
    using acc(2) ch[of "of_peer on_peer r"] assms(2) s(4) by (cases "r = q") (auto simp: balanced_def of_peer_def)
  ultimately show ?thesis
    using assms(2,3) acc(3-6) s(4) by (simp add: balanced_def caps_finite_def)
qed

lemma run_node_balanced:
  "run_node es n = Some n' \<Longrightarrow> balanced n \<Longrightarrow> caps_finite n \<Longrightarrow>
    balanced n' \<and> global_cap (budget n') = global_cap (budget n) \<and> (\<forall>q. peer_cap (peers n' q) = peer_cap (peers n q))"
proof (induction es arbitrary: n)
  case (Cons e es)
  then obtain m where m: "node_step e n = Some m" "run_node es m = Some n'" by (auto simp: bind_eq_Some_conv)
  from node_step_balanced[OF m(1) Cons.prems(2,3)] show ?case using Cons.IH[OF m(2)] by simp
qed simp

lemma start_balanced: "balanced (start_node gcap pcap owners)"
proof -
  have "charged f (start_node gcap pcap owners) = 0" if "\<And>q. f (q, Idle) = 0" for f
    using that by (simp add: charged_def start_node_def comp_def)
  then show ?thesis
    by (simp add: balanced_def of_peer_def) (simp add: start_node_def FrameBudget_with_cap_def with_peer_cap_def)
qed

lemma charged_mono: "(\<And>x. f x \<le> g x) \<Longrightarrow> charged f n \<le> charged g n"
  by (simp add: charged_def sum_list_mono)

lemma in_memory_le: "in_memory t \<le> on_peer t" "in_memory t \<le> on_global t"
  by (cases t; simp)+

lemma charged_zero: "list_all (\<lambda>x. f x = 0) (tasks n) \<Longrightarrow> charged f n = 0"
  by (simp add: charged_def list_all_iff)


section \<open>Progress\<close>

text \<open>A call that no other task interferes with returns after three steps, and its verdict is exactly
  whether the bytes fit both budgets, the peer's budget first; a refusal leaves both counters as
  they were.\<close>

fun settle :: "nat \<Rightarrow> FrameBudget \<times> PeerBudget \<times> task \<Rightarrow> FrameBudget \<times> PeerBudget \<times> task" where
  "settle 0 s = s"
| "settle (Suc k) s = (case task_step (Next False) s of None \<Rightarrow> s | Some s' \<Rightarrow> settle k s')"

definition try_reserve_alone :: "u64 \<Rightarrow> FrameBudget \<Rightarrow> PeerBudget \<Rightarrow> FrameBudget \<times> PeerBudget \<times> task" where
  "try_reserve_alone bytes g p = settle 3 (g, p, start_reserve bytes p)"

lemma saturating_exceeds:
  assumes "(c :: u64) \<noteq> - 1"
  shows "saturating_add a b > c \<longleftrightarrow> unat a + unat b > unat c"
proof (cases "checked_add a b")
  case None
  have "c < - 1" using assms word_order.not_eq_extremum by blast
  moreover have "2 ^ 64 \<le> unat a + unat b" using None by (simp add: checked_add_def split: if_splits)
  ultimately show ?thesis using None unat_bound[of c] by (simp add: saturating_add_def)
next
  case (Some d)
  moreover have "unat d = unat a + unat b" using Some by (simp add: checked_add_Some)
  ultimately show ?thesis by (simp add: saturating_add_def word_less_nat_alt)
qed

lemma saturating_fits:
  assumes "unat a + unat b \<le> unat (c :: u64)"
  shows "saturating_add a b = (a + b :: u64)"
  using assms unat_bound[of c] by (simp add: saturating_add_def checked_add_def)

lemma try_reserve_alone_exact:
  assumes "global_cap g \<noteq> - 1" "peer_cap p \<noteq> - 1"
  shows "try_reserve_alone b g p =
    (if unat (peer_used p) + unat b > unat (peer_cap p) then (g, p, Refused (PerPeer b (peer_used p) (peer_cap p)))
     else if unat (global_used g) + unat b > unat (global_cap g)
     then (g, p, Refused (Global b (global_used g) (global_cap g)))
     else (g\<lparr>global_used := global_used g + b\<rparr>, p\<lparr>peer_used := peer_used p + b\<rparr>, Reserved b))"
  using saturating_exceeds[OF assms(1), of "global_used g" b] saturating_exceeds[OF assms(2), of "peer_used p" b]
    saturating_fits[of "global_used g" b "global_cap g"] saturating_fits[of "peer_used p" b "peer_cap p"]
  by (simp add: try_reserve_alone_def numeral_3_eq_3 start_reserve_def peer_loop_step_def global_loop_step_def Let_def)


section \<open>Property\<close>

definition at_rest :: "task \<Rightarrow> bool" where
  "at_rest t = (case t of Idle \<Rightarrow> True | Refused _ \<Rightarrow> True | _ \<Rightarrow> False)"

lemma at_rest_uncharged: "at_rest t \<Longrightarrow> on_global t = 0 \<and> on_peer t = 0"
  by (cases t) (simp_all add: at_rest_def)

text \<open>C12. Whatever the interleaving of the atomic steps of any number of reader tasks, spurious
  exchange failures included, the bytes of the frames held in memory stay within the cap of their
  peer and within the cap of the node; the counters are at every moment exactly the bytes
  charged, so no subtraction wraps; and once no reservation or call is left both counters are zero
  again. The caps need only be below the largest machine integer, where saturation would hide an
  overflow.\<close>

theorem frame_budget_safe:
  assumes "run_node es (start_node gcap pcap owners) = Some n" "gcap \<noteq> - 1" "\<forall>q. pcap q \<noteq> - 1"
  shows "charged (in_memory \<circ> snd) n \<le> unat gcap
    \<and> (\<forall>q. charged (of_peer in_memory q) n \<le> unat (pcap q))
    \<and> unat (global_used (budget n)) = charged (on_global \<circ> snd) n
    \<and> (\<forall>q. unat (peer_used (peers n q)) = charged (of_peer on_peer q) n)
    \<and> (list_all (at_rest \<circ> snd) (tasks n) \<longrightarrow> global_used (budget n) = 0 \<and> (\<forall>q. peer_used (peers n q) = 0))"
proof -
  have start: "caps_finite (start_node gcap pcap owners)"
      "global_cap (budget (start_node gcap pcap owners)) = gcap" "peer_cap (peers (start_node gcap pcap owners) q) = pcap q" for q
    using assms(2,3) by (simp_all add: caps_finite_def start_node_def FrameBudget_with_cap_def with_peer_cap_def)
  have b: "balanced n" and caps: "global_cap (budget n) = gcap" "\<And>q. peer_cap (peers n q) = pcap q"
    using run_node_balanced[OF assms(1) start_balanced start(1)] start(2,3) by simp_all
  have "charged (in_memory \<circ> snd) n \<le> charged (on_global \<circ> snd) n"
      "charged (of_peer in_memory q) n \<le> charged (of_peer on_peer q) n" for q
    using in_memory_le by (auto intro!: charged_mono simp: of_peer_def)
  moreover have "charged (on_global \<circ> snd) n = 0 \<and> charged (of_peer on_peer q) n = 0"
    if "list_all (at_rest \<circ> snd) (tasks n)" for q
  proof -
    have "on_global t = 0 \<and> on_peer t = 0" if "(r, t) \<in> set (tasks n)" for r t
      using \<open>list_all (at_rest \<circ> snd) (tasks n)\<close> that by (intro at_rest_uncharged) (auto simp: list_all_iff)
    then show ?thesis by (intro conjI charged_zero) (auto simp: list_all_iff of_peer_def)
  qed
  moreover have "unat (global_used (budget n)) = charged (on_global \<circ> snd) n" "unat (global_used (budget n)) \<le> unat gcap"
      "unat (peer_used (peers n q)) = charged (of_peer on_peer q) n" "unat (peer_used (peers n q)) \<le> unat (pcap q)" for q
    using b caps by (simp_all add: balanced_def word_le_nat_alt) metis
  ultimately show ?thesis by (metis order_trans unat_eq_zero)
qed

theorem frame_budget_safe_witness:
  "\<exists>n. run_node [(0, Call 6), (1, Call 6), (0, Next False), (1, Next False), (0, Next False), (1, Next False),
       (1, Next True), (0, Next False), (1, Next False), (1, Next False), (0, Drop), (0, Next False)]
     (start_node 10 (\<lambda>_. 8) [0, 1]) = Some n
   \<and> snd (tasks n ! 1) = Refused (Global 6 6 10) \<and> global_used (budget n) = 0 \<and> peer_used (peers n 1) = 0"
proof -
  let ?es = "[(0, Call 6), (1, Call 6), (0, Next False), (1, Next False), (0, Next False), (1, Next False),
       (1, Next True), (0, Next False), (1, Next False), (1, Next False), (0, Drop), (0, Next False)]"
  have "\<exists>n. run_node ?es (start_node 10 (\<lambda>_. 8) [0, 1]) = Some n \<and> tasks n = [(0, Idle), (1, Refused (Global 6 6 10))]"
    by (simp add: node_step_def start_node_def FrameBudget_with_cap_def with_peer_cap_def start_reserve_def peer_loop_step_def
        global_loop_step_def drop_peer_def drop_global_def saturating_add_def checked_add_def Let_def)
  then obtain n where n: "run_node ?es (start_node 10 (\<lambda>_. 8) [0, 1]) = Some n"
      "tasks n = [(0, Idle), (1, Refused (Global 6 6 10))]" by blast
  from frame_budget_safe[OF n(1)] n show ?thesis by (simp add: at_rest_def)
qed

end
