(* ===== verification/Peer.thy ===== *)
theory Peer
  imports Protocol Frame_Budget "HOL-Library.Sublist"
begin

text \<open>
  Connections between nodes, \<open>network/peer.rs\<close>: the data of a connection, reading from its socket,
  and the mutually authenticated handshake. A socket is a sequence of events: a segment of bytes, a
  pause, a pause longer than the deadline of the running read, or a failure; a write either succeeds
  as a whole or fails, and a failed write counts as nothing written. Signatures, the Diffie-Hellman
  secret and HMAC-SHA256 belong to third-party packages and are parameters. The channel after the
  handshake is in \<open>Peer_Channel\<close>.
\<close>


section \<open>Data\<close>

definition DS_MAC_IR :: bytes where "DS_MAC_IR = ascii ''EXFER-MAC-IR''"
definition DS_MAC_RI :: bytes where "DS_MAC_RI = ascii ''EXFER-MAC-RI''"
definition EAGER_ALLOC_LIMIT :: nat where [constants]: "EAGER_ALLOC_LIMIT = 32768"
definition READ_CHUNK_SIZE :: nat where [constants]: "READ_CHUNK_SIZE = 32768"
definition FRAME_HEADER_SIZE :: nat where [constants]: "FRAME_HEADER_SIZE = 5"

text \<open>\<open>verifying_key\<close> is the public key of a signing key and \<open>sign\<close> its signature on a message;
  \<open>dh_secret\<close> takes the other side's public key and one's own signing key to the X25519 shared
  secret.\<close>

record identity_lib =
  base :: crypto
  verifying_key :: "bytes \<Rightarrow> bytes"
  sign :: "bytes \<Rightarrow> bytes \<Rightarrow> bytes"
  dh_secret :: "bytes \<Rightarrow> bytes \<Rightarrow> bytes"
  hmac_sha256 :: "bytes \<Rightarrow> bytes \<Rightarrow> bytes"

datatype PeerError =
    Io string
  | HandshakeTimeout
  | GenesisMismatch
  | VersionMismatch
  | UnexpectedMessage
  | PongTimeout
  | RateLimitExceeded
  | SerializationError
  | NonceMismatch
  | AuthFailed
  | SelfConnection
  | SlowPeer string
  | HmacFailure
  | DuplicateIdentity bytes
  | PeerAlreadyBanned
  | TrafficQuotaExceeded
  | AbuseThresholdExceeded
  | ProtocolGarbage
  | SlowPeerTimeout string
  | TransportIo string
  | FrameBudgetExceeded string
  | MalformedFrame string
  | DisconnectAfterInlineStrike

record Peer =
  peer_version :: u32
  peer_genesis :: bytes
  peer_best_height :: u64
  peer_best_block_id :: bytes
  peer_cumulative_work :: bytes
  is_inbound :: bool
  peer_identity :: bytes
  send_key :: bytes
  recv_key :: bytes
  send_counter :: u64
  recv_counter :: u64
  counter_buf :: bytes
  counter_started :: bool


section \<open>The incoming stream\<close>

datatype ErrorKind = TimedOut | UnexpectedEofKind | ConnectionReset | ConnectionAborted | BrokenPipe
  | Interrupted | WriteZero | NotConnected | InvalidDataKind | OtherKind

text \<open>An empty segment is the end of the stream. When the events run out the peer stays silent.\<close>

datatype event = Got bytes | Quiet | Stall | Gone ErrorKind

type_synonym stream = "event list"

datatype io_failure = Stalled | Failed ErrorKind string

definition unread :: "bytes \<Rightarrow> stream \<Rightarrow> stream" where
  "unread bs es = (if bs = [] then es else Got bs # es)"

fun read_exact :: "nat \<Rightarrow> stream \<Rightarrow> (stream, io_failure, bytes) run" where
  "read_exact n [] = (if n = 0 then (Ok [], []) else (Err Stalled, []))"
| "read_exact n (e # es) =
     (if n = 0 then (Ok [], e # es)
      else case e of
        Got bs \<Rightarrow>
          if bs = [] then (Err (Failed UnexpectedEofKind ''early eof''), es)
          else if n \<le> length bs then (Ok (take n bs), unread (drop n bs) es)
          else sbind (read_exact (n - length bs) es) (\<lambda>rest es. (Ok (bs @ rest), es))
      | Quiet \<Rightarrow> read_exact n es
      | Stall \<Rightarrow> (Err Stalled, es)
      | Gone k \<Rightarrow> (Err (Failed k ''transport''), es))"


section \<open>Handshake\<close>

definition read_hello :: "stream \<Rightarrow> (stream, io_failure, Message) run" where
  "read_hello es =
     sbind (read_exact 1 es) (\<lambda>t es.
     if t ! 0 \<noteq> 0x01 then (Err (Failed InvalidDataKind ''handshake: expected Hello''), es)
     else sbind (read_exact 4 es) (\<lambda>l es.
     let payload_len = unat (u32_le l) in
     if payload_len > HELLO_V4_PAYLOAD_SIZE
     then (Err (Failed InvalidDataKind ''handshake: Hello payload too large''), es)
     else sbind (read_exact payload_len es) (\<lambda>payload es.
     case Message_deserialize ((t ! 0) # le32 (of_nat payload_len) @ payload) of
       Inr (msg, _) \<Rightarrow> (Ok msg, es)
     | Inl _ \<Rightarrow> (Err (Failed InvalidDataKind ''deserialization error''), es))))"

definition read_auth_ack :: "stream \<Rightarrow> (stream, io_failure, bytes) run" where
  "read_auth_ack es =
     sbind (read_exact 1 es) (\<lambda>t es.
     if t ! 0 \<noteq> 0x18 then (Err (Failed InvalidDataKind ''handshake: expected AuthAck''), es)
     else sbind (read_exact 4 es) (\<lambda>l es.
     if unat (u32_le l) \<noteq> 64
     then (Err (Failed InvalidDataKind ''handshake: AuthAck payload must be 64 bytes''), es)
     else read_exact 64 es))"

definition verify_peer_sig :: "identity_lib \<Rightarrow> bytes \<Rightarrow> bytes \<Rightarrow> bytes \<Rightarrow> PeerError + unit" where
  "verify_peer_sig K pk transcript sig_bytes =
     (if is_weak_ed25519_key (base K) pk then Err AuthFailed
      else if \<not> vk_from_bytes (base K) pk then Err AuthFailed
      else if \<not> vk_verify (base K) pk transcript sig_bytes then Err AuthFailed
      else Ok ())"

definition derive_directional_keys :: "identity_lib \<Rightarrow> bytes \<Rightarrow> bytes \<times> bytes" where
  "derive_directional_keys K session_key =
     (sha256 (base K) (DS_MAC_IR @ session_key), sha256 (base K) (DS_MAC_RI @ session_key))"

definition hello_tip :: "HelloMsg \<Rightarrow> bytes" where
  "hello_tip h = tip_commitment (best_height h) (best_block_id h) (cumulative_work h)"

definition handshake_io :: "io_failure \<Rightarrow> PeerError" where
  "handshake_io f = (case f of Stalled \<Rightarrow> HandshakeTimeout | Failed _ s \<Rightarrow> Io s)"

definition new_peer :: "identity_lib \<Rightarrow> bool \<Rightarrow> HelloMsg \<Rightarrow> bytes \<Rightarrow> bytes \<Rightarrow> bytes \<Rightarrow> Peer" where
  "new_peer K inbound their nonce_a nonce_b signing_key =
     (let dh_shared_secret = dh_secret K (hello_pubkey their) signing_key;
          session_key = compute_session_key (base K) (genesis_block_id their) PROTOCOL_VERSION nonce_a nonce_b
                          dh_shared_secret;
          (i2r_key, r2i_key) = derive_directional_keys K session_key in
      \<lparr>peer_version = hello_version their, peer_genesis = genesis_block_id their,
       peer_best_height = best_height their, peer_best_block_id = best_block_id their,
       peer_cumulative_work = cumulative_work their, is_inbound = inbound, peer_identity = hello_pubkey their,
       send_key = (if inbound then r2i_key else i2r_key), recv_key = (if inbound then i2r_key else r2i_key),
       send_counter = 0, recv_counter = 0, counter_buf = [], counter_started = False\<rparr>)"

text \<open>What a handshake leaves: its result, the bytes written to the socket, the identity it has
  authenticated (\<open>peer_identity_out\<close>) and the unread events. The argument \<open>wr\<close> says which writes
  succeed.\<close>

record handshake_outcome =
  outcome :: "PeerError + Peer"
  written :: bytes
  identity_out :: "bytes option"
  unread_events :: stream

definition handshake_failed :: "bytes \<Rightarrow> bytes option \<Rightarrow> stream \<Rightarrow> PeerError \<Rightarrow> handshake_outcome" where
  "handshake_failed w i es e = \<lparr>outcome = Err e, written = w, identity_out = i, unread_events = es\<rparr>"

definition handshake_inbound :: "identity_lib \<Rightarrow> (nat \<Rightarrow> bool) \<Rightarrow> HelloMsg \<Rightarrow> bytes \<Rightarrow> bytes \<Rightarrow> stream \<Rightarrow> handshake_outcome" where
  "handshake_inbound K wr our_hello signing_key our_nonce es =
     (let our_pubkey = verifying_key K signing_key in
      case read_hello es of
        (Inl f, es) \<Rightarrow> handshake_failed [] None es (handshake_io f)
      | (Inr (Hello their), es) \<Rightarrow>
        if hello_version their \<noteq> PROTOCOL_VERSION then handshake_failed [] None es VersionMismatch
        else if genesis_block_id their \<noteq> genesis_block_id our_hello then handshake_failed [] None es GenesisMismatch
        else if hello_pubkey their = our_pubkey then handshake_failed [] None es SelfConnection
        else let nonce_a = hello_nonce their; nonce_b = our_nonce;
                 tip_a = hello_tip their; tip_b = hello_tip our_hello;
                 transcript_resp = compute_auth_transcript (base K) (genesis_block_id our_hello) PROTOCOL_VERSION
                                     nonce_a nonce_b 0x00 tip_a tip_b;
                 reply = our_hello\<lparr>hello_nonce := nonce_b, hello_echo := nonce_a, hello_pubkey := our_pubkey,
                                   hello_sig := sign K signing_key transcript_resp\<rparr> in
        (case Message_serialize (Hello reply) of
           Inl _ \<Rightarrow> handshake_failed [] None es SerializationError
         | Inr hello_bytes \<Rightarrow>
           if \<not> wr 0 then handshake_failed [] None es (Io ''write'')
           else
           (case read_auth_ack es of
              (Inl f, es) \<Rightarrow> handshake_failed hello_bytes None es (handshake_io f)
            | (Inr sig_a, es) \<Rightarrow>
              (let transcript_init = compute_auth_transcript (base K) (genesis_block_id their) PROTOCOL_VERSION
                                       nonce_a nonce_b 0x01 tip_a tip_b in
               case verify_peer_sig K (hello_pubkey their) transcript_init sig_a of
                 Inl e \<Rightarrow> handshake_failed hello_bytes None es e
               | Inr _ \<Rightarrow> \<lparr>outcome = Ok (new_peer K True their nonce_a nonce_b signing_key), written = hello_bytes,
                            identity_out = Some (hello_pubkey their), unread_events = es\<rparr>)))
      | (Inr _, es) \<Rightarrow> handshake_failed [] None es UnexpectedMessage)"

definition handshake_outbound :: "identity_lib \<Rightarrow> (nat \<Rightarrow> bool) \<Rightarrow> HelloMsg \<Rightarrow> bytes \<Rightarrow> bytes \<Rightarrow> stream \<Rightarrow> handshake_outcome" where
  "handshake_outbound K wr our_hello signing_key our_nonce es =
     (let our_pubkey = verifying_key K signing_key;
          first = our_hello\<lparr>hello_nonce := our_nonce, hello_echo := replicate 32 0, hello_pubkey := our_pubkey,
                            hello_sig := replicate 64 0\<rparr> in
      case Message_serialize (Hello first) of
        Inl _ \<Rightarrow> handshake_failed [] None es SerializationError
      | Inr hello_bytes \<Rightarrow>
        if \<not> wr 0 then handshake_failed [] None es (Io ''write'')
        else
        (case read_hello es of
           (Inl f, es) \<Rightarrow> handshake_failed hello_bytes None es (handshake_io f)
         | (Inr (Hello their), es) \<Rightarrow>
           if hello_version their \<noteq> PROTOCOL_VERSION then handshake_failed hello_bytes None es VersionMismatch
           else if genesis_block_id their \<noteq> genesis_block_id our_hello
           then handshake_failed hello_bytes None es GenesisMismatch
           else if hello_echo their \<noteq> our_nonce then handshake_failed hello_bytes None es NonceMismatch
           else if hello_pubkey their = our_pubkey then handshake_failed hello_bytes None es SelfConnection
           else let nonce_a = our_nonce; nonce_b = hello_nonce their;
                    tip_a = hello_tip our_hello; tip_b = hello_tip their;
                    transcript_resp = compute_auth_transcript (base K) (genesis_block_id our_hello) PROTOCOL_VERSION
                                        nonce_a nonce_b 0x00 tip_a tip_b in
           (case verify_peer_sig K (hello_pubkey their) transcript_resp (hello_sig their) of
              Inl e \<Rightarrow> handshake_failed hello_bytes None es e
            | Inr _ \<Rightarrow>
              (let transcript_init = compute_auth_transcript (base K) (genesis_block_id our_hello) PROTOCOL_VERSION
                                       nonce_a nonce_b 0x01 tip_a tip_b in
               case Message_serialize (AuthAck \<lparr>ack_sig = sign K signing_key transcript_init\<rparr>) of
                 Inl _ \<Rightarrow> handshake_failed hello_bytes (Some (hello_pubkey their)) es SerializationError
               | Inr ack_bytes \<Rightarrow>
                 if \<not> wr 1 then handshake_failed hello_bytes (Some (hello_pubkey their)) es (Io ''write'')
                 else \<lparr>outcome = Ok (new_peer K False their nonce_a nonce_b signing_key),
                       written = hello_bytes @ ack_bytes, identity_out = Some (hello_pubkey their),
                       unread_events = es\<rparr>))
         | (Inr _, es) \<Rightarrow> handshake_failed hello_bytes None es UnexpectedMessage))"


definition handshake :: "identity_lib \<Rightarrow> (nat \<Rightarrow> bool) \<Rightarrow> HelloMsg \<Rightarrow> bool \<Rightarrow> bytes \<Rightarrow> bytes \<Rightarrow> stream \<Rightarrow> handshake_outcome" where
  "handshake K wr our_hello inbound signing_key our_nonce es =
     (if inbound then handshake_inbound K wr our_hello signing_key our_nonce es
      else handshake_outbound K wr our_hello signing_key our_nonce es)"


section \<open>Reading from a stream that flows\<close>

fun bytes_of :: "stream \<Rightarrow> bytes" where
  "bytes_of [] = []"
| "bytes_of (Got bs # es) = bs @ bytes_of es"
| "bytes_of (_ # es) = bytes_of es"

text \<open>A stream flows when it has no failure, no end and no pause beyond a deadline; how its bytes
  are cut into segments does not matter.\<close>

definition flowing :: "stream \<Rightarrow> bool" where
  "flowing es \<longleftrightarrow> list_all (\<lambda>e. case e of Got bs \<Rightarrow> bs \<noteq> [] | Quiet \<Rightarrow> True | _ \<Rightarrow> False) es"

lemma flowing_simps [simp]:
  "flowing []" "flowing (Got bs # es) \<longleftrightarrow> bs \<noteq> [] \<and> flowing es" "flowing (Quiet # es) = flowing es"
  "\<not> flowing (Stall # es)" "\<not> flowing (Gone k # es)"
  by (simp_all add: flowing_def)

lemma unread_simps [simp]: "bytes_of (unread bs es) = bs @ bytes_of es" "flowing (unread bs es) = flowing es"
  by (simp_all add: unread_def)

lemma read_exact_0 [simp]: "read_exact 0 es = (Ok [], es)"
  by (cases es) simp_all

lemma read_exact_flowing:
  "flowing es \<Longrightarrow> bytes_of es = b @ r \<Longrightarrow>
    \<exists>es'. read_exact (length b) es = (Ok b, es') \<and> flowing es' \<and> bytes_of es' = r"
proof (induction es arbitrary: b)
  case (Cons e es)
  show ?case
  proof (cases e)
    case (Got bs)
    show ?thesis
    proof (cases "length b \<le> length bs")
      case True
      then have "take (length b) bs = b" "drop (length b) bs @ bytes_of es = r"
        using Cons.prems(2) Got append_eq_append_conv_if[of bs "bytes_of es" b r] by (auto split: if_splits)
      then show ?thesis using Got True Cons.prems by (cases "b = []") auto
    next
      case False
      then obtain c where c: "b = bs @ c" "bytes_of es = c @ r"
        using Cons.prems(2) Got by (auto simp: append_eq_append_conv2)
      then show ?thesis using Cons.IH[OF _ c(2)] Cons.prems(1) Got False by auto
    qed
  qed (use Cons in \<open>auto simp: neq_Nil_conv\<close>)
qed simp

lemma read_exact_at:
  assumes "flowing es" "bytes_of es = b @ r" "length b = n"
  obtains es' where "read_exact n es = (Ok b, es')" "flowing es'" "bytes_of es' = r"
  using read_exact_flowing[OF assms(1,2)] assms(3) by blast

definition hello_frame :: "HelloMsg \<Rightarrow> bytes" where
  "hello_frame h = 0x01 # le32 268 @ serialize_hello h"

lemma length_hello: "wf_hello h \<Longrightarrow> length (serialize_hello h) = 268"
  by (simp add: wf_hello_def is_hash256_def serialize_hello_def)

lemma hello_serialize: "wf_hello h \<Longrightarrow> Message_serialize (Hello h) = Ok (hello_frame h)"
  by (simp add: Message_serialize_def message_parts_def hello_frame_def length_hello)

lemma read_hello_flowing:
  assumes "flowing es" "bytes_of es = hello_frame h @ r" "wf_hello h"
  obtains es' where "read_hello es = (Ok (Hello h), es')" "flowing es'" "bytes_of es' = r"
proof -
  have es: "bytes_of es = [0x01] @ le32 268 @ serialize_hello h @ r" using assms(2) by (simp add: hello_frame_def)
  obtain e1 where 1: "read_exact 1 es = (Ok [0x01], e1)" "flowing e1" "bytes_of e1 = le32 268 @ serialize_hello h @ r"
    by (rule read_exact_at[OF assms(1) es, where n = 1]) simp_all
  obtain e2 where 2: "read_exact 4 e1 = (Ok (le32 268), e2)" "flowing e2" "bytes_of e2 = serialize_hello h @ r"
    by (rule read_exact_at[OF 1(2,3), where n = 4]) simp_all
  obtain e3 where 3: "read_exact 268 e2 = (Ok (serialize_hello h), e3)" "flowing e3" "bytes_of e3 = r"
    by (rule read_exact_at[OF 2(2,3) length_hello[OF assms(3)]])
  have "Message_deserialize (hello_frame h @ []) = Ok (Hello h, length (hello_frame h))"
    using assms(3) by (intro message_dec_enc hello_serialize) (simp_all add: wf_message_def hello_frame_def length_hello constants)
  then have "Message_deserialize (0x01 # le32 268 @ serialize_hello h) = Ok (Hello h, length (hello_frame h))"
    by (simp add: hello_frame_def)
  then have "read_hello es = (Ok (Hello h), e3)"
    using 1(1) 2(1) 3(1) by (simp add: read_hello_def Let_def constants)
  then show ?thesis using that 3 by blast
qed

lemma read_auth_ack_flowing:
  assumes "flowing es" "bytes_of es = (0x18 # le32 64 @ s) @ r" "length s = 64"
  obtains es' where "read_auth_ack es = (Ok s, es')" "flowing es'" "bytes_of es' = r"
proof -
  have es: "bytes_of es = [0x18] @ le32 64 @ s @ r" using assms(2) by simp
  obtain e1 where 1: "read_exact 1 es = (Ok [0x18], e1)" "flowing e1" "bytes_of e1 = le32 64 @ s @ r"
    by (rule read_exact_at[OF assms(1) es, where n = 1]) simp_all
  obtain e2 where 2: "read_exact 4 e1 = (Ok (le32 64), e2)" "flowing e2" "bytes_of e2 = s @ r"
    by (rule read_exact_at[OF 1(2,3), where n = 4]) simp_all
  obtain e3 where 3: "read_exact 64 e2 = (Ok s, e3)" "flowing e3" "bytes_of e3 = r"
    by (rule read_exact_at[OF 2(2,3) assms(3)])
  have "read_auth_ack es = (Ok s, e3)" using 1(1) 2(1) 3(1) by (simp add: read_auth_ack_def)
  then show ?thesis using that 3 by blast
qed


section \<open>Two honest sides\<close>

text \<open>What the packages promise for a pair of proper keys: signatures verify under the public key
  of the signer, and both sides compute the same shared secret.\<close>

definition proper_key :: "identity_lib \<Rightarrow> bytes \<Rightarrow> bool" where
  "proper_key K sk \<longleftrightarrow> \<not> is_weak_ed25519_key (base K) (verifying_key K sk) \<and> vk_from_bytes (base K) (verifying_key K sk)
     \<and> length (verifying_key K sk) = 32
     \<and> (\<forall>m. length (sign K sk m) = 64 \<and> vk_verify (base K) (verifying_key K sk) m (sign K sk m))"

definition shared_secret_agrees :: "identity_lib \<Rightarrow> bytes \<Rightarrow> bytes \<Rightarrow> bool" where
  "shared_secret_agrees K a b \<longleftrightarrow> dh_secret K (verifying_key K b) a = dh_secret K (verifying_key K a) b"

definition first_hello :: "identity_lib \<Rightarrow> HelloMsg \<Rightarrow> bytes \<Rightarrow> bytes \<Rightarrow> HelloMsg" where
  "first_hello K h sk n = h\<lparr>hello_nonce := n, hello_echo := replicate 32 0, hello_pubkey := verifying_key K sk,
     hello_sig := replicate 64 0\<rparr>"

definition reply_hello :: "identity_lib \<Rightarrow> HelloMsg \<Rightarrow> HelloMsg \<Rightarrow> bytes \<Rightarrow> bytes \<Rightarrow> HelloMsg" where
  "reply_hello K their h sk n = h\<lparr>hello_nonce := n, hello_echo := hello_nonce their, hello_pubkey := verifying_key K sk,
     hello_sig := sign K sk (compute_auth_transcript (base K) (genesis_block_id h) PROTOCOL_VERSION
       (hello_nonce their) n 0x00 (hello_tip their) (hello_tip h))\<rparr>"

lemma first_hello_wf: "wf_hello h \<Longrightarrow> proper_key K sk \<Longrightarrow> length n = 32 \<Longrightarrow> wf_hello (first_hello K h sk n)"
  by (simp add: wf_hello_def first_hello_def proper_key_def)

lemma reply_hello_wf:
  "wf_hello h \<Longrightarrow> proper_key K sk \<Longrightarrow> length n = 32 \<Longrightarrow> length (hello_nonce t) = 32 \<Longrightarrow> wf_hello (reply_hello K t h sk n)"
  by (simp add: wf_hello_def reply_hello_def proper_key_def)

lemma outbound_writes_hello:
  assumes "wf_hello (first_hello K h sk n)" "wr 0"
  shows "\<exists>x. written (handshake_outbound K wr h sk n es) = hello_frame (first_hello K h sk n) @ x"
  using assms
  by (auto simp: handshake_outbound_def Let_def handshake_failed_def hello_serialize first_hello_def[symmetric]
      split: prod.splits sum.splits Message.splits)


lemma inbound_replies:
  assumes "read_hello es = (Ok (Hello their), es')" "wf_hello (reply_hello K their h sk n)" "wr 0"
    and "hello_version their = PROTOCOL_VERSION" "genesis_block_id their = genesis_block_id h"
      "hello_pubkey their \<noteq> verifying_key K sk"
  shows "written (handshake_inbound K wr h sk n es) = hello_frame (reply_hello K their h sk n)"
  using assms
  by (auto simp: handshake_inbound_def Let_def handshake_failed_def hello_serialize reply_hello_def[symmetric]
      split: prod.splits sum.splits)

lemma inbound_accepts:
  assumes "read_hello es = (Ok (Hello their), es')" "wf_hello (reply_hello K their h sk n)" "wr 0"
    and "hello_version their = PROTOCOL_VERSION" "genesis_block_id their = genesis_block_id h"
      "hello_pubkey their \<noteq> verifying_key K sk"
    and "read_auth_ack es' = (Ok s, es'')"
    and "verify_peer_sig K (hello_pubkey their) (compute_auth_transcript (base K) (genesis_block_id their) PROTOCOL_VERSION
          (hello_nonce their) n 0x01 (hello_tip their) (hello_tip h)) s = Ok ()"
  shows "outcome (handshake_inbound K wr h sk n es) = Ok (new_peer K True their (hello_nonce their) n sk)
    \<and> identity_out (handshake_inbound K wr h sk n es) = Some (hello_pubkey their)"
  using assms
  by (simp add: handshake_inbound_def Let_def hello_serialize reply_hello_def[symmetric])

definition ack_frame :: "bytes \<Rightarrow> bytes" where
  "ack_frame s = 0x18 # le32 64 @ s"

lemma ack_serialize: "length s = 64 \<Longrightarrow> Message_serialize (AuthAck \<lparr>ack_sig = s\<rparr>) = Ok (ack_frame s)"
  by (simp add: Message_serialize_def message_parts_def ack_frame_def)

lemma outbound_accepts:
  assumes "wf_hello (first_hello K h sk n)" "\<And>k. wr k" "\<And>m. length (sign K sk m) = 64"
    and "read_hello es = (Ok (Hello their), es')"
    and "hello_version their = PROTOCOL_VERSION" "genesis_block_id their = genesis_block_id h"
      "hello_echo their = n" "hello_pubkey their \<noteq> verifying_key K sk"
    and "verify_peer_sig K (hello_pubkey their) (compute_auth_transcript (base K) (genesis_block_id h) PROTOCOL_VERSION
          n (hello_nonce their) 0x00 (hello_tip h) (hello_tip their)) (hello_sig their) = Ok ()"
  defines "H \<equiv> handshake_outbound K wr h sk n es"
  shows "outcome H = Ok (new_peer K False their n (hello_nonce their) sk) \<and> identity_out H = Some (hello_pubkey their)
    \<and> written H = hello_frame (first_hello K h sk n) @ ack_frame (sign K sk (compute_auth_transcript (base K)
        (genesis_block_id h) PROTOCOL_VERSION n (hello_nonce their) 0x01 (hello_tip h) (hello_tip their)))"
  using assms(1-9) unfolding H_def
  by (simp add: handshake_outbound_def Let_def hello_serialize first_hello_def[symmetric] ack_serialize)

lemma hello_tip_fields:
  "hello_tip (first_hello K h sk n) = hello_tip h" "hello_tip (reply_hello K t h sk n) = hello_tip h"
  "hello_nonce (first_hello K h sk n) = n" "hello_nonce (reply_hello K t h sk n) = n"
  "genesis_block_id (first_hello K h sk n) = genesis_block_id h" "genesis_block_id (reply_hello K t h sk n) = genesis_block_id h"
  "hello_version (first_hello K h sk n) = hello_version h" "hello_version (reply_hello K t h sk n) = hello_version h"
  "hello_pubkey (first_hello K h sk n) = verifying_key K sk" "hello_pubkey (reply_hello K t h sk n) = verifying_key K sk"
  "hello_echo (reply_hello K t h sk n) = hello_nonce t"
  by (simp_all add: hello_tip_def first_hello_def reply_hello_def)

lemma proper_verifies: "proper_key K sk \<Longrightarrow> verify_peer_sig K (verifying_key K sk) m (sign K sk m) = Ok ()"
  by (simp add: proper_key_def verify_peer_sig_def)

text \<open>C20. The handshake completes between two honest nodes: when each side reads what the other
  writes, however the network cuts the bytes into segments, both succeed, each authenticates the
  other's key and learns the other's version and tip, and the keys agree crosswise: each side
  receives with the key the other sends with.\<close>

theorem handshake_completes:
  fixes K a b na nb ha hb ea eb
  defines "A \<equiv> handshake K (\<lambda>_. True) ha False a na ea"
    and "B \<equiv> handshake K (\<lambda>_. True) hb True b nb eb"
  assumes keys: "proper_key K a" "proper_key K b" "verifying_key K a \<noteq> verifying_key K b" "shared_secret_agrees K a b"
    and hellos: "wf_hello ha" "wf_hello hb" "hello_version ha = PROTOCOL_VERSION" "hello_version hb = PROTOCOL_VERSION"
      "genesis_block_id ha = genesis_block_id hb" "length na = 32" "length nb = 32"
    and net: "flowing ea" "flowing eb" "bytes_of ea = written B @ ra" "bytes_of eb = written A @ rb"
  shows "\<exists>pa pb. outcome A = Ok pa \<and> outcome B = Ok pb
    \<and> identity_out A = Some (verifying_key K b) \<and> identity_out B = Some (verifying_key K a)
    \<and> send_key pa = recv_key pb \<and> send_key pb = recv_key pa
    \<and> (peer_version pa, peer_best_height pa, peer_best_block_id pa, peer_cumulative_work pa)
        = (hello_version hb, best_height hb, best_block_id hb, cumulative_work hb)
    \<and> (peer_version pb, peer_best_height pb, peer_best_block_id pb, peer_cumulative_work pb)
        = (hello_version ha, best_height ha, best_block_id ha, cumulative_work ha)"
proof -
  let ?fa = "first_hello K ha a na"
  let ?fb = "reply_hello K ?fa hb b nb"
  note f = hello_tip_fields
  have wfa: "wf_hello ?fa" using hellos keys by (intro first_hello_wf)
  have wfb: "wf_hello ?fb" using hellos keys f by (intro reply_hello_wf) simp_all
  obtain x where "bytes_of eb = hello_frame ?fa @ x"
    using outbound_writes_hello[OF wfa, of "\<lambda>_. True" ea] net(4) by (auto simp: A_def handshake_def)
  then obtain eb1 where eb1: "read_hello eb = (Ok (Hello ?fa), eb1)" "flowing eb1" "bytes_of eb1 = x"
    by (rule read_hello_flowing[OF net(2) _ wfa])
  have pk: "verifying_key K a \<noteq> verifying_key K b" "verifying_key K b \<noteq> verifying_key K a" using keys(3) by auto
  have wB: "written B = hello_frame ?fb"
    unfolding B_def handshake_def using hellos pk f by (simp add: inbound_replies[OF eb1(1) wfb])
  obtain ea1 where ea1: "read_hello ea = (Ok (Hello ?fb), ea1)"
    by (rule read_hello_flowing[OF net(1) net(3)[unfolded wB] wfb])
  let ?t1 = "compute_auth_transcript (base K) (genesis_block_id ha) PROTOCOL_VERSION na nb 0x01 (hello_tip ha) (hello_tip hb)"
  let ?t0 = "compute_auth_transcript (base K) (genesis_block_id ha) PROTOCOL_VERSION na nb 0x00 (hello_tip ha) (hello_tip hb)"
  have sig64: "length (sign K a m) = 64" for m using keys(1) by (simp add: proper_key_def)
  have "hello_sig ?fb = sign K b ?t0" using hellos(5) f by (simp add: reply_hello_def)
  then have A: "outcome A = Ok (new_peer K False ?fb na nb a) \<and> identity_out A = Some (verifying_key K b)
      \<and> written A = hello_frame ?fa @ ack_frame (sign K a ?t1)"
    unfolding A_def handshake_def using hellos pk f outbound_accepts[OF wfa _ _ ea1, of "\<lambda>_. True"] proper_verifies[OF keys(2)] sig64
    by simp
  have len: "length (sign K a ?t1) = 64" by (rule sig64)
  have "x = ack_frame (sign K a ?t1) @ rb" using A net(4) \<open>bytes_of eb = hello_frame ?fa @ x\<close> by simp
  then have "bytes_of eb1 = (0x18 # le32 64 @ sign K a ?t1) @ rb" using eb1(3) by (simp add: ack_frame_def)
  then obtain eb2 where eb2: "read_auth_ack eb1 = (Ok (sign K a ?t1), eb2)"
    by (rule read_auth_ack_flowing[OF eb1(2) _ len])
  have B: "outcome B = Ok (new_peer K True ?fa na nb b) \<and> identity_out B = Some (verifying_key K a)"
    unfolding B_def handshake_def using hellos pk f inbound_accepts[OF eb1(1) wfb, of "\<lambda>_. True" "sign K a ?t1"] proper_verifies[OF keys(1)] eb2
    by simp
  show ?thesis
    using A B hellos(5) keys(4) by (simp add: new_peer_def Let_def shared_secret_agrees_def f split: prod.splits)
      (simp add: first_hello_def reply_hello_def)
qed


definition toy_identity :: identity_lib where
  "toy_identity = \<lparr>base = toy_crypto, verifying_key = (\<lambda>sk. sk), sign = (\<lambda>_ _. replicate 64 0),
     dh_secret = (\<lambda>_ _. replicate 32 0), hmac_sha256 = (\<lambda>k m. take 32 (rev m @ k @ replicate 32 0))\<rparr>"

definition sample_hello :: "u64 \<Rightarrow> HelloMsg" where
  "sample_hello h = \<lparr>hello_version = 5, genesis_block_id = replicate 32 9, best_height = h, best_block_id = replicate 32 1,
     cumulative_work = replicate 32 2, hello_nonce = replicate 32 0, hello_echo = replicate 32 0,
     hello_pubkey = replicate 32 0, hello_sig = replicate 64 0\<rparr>"

lemma toy_proper: "length sk = 32 \<Longrightarrow> proper_key toy_identity sk"
  by (simp add: proper_key_def toy_identity_def toy_crypto_def is_weak_ed25519_key_def)

lemma sample_hello_wf: "wf_hello (sample_hello h)" "hello_version (sample_hello h) = PROTOCOL_VERSION"
  "genesis_block_id (sample_hello h) = replicate 32 9"
  by (simp_all add: wf_hello_def sample_hello_def is_hash256_def constants)

theorem handshake_completes_witness:
  "\<exists>ea eb pa pb. outcome (handshake toy_identity (\<lambda>_. True) (sample_hello 3) False (replicate 32 1) (replicate 32 6) ea) = Ok pa
    \<and> outcome (handshake toy_identity (\<lambda>_. True) (sample_hello 4) True (replicate 32 2) (replicate 32 7) eb) = Ok pb
    \<and> send_key pa = recv_key pb \<and> peer_best_height pa = 4 \<and> peer_best_height pb = 3"
proof -
  let ?K = toy_identity and ?a = "replicate 32 1 :: bytes" and ?b = "replicate 32 2 :: bytes"
  let ?na = "replicate 32 6 :: bytes" and ?nb = "replicate 32 7 :: bytes"
  let ?fa = "first_hello ?K (sample_hello 3) ?a ?na"
  let ?fb = "reply_hello ?K ?fa (sample_hello 4) ?b ?nb"
  let ?ack = "ack_frame (replicate 64 0)"
  let ?ea = "[Got (hello_frame ?fb)]" and ?eb = "[Got (hello_frame ?fa), Quiet, Got ?ack]"
  note f = hello_tip_fields sample_hello_wf
  have pk: "verifying_key ?K ?a \<noteq> verifying_key ?K ?b" "verifying_key ?K ?b \<noteq> verifying_key ?K ?a"
    by (simp_all add: toy_identity_def numeral_eq_Suc)
  have dh: "shared_secret_agrees ?K ?a ?b" by (simp add: shared_secret_agrees_def toy_identity_def)
  have sg: "sign ?K sk m = replicate 64 0" for sk m by (simp add: toy_identity_def)
  have wfa: "wf_hello ?fa" by (intro first_hello_wf f toy_proper) simp_all
  have wfb: "wf_hello ?fb" by (intro reply_hello_wf f toy_proper) (simp_all add: f)
  have ne: "hello_frame h \<noteq> []" "?ack \<noteq> []" for h by (simp_all add: hello_frame_def ack_frame_def)
  obtain ea1 where ea1: "read_hello ?ea = (Ok (Hello ?fb), ea1)"
    by (rule read_hello_flowing[of ?ea ?fb "[]"]) (use wfb ne in simp_all)
  obtain eb1 where eb1: "read_hello ?eb = (Ok (Hello ?fa), eb1)"
    by (rule read_hello_flowing[of ?eb ?fa ?ack]) (use wfa ne in simp_all)
  have wB: "written (handshake ?K (\<lambda>_. True) (sample_hello 4) True ?b ?nb ?eb) = hello_frame ?fb"
    using inbound_replies[OF eb1 wfb, of "\<lambda>_. True"] pk f by (simp add: handshake_def)
  have "verify_peer_sig ?K (verifying_key ?K ?b) m (replicate 64 0) = Ok ()" for m
    using proper_verifies[OF toy_proper, of ?b m] by (simp add: sg)
  then have wA: "written (handshake ?K (\<lambda>_. True) (sample_hello 3) False ?a ?na ?ea) = hello_frame ?fa @ ?ack"
    using outbound_accepts[OF wfa _ _ ea1, of "\<lambda>_. True"] pk f
    by (simp add: handshake_def sg reply_hello_def)
  have "\<exists>pa pb. outcome (handshake ?K (\<lambda>_. True) (sample_hello 3) False ?a ?na ?ea) = Ok pa
      \<and> outcome (handshake ?K (\<lambda>_. True) (sample_hello 4) True ?b ?nb ?eb) = Ok pb \<and> send_key pa = recv_key pb
      \<and> peer_best_height pa = best_height (sample_hello 4) \<and> peer_best_height pb = best_height (sample_hello 3)"
    using handshake_completes[where K = ?K and a = ?a and b = ?b and ha = "sample_hello 3" and hb = "sample_hello 4"
        and na = ?na and nb = ?nb and ea = ?ea and eb = ?eb and ra = "[]" and rb = "[]"] pk f(12-14) wA wB ne
      toy_proper[of ?a] toy_proper[of ?b] dh by force
  then show ?thesis by (auto simp: sample_hello_def)
qed



section \<open>Agreement against an active attacker\<close>

text \<open>The fields a handshake signature commits to.\<close>

record auth_view =
  av_genesis :: bytes
  av_nonce_a :: bytes
  av_nonce_b :: bytes
  av_role :: byte
  av_tip_a :: bytes
  av_tip_b :: bytes

definition auth_preimage :: "auth_view \<Rightarrow> bytes" where
  "auth_preimage v = DS_AUTH @ av_genesis v @ le32 PROTOCOL_VERSION @ av_nonce_a v @ av_nonce_b v @ [av_role v]
     @ av_tip_a v @ av_tip_b v"

definition wf_view :: "auth_view \<Rightarrow> bool" where
  "wf_view v \<longleftrightarrow> length (av_genesis v) = 32 \<and> length (av_nonce_a v) = 32 \<and> length (av_nonce_b v) = 32
     \<and> length (av_tip_a v) = 72 \<and> length (av_tip_b v) = 72"

lemma transcript_view:
  "compute_auth_transcript C g PROTOCOL_VERSION na nb r ta tb
    = sha256 C (auth_preimage \<lparr>av_genesis = g, av_nonce_a = na, av_nonce_b = nb, av_role = r, av_tip_a = ta, av_tip_b = tb\<rparr>)"
  by (simp add: compute_auth_transcript_def auth_preimage_def)

lemma auth_preimage_inj:
  assumes "wf_view v" "wf_view w" "auth_preimage v = auth_preimage w"
  shows "v = w"
  using assms by (simp add: auth_preimage_def wf_view_def)

lemma tip_length: "wf_hello h \<Longrightarrow> length (hello_tip h) = 72"
  by (simp add: hello_tip_def tip_commitment_def wf_hello_def is_hash256_def)

text \<open>The view of the side that has just accepted: its own nonce in its own position, its own tip,
  the tip it recorded for the peer, and the role of the other side.\<close>

definition accepted_view :: "bool \<Rightarrow> HelloMsg \<Rightarrow> bytes \<Rightarrow> bytes \<Rightarrow> Peer \<Rightarrow> auth_view" where
  "accepted_view inbound our_hello our_nonce their_nonce p =
     (let theirs = tip_commitment (peer_best_height p) (peer_best_block_id p) (peer_cumulative_work p) in
      \<lparr>av_genesis = genesis_block_id our_hello,
       av_nonce_a = (if inbound then their_nonce else our_nonce),
       av_nonce_b = (if inbound then our_nonce else their_nonce),
       av_role = (if inbound then 0x01 else 0x00),
       av_tip_a = (if inbound then theirs else hello_tip our_hello),
       av_tip_b = (if inbound then hello_tip our_hello else theirs)\<rparr>)"

lemma read_hello_wf:
  assumes "read_hello es = (Ok (Hello h), es')"
  shows "wf_hello h"
proof -
  obtain d e where "(case Message_deserialize d of Inr (msg, _) \<Rightarrow> (Ok msg, e)
      | Inl _ \<Rightarrow> (Err (Failed InvalidDataKind ''deserialization error''), e)) = (Ok (Hello h), es')"
    using assms unfolding read_hello_def sbind_Ok_iff Let_def by (auto split: if_split_asm simp: sbind_Ok_iff)
  then obtain n where "Message_deserialize d = Ok (Hello h, n)"
    by (cases "Message_deserialize d") auto
  then show ?thesis using message_dec_canon by (fastforce simp: wf_message_def)
qed

lemma verify_peer_sig_Ok:
  "verify_peer_sig K pk m s = Ok () \<Longrightarrow> vk_verify (base K) pk m s \<and> \<not> is_weak_ed25519_key (base K) pk"
  by (auto simp: verify_peer_sig_def split: if_splits)

lemma new_peer_fields:
  "peer_identity (new_peer K i t na nb sk) = hello_pubkey t" "peer_best_height (new_peer K i t na nb sk) = best_height t"
  "peer_best_block_id (new_peer K i t na nb sk) = best_block_id t" "peer_cumulative_work (new_peer K i t na nb sk) = cumulative_work t"
  "peer_genesis (new_peer K i t na nb sk) = genesis_block_id t"
  by (simp_all add: new_peer_def Let_def split: prod.splits)

text \<open>What the handshake reads from the peer: its greeting, and the signature it is judged by, which
  an outbound handshake finds in the greeting and an inbound one in the acknowledgement after it.\<close>

definition received_hello :: "stream \<Rightarrow> HelloMsg option" where
  "received_hello es = (case read_hello es of (Inr (Hello t), _) \<Rightarrow> Some t | _ \<Rightarrow> None)"

definition received_sig :: "bool \<Rightarrow> stream \<Rightarrow> bytes option" where
  "received_sig inbound es = (case read_hello es of
     (Inr (Hello t), es') \<Rightarrow>
       if inbound then (case read_auth_ack es' of (Inr s, _) \<Rightarrow> Some s | _ \<Rightarrow> None) else Some (hello_sig t)
   | _ \<Rightarrow> None)"

text \<open>Unforgeability, for one signature \<open>s\<close> that has arrived: \<open>V\<close> are the views that the holder of
  the key has signed, and \<open>s\<close> verifies under the key only for the digest of one of them.\<close>

definition unforged :: "identity_lib \<Rightarrow> bytes \<Rightarrow> auth_view set \<Rightarrow> bytes \<Rightarrow> bool" where
  "unforged K pk V s \<longleftrightarrow> (\<forall>v. wf_view v \<and> vk_verify (base K) pk (sha256 (base K) (auth_preimage v)) s
     \<longrightarrow> (\<exists>w\<in>V. wf_view w \<and> sha256 (base K) (auth_preimage w) = sha256 (base K) (auth_preimage v)))"

lemma handshake_Ok_view:
  assumes "outcome (handshake K wr h inbound sk n es) = Ok p" "wf_hello h" "length n = 32"
  shows "\<exists>t s. received_hello es = Some t \<and> received_sig inbound es = Some s \<and> peer_identity p = hello_pubkey t
    \<and> wf_view (accepted_view inbound h n (hello_nonce t) p)
    \<and> vk_verify (base K) (peer_identity p) (sha256 (base K) (auth_preimage (accepted_view inbound h n (hello_nonce t) p))) s
    \<and> \<not> is_weak_ed25519_key (base K) (peer_identity p) \<and> peer_identity p \<noteq> verifying_key K sk
    \<and> peer_genesis p = genesis_block_id h"
proof (cases inbound)
  case True
  have "outcome (handshake_inbound K wr h sk n es) = Ok p" using assms(1) True by (simp add: handshake_def)
  then obtain t e s e' where r: "read_hello es = (Ok (Hello t), e)" "genesis_block_id t = genesis_block_id h"
      "hello_pubkey t \<noteq> verifying_key K sk" "p = new_peer K True t (hello_nonce t) n sk"
      "read_auth_ack e = (Ok s, e')" "verify_peer_sig K (hello_pubkey t) (compute_auth_transcript (base K) (genesis_block_id t) PROTOCOL_VERSION
          (hello_nonce t) n 0x01 (hello_tip t) (hello_tip h)) s = Ok ()"
    by (auto simp: handshake_inbound_def Let_def handshake_failed_def split: prod.splits sum.splits Message.splits if_splits)
  have "wf_view (accepted_view inbound h n (hello_nonce t) p)"
    using read_hello_wf[OF r(1)] assms(2,3) True r(4) tip_length[of t] tip_length[of h]
    by (simp add: accepted_view_def wf_view_def new_peer_fields wf_hello_def is_hash256_def hello_tip_def)
  moreover have "accepted_view inbound h n (hello_nonce t) p = \<lparr>av_genesis = genesis_block_id t, av_nonce_a = hello_nonce t,
      av_nonce_b = n, av_role = 0x01, av_tip_a = hello_tip t, av_tip_b = hello_tip h\<rparr>"
    using True r(2,4) by (simp add: accepted_view_def new_peer_fields hello_tip_def)
  ultimately show ?thesis
    using verify_peer_sig_Ok[OF r(6)] r(1-5) True
    by (intro exI[of _ t] exI[of _ s]) (simp add: transcript_view new_peer_fields received_hello_def received_sig_def)
next
  case False
  have "outcome (handshake_outbound K wr h sk n es) = Ok p" using assms(1) False by (simp add: handshake_def)
  then obtain t e where r: "read_hello es = (Ok (Hello t), e)" "genesis_block_id t = genesis_block_id h"
      "hello_pubkey t \<noteq> verifying_key K sk" "p = new_peer K False t n (hello_nonce t) sk"
      "verify_peer_sig K (hello_pubkey t) (compute_auth_transcript (base K) (genesis_block_id h) PROTOCOL_VERSION
          n (hello_nonce t) 0x00 (hello_tip h) (hello_tip t)) (hello_sig t) = Ok ()"
    by (auto simp: handshake_outbound_def Let_def handshake_failed_def split: prod.splits sum.splits Message.splits if_splits)
  have "wf_view (accepted_view inbound h n (hello_nonce t) p)"
    using read_hello_wf[OF r(1)] assms(2,3) False r(4) tip_length[of t] tip_length[of h]
    by (simp add: accepted_view_def wf_view_def new_peer_fields wf_hello_def is_hash256_def hello_tip_def)
  moreover have "accepted_view inbound h n (hello_nonce t) p = \<lparr>av_genesis = genesis_block_id h, av_nonce_a = n,
      av_nonce_b = hello_nonce t, av_role = 0x00, av_tip_a = hello_tip h, av_tip_b = hello_tip t\<rparr>"
    using False r(4) by (simp add: accepted_view_def new_peer_fields hello_tip_def)
  ultimately show ?thesis
    using verify_peer_sig_Ok[OF r(5)] r(1-4) False
    by (intro exI[of _ t] exI[of _ "hello_sig t"]) (simp add: transcript_view new_peer_fields received_hello_def received_sig_def)
qed

text \<open>C13. A handshake that succeeds is with the holder of the peer's key, about this very session.
  Let \<open>V\<close> be the views the holder of that key has signed, and let the one signature that the
  handshake received be unforged. Then the accepting side's own view is among them: the same chain,
  its own fresh nonce, the nonce of the greeting it read, its own tip as the holder saw it, the tip
  it recorded for the peer, and the holder in the opposite role, so that neither a replayed, a
  reflected nor an altered greeting is accepted; unless two views have colliding digests. The
  peer's key is the one of the greeting, and it is neither weak nor the node's own.\<close>

theorem handshake_agreement:
  assumes "outcome (handshake K wr h inbound sk n es) = Ok p" "wf_hello h" "length n = 32"
    and "\<And>s. received_sig inbound es = Some s \<Longrightarrow> unforged K (peer_identity p) V s"
  shows "\<exists>t. received_hello es = Some t \<and> peer_identity p = hello_pubkey t
    \<and> peer_identity p \<noteq> verifying_key K sk \<and> \<not> is_weak_ed25519_key (base K) (peer_identity p)
    \<and> peer_genesis p = genesis_block_id h
    \<and> (accepted_view inbound h n (hello_nonce t) p \<in> V
       \<or> (\<exists>v\<in>V. auth_preimage v \<noteq> auth_preimage (accepted_view inbound h n (hello_nonce t) p)
            \<and> sha256 (base K) (auth_preimage v)
                = sha256 (base K) (auth_preimage (accepted_view inbound h n (hello_nonce t) p))))"
proof -
  obtain t s where v: "received_hello es = Some t" "received_sig inbound es = Some s" "peer_identity p = hello_pubkey t"
      "wf_view (accepted_view inbound h n (hello_nonce t) p)"
      "vk_verify (base K) (peer_identity p) (sha256 (base K) (auth_preimage (accepted_view inbound h n (hello_nonce t) p))) s"
      "\<not> is_weak_ed25519_key (base K) (peer_identity p)" "peer_identity p \<noteq> verifying_key K sk"
      "peer_genesis p = genesis_block_id h"
    using handshake_Ok_view[OF assms(1-3)] by blast
  obtain w where w: "w \<in> V" "wf_view w"
      "sha256 (base K) (auth_preimage w) = sha256 (base K) (auth_preimage (accepted_view inbound h n (hello_nonce t) p))"
    using assms(4)[OF v(2)] v(4,5) unfolding unforged_def by blast
  then show ?thesis using v auth_preimage_inj[OF w(2) v(4)] by (intro exI[of _ t]) metis
qed

text \<open>An instance whose signatures are bound to the message: a signature is the digest, padded.\<close>

definition pad64 :: "bytes \<Rightarrow> bytes" where
  "pad64 m = take 64 (m @ replicate 64 0)"

definition strict_identity :: identity_lib where
  "strict_identity = toy_identity\<lparr>base := toy_crypto\<lparr>vk_verify := (\<lambda>_ m s. s = pad64 m)\<rparr>, sign := (\<lambda>_. pad64)\<rparr>"

definition sample_view :: auth_view where
  "sample_view = \<lparr>av_genesis = replicate 32 9, av_nonce_a = replicate 32 6, av_nonce_b = replicate 32 7, av_role = 0,
     av_tip_a = hello_tip (sample_hello 3), av_tip_b = hello_tip (sample_hello 4)\<rparr>"

definition sample_sig :: bytes where
  "sample_sig = sign strict_identity (replicate 32 2) (sha256 (base strict_identity) (auth_preimage sample_view))"

definition sample_answer :: HelloMsg where
  "sample_answer = (sample_hello 4)\<lparr>hello_nonce := replicate 32 7, hello_echo := replicate 32 6,
     hello_pubkey := replicate 32 2, hello_sig := sample_sig\<rparr>"

lemma pad64_length [simp]: "length (pad64 m) = 64"
  by (simp add: pad64_def)

lemma pad64_inj: "length m = 32 \<Longrightarrow> length m' = 32 \<Longrightarrow> pad64 m = pad64 m' \<Longrightarrow> m = m'"
  by (simp add: pad64_def)

lemma strict_simps [simp]:
  "verifying_key strict_identity sk = sk" "sign strict_identity sk = pad64"
  "sha256 (base strict_identity) = sha256 toy_crypto" "vk_verify (base strict_identity) pk m s \<longleftrightarrow> s = pad64 m"
  "\<not> is_weak_ed25519_key (base strict_identity) pk" "vk_from_bytes (base strict_identity) pk"
  by (simp_all add: strict_identity_def toy_identity_def toy_crypto_def is_weak_ed25519_key_def)

lemma strict_proper: "length sk = 32 \<Longrightarrow> proper_key strict_identity sk"
  by (simp add: proper_key_def)

lemma sample_unforged: "unforged strict_identity pk {sample_view} sample_sig"
proof -
  have "wf_view sample_view" using tip_length[OF sample_hello_wf(1)] by (simp add: wf_view_def sample_view_def)
  moreover have "length (sha256 toy_crypto x) = 32" for x using toy_digest32 by (simp add: digest32_def)
  ultimately show ?thesis unfolding unforged_def sample_sig_def by (auto dest!: pad64_inj[rotated 2])
qed

lemma sample_handshake:
  "outcome (handshake strict_identity (\<lambda>_. True) (sample_hello 3) False (replicate 32 1) (replicate 32 6)
     [Got (hello_frame sample_answer)]) = Ok (new_peer strict_identity False sample_answer (replicate 32 6) (replicate 32 7) (replicate 32 1))
   \<and> received_sig False [Got (hello_frame sample_answer)] = Some sample_sig"
proof -
  let ?K = strict_identity and ?h = "sample_hello 3" and ?a = "replicate 32 1 :: bytes" and ?n = "replicate 32 6 :: bytes"
  have wt: "wf_hello sample_answer"
    using sample_hello_wf(1)[of 4] by (simp add: wf_hello_def sample_answer_def sample_sig_def)
  have wf: "wf_hello (first_hello ?K ?h ?a ?n)"
    using sample_hello_wf(1)[of 3] by (simp add: wf_hello_def first_hello_def)
  obtain e where e: "read_hello [Got (hello_frame sample_answer)] = (Ok (Hello sample_answer), e)"
    by (rule read_hello_flowing[of "[Got (hello_frame sample_answer)]" sample_answer "[]"])
      (use wt in \<open>simp_all add: hello_frame_def\<close>)
  have t: "hello_tip sample_answer = hello_tip (sample_hello 4)" by (simp add: hello_tip_def sample_answer_def)
  have "verify_peer_sig ?K (hello_pubkey sample_answer) (compute_auth_transcript (base ?K) (genesis_block_id ?h) PROTOCOL_VERSION
      ?n (hello_nonce sample_answer) 0x00 (hello_tip ?h) (hello_tip sample_answer)) (hello_sig sample_answer) = Ok ()"
    using sample_hello_wf(3)[of 3]
    unfolding verify_peer_sig_def transcript_view t by (simp add: sample_answer_def sample_sig_def sample_view_def)
  then show ?thesis
    using outbound_accepts[OF wf _ _ e, of "\<lambda>_. True"] sample_hello_wf[of 3] sample_hello_wf[of 4] e
    by (auto simp: handshake_def sample_answer_def received_sig_def numeral_eq_Suc)
qed

theorem handshake_agreement_witness:
  "proper_key strict_identity (replicate 32 2) \<and> unforged strict_identity (replicate 32 2) {sample_view} sample_sig
   \<and> (\<exists>p. outcome (handshake strict_identity (\<lambda>_. True) (sample_hello 3) False (replicate 32 1) (replicate 32 6)
        [Got (hello_frame sample_answer)]) = Ok p
      \<and> peer_identity p = verifying_key strict_identity (replicate 32 2)
      \<and> (\<exists>m. accepted_view False (sample_hello 3) (replicate 32 6) m p = sample_view
         \<or> auth_preimage sample_view \<noteq> auth_preimage (accepted_view False (sample_hello 3) (replicate 32 6) m p)
           \<and> sha256 toy_crypto (auth_preimage sample_view)
             = sha256 toy_crypto (auth_preimage (accepted_view False (sample_hello 3) (replicate 32 6) m p))))"
proof -
  let ?p = "new_peer strict_identity False sample_answer (replicate 32 6) (replicate 32 7) (replicate 32 1)"
  have i: "peer_identity ?p = replicate 32 2" by (simp add: new_peer_fields sample_answer_def)
  from handshake_agreement[OF conjunct1[OF sample_handshake] sample_hello_wf(1), of "{sample_view}"]
  obtain m where "accepted_view False (sample_hello 3) (replicate 32 6) m ?p = sample_view
         \<or> auth_preimage sample_view \<noteq> auth_preimage (accepted_view False (sample_hello 3) (replicate 32 6) m ?p)
           \<and> sha256 toy_crypto (auth_preimage sample_view)
             = sha256 toy_crypto (auth_preimage (accepted_view False (sample_hello 3) (replicate 32 6) m ?p))"
    using sample_handshake sample_unforged by auto
  then show ?thesis
    using sample_handshake sample_unforged strict_proper[of "replicate 32 2"] i
    by (intro conjI exI[of _ ?p]) auto
qed

end
