(* ===== verification/Peer_Channel.thy ===== *)
theory Peer_Channel
  imports Peer
begin

text \<open>
  The authenticated channel after the handshake, \<open>network/peer.rs\<close>: writing a message as a
  counter, a frame and a truncated HMAC tag, and the reader task's primitive that accumulates the
  counter, reads the frame within the size limit of its type and the memory budget, and verifies
  the tag and the counter.
\<close>


section \<open>Tags\<close>

unbundle bit_operations_syntax

definition compute_frame_hmac :: "identity_lib \<Rightarrow> bytes \<Rightarrow> u64 \<Rightarrow> bytes \<Rightarrow> bytes" where
  "compute_frame_hmac K session_key counter frame =
     take HMAC_TAG_SIZE (hmac_sha256 K session_key (le64 counter @ frame))"

definition verify_frame_hmac :: "identity_lib \<Rightarrow> bytes \<Rightarrow> u64 \<Rightarrow> bytes \<Rightarrow> bytes \<Rightarrow> bool" where
  "verify_frame_hmac K session_key counter frame received_tag =
     (let expected = compute_frame_hmac K session_key counter frame in
      foldl (\<lambda>diff (a, b). diff OR (a XOR b)) 0 (zip expected received_tag) = 0)"


section \<open>Writing\<close>

text \<open>The bytes written and the new counter; when the write fails or times out the counter has
  advanced all the same.\<close>

definition write_framed_message ::
    "identity_lib \<Rightarrow> bool \<Rightarrow> Message \<Rightarrow> bytes \<Rightarrow> u64 \<Rightarrow> (u64, PeerError, bytes) run" where
  "write_framed_message K wr msg key counter =
     (case Message_serialize msg of
        Inl _ \<Rightarrow> (Err SerializationError, counter)
      | Inr frame \<Rightarrow>
        (case checked_add counter 1 of
           None \<Rightarrow> (Err (Io ''send counter overflow''), counter)
         | Some next_counter \<Rightarrow>
           (let tag = compute_frame_hmac K key counter frame in
            if wr then (Ok (le64 counter @ frame @ tag), next_counter)
            else (Err (Io ''write timeout: peer not reading''), next_counter))))"


section \<open>Reading\<close>

definition max_payload :: "bool \<Rightarrow> byte \<Rightarrow> nat" where
  "max_payload allow_heavy msg_type =
     (if msg_type = 0x01 then HELLO_V4_PAYLOAD_SIZE
      else if msg_type = 0x02 \<or> msg_type = 0x03 \<or> msg_type = 0x13 then 0
      else if msg_type = 0x10 then MAX_BLOCK_SIZE
      else if msg_type = 0x12 then MAX_BLOCK_SIZE
      else if msg_type = 0x16 then 0
      else if msg_type = 0x17 then 4 + MAX_ADDR_ITEMS * 26
      else if msg_type = 0x18 then 64
      else if msg_type = 0x20 then MAX_TX_SIZE
      else if msg_type = 0x11 \<or> msg_type = 0x15 then 4 + MAX_GETBLOCKS_ITEMS * 32
      else if msg_type = 0x14 then 72
      else if msg_type = 0x21 then 12
      else if msg_type = 0x22 then if allow_heavy then 4 + MAX_GETBLOCKS_ITEMS * HEADER_SIZE else 0
      else 0)"

definition peak_prever_bytes :: "nat \<Rightarrow> nat" where
  "peak_prever_bytes payload_len = sat64 (sat64 (payload_len * 2) + FRAME_HEADER_SIZE)"

text \<open>The socket together with the progress counter \<open>bytes_read\<close> that the supervisor watches.\<close>

type_synonym wire = "stream \<times> u64"

definition wire_read :: "nat \<Rightarrow> wire \<Rightarrow> (wire, io_failure, bytes) run" where
  "wire_read n = (\<lambda>(es, progress). case read_exact n es of (r, es) \<Rightarrow> (r, (es, progress)))"

definition chunk_read :: "nat \<Rightarrow> wire \<Rightarrow> (wire, io_failure, bytes) run" where
  "chunk_read n w = (case wire_read n w of
     (Inr chunk, w) \<Rightarrow> (Ok chunk, w)
   | (Inl Stalled, w) \<Rightarrow> (Err (Failed TimedOut ''slow peer: chunk read timed out''), w)
   | (Inl f, w) \<Rightarrow> (Err f, w))"

function read_payload_chunked :: "nat \<Rightarrow> wire \<Rightarrow> (wire, io_failure, bytes) run" where
  "read_payload_chunked remaining w =
     (if remaining = 0 then (Ok [], w)
      else let chunk_size = min remaining READ_CHUNK_SIZE in
        sbind (chunk_read chunk_size w) (\<lambda>chunk (es, progress).
        sbind (read_payload_chunked (remaining - chunk_size) (es, progress + of_nat chunk_size)) (\<lambda>rest w.
        (Ok (chunk @ rest), w))))"
  by pat_completeness auto
termination by (relation "measure fst") (simp_all add: constants)

declare read_payload_chunked.simps [simp del]

text \<open>\<open>reserve\<close> is the answer of \<open>PeerBudget::try_reserve\<close> at that moment; a connection without a
  budget is one whose answer is always positive. The reservation is released when the function
  returns.\<close>

definition read_message :: "identity_lib \<Rightarrow> (u64 \<Rightarrow> BudgetError + unit) \<Rightarrow> bool \<Rightarrow> bytes \<Rightarrow> u64 \<Rightarrow> wire
    \<Rightarrow> (wire, io_failure, Message) run" where
  "read_message K reserve allow_heavy session_key counter w =
     sbind (wire_read 1 w) (\<lambda>t w.
     sbind (wire_read 4 w) (\<lambda>l w.
     let msg_type = t ! 0; payload_len = unat (u32_le l) in
     if payload_len > MAX_MESSAGE_SIZE then (Err (Failed InvalidDataKind ''message too large''), w)
     else if payload_len > max_payload allow_heavy msg_type
     then (Err (Failed InvalidDataKind ''message payload too large''), w)
     else case reserve (of_nat (peak_prever_bytes payload_len)) of
       Inl _ \<Rightarrow> (Err (Failed OtherKind ''frame budget exhausted''), w)
     | Inr _ \<Rightarrow>
       sbind (if payload_len \<le> EAGER_ALLOC_LIMIT then wire_read payload_len w
              else read_payload_chunked payload_len w) (\<lambda>payload w.
       sbind (wire_read HMAC_TAG_SIZE w) (\<lambda>received_tag w.
       let full = msg_type # le32 (of_nat payload_len) @ payload in
       if \<not> verify_frame_hmac K session_key counter full received_tag
       then (Err (Failed InvalidDataKind ''HMAC verification failed''), w)
       else case Message_deserialize full of
         Inr (msg, _) \<Rightarrow> (Ok msg, w)
       | Inl _ \<Rightarrow> (Err (Failed InvalidDataKind ''deserialization error''), w)))))"

record ReaderState =
  rs_wire :: wire
  rs_recv_key :: bytes
  rs_recv_counter :: u64
  rs_counter_buf :: bytes
  rs_counter_started :: bool

text \<open>Phase 1: the loop that accumulates the eight bytes of the counter, one poll at a time. The
  result \<open>None\<close> is a clean timeout with no data.\<close>

fun fill_counter :: "bool \<Rightarrow> stream \<Rightarrow> ReaderState \<Rightarrow> (ReaderState, PeerError, unit option) run" where
  "fill_counter had_partial es st =
     (let buf = rs_counter_buf st; progress = snd (rs_wire st) in
      if length buf \<ge> 8 then (Ok (Some ()), st\<lparr>rs_wire := (es, progress)\<rparr>)
      else case es of
        [] \<Rightarrow> if \<not> had_partial \<and> buf = [] then (Ok None, st\<lparr>rs_wire := ([], progress)\<rparr>)
              else (Err (SlowPeerTimeout ''timeout during partial frame counter read''), st\<lparr>rs_wire := ([], progress)\<rparr>)
      | Got bs # es \<Rightarrow>
          (let n = min (length bs) (8 - length buf) in
           if n = 0 then (Err (Io ''connection closed''), st\<lparr>rs_wire := (es, progress)\<rparr>)
           else
             let st = st\<lparr>rs_counter_buf := buf @ take n bs, rs_counter_started := True,
                         rs_wire := (es, progress + of_nat n)\<rparr> in
             if n < length bs then (Ok (Some ()), st\<lparr>rs_wire := (unread (drop n bs) es, progress + of_nat n)\<rparr>)
             else fill_counter had_partial es st)
      | Gone k # es \<Rightarrow> (Err (Io ''transport''), st\<lparr>rs_wire := (es, progress)\<rparr>)
      | _ # es \<Rightarrow>
          if \<not> had_partial \<and> buf = [] then (Ok None, st\<lparr>rs_wire := (es, progress)\<rparr>)
          else (Err (SlowPeerTimeout ''timeout during partial frame counter read''), st\<lparr>rs_wire := (es, progress)\<rparr>))"

declare fill_counter.simps [simp del]

definition reader_io :: "io_failure \<Rightarrow> PeerError" where
  "reader_io f = (case f of
     Stalled \<Rightarrow> SlowPeerTimeout ''frame read timeout: peer too slow mid-message''
   | Failed k s \<Rightarrow>
       if sublist ''HMAC verification failed'' s then HmacFailure
       else if prefix ''frame budget exhausted'' s then FrameBudgetExceeded s
       else (case k of TimedOut \<Rightarrow> SlowPeerTimeout s | InvalidDataKind \<Rightarrow> MalformedFrame s | _ \<Rightarrow> TransportIo s))"

text \<open>Phase 2: the frame, its tag, and the check that the counter has not been used.\<close>

definition recv_frame :: "identity_lib \<Rightarrow> (u64 \<Rightarrow> BudgetError + unit) \<Rightarrow> u64 \<Rightarrow> ReaderState
    \<Rightarrow> (ReaderState, PeerError, Message option) run" where
  "recv_frame K reserve counter st =
     (case read_message K reserve True (rs_recv_key st) counter (rs_wire st) of
        (Inl f, w) \<Rightarrow> (Err (reader_io f), st\<lparr>rs_wire := w\<rparr>)
      | (Inr msg, w) \<Rightarrow>
        if counter < rs_recv_counter st then (Err (SlowPeer ''frame counter replay''), st\<lparr>rs_wire := w\<rparr>)
        else case checked_add counter 1 of
          None \<Rightarrow> (Err (Io ''recv counter overflow''), st\<lparr>rs_wire := w\<rparr>)
        | Some c \<Rightarrow> (Ok (Some msg), st\<lparr>rs_wire := w, rs_recv_counter := c\<rparr>))"

text \<open>\<open>late\<close> says whether five seconds have passed since the first byte of a partial counter.\<close>

definition reader_recv :: "identity_lib \<Rightarrow> bool \<Rightarrow> (u64 \<Rightarrow> BudgetError + unit) \<Rightarrow> ReaderState
    \<Rightarrow> (ReaderState, PeerError, Message option) run" where
  "reader_recv K late reserve st =
     (let had_partial = rs_counter_buf st \<noteq> [] in
      if had_partial \<and> rs_counter_started st \<and> late
      then (Err (SlowPeerTimeout ''frame counter trickle timeout (5s)''),
            st\<lparr>rs_counter_buf := [], rs_counter_started := False\<rparr>)
      else sbind (fill_counter had_partial (fst (rs_wire st)) st) (\<lambda>filled st.
      case filled of
        None \<Rightarrow> (Ok None, st)
      | Some _ \<Rightarrow> recv_frame K reserve (u64_le (rs_counter_buf st))
                    (st\<lparr>rs_counter_buf := [], rs_counter_started := False\<rparr>)))"


section \<open>Tags and reads\<close>

lemma xor_zero: "x XOR y = (0 :: byte) \<longleftrightarrow> x = y"
proof
  assume "x XOR y = 0"
  then have "(x XOR y) XOR y = y" by simp
  then show "x = y" by (simp add: xor.assoc)
qed simp

lemma diff_zero:
  "foldl (\<lambda>diff (a, b). diff OR (a XOR b)) d (zip xs ys) = (0 :: byte) \<longleftrightarrow> d = 0 \<and> list_all (\<lambda>(a, b). a = b) (zip xs ys)"
proof (induction xs arbitrary: ys d)
  case (Cons x xs)
  show ?case
  proof (cases ys)
    case (Cons y ys')
    have "d OR (x XOR y) = 0 \<longleftrightarrow> d = 0 \<and> x = y" by (simp add: or_eq_0_iff xor_zero)
    then show ?thesis using Cons.IH Cons by auto
  qed simp
qed simp

definition tags16 :: "identity_lib \<Rightarrow> bool" where
  "tags16 K \<longleftrightarrow> (\<forall>k m. length (hmac_sha256 K k m) \<ge> 16)"

lemma list_all_zip_eq: "length xs = length ys \<Longrightarrow> list_all (\<lambda>(a, b). a = b) (zip xs ys) \<longleftrightarrow> xs = ys"
  by (induction xs ys rule: list_induct2) auto

lemma verify_frame_hmac_iff:
  "tags16 K \<Longrightarrow> length tag = 16 \<Longrightarrow> verify_frame_hmac K k c f tag \<longleftrightarrow> tag = compute_frame_hmac K k c f"
  by (auto simp: verify_frame_hmac_def Let_def diff_zero list_all_zip_eq compute_frame_hmac_def tags16_def constants)

lemma read_exact_Ok:
  "read_exact n es = (Ok b, es') \<Longrightarrow> length b = n \<and> bytes_of es = b @ bytes_of es'"
proof (induction es arbitrary: n b)
  case (Cons e es)
  show ?case
  proof (cases "n = 0")
    case False
    show ?thesis
    proof (cases e)
      case (Got bs)
      show ?thesis
      proof (cases "n \<le> length bs")
        case True
        then show ?thesis using Cons.prems Got False by (auto split: if_split_asm)
      next
        case big: False
        then obtain c where "read_exact (n - length bs) es = (Ok c, es')" "b = bs @ c"
          using Cons.prems Got False by (auto simp: sbind_Ok_iff split: if_split_asm)
        then show ?thesis using Cons.IH[of "n - length bs" c] Got big by simp
      qed
    next
      case Quiet
      then show ?thesis using Cons.prems Cons.IH[of n b] False by simp
    qed (use Cons.prems False in simp_all)
  qed (use Cons.prems in auto)
qed (auto split: if_split_asm)

lemma wire_read_Ok:
  "wire_read n (es, p) = (Ok b, (es', p')) \<longleftrightarrow> read_exact n es = (Ok b, es') \<and> p' = p"
  by (auto simp: wire_read_def split: prod.splits)

lemma wire_read_sound:
  "wire_read n w = (Ok b, w') \<Longrightarrow> length b = n \<and> bytes_of (fst w) = b @ bytes_of (fst w')"
  using read_exact_Ok by (cases w; cases w') (auto simp: wire_read_Ok)

lemma chunk_read_Ok: "chunk_read n w = (Ok b, w') \<longleftrightarrow> wire_read n w = (Ok b, w')"
  by (auto simp: chunk_read_def split: prod.splits sum.splits io_failure.splits)

lemma read_payload_chunked_sound:
  "read_payload_chunked n w = (Ok b, w') \<Longrightarrow> length b = n \<and> bytes_of (fst w) = b @ bytes_of (fst w')"
proof (induction n w arbitrary: b rule: read_payload_chunked.induct)
  case (1 n w)
  show ?case
  proof (cases "n = 0")
    case False
    let ?k = "min n READ_CHUNK_SIZE"
    obtain chunk es p rest where r: "wire_read ?k w = (Ok chunk, (es, p))"
        "read_payload_chunked (n - ?k) (es, p + of_nat ?k) = (Ok rest, w')" "b = chunk @ rest"
      using "1.prems" False by (subst (asm) read_payload_chunked.simps) (auto simp: Let_def sbind_Ok_iff chunk_read_Ok split: prod.splits)
    show ?thesis
      using "1.IH"[OF False refl r(2)] wire_read_sound[OF r(1)] r(3) by auto
  qed (use "1.prems" in \<open>simp add: read_payload_chunked.simps\<close>)
qed

lemma read_payload_chunked_flowing:
  "flowing (fst w) \<Longrightarrow> bytes_of (fst w) = b @ r \<Longrightarrow> length b = n \<Longrightarrow>
    \<exists>es. read_payload_chunked n w = (Ok b, (es, snd w + of_nat n)) \<and> flowing es \<and> bytes_of es = r"
proof (induction n w arbitrary: b rule: read_payload_chunked.induct)
  case (1 n w)
  show ?case
  proof (cases "n = 0")
    case True
    then show ?thesis using "1.prems" by (simp add: read_payload_chunked.simps) (cases w; auto)
  next
    case False
    let ?k = "min n READ_CHUNK_SIZE"
    have b: "b = take ?k b @ drop ?k b" "length (take ?k b) = ?k" "length (drop ?k b) = n - ?k" using "1.prems"(3) by simp_all
    obtain es where es: "read_exact ?k (fst w) = (Ok (take ?k b), es)" "flowing es" "bytes_of es = drop ?k b @ r"
      by (rule read_exact_at[OF "1.prems"(1) _ b(2), of "drop ?k b @ r"]) (simp_all add: "1.prems"(2) append_assoc[symmetric])
    obtain es' where es': "read_payload_chunked (n - ?k) (es, snd w + of_nat ?k) = (Ok (drop ?k b), (es', snd w + of_nat ?k + of_nat (n - ?k)))"
        "flowing es'" "bytes_of es' = r"
      using "1.IH"[OF False refl, of es "snd w" "drop ?k b"] es(2,3) b(3) by auto
    have "of_nat ?k + of_nat (n - ?k) = (of_nat n :: u64)" by (simp flip: of_nat_add)
    then have "read_payload_chunked n w = (Ok b, (es', snd w + of_nat n))"
      using es(1) es'(1) False b(1) by (subst read_payload_chunked.simps)
        (simp add: Let_def chunk_read_def wire_read_def case_prod_beta add.assoc)
    then show ?thesis using es'(2,3) by blast
  qed
qed



section \<open>One receive\<close>

definition is_frame :: "bytes \<Rightarrow> bool" where
  "is_frame f \<longleftrightarrow> (\<exists>t p. f = t # le32 (of_nat (length p)) @ p \<and> length p \<le> MAX_MESSAGE_SIZE)"

lemma read_message_sound:
  assumes "read_message K reserve heavy key c w = (Ok m, w')"
  shows "\<exists>f tag. bytes_of (fst w) = f @ tag @ bytes_of (fst w') \<and> is_frame f \<and> length tag = 16
    \<and> verify_frame_hmac K key c f tag \<and> Message_deserialize f = Ok (m, length f)"
proof -
  obtain t w1 l w2 where 1: "wire_read 1 w = (Ok t, w1)" "wire_read 4 w1 = (Ok l, w2)"
    and r: "(let msg_type = t ! 0; payload_len = unat (u32_le l) in
     if payload_len > MAX_MESSAGE_SIZE then (Err (Failed InvalidDataKind ''message too large''), w2)
     else if payload_len > max_payload heavy msg_type
     then (Err (Failed InvalidDataKind ''message payload too large''), w2)
     else case reserve (of_nat (peak_prever_bytes payload_len)) of
       Inl _ \<Rightarrow> (Err (Failed OtherKind ''frame budget exhausted''), w2)
     | Inr _ \<Rightarrow>
       sbind (if payload_len \<le> EAGER_ALLOC_LIMIT then wire_read payload_len w2
              else read_payload_chunked payload_len w2) (\<lambda>payload w.
       sbind (wire_read HMAC_TAG_SIZE w) (\<lambda>received_tag w.
       let full = msg_type # le32 (of_nat payload_len) @ payload in
       if \<not> verify_frame_hmac K key c full received_tag
       then (Err (Failed InvalidDataKind ''HMAC verification failed''), w)
       else case Message_deserialize full of
         Inr (msg, _) \<Rightarrow> (Ok msg, w)
       | Inl _ \<Rightarrow> (Err (Failed InvalidDataKind ''deserialization error''), w)))) = (Ok m, w')"
    using assms unfolding read_message_def sbind_Ok_iff by blast
  let ?n = "unat (u32_le l)"
  obtain p w3 tag where 2: "(if ?n \<le> EAGER_ALLOC_LIMIT then wire_read ?n w2 else read_payload_chunked ?n w2) = (Ok p, w3)"
      "wire_read HMAC_TAG_SIZE w3 = (Ok tag, w')" "?n \<le> MAX_MESSAGE_SIZE"
    and v: "verify_frame_hmac K key c (t ! 0 # le32 (of_nat ?n) @ p) tag"
    and d: "\<exists>k. Message_deserialize (t ! 0 # le32 (of_nat ?n) @ p) = Ok (m, k)"
    using r by (auto simp: Let_def sbind_Ok_iff split: if_split_asm sum.split_asm prod.split_asm)
  note s1 = wire_read_sound[OF 1(1)] and s2 = wire_read_sound[OF 1(2)] and s4 = wire_read_sound[OF 2(2)]
  have s3: "length p = ?n \<and> bytes_of (fst w2) = p @ bytes_of (fst w3)"
    using 2(1) wire_read_sound read_payload_chunked_sound by (auto split: if_split_asm)
  have t: "t = [t ! 0]" using s1 by (cases t) auto
  let ?f = "t ! 0 # le32 (of_nat ?n) @ p"
  have l: "le32 (of_nat ?n) = l" using s2 by (simp add: le_word_roundtrip)
  have "bytes_of (fst w) = ?f @ tag @ bytes_of (fst w')" using s1 s2 s3 s4 t l by (metis append.assoc append_Cons append_Nil)
  moreover have "is_frame ?f" using 2(3) s3 by (auto simp: is_frame_def)
  moreover have "Message_deserialize ?f = Ok (m, length ?f)"
  proof -
    have "rbind (parse_payload (t ! 0) p) (\<lambda>m. Ok (m, 5 + length p)) = Message_deserialize (?f @ [])"
      using frame_read[of p "t ! 0" "[]"] 2(3) s3 by simp
    then show ?thesis using d s3 by (auto simp: result_simps)
  qed
  ultimately show ?thesis using v s4 by (intro exI[of _ ?f] exI[of _ tag]) (simp add: constants)
qed

lemma fill_counter_Got:
  assumes "\<not> length (rs_counter_buf st) \<ge> 8" "n = min (length bs) (8 - length (rs_counter_buf st))"
  shows "fill_counter had (Got bs # es) st =
    (if n = 0 then (Err (Io ''connection closed''), st\<lparr>rs_wire := (es, snd (rs_wire st))\<rparr>)
     else if n < length bs
     then (Ok (Some ()), st\<lparr>rs_counter_buf := rs_counter_buf st @ take n bs, rs_counter_started := True,
            rs_wire := (unread (drop n bs) es, snd (rs_wire st) + of_nat n)\<rparr>)
     else fill_counter had es (st\<lparr>rs_counter_buf := rs_counter_buf st @ take n bs, rs_counter_started := True,
            rs_wire := (es, snd (rs_wire st) + of_nat n)\<rparr>))"
  by (subst fill_counter.simps) (simp only: Let_def list.case event.case assms(1) if_False, simp only: assms(2)[symmetric], simp)

lemma fill_counter_Some:
  "fill_counter had es st = (Ok (Some u), st') \<Longrightarrow> length (rs_counter_buf st) \<le> 8 \<Longrightarrow>
    length (rs_counter_buf st') = 8 \<and> rs_counter_buf st @ bytes_of es = rs_counter_buf st' @ bytes_of (fst (rs_wire st'))
    \<and> rs_recv_key st' = rs_recv_key st \<and> rs_recv_counter st' = rs_recv_counter st"
proof (induction es arbitrary: st)
  case Nil
  then show ?case by (subst (asm) fill_counter.simps) (auto simp: Let_def split: if_split_asm)
next
  case (Cons e es)
  show ?case
  proof (cases "length (rs_counter_buf st) \<ge> 8")
    case True
    then show ?thesis using Cons.prems by (subst (asm) fill_counter.simps) (auto simp: Let_def)
  next
    case False
    let ?b = "rs_counter_buf st"
    show ?thesis
    proof (cases e)
      case (Got bs)
      obtain n where n: "n = min (length bs) (8 - length ?b)" by simp
      let ?st = "st\<lparr>rs_counter_buf := ?b @ take n bs, rs_counter_started := True, rs_wire := (es, snd (rs_wire st) + of_nat n)\<rparr>"
      note step = Cons.prems(1)[unfolded Got fill_counter_Got[OF False n]]
      show ?thesis
      proof (cases "n < length bs")
        case True
        then have "n = 8 - length ?b" using n by simp
        then show ?thesis using step False True Got by (auto split: if_split_asm)
      next
        case whole: False
        then have "fill_counter had es ?st = (Ok (Some u), st')" "n = length bs"
          using step n by (auto split: if_split_asm)
        then show ?thesis using Cons.IH[of ?st] Got False n by simp
      qed
    qed (use Cons.prems False in \<open>subst (asm) fill_counter.simps, simp add: Let_def split: if_split_asm\<close>)+
  qed
qed

lemma fill_counter_None:
  "fill_counter had es st = (Ok None, st') \<Longrightarrow>
    rs_counter_buf st = [] \<and> rs_counter_buf st' = [] \<and> bytes_of es = bytes_of (fst (rs_wire st'))
    \<and> rs_recv_key st' = rs_recv_key st \<and> rs_recv_counter st' = rs_recv_counter st"
proof (induction es arbitrary: st)
  case Nil
  then show ?case by (subst (asm) fill_counter.simps) (auto simp: Let_def split: if_split_asm)
next
  case (Cons e es)
  have short: "\<not> length (rs_counter_buf st) \<ge> 8"
    using Cons.prems by (subst (asm) fill_counter.simps) (auto simp: Let_def split: if_split_asm)
  show ?case
  proof (cases e)
    case (Got bs)
    obtain n where n: "n = min (length bs) (8 - length (rs_counter_buf st))" by simp
    let ?st = "st\<lparr>rs_counter_buf := rs_counter_buf st @ take n bs, rs_counter_started := True,
      rs_wire := (es, snd (rs_wire st) + of_nat n)\<rparr>"
    have "n \<noteq> 0 \<and> fill_counter had es ?st = (Ok None, st')"
      using Cons.prems[unfolded Got fill_counter_Got[OF short n]] by (auto split: if_split_asm)
    then have "n \<noteq> 0" "take n bs = []" using Cons.IH[of ?st] by simp_all
    moreover have "bs = [] \<Longrightarrow> n = 0" using n by simp
    ultimately show ?thesis unfolding take_eq_Nil by blast
  qed (use Cons.prems short in \<open>subst (asm) fill_counter.simps, auto simp: Let_def split: if_split_asm\<close>)+
qed

lemma recv_frame_Ok:
  assumes "recv_frame K reserve c st = (Ok x, st')"
  shows "\<exists>m w c'. x = Some m \<and> read_message K reserve True (rs_recv_key st) c (rs_wire st) = (Ok m, w)
    \<and> rs_recv_counter st \<le> c \<and> checked_add c 1 = Some c' \<and> st' = st\<lparr>rs_wire := w, rs_recv_counter := c'\<rparr>"
  using assms unfolding recv_frame_def
  by (auto simp: not_less split: prod.split_asm sum.split_asm if_split_asm option.split_asm)

lemma reader_recv_Ok:
  assumes "reader_recv K late reserve st = (Ok x, st')"
  shows "\<exists>filled st1. fill_counter (rs_counter_buf st \<noteq> []) (fst (rs_wire st)) st = (Ok filled, st1)
    \<and> (case filled of None \<Rightarrow> x = None \<and> st' = st1
       | Some _ \<Rightarrow> recv_frame K reserve (u64_le (rs_counter_buf st1)) (st1\<lparr>rs_counter_buf := [], rs_counter_started := False\<rparr>) = (Ok x, st'))"
  using assms unfolding reader_recv_def Let_def by (auto simp: sbind_Ok_iff split: if_split_asm option.splits)

lemma reader_recv_Some:
  assumes "reader_recv K late reserve st = (Ok (Some m), st')" "length (rs_counter_buf st) \<le> 8"
  shows "\<exists>c f tag. rs_counter_buf st @ bytes_of (fst (rs_wire st)) = le64 c @ f @ tag @ bytes_of (fst (rs_wire st'))
    \<and> is_frame f \<and> length tag = 16 \<and> verify_frame_hmac K (rs_recv_key st) c f tag
    \<and> Message_deserialize f = Ok (m, length f) \<and> rs_recv_counter st \<le> c \<and> checked_add c 1 = Some (rs_recv_counter st')
    \<and> rs_recv_key st' = rs_recv_key st \<and> rs_counter_buf st' = []"
proof -
  obtain u st1 where 1: "fill_counter (rs_counter_buf st \<noteq> []) (fst (rs_wire st)) st = (Ok (Some u), st1)"
    and r: "recv_frame K reserve (u64_le (rs_counter_buf st1)) (st1\<lparr>rs_counter_buf := [], rs_counter_started := False\<rparr>) = (Ok (Some m), st')"
    using reader_recv_Ok[OF assms(1)] by (auto split: option.split_asm)
  note f1 = fill_counter_Some[OF 1 assms(2)]
  let ?c = "u64_le (rs_counter_buf st1)"
  obtain w c where 2: "read_message K reserve True (rs_recv_key st1) ?c (rs_wire st1) = (Ok m, w)"
      "rs_recv_counter st1 \<le> ?c" "checked_add ?c 1 = Some c"
      "st' = st1\<lparr>rs_counter_buf := [], rs_counter_started := False, rs_wire := w, rs_recv_counter := c\<rparr>"
    using recv_frame_Ok[OF r] by auto
  obtain f tag where f: "bytes_of (fst (rs_wire st1)) = f @ tag @ bytes_of (fst w)" "is_frame f" "length tag = 16"
      "verify_frame_hmac K (rs_recv_key st1) ?c f tag" "Message_deserialize f = Ok (m, length f)"
    using read_message_sound[OF 2(1)] by blast
  have "le64 ?c = rs_counter_buf st1" using f1 by (simp add: le_word_roundtrip)
  then show ?thesis using f f1 2(2-4) by (intro exI[of _ ?c] exI[of _ f] exI[of _ tag]) simp
qed

lemma reader_recv_None:
  assumes "reader_recv K late reserve st = (Ok None, st')"
  shows "rs_counter_buf st' = [] \<and> bytes_of (fst (rs_wire st)) = bytes_of (fst (rs_wire st'))
    \<and> rs_recv_key st' = rs_recv_key st \<and> rs_recv_counter st' = rs_recv_counter st"
proof -
  have "fill_counter (rs_counter_buf st \<noteq> []) (fst (rs_wire st)) st = (Ok None, st')"
    using reader_recv_Ok[OF assms] recv_frame_Ok by (fastforce split: option.split_asm)
  then show ?thesis using fill_counter_None by blast
qed


section \<open>No replay, no reordering, no insertion\<close>

text \<open>The reader task calls \<open>reader_recv\<close> until it fails and hands every message on.\<close>

fun deliver :: "identity_lib \<Rightarrow> (bool \<times> (u64 \<Rightarrow> BudgetError + unit)) list \<Rightarrow> ReaderState \<Rightarrow> Message list" where
  "deliver K [] st = []"
| "deliver K ((late, reserve) # calls) st =
     (case reader_recv K late reserve st of
        (Inl _, st) \<Rightarrow> []
      | (Inr None, st) \<Rightarrow> deliver K calls st
      | (Inr (Some m), st) \<Rightarrow> m # deliver K calls st)"

text \<open>The unforgeability of the tags on the bytes that arrived: wherever they contain a counter, a
  frame and a tag that verifies, the peer has written that frame under that counter.\<close>

definition tags_authentic :: "identity_lib \<Rightarrow> bytes \<Rightarrow> Message list \<Rightarrow> bytes \<Rightarrow> bool" where
  "tags_authentic K key sent arrived \<longleftrightarrow>
     (\<forall>c f tag. is_frame f \<longrightarrow> length tag = HMAC_TAG_SIZE \<longrightarrow> sublist (le64 c @ f @ tag) arrived
        \<longrightarrow> verify_frame_hmac K key c f tag \<longrightarrow> unat c < length sent \<and> Message_serialize (sent ! unat c) = Ok f)"

lemma tags_authentic_suffix:
  assumes "tags_authentic K key sent (a @ b)"
  shows "tags_authentic K key sent b"
proof -
  have "sublist s b \<Longrightarrow> sublist s (a @ b)" for s by (simp add: sublist_append)
  then show ?thesis using assms unfolding tags_authentic_def by blast
qed

lemma subseq_pick:
  assumes "subseq ms (drop (Suc c) sent)" "r \<le> c" "c < length sent"
  shows "subseq (sent ! c # ms) (drop r sent)"
proof -
  have "drop r sent = take (c - r) (drop r sent) @ drop c sent"
    using assms(2) by (metis append_take_drop_id drop_drop le_add_diff_inverse2)
  moreover have "drop c sent = sent ! c # drop (Suc c) sent" using assms(3) by (rule Cons_nth_drop_Suc[symmetric])
  ultimately show ?thesis using assms(1) by (metis list_emb_append2 subseq_Cons2_iff)
qed

lemma deliver_subseq:
  "tags_authentic K (rs_recv_key st) sent (bytes_of (fst (rs_wire st))) \<Longrightarrow> list_all wf_message sent \<Longrightarrow>
    rs_counter_buf st = [] \<Longrightarrow> subseq (deliver K calls st) (drop (unat (rs_recv_counter st)) sent)"
proof (induction calls arbitrary: st)
  case (Cons call calls)
  obtain late reserve where call: "call = (late, reserve)" by (cases call)
  obtain x st' where r: "reader_recv K late reserve st = (x, st')" by fastforce
  consider e where "x = Inl e" | "x = Ok None" | m where "x = Ok (Some m)" by (metis sum.exhaust option.exhaust)
  then show ?case
  proof cases
    case 1
    then show ?thesis using r call by simp
  next
    case 2
    note n = reader_recv_None[OF r[unfolded 2]]
    have "subseq (deliver K calls st') (drop (unat (rs_recv_counter st')) sent)"
      using Cons.prems n by (intro Cons.IH) simp_all
    then show ?thesis using r call 2 n by simp
  next
    case 3
    obtain c f tag where s: "bytes_of (fst (rs_wire st)) = le64 c @ f @ tag @ bytes_of (fst (rs_wire st'))"
        "is_frame f" "length tag = 16" "verify_frame_hmac K (rs_recv_key st) c f tag"
        "Message_deserialize f = Ok (m, length f)" "rs_recv_counter st \<le> c" "checked_add c 1 = Some (rs_recv_counter st')"
        "rs_recv_key st' = rs_recv_key st" "rs_counter_buf st' = []"
      using reader_recv_Some[OF r[unfolded 3]] Cons.prems(3) by auto
    have "sublist (le64 c @ f @ tag) (bytes_of (fst (rs_wire st)))" unfolding s(1) by (metis append.assoc sublist_append_rightI)
    then have sent: "unat c < length sent" "Message_serialize (sent ! unat c) = Ok f"
      using Cons.prems(1) s(2-4) unfolding tags_authentic_def by (auto simp: constants)
    have "wf_message (sent ! unat c)" using Cons.prems(2) sent(1) by (simp add: list_all_length)
    moreover have "length f \<le> 5 + MAX_MESSAGE_SIZE" using s(2) by (auto simp: is_frame_def)
    ultimately have "m = sent ! unat c" using message_dec_enc[OF _ sent(2), of "[]"] s(5) by simp
    moreover have "subseq (deliver K calls st') (drop (Suc (unat c)) sent)"
    proof -
      have "unat (rs_recv_counter st') = Suc (unat c)" using s(7) by (simp add: checked_add_Some)
      moreover have "tags_authentic K (rs_recv_key st') sent (bytes_of (fst (rs_wire st')))"
        using tags_authentic_suffix[of K _ sent "le64 c @ f @ tag"] Cons.prems(1) s(1,8) by simp
      ultimately show ?thesis using Cons.IH[OF _ Cons.prems(2) s(9)] by simp
    qed
    ultimately show ?thesis
      using subseq_pick[of _ "unat c" sent "unat (rs_recv_counter st)"] r call 3 sent(1) s(6) by (simp add: word_le_nat_alt)
  qed
qed simp

text \<open>C11. The channel delivers a subsequence of what the peer sent: whatever bytes an attacker inserts,
  drops, repeats or reorders, the messages the reader hands on are messages the peer wrote, in the
  order it wrote them, each at most once.\<close>

theorem channel_in_order:
  assumes "tags_authentic K (rs_recv_key st) sent (bytes_of (fst (rs_wire st)))" "list_all wf_message sent"
    and "rs_counter_buf st = []" "rs_recv_counter st = 0"
  shows "subseq (deliver K calls st) sent"
  using deliver_subseq[OF assms(1-3), of calls] assms(4) by simp



section \<open>Delivery on a steady stream\<close>

definition steady :: "stream \<Rightarrow> bool" where
  "steady es \<longleftrightarrow> list_all (\<lambda>e. \<exists>bs. e = Got bs \<and> bs \<noteq> []) es"

lemma steady_simps [simp]:
  "steady []" "steady (Got bs # es) \<longleftrightarrow> bs \<noteq> [] \<and> steady es" "\<not> steady (Quiet # es)" "\<not> steady (Stall # es)"
  "\<not> steady (Gone k # es)" "steady (unread bs es) = steady es"
  by (simp_all add: steady_def unread_def)

lemma steady_flowing: "steady es \<Longrightarrow> flowing es"
  by (auto simp: steady_def flowing_def list_all_iff split: event.splits)

lemma read_exact_steady: "steady es \<Longrightarrow> read_exact n es = (x, es') \<Longrightarrow> steady es'"
proof (induction es arbitrary: n x)
  case (Cons e es)
  then obtain bs where "e = Got bs" "bs \<noteq> []" "steady es" by (cases e) simp_all
  then show ?case using Cons.prems(2) Cons.IH
    by (auto simp: sbind_def split: if_split_asm prod.split_asm sum.split_asm)
qed (auto split: if_split_asm)

lemma wire_read_steady:
  assumes "steady (fst w)" "bytes_of (fst w) = b @ r" "length b = n"
  obtains es where "wire_read n w = (Ok b, (es, snd w))" "steady es" "bytes_of es = r"
proof -
  obtain es where "read_exact n (fst w) = (Ok b, es)" "bytes_of es = r"
    by (rule read_exact_at[OF steady_flowing[OF assms(1)] assms(2,3)])
  then show ?thesis using that read_exact_steady[OF assms(1)] by (simp add: wire_read_def case_prod_beta)
qed

lemma read_payload_chunked_steady: "steady (fst w) \<Longrightarrow> read_payload_chunked n w = (Ok b, w') \<Longrightarrow> steady (fst w')"
proof (induction n w arbitrary: b rule: read_payload_chunked.induct)
  case (1 n w)
  show ?case
  proof (cases "n = 0")
    case False
    let ?k = "min n READ_CHUNK_SIZE"
    obtain chunk es p rest where r: "wire_read ?k w = (Ok chunk, (es, p))"
        "read_payload_chunked (n - ?k) (es, p + of_nat ?k) = (Ok rest, w')"
      using "1.prems" False by (subst (asm) read_payload_chunked.simps) (auto simp: Let_def sbind_Ok_iff chunk_read_Ok split: prod.splits)
    then have "steady es" using read_exact_steady "1.prems"(1) by (cases w) (auto simp: wire_read_Ok)
    then show ?thesis using "1.IH"[OF False refl _ r(2)] by simp
  qed (use "1.prems" in \<open>simp add: read_payload_chunked.simps\<close>)
qed

lemma payload_steady:
  assumes "steady (fst w)" "bytes_of (fst w) = b @ r" "length b = n"
  obtains w' where "(if n \<le> EAGER_ALLOC_LIMIT then wire_read n w else read_payload_chunked n w) = (Ok b, w')"
    "steady (fst w')" "bytes_of (fst w') = r"
proof (cases "n \<le> EAGER_ALLOC_LIMIT")
  case True
  obtain es where "wire_read n w = (Ok b, (es, snd w))" "steady es" "bytes_of es = r"
    by (rule wire_read_steady[OF assms])
  then show ?thesis using that[of "(es, snd w)"] True by simp
next
  case False
  obtain es where es: "read_payload_chunked n w = (Ok b, (es, snd w + of_nat n))" "bytes_of es = r"
    using read_payload_chunked_flowing[OF steady_flowing[OF assms(1)] assms(2,3)] by blast
  then show ?thesis using that[of "(es, snd w + of_nat n)"] False read_payload_chunked_steady[OF assms(1) es(1)] by simp
qed

text \<open>A message the reader's size table admits. For every kind but blocks and transactions the table
  admits all well-formed messages.\<close>

definition sendable :: "Message \<Rightarrow> bool" where
  "sendable m \<longleftrightarrow> wf_message m \<and> (case message_parts m of
     Inl _ \<Rightarrow> False | Inr (t, p) \<Rightarrow> length p \<le> max_payload True t)"

lemma sendable_iff:
  "sendable m \<longleftrightarrow> wf_message m \<and> (case m of
     NewBlock b \<Rightarrow> (\<exists>p. Block_serialize b = Ok p \<and> length p \<le> MAX_BLOCK_SIZE)
   | BlockResponse b \<Rightarrow> (\<exists>p. Block_serialize b = Ok p \<and> length p \<le> MAX_BLOCK_SIZE)
   | NewTx tx \<Rightarrow> (\<exists>p. Transaction_serialize tx = Ok p \<and> length p \<le> MAX_TX_SIZE)
   | _ \<Rightarrow> True)"
proof -
  have "length (serialize_hash_list hs) \<le> 4 + MAX_GETBLOCKS_ITEMS * 32"
    if "list_all is_hash256 hs" "length hs \<le> MAX_GETBLOCKS_ITEMS" for hs
    using that hl.length_puts[of hs] by (simp add: serialize_hash_list_def constants)
  moreover have "length (serialize_headers hs) \<le> 4 + MAX_GETBLOCKS_ITEMS * HEADER_SIZE"
    if "list_all wf_header hs" "length hs \<le> MAX_GETBLOCKS_ITEMS" for hs
    using that hd.length_puts[of hs] by (simp add: serialize_headers_def constants)
  moreover have "length (serialize_addr_list es) \<le> 4 + MAX_ADDR_ITEMS * 26"
    if "list_all wf_addr es" "length es \<le> MAX_ADDR_ITEMS" for es
    using that ad.length_puts[of es] by (simp add: serialize_addr_list_def constants)
  ultimately show ?thesis
    using length_hello
    by (cases m) (auto simp: sendable_def message_parts_def wf_message_def max_payload_def result_simps rbind_def
        serialize_tip_response_def serialize_get_headers_def is_hash256_def HELLO_V4_PAYLOAD_SIZE_def split: sum.splits)
qed

lemma max_payload_bound: "max_payload heavy t \<le> MAX_MESSAGE_SIZE"
  by (simp add: max_payload_def constants)

lemma read_message_steady:
  assumes "sendable m" "message_parts m = Ok (t, p)" "tags16 K" "\<And>n. reserve n = Ok ()"
    and "steady (fst w)"
    and "bytes_of (fst w) = (t # le32 (of_nat (length p)) @ p) @ compute_frame_hmac K key c (t # le32 (of_nat (length p)) @ p) @ r"
  shows "\<exists>w'. read_message K reserve True key c w = (Ok m, w') \<and> steady (fst w') \<and> bytes_of (fst w') = r"
proof -
  let ?f = "t # le32 (of_nat (length p)) @ p"
  let ?tag = "compute_frame_hmac K key c ?f"
  have len: "length p \<le> max_payload True t" "length p \<le> MAX_MESSAGE_SIZE"
    using assms(1,2) max_payload_bound[of True t] by (auto simp: sendable_def)
  have n: "unat (u32_le (le32 (of_nat (length p)))) = length p" using len(2) by (simp add: constants unat_of_nat_u32)
  have tag: "length ?tag = 16" using assms(3) by (simp add: compute_frame_hmac_def tags16_def constants)
  obtain e1 where 1: "wire_read 1 w = (Ok [t], (e1, snd w))" "steady e1"
      "bytes_of e1 = le32 (of_nat (length p)) @ p @ ?tag @ r"
    by (rule wire_read_steady[OF assms(5), of "[t]" _ 1]) (use assms(6) in simp_all)
  obtain e2 where 2: "wire_read 4 (e1, snd w) = (Ok (le32 (of_nat (length p))), (e2, snd w))" "steady e2" "bytes_of e2 = p @ ?tag @ r"
    by (rule wire_read_steady[of "(e1, snd w)" "le32 (of_nat (length p))" "p @ ?tag @ r" 4]) (use 1 in simp_all)
  obtain w3 where 3: "(if length p \<le> EAGER_ALLOC_LIMIT then wire_read (length p) (e2, snd w)
        else read_payload_chunked (length p) (e2, snd w)) = (Ok p, w3)" "steady (fst w3)" "bytes_of (fst w3) = ?tag @ r"
    by (rule payload_steady[of "(e2, snd w)" p "?tag @ r" "length p"]) (use 2 in simp_all)
  obtain e4 where 4: "wire_read HMAC_TAG_SIZE w3 = (Ok ?tag, (e4, snd w3))" "steady e4" "bytes_of e4 = r"
    by (rule wire_read_steady[OF 3(2,3), of 16]) (use tag in \<open>simp_all add: constants\<close>)
  have "Message_deserialize ?f = Ok (m, 5 + length p)"
    using frame_read[OF len(2), of t "[]"] parse_parts[OF _ assms(2)] assms(1) by (simp add: sendable_def)
  moreover have "verify_frame_hmac K key c ?f ?tag" using verify_frame_hmac_iff[OF assms(3) tag] by simp
  ultimately have "read_message K reserve True key c w = (Ok m, (e4, snd w3))"
    using 1(1) 2(1) 3(1) 4(1) n len assms(4)
    by (cases "length p \<le> EAGER_ALLOC_LIMIT") (simp_all add: read_message_def Let_def)
  then show ?thesis using 4 by simp
qed


lemma fill_counter_steady:
  "steady es \<Longrightarrow> rs_counter_buf st @ bytes_of es = c8 @ r \<Longrightarrow> length c8 = 8 \<Longrightarrow> length (rs_counter_buf st) \<le> 8 \<Longrightarrow>
    \<exists>st'. fill_counter had es st = (Ok (Some ()), st') \<and> rs_counter_buf st' = c8 \<and> steady (fst (rs_wire st'))
      \<and> bytes_of (fst (rs_wire st')) = r \<and> rs_recv_key st' = rs_recv_key st \<and> rs_recv_counter st' = rs_recv_counter st"
proof (induction es arbitrary: st)
  case Nil
  then have "length (rs_counter_buf st) = 8" by (metis add.commute append.right_neutral bytes_of.simps(1) length_append nle_le le_add2)
  then show ?case using Nil by (subst fill_counter.simps) (simp add: Let_def)
next
  case (Cons e es)
  then obtain bs where e: "e = Got bs" "bs \<noteq> []" "steady es" by (cases e) simp_all
  let ?b = "rs_counter_buf st"
  show ?case
  proof (cases "length ?b \<ge> 8")
    case True
    then have "?b = c8" "bytes_of (e # es) = r" using Cons.prems by simp_all
    then show ?thesis using True Cons.prems(1) by (subst fill_counter.simps) (simp add: Let_def)
  next
    case False
    obtain n where n: "n = min (length bs) (8 - length ?b)" by simp
    have n0: "n \<noteq> 0" using n e(2) False by auto
    let ?st = "st\<lparr>rs_counter_buf := ?b @ take n bs, rs_counter_started := True, rs_wire := (es, snd (rs_wire st) + of_nat n)\<rparr>"
    show ?thesis
    proof (cases "n < length bs")
      case True
      then have "n = 8 - length ?b" using n by simp
      then have "length (?b @ take n bs) = 8" using True False by simp
      moreover have "take n bs @ drop n bs @ bytes_of es = bs @ bytes_of es"
        unfolding append_assoc[symmetric] by simp
      note this[simp]
      have "(?b @ take n bs) @ drop n bs @ bytes_of es = c8 @ r"
        using Cons.prems(2) e(1) by simp
      ultimately have "?b @ take n bs = c8" "drop n bs @ bytes_of es = r"
        using Cons.prems(3) append_eq_append_conv[of "?b @ take n bs" c8] by metis+
      then show ?thesis using e n0 True unfolding e(1) fill_counter_Got[OF False n] by simp
    next
      case whole: False
      then have "n = length bs" using n by simp
      then show ?thesis using Cons.IH[of ?st] Cons.prems e n0 n whole unfolding e(1) fill_counter_Got[OF False n] by simp
    qed
  qed
qed

lemma reader_recv_steady:
  assumes "sendable m" "message_parts m = Ok (t, p)" "tags16 K" "\<And>n. reserve n = Ok ()"
    and "steady (fst (rs_wire st))" "rs_counter_buf st = []" "rs_recv_counter st = c" "checked_add c 1 = Some c'"
    and "bytes_of (fst (rs_wire st)) = le64 c @ (t # le32 (of_nat (length p)) @ p)
          @ compute_frame_hmac K (rs_recv_key st) c (t # le32 (of_nat (length p)) @ p) @ r"
  shows "\<exists>st'. reader_recv K late reserve st = (Ok (Some m), st') \<and> steady (fst (rs_wire st')) \<and> rs_counter_buf st' = []
    \<and> rs_recv_counter st' = c' \<and> rs_recv_key st' = rs_recv_key st \<and> bytes_of (fst (rs_wire st')) = r"
proof -
  let ?f = "t # le32 (of_nat (length p)) @ p"
  obtain st1 where 1: "fill_counter False (fst (rs_wire st)) st = (Ok (Some ()), st1)" "rs_counter_buf st1 = le64 c"
      "steady (fst (rs_wire st1))" "bytes_of (fst (rs_wire st1)) = ?f @ compute_frame_hmac K (rs_recv_key st) c ?f @ r"
      "rs_recv_key st1 = rs_recv_key st" "rs_recv_counter st1 = c"
    using fill_counter_steady[OF assms(5), of st "le64 c" "?f @ compute_frame_hmac K (rs_recv_key st) c ?f @ r" False]
      assms(6,7,9) by auto
  obtain w where 2: "read_message K reserve True (rs_recv_key st) c (rs_wire st1) = (Ok m, w)" "steady (fst w)" "bytes_of (fst w) = r"
    using read_message_steady[where reserve = reserve, OF assms(1-4) 1(3), of "rs_recv_key st" c r] 1(4) by blast
  show ?thesis
    using 1 2 assms(6,8) by (simp add: reader_recv_def Let_def recv_frame_def)
qed

fun write_all :: "identity_lib \<Rightarrow> bytes \<Rightarrow> u64 \<Rightarrow> Message list \<Rightarrow> (u64, PeerError, bytes) run" where
  "write_all K key c [] = (Ok [], c)"
| "write_all K key c (m # ms) =
     sbind (write_framed_message K True m key c) (\<lambda>b c.
     sbind (write_all K key c ms) (\<lambda>bs c. (Ok (b @ bs), c)))"

lemma write_framed_message_Ok:
  assumes "write_framed_message K True m key c = (Ok b, c')"
  shows "\<exists>f. Message_serialize m = Ok f \<and> checked_add c 1 = Some c' \<and> b = le64 c @ f @ compute_frame_hmac K key c f"
  using assms by (auto simp: write_framed_message_def Let_def split: sum.split_asm option.split_asm)

lemma deliver_steady:
  "write_all K (rs_recv_key st) (rs_recv_counter st) ms = (Ok bs, c') \<Longrightarrow> list_all sendable ms \<Longrightarrow> tags16 K \<Longrightarrow>
    \<forall>n. reserve n = Ok () \<Longrightarrow> steady (fst (rs_wire st)) \<Longrightarrow> rs_counter_buf st = [] \<Longrightarrow>
    bytes_of (fst (rs_wire st)) = bs @ r \<Longrightarrow> deliver K (replicate (length ms) (late, reserve)) st = ms"
proof (induction ms arbitrary: st bs)
  case (Cons m ms)
  obtain b c1 bs' where w: "write_framed_message K True m (rs_recv_key st) (rs_recv_counter st) = (Ok b, c1)"
      "write_all K (rs_recv_key st) c1 ms = (Ok bs', c')" "bs = b @ bs'"
    using Cons.prems(1) by (auto simp: sbind_Ok_iff)
  obtain f where f: "Message_serialize m = Ok f" "checked_add (rs_recv_counter st) 1 = Some c1"
      "b = le64 (rs_recv_counter st) @ f @ compute_frame_hmac K (rs_recv_key st) (rs_recv_counter st) f"
    using write_framed_message_Ok[OF w(1)] by blast
  obtain t p where p: "message_parts m = Ok (t, p)" "f = t # le32 (of_nat (length p)) @ p"
    using f(1) by (auto simp: Message_serialize_def result_simps)
  obtain st' where st': "reader_recv K late reserve st = (Ok (Some m), st')" "steady (fst (rs_wire st'))"
      "rs_counter_buf st' = []" "rs_recv_counter st' = c1" "rs_recv_key st' = rs_recv_key st" "bytes_of (fst (rs_wire st')) = bs' @ r"
    using reader_recv_steady[OF _ p(1) Cons.prems(3) _ Cons.prems(5,6) refl f(2), of reserve "bs' @ r" late]
      Cons.prems(2,4,7) f(3) w(3) p(2) by auto
  have "deliver K (replicate (length ms) (late, reserve)) st' = ms"
    by (rule Cons.IH[of st' bs']) (use Cons.prems(2-4) w(2) st' in simp_all)
  then show ?case using st'(1) by simp
qed simp

text \<open>C21. The channel works: messages written one after the other arrive, in order and complete,
  however the network cuts their bytes into segments, as long as the peer keeps sending, memory is
  available and each message is within the size table, which for all kinds but blocks and
  transactions follows from being well-formed.\<close>

theorem channel_delivers:
  assumes "write_all K (rs_recv_key st) (rs_recv_counter st) ms = (Ok bs, c')" "list_all sendable ms"
    and "tags16 K" "\<forall>n. reserve n = Ok ()" "steady (fst (rs_wire st))" "rs_counter_buf st = []"
    and "bytes_of (fst (rs_wire st)) = bs @ r"
  shows "deliver K (replicate (length ms) (late, reserve)) st = ms"
  using assms by (rule deliver_steady)


lemma toy_tags16: "tags16 toy_identity"
  by (auto simp: tags16_def toy_identity_def min_def)

definition reader_on :: "stream \<Rightarrow> ReaderState" where
  "reader_on es = \<lparr>rs_wire = (es, 0), rs_recv_key = replicate 32 5, rs_recv_counter = 0, rs_counter_buf = [],
     rs_counter_started = False\<rparr>"

lemma ping_pong_written:
  "\<exists>bs c. write_all toy_identity (replicate 32 5) 0 [Ping, Pong] = (Ok bs, c) \<and> 8 < length bs"
  by (simp add: write_framed_message_def Message_serialize_def message_parts_def checked_add_def)

theorem channel_delivers_witness:
  "\<exists>es. deliver toy_identity (replicate 2 (False, \<lambda>_. Ok ())) (reader_on es) = [Ping, Pong] \<and> length es = 2"
proof -
  obtain bs c where bs: "write_all toy_identity (replicate 32 5) 0 [Ping, Pong] = (Ok bs, c)" "8 < length bs"
    using ping_pong_written by blast
  let ?es = "[Got (take 3 bs), Got (drop 3 bs)]"
  have "list_all sendable [Ping, Pong]" by (simp add: sendable_iff wf_message_def)
  moreover have "steady ?es" using bs(2) by auto
  ultimately have "deliver toy_identity (replicate (length [Ping, Pong]) (False, \<lambda>_. Ok ())) (reader_on ?es) = [Ping, Pong]"
    using bs(1) by (intro channel_delivers[where bs = bs and c' = c and r = "[]"] toy_tags16) (simp_all add: reader_on_def)
  then show ?thesis by (intro exI[of _ ?es]) (simp add: numeral_2_eq_2)
qed

lemma whole_sublist: "sublist xs ys \<Longrightarrow> length ys \<le> length xs \<Longrightarrow> xs = ys"
  by (auto simp: sublist_def)

theorem channel_in_order_witness:
  "\<exists>bs. tags_authentic toy_identity (replicate 32 5) [Ping] bs
     \<and> deliver toy_identity [(False, \<lambda>_. Ok ())] (reader_on [Got bs]) = [Ping]
     \<and> subseq (deliver toy_identity [(False, \<lambda>_. Ok ())] (reader_on [Got bs])) [Ping]"
proof -
  obtain bs c where bs: "write_all toy_identity (replicate 32 5) 0 [Ping] = (Ok bs, c)"
    by (simp add: write_framed_message_def Message_serialize_def message_parts_def checked_add_def)
  let ?f = "[2, 0, 0, 0, 0] :: bytes"
  have ping: "Message_serialize Ping = Ok ?f" by code_simp
  have b: "bs = le64 0 @ ?f @ compute_frame_hmac toy_identity (replicate 32 5) 0 ?f"
    using bs ping by (auto simp: write_framed_message_def Let_def sbind_Ok_iff checked_add_def)
  have len: "length bs = 29" using toy_tags16 by (simp add: b compute_frame_hmac_def tags16_def constants)
  have auth: "tags_authentic toy_identity (replicate 32 5) [Ping] bs"
    unfolding tags_authentic_def
  proof (intro allI impI)
    fix c f tag
    assume a: "is_frame f" "length tag = HMAC_TAG_SIZE" "sublist (le64 c @ f @ tag) bs"
    obtain t p where f: "f = t # le32 (of_nat (length p)) @ p" using a(1) by (auto simp: is_frame_def)
    then have whole: "le64 c @ f @ tag = bs" using whole_sublist[OF a(3)] a(2) len by (simp add: constants)
    have "length (le64 c @ f @ tag) = 29" unfolding whole by (rule len)
    then have "f = take 5 (f @ tag)" using a(2) by (simp add: constants)
    also have eq: "le64 c = le64 0 \<and> f @ tag = ?f @ compute_frame_hmac toy_identity (replicate 32 5) 0 ?f"
      using whole unfolding b by simp
    then have "take 5 (f @ tag) = ?f" by (simp only: append_Cons append_Nil) simp
    finally have "f = ?f" .
    moreover have "c = 0" using eq by (metis word_le_roundtrip(3))
    ultimately have "c = 0" "f = ?f" by simp_all
    then show "unat c < length [Ping] \<and> Message_serialize ([Ping] ! unat c) = Ok f" using ping by simp
  qed
  then have "subseq (deliver toy_identity [(False, \<lambda>_. Ok ())] (reader_on [Got bs])) [Ping]"
    by (intro channel_in_order) (simp_all add: reader_on_def wf_message_def)
  moreover have "deliver toy_identity (replicate (length [Ping]) (False, \<lambda>_. Ok ())) (reader_on [Got bs]) = [Ping]"
  proof (rule deliver_steady[where bs = bs and c' = c and r = "[]"])
    show "list_all sendable [Ping]" by (simp add: sendable_iff wf_message_def)
    show "steady (fst (rs_wire (reader_on [Got bs])))" using len by (auto simp: reader_on_def)
  qed (use bs toy_tags16 in \<open>simp_all add: reader_on_def\<close>)
  ultimately show ?thesis using auth by (intro exI[of _ bs]) simp
qed

end
