(* ===== verification/Spec2Isabelle.thy ===== *)
theory Spec2Isabelle
  imports Jet_Arith Miner_Template Peer_Channel
begin

text \<open>
  A verification development for the exfer node, a proof-of-work blockchain with unspent transaction
  outputs and a typed script language. File names below are relative to \<open>src/src/\<close>.

  \<^bold>\<open>The program.\<close> A node receives blocks and transactions from its peers. Frames arrive over an
  authenticated channel (\<open>network/peer.rs\<close>, \<open>network/protocol.rs\<close>) within a memory budget
  (\<open>network/frame_budget.rs\<close>). A transaction is checked against the set of unspent outputs
  (\<open>consensus/validation.rs\<close>, \<open>chain/state.rs\<close>), which runs the scripts of the outputs it spends
  (\<open>script/\<close>) and charges for the work (\<open>consensus/cost.rs\<close>); it then waits in the pool
  (\<open>mempool/mempool.rs\<close>). The miner (\<open>miner/miner.rs\<close>) assembles a block from the pool. A block is
  checked against its parent (difficulty, work, time), applied to the set atomically, and undone in a
  reorganisation; a sparse Merkle tree (\<open>chain/smt.rs\<close>) commits to the set in every header.

  \<^bold>\<open>Conventions.\<close> Bytes are 8-bit words, machine integers are words of their width, and sizes and
  128-bit sums that cannot reach their width are natural numbers with the checks of the code written
  out. A fallible function returns \<open>Err\<close> or \<open>Ok\<close> with the constructors of the source's error enum; an
  operation that mutates a state returns the result together with the state it leaves, also on
  failure (\<open>run\<close>, \<open>sbind\<close>). Panics and overflow aborts of the source are values: \<open>None\<close> or the
  constructor \<open>Panicked\<close>. Error payloads that are free text keep their fixed part.

  \<^bold>\<open>Parameters.\<close> SHA-256, Ed25519, Argon2id (record \<open>crypto\<close>) and signing, X25519 and HMAC (record
  \<open>identity_lib\<close>) belong to third-party packages. Facts about them are named hypotheses: digests have
  32 bytes (\<open>digest32\<close>), tags have at least 16 (\<open>tags16\<close>), signatures of a proper key verify
  (\<open>proper_key\<close>), both sides get one shared secret (\<open>shared_secret_agrees\<close>), and tags
  (\<open>tags_authentic\<close>) and the one signature a handshake receives (\<open>unforged\<close>) are not forged. Both
  forgery hypotheses speak only of bytes that arrived in the run at hand. Statements about commitments carry no hypothesis on collisions: they name the
  two strings that would collide; only undoing assumes that the outpoints in play have distinct tree
  keys (\<open>no_collision\<close>). The instances \<open>toy_crypto\<close>, \<open>toy_identity\<close> and \<open>strict_identity\<close> (whose
  signatures are bound to the message) show that the hypotheses can hold and let the definitions be evaluated. The memory layout of values, which the
  interpreter charges for, is a parameter of the \<open>settings\<close> too.

  \<^bold>\<open>Theories.\<close>
  \<^item> \<open>Prelude\<close>: results, little- and big-endian integers, slices, checked and saturating arithmetic,
    and the contract of a byte codec (locales \<open>codec\<close>, \<open>codec_min\<close>) with its counted-list client.
  \<^item> \<open>Primitives\<close>, \<open>Transactions\<close>, \<open>Blocks\<close>: \<open>types/\<close>. Constants, domain-separated hashes, the Merkle
    root, amounts; the wire formats, interpreted as codecs, so that decoding is canonical; what
    signature messages, transaction ids and Merkle roots commit to.
  \<^item> \<open>Script_Ast\<close>, \<open>Script_Serialize\<close>: types, values and programs of \<open>script/types.rs\<close>, \<open>value.rs\<close>,
    \<open>ast.rs\<close>, \<open>serialize.rs\<close>; canonical program bytes and the exact meaning of the structural check.
  \<^item> \<open>Bytes256\<close>, \<open>Jets\<close>, \<open>Jet_Arith\<close>: 256-bit numbers as byte arrays and the native operations of
    \<open>script/jets/\<close>; the limb loops and the two bit-serial divisions (one locale, \<open>sub_cmp\<close>, for the
    jets and for the difficulty code) compute their arithmetic meaning.
  \<^item> \<open>Script_Typecheck\<close>, \<open>Script_Eval\<close>, \<open>Script_Meaning\<close>, \<open>Script_Cost\<close>: \<open>typecheck.rs\<close>, \<open>eval.rs\<close>,
    \<open>cost.rs\<close>. A big-step meaning without resources; the interpreter agrees with it whenever its
    budget suffices; its witness is canonical and cannot be padded; the reported types of constants
    and of all jets but the list access are those of their results; the static cell cost suffices for programs without list folds.
  \<^item> \<open>Reward\<close>, \<open>Difficulty\<close>: \<open>consensus/reward.rs\<close>, \<open>difficulty.rs\<close>, \<open>pow.rs\<close>, \<open>chain/fork_choice.rs\<close>.
    Rewards never rise and never overflow; retargeting is exact; the overlay of unsaved headers gives
    the same difficulty; a child is always the better tip.
  \<^item> \<open>Smt\<close>, \<open>Smt_Tree\<close>, \<open>Smt_Refine\<close>, \<open>Smt_Root\<close>: the arena of \<open>chain/smt.rs\<close>, the tree it stands for,
    and the refinement: the arena implements a finite map (locale \<open>authenticated_map\<close>) whose root is
    that of the full tree of depth 256 and binds the map.
  \<^item> \<open>Utxo_State\<close>, \<open>Utxo_Undo\<close>, \<open>Utxo_Query\<close>: \<open>chain/state.rs\<close>. The set, its script index and its
    tree agree; undo inverts application, also of a half-applied transaction; the paged query lists
    every entry once.
  \<^item> \<open>Tx_Cost\<close>, \<open>Tx_Validation\<close>, \<open>Tx_Rules\<close>, \<open>Script_Admission\<close>: \<open>consensus/cost.rs\<close> and the first half
    of \<open>consensus/validation.rs\<close>. Validation accepts exactly the transactions that satisfy the
    declarative \<open>valid_spend\<close>; an admitted script type checks and runs to an end without meeting a
    hidden or missing node, an unimplemented jet or the recursion limit.
  \<^item> \<open>Block_Validation\<close>, \<open>Block_Rules\<close>, \<open>Block_Apply\<close>, \<open>Block_Undo\<close>: the second half. Header rules; the
    three ways to apply a block agree; the value of the set is the sum of the rewards on every chain
    of accepted blocks; a failed application and an undone block leave the set as it was, for blocks
    whose outputs are not already in the set (\<open>block_ready\<close>; \<open>stale_coinbase_lost\<close> shows why).
  \<^item> \<open>Mempool\<close>, \<open>Mempool_Rules\<close>: the pool with its four indexes; an invariant kept by every history,
    admission that returns and evicts the lowest, greedy selection, the pool after a block.
  \<^item> \<open>Miner\<close>, \<open>Miner_Template\<close>: the template the miner builds is accepted by the validator; the nonce
    search is sound and ends once cancelled.
  \<^item> \<open>Protocol\<close>, \<open>Frame_Budget\<close>, \<open>Peer\<close>, \<open>Peer_Channel\<close>: \<open>network/protocol.rs\<close>, \<open>frame_budget.rs\<close>,
    \<open>peer.rs\<close>. The message codec (list payloads through the locale \<open>fixed_width\<close>); the lock-free
    budget under every schedule of atomic steps; completion and agreement of the handshake; the
    channel delivers what was written, in order, and nothing else.

  \<^bold>\<open>Loops and bounds.\<close> Loops over data are structural or come with a measure. Loops that end only for
  a reason outside their text are \<open>partial_function (option)\<close>: walks in the tree arena (they return on
  every well-formed tree), eviction (returns on every consistent pool), the nonce search and the pause
  (return once cancelled). The interpreter recurses with the depth limit of the code as its fuel, and
  running out is the error the code returns. Arena indices are 32 bits; the theorems on the tree
  assume room for the nodes an operation may add. The frame budget theorem asks for caps below the
  largest machine integer, because the code's additions saturate there.

  \<^bold>\<open>Not modelled.\<close> The sync tasks and tip validation (\<open>network/sync.rs\<close>, \<open>tip_validation.rs\<close>), the
  writer task of \<open>peer.rs\<close>, the event bus, the RPC servers and \<open>main.rs\<close> are asynchronous input and
  output over tokio, locks, timers and HTTP; what they decide is in the components above.
  \<open>chain/storage.rs\<close> and \<open>chain/open.rs\<close> are calls into RocksDB; header lookups are parameters here.
  The wallet encrypts key files with third-party ciphers. The covenant templates assemble programs
  for which the general script theorems hold; \<open>genesis.rs\<close> is data.
\<close>

end
